(* ===== verification/Prelude.thy ===== *)
theory Prelude
  imports Main "HOL-Library.Word"
begin

text \<open>
  The vocabulary the component theories share: bytes, Go's error values and runtime panics,
  slicing, Go's fixed-width integer conversions, big-endian integers
  (\<^verbatim>\<open>encoding/binary\<close>) and \<^verbatim>\<open>sort.Search\<close>.

  Conventions.
  \<^item> A \<^verbatim>\<open>[]byte\<close> and a Go \<^verbatim>\<open>string\<close> are byte lists; where the code tells a nil slice from an
    empty one the model has \<open>bytes option\<close>.  Capacities are not modelled: a reslice is
    bounded by the length.
  \<^item> \<^verbatim>\<open>uint8/16/32/64\<close> are words.  \<^verbatim>\<open>int64\<close> and \<^verbatim>\<open>int\<close> are HOL integers; the conversions that
    narrow a value (\<^verbatim>\<open>int32(x)\<close>, \<^verbatim>\<open>int16(x)\<close>, \<^verbatim>\<open>int64(u)\<close>) are written out with their wrap-around.
  \<^item> A fallible operation returns \<open>err + 'a\<close>.  \<open>Inl GoPanic\<close> is not an error value of the
    program but the runtime panic that an out-of-range index or slice raises.
\<close>

section \<open>Bytes, errors, results\<close>

type_synonym byte = "8 word"
type_synonym bytes = "byte list"

datatype err =
    GoPanic
  | EOF
  | IOError
  | ErrCorruptRecord
  | ErrCorruptFrameHeader
  | ErrSegmentUnreadable
  | ErrBlockFormat
  | ErrBlockTableFormat
  | ErrFormat
  | ErrCorrupt
  | ErrMessageSetRefused
  | ErrEntryNotFound
  | ErrSegmentClosed
  | ErrSegmentReplaced
  | ErrSegmentExists
  | ErrSegmentNotFound
  | ErrCommitLogReadonly
  | ErrCommitLogDeleted
  | ErrCommitLogClosed
  | ErrInvalidOptions
  | ErrTimestampBeforeLog
  | ErrUnknownLeaderEpoch
  | ErrIndexCorrupt
  | ErrInvalidStringLength
  | ErrInvalidByteSliceLength
  | ErrDecompress
  | ErrOther

type_synonym 'a result = "err + 'a"

named_theorems result_simps \<open>rewriting of chained results\<close>
named_theorems bytes_simps \<open>lengths and pieces of encoded byte strings\<close>
named_theorems codec_simps \<open>decoding what was encoded\<close>

text \<open>Sequencing of fallible operations: the first error is the result.\<close>

fun and_then :: "'e + 'a \<Rightarrow> ('a \<Rightarrow> 'e + 'b) \<Rightarrow> 'e + 'b" where
  "and_then (Inl e) f = Inl e"
| "and_then (Inr x) f = f x"

lemma and_then_Inr_iff [result_simps]:
  "and_then r f = Inr y \<longleftrightarrow> (\<exists>x. r = Inr x \<and> f x = Inr y)"
  by (cases r) auto

lemma and_then_Inl_iff [result_simps]:
  "and_then r f = Inl e \<longleftrightarrow> r = Inl e \<or> (\<exists>x. r = Inr x \<and> f x = Inl e)"
  by (cases r) auto

lemma and_then_cong [fundef_cong]:
  "r = r' \<Longrightarrow> (\<And>x. r' = Inr x \<Longrightarrow> f x = g x) \<Longrightarrow> and_then r f = and_then r' g"
  by (cases r') auto

lemma and_then_assoc: "and_then (and_then r f) g = and_then r (\<lambda>x. and_then (f x) g)"
  by (cases r) auto

text \<open>A loop body that may fail, run over a list with a state.\<close>

fun fold_result :: "('a \<Rightarrow> 's \<Rightarrow> 'e + 's) \<Rightarrow> 'a list \<Rightarrow> 's \<Rightarrow> 'e + 's" where
  "fold_result f [] s = Inr s"
| "fold_result f (x # xs) s = and_then (f x s) (fold_result f xs)"

lemma fold_result_append:
  "fold_result f (xs @ ys) s = and_then (fold_result f xs s) (fold_result f ys)"
proof (induction xs arbitrary: s)
  case (Cons x xs)
  then have "fold_result f (xs @ ys) = (\<lambda>t. and_then (fold_result f xs t) (fold_result f ys))"
    by (intro ext)
  then show ?case by (simp add: and_then_assoc)
qed simp

section \<open>Slices\<close>

text \<open>\<^verbatim>\<open>b[lo:hi]\<close> and \<^verbatim>\<open>b[lo:]\<close>.\<close>

definition go_slice :: "'a list \<Rightarrow> int \<Rightarrow> int \<Rightarrow> 'a list result" where
  "go_slice b lo hi =
     (if 0 \<le> lo \<and> lo \<le> hi \<and> hi \<le> int (length b)
      then Inr (take (nat (hi - lo)) (drop (nat lo) b)) else Inl GoPanic)"

definition go_from :: "'a list \<Rightarrow> int \<Rightarrow> 'a list result" where
  "go_from b lo = go_slice b lo (int (length b))"

definition go_index :: "'a list \<Rightarrow> int \<Rightarrow> 'a result" where
  "go_index b i = (if 0 \<le> i \<and> i < int (length b) then Inr (b ! nat i) else Inl GoPanic)"

text \<open>A stretch of bytes addressed by natural numbers, for statements about layouts.\<close>

definition sub :: "'a list \<Rightarrow> nat \<Rightarrow> nat \<Rightarrow> 'a list" where
  "sub b off n = take n (drop off b)"

lemma length_sub [simp]: "length (sub b off n) = min n (length b - off)"
  by (simp add: sub_def)

lemma sub_append_left: "off + n \<le> length a \<Longrightarrow> sub (a @ b) off n = sub a off n"
  by (simp add: sub_def)

lemma sub_append_right: "length a \<le> off \<Longrightarrow> sub (a @ b) off n = sub b (off - length a) n"
  by (simp add: sub_def)

lemma sub_append_exact: "off = length a \<Longrightarrow> n = length b \<Longrightarrow> sub (a @ b @ c) off n = b"
  by (simp add: sub_def)

lemma sub_0_all [simp]: "sub b 0 (length b) = b"
  by (simp add: sub_def)

lemma sub_zero_take: "sub b 0 n = take n b"
  by (simp add: sub_def)

lemma sub_sub: "off' + n' \<le> n \<Longrightarrow> sub (sub b off n) off' n' = sub b (off + off') n'"
  by (simp add: sub_def drop_take min_absorb1 add.commute)

lemma go_slice_Inr:
  "go_slice b lo hi = Inr c \<longleftrightarrow>
     0 \<le> lo \<and> lo \<le> hi \<and> hi \<le> int (length b) \<and> c = sub b (nat lo) (nat (hi - lo))"
  by (auto simp: go_slice_def sub_def)

lemma go_slice_sub:
  "lo + n \<le> length b \<Longrightarrow> go_slice b (int lo) (int (lo + n)) = Inr (sub b lo n)"
  by (auto simp: go_slice_def sub_def)

lemma go_from_append [simp]: "go_from (a @ b) (int (length a)) = Inr b"
  by (simp add: go_from_def go_slice_def)

lemma go_from_at: "m = a @ b \<Longrightarrow> n = int (length a) \<Longrightarrow> go_from m n = Inr b"
  by simp

lemma go_slice_at:
  "m = a @ b @ c \<Longrightarrow> lo = int (length a) \<Longrightarrow> hi = int (length a) + int (length b) \<Longrightarrow>
     go_slice m lo hi = Inr b"
  by (simp add: go_slice_def)

lemma go_slice_Inl: "go_slice b lo hi = Inl e \<Longrightarrow> e = GoPanic"
  by (auto simp: go_slice_def split: if_splits)

text \<open>
  Writing into a slice: \<^verbatim>\<open>binary.PutUintN(b[off:], ..)\<close> needs room for all the bytes,
  \<^verbatim>\<open>copy(b[off:], d)\<close> writes as many as there is room for.
\<close>

definition go_put :: "'a list \<Rightarrow> int \<Rightarrow> 'a list \<Rightarrow> 'a list result" where
  "go_put b off d =
     (if 0 \<le> off \<and> off + int (length d) \<le> int (length b)
      then Inr (take (nat off) b @ d @ drop (nat off + length d) b) else Inl GoPanic)"

definition go_copy :: "'a list \<Rightarrow> int \<Rightarrow> 'a list \<Rightarrow> 'a list result" where
  "go_copy b off d =
     (if 0 \<le> off \<and> off \<le> int (length b)
      then (let k = min (length d) (length b - nat off) in
        Inr (take (nat off) b @ take k d @ drop (nat off + k) b)) else Inl GoPanic)"

lemma go_copy_room:
  "0 \<le> off \<Longrightarrow> off + int (length d) \<le> int (length b) \<Longrightarrow> go_copy b off d = go_put b off d"
  by (auto simp: go_copy_def go_put_def Let_def min_def nat_le_iff)

section \<open>Fixed-width integers\<close>

text \<open>
  \<^verbatim>\<open>int64(x)\<close>, \<^verbatim>\<open>int32(x)\<close>, \<^verbatim>\<open>int16(x)\<close>: the low bits of \<open>x\<close>, read in two's complement.
\<close>

definition i64 :: "int \<Rightarrow> int" where "i64 x = signed_take_bit 63 x"
definition i32 :: "int \<Rightarrow> int" where "i32 x = signed_take_bit 31 x"

abbreviation in_i64 :: "int \<Rightarrow> bool" where "in_i64 x \<equiv> - (2 ^ 63) \<le> x \<and> x < 2 ^ 63"
abbreviation in_i32 :: "int \<Rightarrow> bool" where "in_i32 x \<equiv> - (2 ^ 31) \<le> x \<and> x < 2 ^ 31"

lemma i64_id: "in_i64 x \<Longrightarrow> i64 x = x"
  unfolding i64_def by (rule signed_take_bit_int_eq_self) auto

lemma i32_id: "in_i32 x \<Longrightarrow> i32 x = x"
  unfolding i32_def by (rule signed_take_bit_int_eq_self) auto

lemma i64_range: "in_i64 (i64 x)"
  unfolding i64_def
  by (intro conjI signed_take_bit_int_greater_eq_minus_exp signed_take_bit_int_less_exp)

lemma i32_range: "in_i32 (i32 x)"
  unfolding i32_def
  by (intro conjI signed_take_bit_int_greater_eq_minus_exp signed_take_bit_int_less_exp)

lemma sint_word_of_int_64: "sint (word_of_int x :: 64 word) = i64 x"
  by (simp add: i64_def sint_sbintrunc')

lemma sint_word_of_int_32: "sint (word_of_int x :: 32 word) = i32 x"
  by (simp add: i32_def sint_sbintrunc')

lemma sint_range_64: "in_i64 (sint (w :: 64 word))"
  using sint_greater_eq [of w] sint_less [of w] by simp

lemma sint_range_32: "in_i32 (sint (w :: 32 word))"
  using sint_greater_eq [of w] sint_less [of w] by simp

lemma word_of_int_i64: "(word_of_int (i64 x) :: 64 word) = word_of_int x"
  by (simp flip: sint_word_of_int_64)

section \<open>Big-endian integers\<close>

text \<open>
  \<^verbatim>\<open>binary.BigEndian\<close>: \<open>be n x\<close> is the \<open>n\<close>-byte big-endian form of \<open>x\<close> (the low \<open>8 n\<close> bits of it),
  \<open>unbe\<close> the value of a byte string.
\<close>

fun be :: "nat \<Rightarrow> nat \<Rightarrow> bytes" where
  "be 0 x = []"
| "be (Suc n) x = word_of_nat (x div 256 ^ n) # be n x"

fun unbe :: "bytes \<Rightarrow> nat" where
  "unbe [] = 0"
| "unbe (b # bs) = unat b * 256 ^ length bs + unbe bs"

lemma length_be [simp, bytes_simps]: "length (be n x) = n"
  by (induction n) auto

lemma unat_byte_le: "unat (b :: byte) \<le> 255"
  using unsigned_less [where ?'a = nat, of b] by simp

lemma unbe_less: "unbe bs < 256 ^ length bs"
proof (induction bs)
  case Nil
  then show ?case by simp
next
  case (Cons b bs)
  have "unat b \<le> 255" by (rule unat_byte_le)
  then have "unat b * 256 ^ length bs \<le> 255 * 256 ^ length bs" by (rule mult_le_mono1)
  then have "unat b * 256 ^ length bs + unbe bs < 255 * 256 ^ length bs + 256 ^ length bs"
    using Cons by (rule add_le_less_mono)
  then show ?case by simp
qed

lemma unbe_be: "unbe (be n x) = x mod 256 ^ n"
proof (induction n)
  case 0
  then show ?case by simp
next
  case (Suc n)
  have "unat (word_of_nat (x div 256 ^ n) :: byte) = x div 256 ^ n mod 256"
    by (simp add: unat_of_nat)
  moreover have "x mod 256 ^ Suc n = 256 ^ n * (x div 256 ^ n mod 256) + x mod 256 ^ n"
    using mod_mult2_eq [of x "256 ^ n" 256] by (simp add: mult.commute)
  ultimately show ?case using Suc by simp
qed

lemma be_mod: "be n (x mod 256 ^ n) = be n x"
proof -
  have gen: "be n (x mod 256 ^ m) = be n x" if "n \<le> m" for m
    using that
  proof (induction n)
    case 0
    then show ?case by simp
  next
    case (Suc n)
    have "x mod 256 ^ m div 256 ^ n = x div 256 ^ n mod 256 ^ (m - n)"
    proof -
      have "256 ^ m = (256 :: nat) ^ n * 256 ^ (m - n)"
        using Suc.prems by (simp flip: power_add)
      then show ?thesis using mod_mult2_eq [of x "256 ^ n" "256 ^ (m - n)"] by simp
    qed
    moreover have "(word_of_nat (x div 256 ^ n mod 256 ^ (m - n)) :: byte) = word_of_nat (x div 256 ^ n)"
    proof -
      from Suc.prems obtain k where "m - n = Suc k" by (metis Suc_diff_Suc Suc_le_lessD)
      then have "(256 :: nat) dvd 256 ^ (m - n)" by simp
      then have "x div 256 ^ n mod 256 ^ (m - n) mod 256 = x div 256 ^ n mod 256"
        by (rule mod_mod_cancel)
      then show ?thesis
        by (simp add: word_of_nat_eq_iff take_bit_eq_mod)
    qed
    ultimately show ?case using Suc by simp
  qed
  then show ?thesis by simp
qed

lemma be_unbe: "length bs = n \<Longrightarrow> be n (unbe bs) = bs"
proof (induction bs arbitrary: n)
  case Nil
  then show ?case by simp
next
  case (Cons b bs)
  have lt: "unbe bs < 256 ^ length bs" by (rule unbe_less)
  then have "(unat b * 256 ^ length bs + unbe bs) div 256 ^ length bs = unat b"
    by simp
  moreover have "be (length bs) (unat b * 256 ^ length bs + unbe bs) = be (length bs) (unbe bs)"
    using be_mod [of "length bs" "unat b * 256 ^ length bs + unbe bs"] lt by simp
  ultimately show ?case using Cons by auto
qed

text \<open>The fixed-width readers and writers of the package.\<close>

definition be16 :: "16 word \<Rightarrow> bytes" where "be16 w = be 2 (unat w)"
definition be32 :: "32 word \<Rightarrow> bytes" where "be32 w = be 4 (unat w)"
definition be64 :: "64 word \<Rightarrow> bytes" where "be64 w = be 8 (unat w)"

definition uint16_of :: "bytes \<Rightarrow> 16 word result" where
  "uint16_of b = (if length b < 2 then Inl GoPanic else Inr (word_of_nat (unbe (take 2 b))))"
definition uint32_of :: "bytes \<Rightarrow> 32 word result" where
  "uint32_of b = (if length b < 4 then Inl GoPanic else Inr (word_of_nat (unbe (take 4 b))))"
definition uint64_of :: "bytes \<Rightarrow> 64 word result" where
  "uint64_of b = (if length b < 8 then Inl GoPanic else Inr (word_of_nat (unbe (take 8 b))))"

lemma length_be_fixed [simp, bytes_simps]:
  "length (be16 a) = 2" "length (be32 b) = 4" "length (be64 c) = 8"
  by (simp_all add: be16_def be32_def be64_def)

lemma word_of_nat_unbe_be:
  "256 ^ n = (2 :: nat) ^ LENGTH('a::len) \<Longrightarrow>
     (word_of_nat (unbe (be n (unat w))) :: 'a word) = w"
  by (simp add: unbe_be)

lemma uint_of_be [simp, codec_simps]:
  "uint16_of (be16 a @ r) = Inr a"
  "uint32_of (be32 b @ r) = Inr b"
  "uint64_of (be64 c @ r) = Inr c"
  by (simp_all add: uint16_of_def uint32_of_def uint64_of_def be16_def be32_def be64_def
      word_of_nat_unbe_be)

lemma uint_of_be_nil [simp, codec_simps]:
  "uint16_of (be16 a) = Inr a"
  "uint32_of (be32 b) = Inr b"
  "uint64_of (be64 c) = Inr c"
  using uint_of_be [where r = "[]"] by simp_all

lemma be32_of_uint32:
  "length b = 4 \<Longrightarrow> be32 (word_of_nat (unbe b)) = b"
  using unbe_less [of b] by (simp add: be32_def unat_of_nat be_unbe)

lemma be64_of_uint64:
  "length b = 8 \<Longrightarrow> be64 (word_of_nat (unbe b)) = b"
  using unbe_less [of b] by (simp add: be64_def unat_of_nat be_unbe)

lemma be_fixed_inject [simp]:
  "be16 a = be16 a' \<longleftrightarrow> a = a'" "be32 b = be32 b' \<longleftrightarrow> b = b'" "be64 c = be64 c' \<longleftrightarrow> c = c'"
  by (auto dest: arg_cong [where f = uint16_of] arg_cong [where f = uint32_of]
      arg_cong [where f = uint64_of])

lemma be_fixed_not_Nil [simp]: "be16 a \<noteq> []" "be32 b \<noteq> []" "be64 c \<noteq> []"
  using length_be_fixed(1) [of a] length_be_fixed(2) [of b] length_be_fixed(3) [of c] by force+

section \<open>sort.Search\<close>

text \<open>
  The binary search of the standard library, as its loop runs: \<^verbatim>\<open>i, j := 0, n; for i < j { h :=
  (i+j)/2; if !f(h) { i = h+1 } else { j = h } }; return i\<close>.
\<close>

function search_loop :: "(nat \<Rightarrow> bool) \<Rightarrow> nat \<Rightarrow> nat \<Rightarrow> nat" where
  "search_loop f i j =
     (if i < j then (let h = (i + j) div 2 in
        if \<not> f h then search_loop f (h + 1) j else search_loop f i h)
      else i)"
  by pat_completeness auto
termination
  by (relation "measure (\<lambda>(f, i, j). j - i)") auto

declare search_loop.simps [simp del]

definition sort_search :: "nat \<Rightarrow> (nat \<Rightarrow> bool) \<Rightarrow> nat" where
  "sort_search n f = search_loop f 0 n"

text \<open>
  What callers rely on: the answer is at most \<open>n\<close>, is a hit when it is below \<open>n\<close>, and its
  predecessor is a miss.  For a predicate that stays true once it is true this pins the answer
  down to the first hit.
\<close>

locale search_contract =
  fixes search :: "nat \<Rightarrow> (nat \<Rightarrow> bool) \<Rightarrow> nat"
  assumes search_le: "search n f \<le> n"
    and search_hit: "search n f < n \<Longrightarrow> f (search n f)"
    and search_miss: "0 < search n f \<Longrightarrow> \<not> f (search n f - 1)"
begin

lemma search_below:
  assumes mono: "\<And>i j. i \<le> j \<Longrightarrow> j < n \<Longrightarrow> f i \<Longrightarrow> f j" and "i < search n f"
  shows "\<not> f i"
proof
  assume "f i"
  have "search n f - 1 < n" using search_le [of n f] \<open>i < search n f\<close> by linarith
  with mono [of i "search n f - 1"] \<open>f i\<close> \<open>i < search n f\<close> have "f (search n f - 1)"
    by auto
  moreover have "\<not> f (search n f - 1)"
    using search_miss [of n f] \<open>i < search n f\<close> by simp
  ultimately show False by contradiction
qed

lemma search_above:
  assumes mono: "\<And>i j. i \<le> j \<Longrightarrow> j < n \<Longrightarrow> f i \<Longrightarrow> f j" and "search n f \<le> i" and "i < n"
  shows "f i"
  using search_hit [of n f] mono [of "search n f" i] assms(2,3) by auto

lemma search_eqI:
  assumes mono: "\<And>i j. i \<le> j \<Longrightarrow> j < n \<Longrightarrow> f i \<Longrightarrow> f j"
    and k: "k \<le> n" "k < n \<Longrightarrow> f k" "\<And>i. i < k \<Longrightarrow> \<not> f i"
  shows "search n f = k"
proof (rule linorder_cases [of "search n f" k])
  assume "search n f < k"
  with k(1) search_hit [of n f] have "f (search n f)" by simp
  with k(3) [OF \<open>search n f < k\<close>] show ?thesis by blast
next
  assume "k < search n f"
  with search_le [of n f] have "k < n" by linarith
  with k(2) have "f k" by blast
  moreover have "\<not> f k" by (rule search_below [OF _ \<open>k < search n f\<close>]) (rule mono)
  ultimately show ?thesis by contradiction
qed simp

text \<open>The list form: first element of a sorted run that satisfies the predicate.\<close>

lemma search_list_first:
  assumes mono: "\<And>i j. i \<le> j \<Longrightarrow> j < length xs \<Longrightarrow> P (xs ! i) \<Longrightarrow> P (xs ! j)"
  shows "search (length xs) (\<lambda>i. P (xs ! i)) = length (takeWhile (\<lambda>x. \<not> P x) xs)"
proof (rule search_eqI)
  show "P (xs ! i) \<Longrightarrow> P (xs ! j)" if "i \<le> j" "j < length xs" for i j
    using mono that by blast
  show "length (takeWhile (\<lambda>x. \<not> P x) xs) \<le> length xs"
    by (rule length_takeWhile_le)
  show "P (xs ! length (takeWhile (\<lambda>x. \<not> P x) xs))"
    if "length (takeWhile (\<lambda>x. \<not> P x) xs) < length xs"
    using nth_length_takeWhile [OF that] by simp
  show "\<not> P (xs ! i)" if "i < length (takeWhile (\<lambda>x. \<not> P x) xs)" for i
    using nth_mem [OF that] takeWhile_nth [OF that] by (auto dest!: set_takeWhileD)
qed

end

lemma search_loop_bounds: "i \<le> j \<Longrightarrow> i \<le> search_loop f i j \<and> search_loop f i j \<le> j"
proof (induction f i j rule: search_loop.induct)
  case (1 f i j)
  show ?case
  proof (cases "i < j")
    case True
    define h where "h = (i + j) div 2"
    have h: "i \<le> h" "h < j" using True by (auto simp: h_def)
    show ?thesis
    proof (cases "f h")
      case f: True
      with "1.IH"(2) [OF True h_def] h have "i \<le> search_loop f i h \<and> search_loop f i h \<le> h"
        by auto
      with True f h show ?thesis
        by (subst (1 2) search_loop.simps) (simp add: h_def [symmetric] Let_def)
    next
      case f: False
      with "1.IH"(1) [OF True h_def] h
      have "h + 1 \<le> search_loop f (h + 1) j \<and> search_loop f (h + 1) j \<le> j"
        by auto
      with True f h show ?thesis
        by (subst (1 2) search_loop.simps) (simp add: h_def [symmetric] Let_def)
    qed
  next
    case False
    with "1.prems" show ?thesis by (simp add: search_loop.simps)
  qed
qed

lemma search_loop_spec:
  assumes "i \<le> j" and "0 < i \<Longrightarrow> \<not> f (i - 1)" and "j < n \<Longrightarrow> f j" and "j \<le> n"
  shows "(search_loop f i j < n \<longrightarrow> f (search_loop f i j)) \<and>
         (0 < search_loop f i j \<longrightarrow> \<not> f (search_loop f i j - 1))"
  using assms
proof (induction f i j rule: search_loop.induct)
  case (1 f i j)
  show ?case
  proof (cases "i < j")
    case True
    define h where "h = (i + j) div 2"
    have h: "i \<le> h" "h < j" using True by (auto simp: h_def)
    show ?thesis
    proof (cases "f h")
      case f: True
      have step: "search_loop f i j = search_loop f i h"
        using True f by (subst search_loop.simps) (simp add: h_def [symmetric] Let_def)
      show ?thesis
        unfolding step using "1.IH"(2) [OF True h_def] f h "1.prems" by auto
    next
      case f: False
      have step: "search_loop f i j = search_loop f (h + 1) j"
        using True f by (subst search_loop.simps) (simp add: h_def [symmetric] Let_def)
      show ?thesis
        unfolding step using "1.IH"(1) [OF True h_def] f h "1.prems" by auto
    qed
  next
    case False
    with "1.prems" have "i = j" by simp
    with "1.prems" show ?thesis by (simp add: search_loop.simps)
  qed
qed

interpretation gosort: search_contract sort_search
proof
  fix n f
  show "sort_search n f \<le> n"
    using search_loop_bounds [of 0 n f] by (simp add: sort_search_def)
  show "sort_search n f < n \<Longrightarrow> f (sort_search n f)"
    and "0 < sort_search n f \<Longrightarrow> \<not> f (sort_search n f - 1)"
    using search_loop_spec [of 0 n f n] by (auto simp: sort_search_def)
qed

text \<open>
  A search whose predicate reads something that may fail.  A failed probe counts as a hit and the
  error is kept; the caller looks at it after the search.
\<close>

function search_loop_err ::
  "(nat \<Rightarrow> bool result) \<Rightarrow> nat \<Rightarrow> nat \<Rightarrow> err option \<Rightarrow> nat \<times> err option" where
  "search_loop_err f i j serr =
     (if i < j then (let h = (i + j) div 2 in
        case f h of
          Inl e \<Rightarrow> search_loop_err f i h (Some e)
        | Inr b \<Rightarrow> if \<not> b then search_loop_err f (h + 1) j serr else search_loop_err f i h serr)
      else (i, serr))"
  by pat_completeness auto
termination
  by (relation "measure (\<lambda>(f, i, j, _). j - i)") auto

declare search_loop_err.simps [simp del]

lemma search_loop_err_ok:
  assumes "\<And>k. k < j \<Longrightarrow> f k = Inr (g k)"
  shows "search_loop_err f i j serr = (search_loop g i j, serr)"
  using assms
proof (induction f i j serr rule: search_loop_err.induct)
  case (1 f i j serr)
  show ?case
  proof (cases "i < j")
    case True
    define h where "h = (i + j) div 2"
    have h: "i \<le> h" "h < j" using True by (auto simp: h_def)
    then have fh: "f h = Inr (g h)" using "1.prems" by simp
    show ?thesis
    proof (cases "g h")
      case g: True
      have "search_loop_err f i h serr = (search_loop g i h, serr)"
        by (rule "1.IH"(3) [OF True h_def fh]) (use g h "1.prems" in auto)
      then show ?thesis using True g fh
        by (subst search_loop_err.simps, subst search_loop.simps) (simp add: h_def [symmetric] Let_def)
    next
      case g: False
      have "search_loop_err f (h + 1) j serr = (search_loop g (h + 1) j, serr)"
        by (rule "1.IH"(2) [OF True h_def fh]) (use g h "1.prems" in auto)
      then show ?thesis using True g fh
        by (subst search_loop_err.simps, subst search_loop.simps) (simp add: h_def [symmetric] Let_def)
    qed
  next
    case False
    then show ?thesis by (simp add: search_loop_err.simps search_loop.simps)
  qed
qed

end
