(* ===== verification/Crc.thy ===== *)
theory Crc
  imports Prelude
begin

text \<open>
  The 32-bit checksum of \<^verbatim>\<open>hash/crc32\<close> as the package uses it: reflected, initial value and
  final complement all ones, one shift register step per bit.  The table of
  \<^verbatim>\<open>crc32.MakeTable\<close> is the eightfold step of every byte, which is what \<open>crc_byte\<close> computes.

  The result the frame formats rest on is \<open>crc_detects_window\<close>: two inputs that differ only inside
  a window of four consecutive bytes never share a checksum.
\<close>

unbundle bit_operations_syntax

definition Castagnoli :: "32 word" where "Castagnoli = 0x82F63B78"
definition IEEE :: "32 word" where "IEEE = 0xEDB88320"

definition crc_step :: "32 word \<Rightarrow> 32 word \<Rightarrow> 32 word" where
  "crc_step poly c = (if bit c 0 then drop_bit 1 c XOR poly else drop_bit 1 c)"

definition crc_byte :: "32 word \<Rightarrow> 32 word \<Rightarrow> byte \<Rightarrow> 32 word" where
  "crc_byte poly c b = (crc_step poly ^^ 8) (c XOR ucast b)"

definition crc_run :: "32 word \<Rightarrow> 32 word \<Rightarrow> bytes \<Rightarrow> 32 word" where
  "crc_run poly c bs = foldl (crc_byte poly) c bs"

definition crc32 :: "32 word \<Rightarrow> bytes \<Rightarrow> 32 word" where
  "crc32 poly bs = NOT (crc_run poly (NOT 0) bs)"

lemma crc_run_simps [simp]:
  "crc_run poly c [] = c"
  "crc_run poly c (b # bs) = crc_run poly (crc_byte poly c b) bs"
  by (simp_all add: crc_run_def)

lemma crc_run_append: "crc_run poly c (a @ b) = crc_run poly (crc_run poly c a) b"
  by (simp add: crc_run_def)

lemma xor_word_eq_0: "a XOR b = 0 \<longleftrightarrow> a = (b :: 'a::len word)"
  by (auto simp: bit_eq_iff bit_simps dest: bit_imp_le_length)

section \<open>The register is linear\<close>

lemma crc_step_xor: "crc_step poly (c XOR d) = crc_step poly c XOR crc_step poly d"
  by (auto simp: crc_step_def bit_eq_iff bit_simps)

lemma crc_steps_xor:
  "(crc_step poly ^^ n) (c XOR d) = (crc_step poly ^^ n) c XOR (crc_step poly ^^ n) d"
  by (induction n) (auto simp: crc_step_xor)

text \<open>The difference of two runs depends only on the difference of their inputs.\<close>

fun xor_bytes :: "bytes \<Rightarrow> bytes \<Rightarrow> bytes" where
  "xor_bytes (a # as) (b # bs) = (a XOR b) # xor_bytes as bs"
| "xor_bytes _ _ = []"

lemma length_xor_bytes [simp]: "length (xor_bytes a b) = min (length a) (length b)"
  by (induction a b rule: xor_bytes.induct) auto

lemma crc_run_xor:
  "length a = length b \<Longrightarrow>
     crc_run poly c a XOR crc_run poly d b = crc_run poly (c XOR d) (xor_bytes a b)"
proof (induction a b arbitrary: c d rule: list_induct2)
  case (Cons x xs y ys)
  have "crc_byte poly c x XOR crc_byte poly d y = crc_byte poly (c XOR d) (x XOR y)"
    by (simp add: crc_byte_def unsigned_xor_eq ac_simps flip: crc_steps_xor)
  with Cons show ?case by simp
qed simp

section \<open>Running the register backwards\<close>

text \<open>
  A generator polynomial with its top bit set makes the step reversible: bit 31 of the result
  tells which branch was taken.  A difference that has vanished can therefore be traced back,
  eight bits per byte, for as long as it has not filled the register.
\<close>

lemma crc_step_small:
  assumes "bit poly 31" and "k \<le> 31" and "\<And>i. k \<le> i \<Longrightarrow> \<not> bit (crc_step poly d) i"
  shows "d = push_bit 1 (crc_step poly d)"
proof -
  have "\<not> bit (crc_step poly d) 31" using assms by blast
  then have "\<not> bit d 0"
    using assms(1) by (auto simp: crc_step_def bit_simps dest: bit_imp_le_length split: if_splits)
  then have "crc_step poly d = drop_bit 1 d" by (simp add: crc_step_def)
  moreover have "push_bit 1 (drop_bit 1 d) = d"
  proof (rule bit_word_eqI)
    fix n assume "n < LENGTH(32)"
    then show "bit (push_bit 1 (drop_bit 1 d)) n = bit d n"
      using \<open>\<not> bit d 0\<close> by (cases n) (simp_all only: bit_push_bit_iff bit_drop_bit_eq o_def, auto)
  qed
  ultimately show ?thesis by simp
qed

lemma crc_steps_small:
  assumes "bit poly 31" and "k + n \<le> 32"
    and "\<And>i. k \<le> i \<Longrightarrow> \<not> bit ((crc_step poly ^^ n) d) i"
  shows "d = push_bit n ((crc_step poly ^^ n) d)"
  using assms(2,3)
proof (induction n arbitrary: k)
  case (Suc n)
  let ?e = "(crc_step poly ^^ n) d"
  have e: "?e = push_bit 1 (crc_step poly ?e)"
    by (rule crc_step_small [OF assms(1), of k]) (use Suc.prems in auto)
  have "\<not> bit ?e i" if "k + 1 \<le> i" for i
    using Suc.prems(2) [of "i - 1"] that by (subst e, simp only: bit_push_bit_iff) auto
  with Suc.IH [of "k + 1"] Suc.prems(1) have "d = push_bit n ?e" by simp
  with e show ?case by (simp add: push_bit_push_bit)
qed simp

text \<open>The little-endian value of at most four bytes.\<close>

fun le_value :: "bytes \<Rightarrow> 32 word" where
  "le_value [] = 0"
| "le_value (b # bs) = push_bit 8 (le_value bs) XOR ucast b"

lemma le_value_high: "8 * length bs \<le> i \<Longrightarrow> \<not> bit (le_value bs) i"
proof (induction bs arbitrary: i)
  case (Cons b bs)
  then have "\<not> bit (le_value bs) (i - 8)" by simp
  moreover have "\<not> bit (ucast b :: 32 word) i" 
    using Cons.prems by (auto simp: bit_simps dest: bit_imp_le_length)
  ultimately show ?case by (simp add: bit_simps)
qed simp

lemma crc_run_zero_iff:
  assumes "bit poly 31" and "length bs \<le> 4" and "crc_run poly d bs = 0"
  shows "d = le_value bs"
  using assms(2,3)
proof (induction bs arbitrary: d)
  case (Cons b bs)
  then have step: "crc_byte poly d b = le_value bs" by simp
  then have "d XOR ucast b = push_bit 8 (le_value bs)"
    using crc_steps_small [OF assms(1), of "8 * length bs" 8 "d XOR ucast b"]
      Cons.prems(1) le_value_high [of bs] by (simp add: crc_byte_def)
  moreover have "d = (d XOR ucast b) XOR ucast b" by (simp add: xor.assoc)
  ultimately show ?case by simp
qed simp

lemma le_value_zero:
  "length bs \<le> 4 \<Longrightarrow> le_value bs = 0 \<Longrightarrow> bs = replicate (length bs) 0"
proof (induction bs)
  case (Cons b bs)
  have bits: "\<not> bit (push_bit 8 (le_value bs) XOR ucast b) i" for i
    using Cons.prems(2) by simp
  have "b = 0"
  proof (rule bit_word_eqI)
    fix i assume "i < LENGTH(8)"
    then show "bit b i = bit (0 :: byte) i" using bits [of i] by (auto simp: bit_simps)
  qed
  moreover have "le_value bs = 0"
  proof (rule bit_word_eqI)
    fix i assume "i < LENGTH(32)"
    show "bit (le_value bs) i = bit (0 :: 32 word) i"
      using bits [of "i + 8"] le_value_high [of bs i] Cons.prems(1) \<open>b = 0\<close>
      by (cases "i + 8 < 32") (auto simp: bit_simps)
  qed
  ultimately show ?case using Cons by simp
qed simp

lemma xor_bytes_zero:
  "length a = length b \<Longrightarrow> xor_bytes a b = replicate n 0 \<Longrightarrow> a = b"
proof (induction a b arbitrary: n rule: list_induct2)
  case (Cons x xs y ys)
  then show ?case by (cases n) (auto simp: xor_word_eq_0)
qed simp

section \<open>Damage inside four consecutive bytes is always detected\<close>

lemma crc_byte_zero: "bit poly 31 \<Longrightarrow> crc_byte poly d 0 = 0 \<Longrightarrow> d = 0"
  using crc_steps_small [of poly 0 8 d] by (simp add: crc_byte_def)

lemma crc_run_zeros: "bit poly 31 \<Longrightarrow> crc_run poly d (replicate n 0) = 0 \<Longrightarrow> d = 0"
  by (induction n arbitrary: d) (auto dest: crc_byte_zero)

lemma xor_bytes_self: "xor_bytes a a = replicate (length a) 0"
  by (induction a) auto

lemma crc_run_inj:
  assumes "bit poly 31" and "crc_run poly c z = crc_run poly d z"
  shows "c = d"
  using crc_run_xor [of z z poly c d] assms crc_run_zeros [of poly "c XOR d" "length z"]
  by (simp add: xor_bytes_self xor_word_eq_0)

lemma crc_run_window:
  assumes "bit poly 31" and "length u = length v" and "length u \<le> 4"
    and "crc_run poly c u = crc_run poly c v"
  shows "u = v"
proof -
  have "crc_run poly 0 (xor_bytes u v) = 0"
    using crc_run_xor [OF assms(2), of poly c c] assms(4) by simp
  then have "le_value (xor_bytes u v) = 0"
    using crc_run_zero_iff [OF assms(1), of "xor_bytes u v" 0] assms(2,3) by simp
  then show ?thesis
    using le_value_zero [of "xor_bytes u v"] assms(2,3) by (auto intro: xor_bytes_zero)
qed

lemma crc_detects_window:
  assumes "bit poly 31" and "length u = length v" and "length u \<le> 4" and "u \<noteq> v"
  shows "crc32 poly (a @ u @ z) \<noteq> crc32 poly (a @ v @ z)"
proof
  assume "crc32 poly (a @ u @ z) = crc32 poly (a @ v @ z)"
  then have "crc_run poly (crc_run poly (crc_run poly (NOT 0) a) u) z =
             crc_run poly (crc_run poly (crc_run poly (NOT 0) a) v) z"
    by (simp add: crc32_def crc_run_append)
  from crc_run_window [OF assms(1-3) crc_run_inj [OF assms(1) this]] assms(4)
  show False by contradiction
qed

lemma polynomials_reversible [simp]: "bit Castagnoli 31" "bit IEEE 31"
  by (simp_all add: Castagnoli_def IEEE_def)

text \<open>The published check values of the two polynomials on the one-byte input \<^verbatim>\<open>a\<close>.\<close>

lemma crc32_check_ieee: "crc32 IEEE [0x61] = 0xE8B7BE43"
  by code_simp

lemma crc32_check_castagnoli: "crc32 Castagnoli [0x61] = 0xC1D04330"
  by code_simp

end
