(* ===== verification/Message.thy ===== *)
theory Message
  imports Crc "HOL-Library.AList" "HOL-Library.Multiset"
begin

text \<open>
  \<^verbatim>\<open>encoder.go\<close> and \<^verbatim>\<open>message.go\<close>: the two-pass packet encoder, the record payload it writes, and
  the accessors that read a payload back.

  A \<^verbatim>\<open>packetEncoder\<close> is the record of its methods; \<open>lenEncoder_ops\<close> and \<open>byteEncoder_ops\<close> are the two
  implementations, and \<open>Encode\<close> runs against either.  A Go map is the list of its entries in the order
  one \<^verbatim>\<open>range\<close> over it yields them: two ranges over one map may differ, so \<open>encode\<close> takes both orders.
  The contract the two encoders share is the locale \<open>packet_encoder\<close>; \<open>Encode\<close> is proved against it once.
\<close>

section \<open>The encoders\<close>

record crcField =
  StartOffset :: int

definition ReserveSize :: "crcField \<Rightarrow> int" where
  "ReserveSize f = 4"

definition SaveOffset :: "int \<Rightarrow> crcField \<Rightarrow> crcField" where
  "SaveOffset i f = f \<lparr>StartOffset := i\<rparr>"

definition Fill :: "crcField \<Rightarrow> int \<Rightarrow> bytes \<Rightarrow> bytes result" where
  "Fill f curOffset buf =
     and_then (go_slice buf (StartOffset f + 4) curOffset) (\<lambda>covered.
       go_put buf (StartOffset f) (be32 (crc32 Castagnoli covered)))"

record 'e packetEncoder =
  PutInt8 :: "byte \<Rightarrow> 'e \<Rightarrow> 'e result"
  PutInt16 :: "16 word \<Rightarrow> 'e \<Rightarrow> 'e result"
  PutBytes :: "bytes option \<Rightarrow> 'e \<Rightarrow> 'e result"
  PutString :: "bytes \<Rightarrow> 'e \<Rightarrow> 'e result"
  Push :: "crcField \<Rightarrow> 'e \<Rightarrow> 'e result"
  Pop :: "'e \<Rightarrow> 'e result"

definition MaxInt16 :: int where "MaxInt16 = 32767"
definition MaxInt32 :: int where "MaxInt32 = 2147483647"

text \<open>The length pass.\<close>

record lenEncoder =
  Length :: int

definition len_PutInt8 :: "byte \<Rightarrow> lenEncoder \<Rightarrow> lenEncoder result" where
  "len_PutInt8 x e = Inr (e \<lparr>Length := Length e + 1\<rparr>)"

definition len_PutInt16 :: "16 word \<Rightarrow> lenEncoder \<Rightarrow> lenEncoder result" where
  "len_PutInt16 x e = Inr (e \<lparr>Length := Length e + 2\<rparr>)"

definition len_PutBytes :: "bytes option \<Rightarrow> lenEncoder \<Rightarrow> lenEncoder result" where
  "len_PutBytes x e =
     (let e = e \<lparr>Length := Length e + 4\<rparr> in
      case x of
        None \<Rightarrow> Inr e
      | Some b \<Rightarrow> if int (length b) > MaxInt32 then Inl ErrInvalidByteSliceLength
                 else Inr (e \<lparr>Length := Length e + int (length b)\<rparr>))"

definition len_PutString :: "bytes \<Rightarrow> lenEncoder \<Rightarrow> lenEncoder result" where
  "len_PutString s e =
     (let e = e \<lparr>Length := Length e + 2\<rparr> in
      if int (length s) > MaxInt16 then Inl ErrInvalidStringLength
      else Inr (e \<lparr>Length := Length e + int (length s)\<rparr>))"

definition len_Push :: "crcField \<Rightarrow> lenEncoder \<Rightarrow> lenEncoder result" where
  "len_Push pe e = Inr (e \<lparr>Length := Length e + ReserveSize pe\<rparr>)"

definition len_Pop :: "lenEncoder \<Rightarrow> lenEncoder result" where
  "len_Pop e = Inr e"

definition lenEncoder_ops :: "lenEncoder packetEncoder" where
  "lenEncoder_ops = \<lparr>PutInt8 = len_PutInt8, PutInt16 = len_PutInt16, PutBytes = len_PutBytes,
     PutString = len_PutString, Push = len_Push, Pop = len_Pop\<rparr>"

text \<open>The byte pass.\<close>

record byteEncoder =
  enc_b :: bytes
  enc_off :: int
  enc_stack :: "crcField list"

definition newByteEncoder :: "bytes \<Rightarrow> byteEncoder" where
  "newByteEncoder b = \<lparr>enc_b = b, enc_off = 0, enc_stack = []\<rparr>"

definition byte_PutInt8 :: "byte \<Rightarrow> byteEncoder \<Rightarrow> byteEncoder result" where
  "byte_PutInt8 x e =
     and_then (go_put (enc_b e) (enc_off e) [x]) (\<lambda>b.
       Inr (e \<lparr>enc_b := b, enc_off := enc_off e + 1\<rparr>))"

definition byte_PutInt16 :: "16 word \<Rightarrow> byteEncoder \<Rightarrow> byteEncoder result" where
  "byte_PutInt16 x e =
     and_then (go_put (enc_b e) (enc_off e) (be16 x)) (\<lambda>b.
       Inr (e \<lparr>enc_b := b, enc_off := enc_off e + 2\<rparr>))"

definition byte_putInt32 :: "32 word \<Rightarrow> byteEncoder \<Rightarrow> byteEncoder result" where
  "byte_putInt32 x e =
     and_then (go_put (enc_b e) (enc_off e) (be32 x)) (\<lambda>b.
       Inr (e \<lparr>enc_b := b, enc_off := enc_off e + 4\<rparr>))"

definition byte_PutBytes :: "bytes option \<Rightarrow> byteEncoder \<Rightarrow> byteEncoder result" where
  "byte_PutBytes x e =
     (case x of
        None \<Rightarrow> byte_putInt32 (- 1) e
      | Some d \<Rightarrow>
          and_then (byte_putInt32 (word_of_nat (length d)) e) (\<lambda>e.
          and_then (go_copy (enc_b e) (enc_off e) d) (\<lambda>b.
            Inr (e \<lparr>enc_b := b, enc_off := enc_off e + int (length d)\<rparr>))))"

definition byte_PutString :: "bytes \<Rightarrow> byteEncoder \<Rightarrow> byteEncoder result" where
  "byte_PutString s e =
     and_then (byte_PutInt16 (word_of_nat (length s)) e) (\<lambda>e.
     and_then (go_copy (enc_b e) (enc_off e) s) (\<lambda>b.
       Inr (e \<lparr>enc_b := b, enc_off := enc_off e + int (length s)\<rparr>)))"

definition byte_Push :: "crcField \<Rightarrow> byteEncoder \<Rightarrow> byteEncoder result" where
  "byte_Push pe e =
     (let pe = SaveOffset (enc_off e) pe in
      Inr (e \<lparr>enc_off := enc_off e + ReserveSize pe, enc_stack := enc_stack e @ [pe]\<rparr>))"

definition byte_Pop :: "byteEncoder \<Rightarrow> byteEncoder result" where
  "byte_Pop e =
     (if enc_stack e = [] then Inl GoPanic
      else and_then (Fill (last (enc_stack e)) (enc_off e) (enc_b e)) (\<lambda>b.
        Inr (e \<lparr>enc_b := b, enc_stack := butlast (enc_stack e)\<rparr>)))"

definition byteEncoder_ops :: "byteEncoder packetEncoder" where
  "byteEncoder_ops = \<lparr>PutInt8 = byte_PutInt8, PutInt16 = byte_PutInt16, PutBytes = byte_PutBytes,
     PutString = byte_PutString, Push = byte_Push, Pop = byte_Pop\<rparr>"

section \<open>Messages\<close>

text \<open>Attribute bits.\<close>

definition AttrControl :: byte where "AttrControl = 1"
definition AttrTombstone :: byte where "AttrTombstone = 2"

type_synonym header = "bytes \<times> bytes option"

record Message =
  Crc :: "32 word"
  MagicByte :: byte
  Attributes :: byte
  Key :: "bytes option"
  Value :: "bytes option"
  Headers :: "header list"
  Timestamp :: int
  LeaderEpoch :: "64 word"

text \<open>\<^verbatim>\<open>Message.Encode\<close>; \<open>hs\<close> is the order in which its range over the headers runs.\<close>

fun put_headers :: "'e packetEncoder \<Rightarrow> header list \<Rightarrow> 'e \<Rightarrow> 'e result" where
  "put_headers E [] e = Inr e"
| "put_headers E ((k, h) # hs) e =
     and_then (PutString E k e) (\<lambda>e. and_then (PutBytes E h e) (put_headers E hs))"

definition Encode :: "'e packetEncoder \<Rightarrow> header list \<Rightarrow> Message \<Rightarrow> 'e \<Rightarrow> 'e result" where
  "Encode E hs m e =
     and_then (Push E \<lparr>StartOffset = 0\<rparr> e) (\<lambda>e.
     and_then (PutInt8 E (MagicByte m) e) (\<lambda>e.
     and_then (PutInt8 E (Attributes m) e) (\<lambda>e.
     and_then (PutBytes E (Key m) e) (\<lambda>e.
     and_then (PutBytes E (Value m) e) (\<lambda>e.
     and_then (PutInt16 E (word_of_nat (length hs)) e) (\<lambda>e.
     and_then (put_headers E hs e) (Pop E)))))))"

definition encode :: "header list \<Rightarrow> header list \<Rightarrow> Message \<Rightarrow> bytes result" where
  "encode hs1 hs2 m =
     and_then (Encode lenEncoder_ops hs1 m \<lparr>Length = 0\<rparr>) (\<lambda>lenEnc.
       if Length lenEnc < 0 then Inl GoPanic else
     and_then (Encode byteEncoder_ops hs2 m
                 (newByteEncoder (replicate (nat (Length lenEnc)) 0))) (\<lambda>byteEnc.
       Inr (enc_b byteEnc)))"

section \<open>Reading a payload back\<close>

text \<open>
  \<^verbatim>\<open>SerializedMessage\<close>: the accessors index the payload unchecked, with \<^verbatim>\<open>int32\<close> positions.
\<close>

definition sm_Crc :: "bytes \<Rightarrow> 32 word result" where
  "sm_Crc m = uint32_of m"

definition crcMatches :: "bytes \<Rightarrow> bool result" where
  "crcMatches m =
     (if length m < 4 then Inr False
      else and_then (sm_Crc m) (\<lambda>c.
           and_then (go_from m 4) (\<lambda>rest. Inr (c = crc32 Castagnoli rest))))"

definition sm_MagicByte :: "bytes \<Rightarrow> byte result" where
  "sm_MagicByte m = go_index m 4"

definition sm_Attributes :: "bytes \<Rightarrow> byte result" where
  "sm_Attributes m = go_index m 5"

definition fieldOffsets :: "bytes \<Rightarrow> int \<Rightarrow> (int \<times> int \<times> int) result" where
  "fieldOffsets m start =
     and_then (and_then (go_from m start) uint32_of) (\<lambda>u.
       let size = sint u; end = i32 (start + 4) in
       Inr (start, if size \<noteq> - 1 then i32 (end + size) else end, size))"

definition keyOffsets :: "bytes \<Rightarrow> (int \<times> int \<times> int) result" where
  "keyOffsets m = fieldOffsets m 6"

definition valueOffsets :: "bytes \<Rightarrow> (int \<times> int \<times> int) result" where
  "valueOffsets m = and_then (keyOffsets m) (\<lambda>(_, keyEnd, _). fieldOffsets m keyEnd)"

definition sm_Key :: "bytes \<Rightarrow> bytes option result" where
  "sm_Key m = and_then (keyOffsets m) (\<lambda>(start, end, size).
     if size = - 1 then Inr None
     else and_then (go_slice m (i32 (start + 4)) end) (\<lambda>b. Inr (Some b)))"

definition sm_Value :: "bytes \<Rightarrow> bytes option result" where
  "sm_Value m = and_then (valueOffsets m) (\<lambda>(start, end, size).
     if size = - 1 then Inr None
     else and_then (go_slice m (i32 (start + 4)) end) (\<lambda>b. Inr (Some b)))"

text \<open>The map that \<^verbatim>\<open>Headers\<close> fills, in insertion order.\<close>

type_synonym header_map = "(bytes \<times> bytes) list"

fun headers_loop :: "nat \<Rightarrow> bytes \<Rightarrow> int \<Rightarrow> header_map \<Rightarrow> header_map result" where
  "headers_loop 0 m n headers = Inr headers"
| "headers_loop (Suc k) m n headers =
     and_then (and_then (go_from m n) uint16_of) (\<lambda>keySize.
       let n = i32 (n + 2); kend = i32 (n + int (unat keySize)) in
     and_then (go_slice m n kend) (\<lambda>key.
     and_then (and_then (go_from m kend) uint32_of) (\<lambda>valueSize.
       let n = i32 (kend + 4); vend = i32 (n + sint valueSize) in
     and_then (go_slice m n vend) (\<lambda>value.
       headers_loop k m vend (AList.update key value headers)))))"

definition sm_Headers :: "bytes \<Rightarrow> header_map result" where
  "sm_Headers m =
     and_then (valueOffsets m) (\<lambda>(_, valueEnd, _).
     and_then (and_then (go_from m valueEnd) uint16_of) (\<lambda>numHeaders.
       headers_loop (unat numHeaders) m (i32 (valueEnd + 2)) []))"

section \<open>The wire format\<close>

text \<open>
  What a payload looks like, as one expression: a checksum over everything after it, two
  attribute bytes, the key and the value, the header count and the headers.
\<close>

definition wire_field :: "bytes option \<Rightarrow> bytes" where
  "wire_field x = (case x of None \<Rightarrow> be32 (- 1) | Some b \<Rightarrow> be32 (word_of_nat (length b)) @ b)"

definition wire_string :: "bytes \<Rightarrow> bytes" where
  "wire_string s = be16 (word_of_nat (length s)) @ s"

definition wire_header :: "header \<Rightarrow> bytes" where
  "wire_header h = wire_string (fst h) @ wire_field (snd h)"

definition wire_body :: "header list \<Rightarrow> Message \<Rightarrow> bytes" where
  "wire_body hs m =
     [MagicByte m, Attributes m] @ wire_field (Key m) @ wire_field (Value m) @
     be16 (word_of_nat (length hs)) @ concat (map wire_header hs)"

definition wire :: "header list \<Rightarrow> Message \<Rightarrow> bytes" where
  "wire hs m = be32 (crc32 Castagnoli (wire_body hs m)) @ wire_body hs m"

text \<open>The length limits the encoder enforces.\<close>

fun bytes_ok :: "bytes option \<Rightarrow> bool" where
  "bytes_ok None = True"
| "bytes_ok (Some b) = (int (length b) \<le> MaxInt32)"

definition string_ok :: "bytes \<Rightarrow> bool" where
  "string_ok s = (int (length s) \<le> MaxInt16)"

definition encodable :: "header list \<Rightarrow> Message \<Rightarrow> bool" where
  "encodable hs m =
     (bytes_ok (Key m) \<and> bytes_ok (Value m) \<and>
      list_all (\<lambda>h. string_ok (fst h) \<and> bytes_ok (snd h)) hs)"

lemma length_wire_parts [bytes_simps]:
  "length (wire_field x) = (case x of None \<Rightarrow> 4 | Some b \<Rightarrow> 4 + length b)"
  "length (wire_string s) = 2 + length s"
  "length (wire_header h) = length (wire_string (fst h)) + length (wire_field (snd h))"
  by (auto simp: wire_field_def wire_string_def wire_header_def split: option.splits)

lemma length_wire [bytes_simps]: "length (wire hs m) = 4 + length (wire_body hs m)"
  by (simp add: wire_def)

text \<open>The order of the headers does not change the length.\<close>

lemma length_wire_perm:
  assumes "mset hs1 = mset hs2"
  shows "length (wire hs1 m) = length (wire hs2 m)"
proof -
  have "length (concat (map wire_header hs)) = sum_mset (image_mset (length \<circ> wire_header) (mset hs))"
    for hs by (induction hs) auto
  moreover have "length hs1 = length hs2" using assms by (rule mset_eq_length)
  ultimately show ?thesis using assms by (simp add: wire_def wire_body_def)
qed

lemma encodable_perm: "mset hs1 = mset hs2 \<Longrightarrow> encodable hs1 m = encodable hs2 m"
  by (auto simp: encodable_def list_all_iff dest: mset_eq_setD)

section \<open>The contract of a packet encoder\<close>

text \<open>
  \<open>rep e w st\<close>: the encoder has written \<open>w\<close> and has checksum fields reserved at the positions \<open>st\<close>,
  innermost first.  \<open>room e n\<close>: \<open>n\<close> bytes in total fit.  A reservation leaves four bytes open and
  \<^verbatim>\<open>Pop\<close> fills them with the checksum of what follows.
\<close>

definition fill_at :: "nat \<Rightarrow> bytes \<Rightarrow> bytes" where
  "fill_at s w = take s w @ be32 (crc32 Castagnoli (drop (s + 4) w)) @ drop (s + 4) w"

locale packet_encoder =
  fixes E :: "'e packetEncoder"
    and rep :: "'e \<Rightarrow> bytes \<Rightarrow> nat list \<Rightarrow> bool"
    and room :: "'e \<Rightarrow> nat \<Rightarrow> bool"
  assumes room_mono: "room e n \<Longrightarrow> k \<le> n \<Longrightarrow> room e k"
    and int8: "rep e w st \<Longrightarrow> room e (length w + 1) \<Longrightarrow>
      \<exists>e'. PutInt8 E x e = Inr e' \<and> rep e' (w @ [x]) st \<and> room e' = room e"
    and int16: "rep e w st \<Longrightarrow> room e (length w + 2) \<Longrightarrow>
      \<exists>e'. PutInt16 E y e = Inr e' \<and> rep e' (w @ be16 y) st \<and> room e' = room e"
    and bytes: "rep e w st \<Longrightarrow> bytes_ok z \<Longrightarrow> room e (length w + length (wire_field z)) \<Longrightarrow>
      \<exists>e'. PutBytes E z e = Inr e' \<and> rep e' (w @ wire_field z) st \<and> room e' = room e"
    and string: "rep e w st \<Longrightarrow> string_ok s \<Longrightarrow> room e (length w + length (wire_string s)) \<Longrightarrow>
      \<exists>e'. PutString E s e = Inr e' \<and> rep e' (w @ wire_string s) st \<and> room e' = room e"
    and push: "rep e w st \<Longrightarrow> room e (length w + 4) \<Longrightarrow>
      \<exists>e' p. Push E f e = Inr e' \<and> length p = 4 \<and> rep e' (w @ p) (length w # st) \<and> room e' = room e"
    and pop: "rep e w (q # st) \<Longrightarrow> q + 4 \<le> length w \<Longrightarrow>
      \<exists>e'. Pop E e = Inr e' \<and> rep e' (fill_at q w) st \<and> room e' = room e"
begin

lemma headers:
  assumes "list_all (\<lambda>h. string_ok (fst h) \<and> bytes_ok (snd h)) hs"
    and "rep e w st" and "room e (length w + length (concat (map wire_header hs)))"
  shows "\<exists>e'. put_headers E hs e = Inr e' \<and> rep e' (w @ concat (map wire_header hs)) st \<and>
              room e' = room e"
  using assms
proof (induction hs arbitrary: e w)
  case (Cons h hs)
  obtain k v where h: "h = (k, v)" by (cases h)
  obtain e1 where e1: "PutString E k e = Inr e1" "rep e1 (w @ wire_string k) st" "room e1 = room e"
    using string [OF Cons.prems(2), of k] Cons.prems(1,3) room_mono
    by (auto simp: h length_wire_parts)
  obtain e2 where e2: "PutBytes E v e1 = Inr e2" "rep e2 (w @ wire_header h) st" "room e2 = room e"
    using bytes [OF e1(2), of v] Cons.prems(1,3) room_mono e1(3)
    by (auto simp: h length_wire_parts wire_header_def)
  have "room e2 (length (w @ wire_header h) + length (concat (map wire_header hs)))"
    using Cons.prems(3) e2(3) by (simp add: add.assoc)
  with Cons.IH [OF _ e2(2)] Cons.prems(1) e1(1) e2(1,3) show ?case
    by (auto simp: h)
qed simp

lemma Encode_writes_wire:
  assumes ok: "encodable hs m" and rep: "rep e [] []" and room: "room e (length (wire hs m))"
  shows "\<exists>e'. Encode E hs m e = Inr e' \<and> rep e' (wire hs m) [] \<and> room e' = room e"
proof -
  have r: "room e k" if "k \<le> length (wire hs m)" for k using room that by (rule room_mono)
  note len = length_wire wire_body_def length_wire_parts
  obtain e0 p where e0: "Push E \<lparr>StartOffset = 0\<rparr> e = Inr e0" "length p = 4" "rep e0 p [0]"
    "room e0 = room e"
    using push [OF rep, of "\<lparr>StartOffset = 0\<rparr>"] r [of 4] by (auto simp: len)
  obtain e1 where e1: "PutInt8 E (MagicByte m) e0 = Inr e1" "rep e1 (p @ [MagicByte m]) [0]"
    "room e1 = room e"
    using int8 [OF e0(3), of "MagicByte m"] r e0(2,4) by (auto simp: len)
  obtain e2 where e2: "PutInt8 E (Attributes m) e1 = Inr e2"
    "rep e2 (p @ [MagicByte m, Attributes m]) [0]" "room e2 = room e"
    using int8 [OF e1(2), of "Attributes m"] r e0(2) e1(3) by (auto simp: len)
  let ?w3 = "p @ [MagicByte m, Attributes m] @ wire_field (Key m)"
  obtain e3 where e3: "PutBytes E (Key m) e2 = Inr e3" "rep e3 ?w3 [0]" "room e3 = room e"
    using bytes [OF e2(2), of "Key m"] r ok e0(2) e2(3) by (auto simp: len encodable_def)
  let ?w4 = "?w3 @ wire_field (Value m)"
  obtain e4 where e4: "PutBytes E (Value m) e3 = Inr e4" "rep e4 ?w4 [0]" "room e4 = room e"
    using bytes [OF e3(2), of "Value m"] r ok e0(2) e3(3) by (auto simp: len encodable_def)
  let ?w5 = "?w4 @ be16 (word_of_nat (length hs))"
  obtain e5 where e5: "PutInt16 E (word_of_nat (length hs)) e4 = Inr e5" "rep e5 ?w5 [0]"
    "room e5 = room e"
    using int16 [OF e4(2), of "word_of_nat (length hs)"] r e0(2) e4(3) by (auto simp: len)
  let ?w6 = "?w5 @ concat (map wire_header hs)"
  obtain e6 where e6: "put_headers E hs e5 = Inr e6" "rep e6 ?w6 [0]" "room e6 = room e"
    using headers [OF _ e5(2), of hs] r ok e0(2) e5(3) by (auto simp: len encodable_def)
  have "?w6 = p @ wire_body hs m" by (simp add: wire_body_def)
  then have "fill_at 0 ?w6 = wire hs m" using e0(2) by (simp add: fill_at_def wire_def)
  with pop [OF e6(2)] e0(2) obtain e7 where e7: "Pop E e6 = Inr e7" "rep e7 (wire hs m) []"
    "room e7 = room e" using e6(3) by auto
  show ?thesis
    using e0(1) e1(1) e2(1) e3(1) e4(1) e5(1) e6(1) e7 by (simp add: Encode_def)
qed

end

text \<open>Both implementations meet it.\<close>

definition len_rep :: "lenEncoder \<Rightarrow> bytes \<Rightarrow> nat list \<Rightarrow> bool" where
  "len_rep e w st \<longleftrightarrow> Length e = int (length w)"

interpretation lenEnc: packet_encoder lenEncoder_ops len_rep "\<lambda>_ _. True"
  by unfold_locales
    (auto simp: lenEncoder_ops_def len_rep_def len_PutInt8_def len_PutInt16_def len_PutBytes_def
      len_PutString_def len_Push_def len_Pop_def ReserveSize_def Let_def string_ok_def fill_at_def
      length_wire_parts split: option.splits intro!: exI [of _ "[0, 0, 0, 0]"])

definition byte_rep :: "byteEncoder \<Rightarrow> bytes \<Rightarrow> nat list \<Rightarrow> bool" where
  "byte_rep e w st \<longleftrightarrow>
     enc_off e = int (length w) \<and> length w \<le> length (enc_b e) \<and> take (length w) (enc_b e) = w \<and>
     map StartOffset (rev (enc_stack e)) = map int st"

definition byte_room :: "byteEncoder \<Rightarrow> nat \<Rightarrow> bool" where
  "byte_room e n \<longleftrightarrow> n \<le> length (enc_b e)"

lemma byte_room_eq [simp]: "byte_room e = byte_room e' \<longleftrightarrow> length (enc_b e) = length (enc_b e')"
  by (auto simp: fun_eq_iff byte_room_def intro: le_antisym)

lemma byte_rep_put:
  assumes "byte_rep e w st" and "byte_room e (length w + length d)"
  shows "\<exists>b. go_put (enc_b e) (enc_off e) d = Inr b \<and> length b = length (enc_b e) \<and>
             byte_rep (e \<lparr>enc_b := b, enc_off := enc_off e + int (length d)\<rparr>) (w @ d) st"
  using assms by (auto simp: byte_rep_def byte_room_def go_put_def)

lemma byte_putInt32_rep:
  assumes "byte_rep e w st" and "byte_room e (length w + 4)"
  shows "\<exists>e'. byte_putInt32 x e = Inr e' \<and> byte_rep e' (w @ be32 x) st \<and> byte_room e' = byte_room e"
  using byte_rep_put [OF assms(1), of "be32 x"] assms(2)
  by (auto simp: byte_putInt32_def byte_room_def)

lemma byte_PutInt16_rep:
  assumes "byte_rep e w st" and "byte_room e (length w + 2)"
  shows "\<exists>e'. byte_PutInt16 x e = Inr e' \<and> byte_rep e' (w @ be16 x) st \<and> byte_room e' = byte_room e"
  using byte_rep_put [OF assms(1), of "be16 x"] assms(2)
  by (auto simp: byte_PutInt16_def byte_room_def)

lemma byte_copy_rep:
  assumes "byte_rep e w st" and "byte_room e (length w + length d)"
  shows "\<exists>b. go_copy (enc_b e) (enc_off e) d = Inr b \<and> length b = length (enc_b e) \<and>
             byte_rep (e \<lparr>enc_b := b, enc_off := enc_off e + int (length d)\<rparr>) (w @ d) st"
proof -
  have "go_copy (enc_b e) (enc_off e) d = go_put (enc_b e) (enc_off e) d"
    using assms by (intro go_copy_room) (auto simp: byte_rep_def byte_room_def)
  then show ?thesis using byte_rep_put [OF assms] by simp
qed

lemma byte_PutBytes_rep:
  assumes "byte_rep e w st" and "byte_room e (length w + length (wire_field z))"
  shows "\<exists>e'. byte_PutBytes z e = Inr e' \<and> byte_rep e' (w @ wire_field z) st \<and>
              byte_room e' = byte_room e"
proof (cases z)
  case None
  then show ?thesis
    using byte_putInt32_rep [OF assms(1), of "- 1"] assms(2)
    by (simp add: byte_PutBytes_def wire_field_def)
next
  case (Some d)
  then obtain e1 where e1: "byte_putInt32 (word_of_nat (length d)) e = Inr e1"
    "byte_rep e1 (w @ be32 (word_of_nat (length d))) st" "byte_room e1 = byte_room e"
    using byte_putInt32_rep [OF assms(1), of "word_of_nat (length d)"] assms(2)
    by (auto simp: length_wire_parts byte_room_def)
  then show ?thesis
    using byte_copy_rep [OF e1(2), of d] assms(2) Some
    by (auto simp: byte_PutBytes_def wire_field_def byte_room_def)
qed

lemma byte_PutString_rep:
  assumes "byte_rep e w st" and "byte_room e (length w + length (wire_string s))"
  shows "\<exists>e'. byte_PutString s e = Inr e' \<and> byte_rep e' (w @ wire_string s) st \<and>
              byte_room e' = byte_room e"
proof -
  obtain e1 where e1: "byte_PutInt16 (word_of_nat (length s)) e = Inr e1"
    "byte_rep e1 (w @ be16 (word_of_nat (length s))) st" "byte_room e1 = byte_room e"
    using byte_PutInt16_rep [OF assms(1), of "word_of_nat (length s)"] assms(2)
    by (auto simp: length_wire_parts byte_room_def)
  then show ?thesis
    using byte_copy_rep [OF e1(2), of s] assms(2)
    by (auto simp: byte_PutString_def wire_string_def byte_room_def)
qed

lemma byte_Push_rep:
  assumes "byte_rep e w st" and "byte_room e (length w + 4)"
  shows "\<exists>e' p. byte_Push f e = Inr e' \<and> length p = 4 \<and>
               byte_rep e' (w @ p) (length w # st) \<and> byte_room e' = byte_room e"
  using assms
  by (intro exI [of _ "take 4 (drop (length w) (enc_b e))"] exI)
    (auto simp: byte_Push_def byte_rep_def byte_room_def Let_def SaveOffset_def ReserveSize_def
      take_add)

lemma byte_Pop_rep:
  assumes "byte_rep e w (s # st)" and "s + 4 \<le> length w"
  shows "\<exists>e'. byte_Pop e = Inr e' \<and> byte_rep e' (fill_at s w) st \<and> byte_room e' = byte_room e"
proof -
  obtain fs f where st: "enc_stack e = fs @ [f]" "StartOffset f = int s"
    "map StartOffset (rev fs) = map int st"
    using assms(1) by (cases "enc_stack e" rule: rev_cases) (auto simp: byte_rep_def)
  have b: "enc_b e = w @ drop (length w) (enc_b e)" "enc_off e = int (length w)"
    using assms(1) append_take_drop_id [of "length w" "enc_b e"] by (auto simp: byte_rep_def)
  define z where "z = drop (length w) (enc_b e)"
  have "go_slice (enc_b e) (int s + 4) (enc_off e) = Inr (drop (s + 4) w)"
    unfolding b(2)
    by (rule go_slice_at [of _ "take (s + 4) w" _ z])
      (use b(1) assms(2) append_take_drop_id [of "s + 4" w] in \<open>simp_all add: z_def flip: append_assoc\<close>)
  moreover have "go_put (enc_b e) (int s) (be32 c) = Inr (take s w @ be32 c @ drop (s + 4) w @ z)" for c
    using assms(2) by (subst b(1), fold z_def) (simp add: go_put_def)
  ultimately have "byte_Pop e = Inr (e \<lparr>enc_b := fill_at s w @ z, enc_stack := fs\<rparr>)"
    using st by (simp add: byte_Pop_def Fill_def fill_at_def)
  moreover have "length (fill_at s w) = length w" using assms(2) by (simp add: fill_at_def)
  moreover have "length w + length z = length (enc_b e)"
    using assms(1) by (simp add: z_def byte_rep_def)
  ultimately show ?thesis
    using st b(2) by (simp add: byte_rep_def byte_room_def)
qed

interpretation byteEnc: packet_encoder byteEncoder_ops byte_rep byte_room
proof
  show "byte_rep e w st \<Longrightarrow> byte_room e (length w + 1) \<Longrightarrow>
      \<exists>e'. PutInt8 byteEncoder_ops x e = Inr e' \<and> byte_rep e' (w @ [x]) st \<and>
           byte_room e' = byte_room e" for e w st x
    using byte_rep_put [of e w st "[x]"]
    by (auto simp: byteEncoder_ops_def byte_PutInt8_def byte_room_def)
  show "byte_room e n \<Longrightarrow> k \<le> n \<Longrightarrow> byte_room e k" for e n k
    by (simp add: byte_room_def)
qed (simp_all only: byteEncoder_ops_def packetEncoder.select_convs byte_PutInt16_rep
      byte_PutBytes_rep byte_PutString_rep byte_Push_rep byte_Pop_rep)

section \<open>What encode writes\<close>

lemma lenEncoder_select [simp]:
  "PutInt8 lenEncoder_ops = len_PutInt8" "PutInt16 lenEncoder_ops = len_PutInt16"
  "PutBytes lenEncoder_ops = len_PutBytes" "PutString lenEncoder_ops = len_PutString"
  "Push lenEncoder_ops = len_Push" "Pop lenEncoder_ops = len_Pop"
  by (simp_all add: lenEncoder_ops_def)

lemma len_PutBytes_cases:
  "bytes_ok z \<Longrightarrow> \<exists>e'. len_PutBytes z e = Inr e'"
  "\<not> bytes_ok z \<Longrightarrow> len_PutBytes z e = Inl ErrInvalidByteSliceLength"
  by (cases z; simp add: len_PutBytes_def)+

lemma len_put_headers_refused:
  "\<not> list_all (\<lambda>h. string_ok (fst h) \<and> bytes_ok (snd h)) hs \<Longrightarrow>
     put_headers lenEncoder_ops hs e \<in> {Inl ErrInvalidByteSliceLength, Inl ErrInvalidStringLength}"
proof (induction hs arbitrary: e)
  case (Cons h hs)
  obtain k v where h: "h = (k, v)" by (cases h)
  let ?e = "e \<lparr>Length := Length e + 2 + int (length k)\<rparr>"
  have s: "len_PutString k e = (if string_ok k then Inr ?e else Inl ErrInvalidStringLength)"
    by (simp add: len_PutString_def string_ok_def)
  obtain e' where "bytes_ok v \<Longrightarrow> len_PutBytes v ?e = Inr e'"
    using len_PutBytes_cases(1) [of v ?e] by blast
  with Cons s len_PutBytes_cases(2) [of v ?e] show ?case
    by (cases "string_ok k"; cases "bytes_ok v") (simp_all add: h)
qed simp

lemma len_Encode_refused:
  "\<not> encodable hs m \<Longrightarrow>
     Encode lenEncoder_ops hs m e \<in> {Inl ErrInvalidByteSliceLength, Inl ErrInvalidStringLength}"
proof -
  assume "\<not> encodable hs m"
  then consider "\<not> bytes_ok (Key m)" | "bytes_ok (Key m)" "\<not> bytes_ok (Value m)"
    | "bytes_ok (Key m)" "bytes_ok (Value m)"
      "\<not> list_all (\<lambda>h. string_ok (fst h) \<and> bytes_ok (snd h)) hs"
    by (auto simp: encodable_def)
  then show ?thesis
  proof cases
    case 3
    obtain e1 where e1: "len_PutBytes (Key m) (e \<lparr>Length := Length e + 6\<rparr>) = Inr e1"
      using len_PutBytes_cases(1) [OF 3(1)] by blast
    obtain e2 where "len_PutBytes (Value m) e1 = Inr e2"
      using len_PutBytes_cases(1) [OF 3(2)] by blast
    with e1 len_put_headers_refused [OF 3(3), of "e2 \<lparr>Length := Length e2 + 2\<rparr>"] show ?thesis
      by (auto simp: Encode_def len_Push_def ReserveSize_def len_PutInt8_def len_PutInt16_def add.assoc)
  next
    case 2
    obtain e1 where e1: "len_PutBytes (Key m) (e \<lparr>Length := Length e + 6\<rparr>) = Inr e1"
      using len_PutBytes_cases(1) [OF 2(1)] by blast
    with len_PutBytes_cases(2) [OF 2(2)] show ?thesis
      by (simp add: Encode_def len_Push_def ReserveSize_def len_PutInt8_def add.assoc)
  qed (simp add: Encode_def len_Push_def len_PutInt8_def len_PutBytes_cases)
qed

section \<open>Reading back what was written\<close>

lemma sint_word_of_nat_32: "n < 2 ^ 31 \<Longrightarrow> sint (word_of_nat n :: 32 word) = int n"
  using sint_word_of_int_32 [of "int n"] i32_id [of "int n"] by simp

lemma unat_word_of_nat_16: "n < 65536 \<Longrightarrow> unat (word_of_nat n :: 16 word) = n"
  by (simp add: unat_of_nat)

lemma fieldOffsets_at:
  assumes "m = a @ wire_field x @ z" and "length m < 2 ^ 31" and "s = int (length a)"
  shows "fieldOffsets m s = Inr (s, int (length a + length (wire_field x)),
           case x of None \<Rightarrow> - 1 | Some b \<Rightarrow> int (length b))"
proof -
  have "go_from m s = Inr (wire_field x @ z)" using assms by simp
  with assms(2,3) show ?thesis unfolding assms(1)
    by (cases x) (auto simp: fieldOffsets_def wire_field_def Let_def sint_word_of_nat_32 i32_id)
qed

lemma headers_loop_wire:
  assumes "list_all (\<lambda>h. length (fst h) < 65536) hm"
    and "m = a @ concat (map (\<lambda>h. wire_header (apsnd Some h)) hm) @ z" and "length m < 2 ^ 31"
    and "n = int (length a)"
  shows "headers_loop (length hm + j) m n acc =
           headers_loop j m (n + int (length (concat (map (\<lambda>h. wire_header (apsnd Some h)) hm))))
             (fold (\<lambda>(k, v). AList.update k v) hm acc)"
  using assms
proof (induction hm arbitrary: a n acc)
  case (Cons h hm)
  obtain k v where h: "h = (k, v)" by (cases h)
  define r where "r = concat (map (\<lambda>h. wire_header (apsnd Some h)) hm) @ z"
  have m: "m = a @ be16 (word_of_nat (length k)) @ k @ be32 (word_of_nat (length v)) @ v @ r"
  proof -
    have "wire_header (k, Some v) =
        be16 (word_of_nat (length k)) @ k @ be32 (word_of_nat (length v)) @ v"
      by (simp add: wire_header_def wire_string_def wire_field_def)
    with Cons.prems(2) show ?thesis by (simp add: h r_def)
  qed
  have lens: "length a + 6 + length k + length v < 2 ^ 31" "length k < 65536"
    using Cons.prems(1,3) m h by auto
  let ?n1 = "int (length a) + 2" and ?n2 = "int (length a) + 2 + int (length k)"
  let ?n3 = "?n2 + 4" and ?n4 = "?n2 + 4 + int (length v)"
  have s1: "go_from m n = Inr (be16 (word_of_nat (length k)) @ k @ be32 (word_of_nat (length v)) @ v @ r)"
    by (rule go_from_at [of _ a]) (use m Cons.prems(4) in simp_all)
  have s2: "go_slice m ?n1 ?n2 = Inr k"
    by (rule go_slice_at [of _ "a @ be16 (word_of_nat (length k))"
          _ "be32 (word_of_nat (length v)) @ v @ r"]) (use m in simp_all)
  have s3: "go_from m ?n2 = Inr (be32 (word_of_nat (length v)) @ v @ r)"
    by (rule go_from_at [of _ "a @ be16 (word_of_nat (length k)) @ k"]) (use m in simp_all)
  have s4: "go_slice m ?n3 ?n4 = Inr v"
    by (rule go_slice_at [of _ "a @ be16 (word_of_nat (length k)) @ k @ be32 (word_of_nat (length v))"
          _ r]) (use m in simp_all)
  have i: "i32 (n + 2) = ?n1" "i32 (?n1 + int (length k)) = ?n2" "i32 (?n2 + 4) = ?n3"
    "i32 (?n3 + int (length v)) = ?n4"
    using lens Cons.prems(4) by (auto intro!: i32_id)
  have sizes: "unat (word_of_nat (length k) :: 16 word) = length k"
    "sint (word_of_nat (length v) :: 32 word) = int (length v)"
    using lens by (simp_all add: unat_word_of_nat_16 sint_word_of_nat_32)
  have "headers_loop (length (h # hm) + j) m n acc =
      headers_loop (length hm + j) m ?n4 (AList.update k v acc)"
    by (simp only: length_Cons add_Suc headers_loop.simps s1 s2 s3 s4 i sizes and_then.simps uint_of_be Let_def)
  moreover have "headers_loop (length hm + j) m ?n4 (AList.update k v acc) =
      headers_loop j m (?n4 + int (length (concat (map (\<lambda>h. wire_header (apsnd Some h)) hm))))
        (fold (\<lambda>(k, v). AList.update k v) hm (AList.update k v acc))"
    by (rule Cons.IH [of "a @ wire_header (k, Some v)"])
      (use Cons.prems in \<open>auto simp: h length_wire_parts\<close>)
  ultimately show ?case
    using Cons.prems(4) by (simp add: h length_wire_parts add.assoc)
qed simp

lemma update_fresh: "k \<notin> fst ` set xs \<Longrightarrow> AList.update k v xs = xs @ [(k, v)]"
  by (induction xs) auto

lemma fold_update_distinct:
  "distinct (map fst xs @ map fst ys) \<Longrightarrow> fold (\<lambda>(k, v). AList.update k v) ys xs = xs @ ys"
proof (induction ys arbitrary: xs)
  case (Cons y ys)
  obtain k v where y: "y = (k, v)" by (cases y)
  have "AList.update k v xs = xs @ [(k, v)]"
    using Cons.prems by (intro update_fresh) (auto simp: y)
  with Cons show ?case by (simp add: y)
qed simp

lemma wire_crcMatches: "crcMatches (wire hs m) = Inr True"
  using go_from_at [of "wire hs m" "be32 (crc32 Castagnoli (wire_body hs m))" "wire_body hs m" 4]
  by (simp add: crcMatches_def sm_Crc_def wire_def)

text \<open>A nil header value is written as the size -1, which the loop then adds to its position.\<close>

lemma headers_loop_nil_value:
  assumes "m = a @ wire_header (k, None) @ z" and "length k < 65536" and "length m < 2 ^ 31"
    and "n = int (length a)"
  shows "headers_loop (Suc j) m n acc = Inl GoPanic"
proof -
  have m: "m = a @ be16 (word_of_nat (length k)) @ k @ be32 (- 1) @ z"
    using assms(1) by (simp add: wire_header_def wire_string_def wire_field_def)
  let ?n2 = "int (length a) + 2 + int (length k)"
  have s: "go_from m n = Inr (be16 (word_of_nat (length k)) @ k @ be32 (- 1) @ z)"
    "go_slice m (int (length a) + 2) ?n2 = Inr k" "go_from m ?n2 = Inr (be32 (- 1) @ z)"
    "go_slice m (?n2 + 4) (?n2 + 4 + - 1) = Inl GoPanic"
    using go_from_at [of m a _ n] go_from_at [of m "a @ be16 (word_of_nat (length k)) @ k" _ ?n2]
      go_slice_at [of m "a @ be16 (word_of_nat (length k))" k "be32 (- 1) @ z"] m assms(4)
    by (simp_all add: go_slice_def)
  have i: "i32 (n + 2) = int (length a) + 2" "i32 (int (length a) + 2 + int (length k)) = ?n2"
    "i32 (?n2 + 4) = ?n2 + 4" "i32 (?n2 + 4 + - 1) = ?n2 + 4 + - 1"
    using assms(3,4) m by (auto intro!: i32_id)
  have "unat (word_of_nat (length k) :: 16 word) = length k" "sint (- 1 :: 32 word) = - 1"
    using assms(2) by (simp_all add: unat_word_of_nat_16)
  then show ?thesis
    by (simp only: headers_loop.simps s i and_then.simps uint_of_be Let_def)
qed

text \<open>The key and value fields, located and read.\<close>

lemma wire_fields:
  assumes "length (wire hs m) < 2 ^ 31"
  defines "vs \<equiv> 6 + length (wire_field (Key m))"
  defines "ve \<equiv> vs + length (wire_field (Value m))"
  shows "sm_Key (wire hs m) = Inr (Key m)" and "sm_Value (wire hs m) = Inr (Value m)"
    and "valueOffsets (wire hs m) =
      Inr (int vs, int ve, case Value m of None \<Rightarrow> - 1 | Some b \<Rightarrow> int (length b))"
proof -
  let ?w = "wire hs m"
  define a where "a = be32 (crc32 Castagnoli (wire_body hs m)) @ [MagicByte m, Attributes m]"
  define z where "z = be16 (word_of_nat (length hs)) @ concat (map wire_header hs)"
  have w: "?w = a @ wire_field (Key m) @ wire_field (Value m) @ z" and a: "length a = 6"
    by (simp_all add: wire_def wire_body_def a_def z_def)
  have k: "keyOffsets ?w = Inr (6, int vs, case Key m of None \<Rightarrow> - 1 | Some b \<Rightarrow> int (length b))"
    using fieldOffsets_at [of ?w a "Key m" "wire_field (Value m) @ z" 6] w a assms(1)
    by (simp add: keyOffsets_def vs_def)
  have "fieldOffsets ?w (int vs) =
      Inr (int vs, int ve, case Value m of None \<Rightarrow> - 1 | Some b \<Rightarrow> int (length b))"
    using fieldOffsets_at [of ?w "a @ wire_field (Key m)" "Value m" z "int vs"] w a assms(1)
    by (simp add: vs_def ve_def add.assoc)
  then show v: "valueOffsets ?w =
      Inr (int vs, int ve, case Value m of None \<Rightarrow> - 1 | Some b \<Rightarrow> int (length b))"
    by (simp add: valueOffsets_def k)
  show "sm_Key ?w = Inr (Key m)"
  proof (cases "Key m")
    case (Some b)
    have "go_slice ?w 10 (int vs) = Inr b"
      by (rule go_slice_at [of _ "a @ be32 (word_of_nat (length b))" _ "wire_field (Value m) @ z"])
        (use w a Some in \<open>simp_all add: wire_field_def vs_def\<close>)
    with Some show ?thesis by (simp add: sm_Key_def k i32_id)
  qed (simp add: sm_Key_def k)
  show "sm_Value ?w = Inr (Value m)"
  proof (cases "Value m")
    case (Some b)
    have "go_slice ?w (int vs + 4) (int ve) = Inr b"
      by (rule go_slice_at [of _ "a @ wire_field (Key m) @ be32 (word_of_nat (length b))" _ z])
        (use w a Some in \<open>simp_all add: wire_field_def vs_def ve_def\<close>)
    moreover have "i32 (int vs + 4) = int vs + 4"
      using assms(1) w a Some by (intro i32_id) (simp add: length_wire_parts vs_def)
    ultimately show ?thesis using Some by (simp add: sm_Value_def v)
  qed (simp add: sm_Value_def v)
qed

lemma wire_read_back:
  assumes "hs = map (apsnd Some) hm" and "distinct (map fst hm)" and "length hm < 65536"
    and "list_all (\<lambda>h. length (fst h) < 65536) hm" and "length (wire hs m) < 2 ^ 31"
  shows "sm_MagicByte (wire hs m) = Inr (MagicByte m)" and "sm_Attributes (wire hs m) = Inr (Attributes m)"
    and "sm_Key (wire hs m) = Inr (Key m)" and "sm_Value (wire hs m) = Inr (Value m)"
    and "sm_Headers (wire hs m) = Inr hm"
proof -
  let ?w = "wire hs m"
  show "sm_MagicByte ?w = Inr (MagicByte m)" "sm_Attributes ?w = Inr (Attributes m)"
    by (simp_all add: sm_MagicByte_def sm_Attributes_def go_index_def wire_def wire_body_def nth_append)
  show "sm_Key ?w = Inr (Key m)" "sm_Value ?w = Inr (Value m)"
    by (rule wire_fields [OF assms(5)])+
  define a where "a = be32 (crc32 Castagnoli (wire_body hs m)) @ [MagicByte m, Attributes m] @
      wire_field (Key m) @ wire_field (Value m)"
  have w: "?w = a @ be16 (word_of_nat (length hm)) @ concat (map (\<lambda>h. wire_header (apsnd Some h)) hm)"
    by (simp add: wire_def wire_body_def a_def assms(1) o_def)
  have la: "int (length a) = int (6 + length (wire_field (Key m)) + length (wire_field (Value m)))"
    by (simp add: a_def)
  have "go_from ?w (int (length a)) = Inr (be16 (word_of_nat (length hm)) @
      concat (map (\<lambda>h. wire_header (apsnd Some h)) hm))"
    by (simp add: w)
  moreover have "i32 (int (length a) + 2) = int (length a) + 2"
    using assms(5) w by (intro i32_id) simp
  moreover have "headers_loop (length hm) ?w (int (length a) + 2) [] =
      Inr (fold (\<lambda>(k, v). AList.update k v) hm [])"
    using headers_loop_wire [OF assms(4), of ?w "a @ be16 (word_of_nat (length hm))" "[]"
        "int (length a) + 2" 0 "[]"] assms(5) w by simp
  ultimately show "sm_Headers ?w = Inr hm"
    unfolding sm_Headers_def wire_fields(3) [OF assms(5)] la [symmetric]
    using assms(2,3) fold_update_distinct [of "[]" hm] by (simp add: unat_word_of_nat_16)
qed

lemma encode_wire_lemma:
  assumes "mset hs1 = mset hs2" and "encodable hs2 m"
  shows "encode hs1 hs2 m = Inr (wire hs2 m)"
proof -
  let ?n = "length (wire hs2 m)"
  obtain l where l: "Encode lenEncoder_ops hs1 m \<lparr>Length = 0\<rparr> = Inr l" "Length l = int ?n"
    using lenEnc.Encode_writes_wire [of hs1 m "\<lparr>Length = 0\<rparr>"] assms
      encodable_perm [OF assms(1), of m] length_wire_perm [OF assms(1), of m]
    by (auto simp: len_rep_def)
  obtain e where e: "Encode byteEncoder_ops hs2 m (newByteEncoder (replicate ?n 0)) = Inr e"
    "byte_rep e (wire hs2 m) []" "byte_room e = byte_room (newByteEncoder (replicate ?n 0))"
    using byteEnc.Encode_writes_wire [of hs2 m "newByteEncoder (replicate ?n 0)"] assms(2)
    by (auto simp: byte_rep_def byte_room_def newByteEncoder_def)
  have "length (enc_b e) \<le> ?n"
    using fun_cong [OF e(3), of "length (enc_b e)"] by (simp add: byte_room_def newByteEncoder_def)
  moreover have "take ?n (enc_b e) = wire hs2 m" using e(2) unfolding byte_rep_def by blast
  ultimately have "enc_b e = wire hs2 m" by (metis take_all)
  with l e(1) show ?thesis by (simp add: encode_def)
qed

text \<open>
  C17: \<^verbatim>\<open>encode\<close> never panics and never fails on a message whose fields are within the encoder's
  limits, whatever the orders of its two passes over the header map: the buffer sized by the length
  pass is filled exactly by the byte pass, and holds the wire format with its checksum in place.
\<close>

theorem encode_wire:
  assumes "mset hs1 = mset hs2" and "encodable hs2 m"
  shows "encode hs1 hs2 m = Inr (wire hs2 m)"
  using assms by (rule encode_wire_lemma)

text \<open>A message of no headers at all, a small one for the concrete instances.\<close>

definition sample :: Message where
  "sample = \<lparr>Crc = 0, MagicByte = 2, Attributes = 0, Key = Some [107], Value = None,
     Headers = [([104], Some [1, 2]), ([105], Some [])], Timestamp = 5, LeaderEpoch = 1\<rparr>"

theorem encode_wire_witness:
  "encode (rev (Headers sample)) (Headers sample) sample = Inr (wire (Headers sample) sample)"
  by (rule encode_wire) (simp_all add: sample_def encodable_def string_ok_def MaxInt16_def MaxInt32_def)

text \<open>
  A message with a key, value or header beyond its length limit is refused with one of the
  encoder's two length errors; nothing is written and nothing panics.
\<close>

theorem encode_refused:
  assumes "mset hs1 = mset hs2" and "\<not> encodable hs2 m"
  shows "encode hs1 hs2 m \<in> {Inl ErrInvalidByteSliceLength, Inl ErrInvalidStringLength}"
  using len_Encode_refused [of hs1 m "\<lparr>Length = 0\<rparr>"] encodable_perm [OF assms(1), of m] assms(2)
  by (auto simp: encode_def)

theorem encode_refused_witness:
  "encode [(replicate 40000 0, None)] [(replicate 40000 0, None)] sample
     \<in> {Inl ErrInvalidByteSliceLength, Inl ErrInvalidStringLength}"
  by (rule encode_refused) (simp_all add: encodable_def string_ok_def MaxInt16_def)

text \<open>
  C21: reading back.  The payload \<^verbatim>\<open>encode\<close> writes passes its own checksum, and every accessor returns
  the field that was encoded: a nil key or value comes back nil, an empty one empty, and the
  headers come back as the map that went in.  Headers with a nil value are excluded (see
  \<^verbatim>\<open>sm_Headers_nil_value\<close>), and so are payloads of 2 GiB or more, whose positions do not fit the
  accessors' \<^verbatim>\<open>int32\<close>.
\<close>

theorem encode_read_back:
  assumes "hs = map (apsnd Some) hm" and "distinct (map fst hm)" and "length hm < 65536"
    and "encodable hs m" and "length (wire hs m) < 2 ^ 31" and "encode hs hs m = Inr p"
  shows "crcMatches p = Inr True \<and> sm_MagicByte p = Inr (MagicByte m) \<and>
         sm_Attributes p = Inr (Attributes m) \<and> sm_Key p = Inr (Key m) \<and>
         sm_Value p = Inr (Value m) \<and> sm_Headers p = Inr hm"
proof -
  have p: "p = wire hs m" using encode_wire_lemma [of hs hs m] assms(4,6) by simp
  have "list_all (\<lambda>h. length (fst h) < 65536) hm"
    using assms(1,4) by (auto simp: encodable_def list_all_iff string_ok_def MaxInt16_def)
  then show ?thesis
    unfolding p using wire_read_back [OF assms(1-3) _ assms(5)] wire_crcMatches by simp
qed

theorem encode_read_back_witness:
  "\<exists>p. encode (Headers sample) (Headers sample) sample = Inr p \<and> sm_Key p = Inr (Some [107]) \<and>
       sm_Headers p = Inr [([104], [1, 2]), ([105], [])]"
proof -
  have ok: "encodable (Headers sample) sample"
    by (simp add: sample_def encodable_def string_ok_def MaxInt16_def MaxInt32_def)
  have e: "encode (Headers sample) (Headers sample) sample = Inr (wire (Headers sample) sample)"
    by (simp add: encode_wire_lemma ok)
  have "length (wire (Headers sample) sample) < 2 ^ 31"
    by (simp add: sample_def bytes_simps wire_body_def)
  then show ?thesis
    using encode_read_back [of "Headers sample" "[([104], [1, 2]), ([105], [])]" sample, OF _ _ _ ok _ e] e
    by (simp add: sample_def)
qed

text \<open>
  A header whose value is a nil slice is accepted by the encoder and cannot be read back: the
  accessor \<^verbatim>\<open>Headers\<close> panics on the payload, whatever precedes and follows that header.
\<close>

theorem sm_Headers_nil_value:
  assumes hs: "hs = map (apsnd Some) hm @ (k, None) # rest" and "length hs < 65536"
    and "list_all (\<lambda>h. length (fst h) < 65536) hm" and "length k < 65536"
    and "length (wire hs m) < 2 ^ 31"
  shows "sm_Headers (wire hs m) = Inl GoPanic"
proof -
  let ?w = "wire hs m" and ?h = "concat (map (\<lambda>h. wire_header (apsnd Some h)) hm)"
  define a where "a = be32 (crc32 Castagnoli (wire_body hs m)) @ [MagicByte m, Attributes m] @
      wire_field (Key m) @ wire_field (Value m)"
  have w: "?w = a @ be16 (word_of_nat (length hs)) @ ?h @ wire_header (k, None) @
      concat (map wire_header rest)"
    by (simp add: wire_def wire_body_def a_def hs o_def)
  have la: "int (length a) = int (6 + length (wire_field (Key m)) + length (wire_field (Value m)))"
    by (simp add: a_def)
  have n: "unat (word_of_nat (length hs) :: 16 word) = length hm + Suc (length rest)"
    unfolding unat_word_of_nat_16 [OF assms(2)] by (simp add: hs)
  have "headers_loop (length hm + Suc (length rest)) ?w (int (length a) + 2) [] =
      headers_loop (Suc (length rest)) ?w (int (length a) + 2 + int (length ?h))
        (fold (\<lambda>(k, v). AList.update k v) hm [])"
    by (rule headers_loop_wire [OF assms(3), where a = "a @ be16 (word_of_nat (length hs))"])
      (use assms(5) w in simp_all)
  also have "\<dots> = Inl GoPanic"
    by (rule headers_loop_nil_value [OF _ assms(4,5), where a = "a @ be16 (word_of_nat (length hs)) @ ?h"])
      (use w in simp_all)
  finally have "headers_loop (length hm + Suc (length rest)) ?w (i32 (int (length a) + 2)) [] = Inl GoPanic"
    using i32_id [of "int (length a) + 2"] assms(5) w by simp
  moreover have "go_from ?w (int (length a)) = Inr (be16 (word_of_nat (length hs)) @ ?h @
      wire_header (k, None) @ concat (map wire_header rest))"
    by (simp add: w)
  ultimately show ?thesis
    unfolding sm_Headers_def wire_fields(3) [OF assms(5)] la [symmetric] by (simp add: n)
qed

theorem sm_Headers_nil_value_witness:
  "sm_Headers (wire [([104], Some [1]), ([105], None)] sample) = Inl GoPanic"
  by (rule sm_Headers_nil_value [of _ "[([104], [1])]" "[105]" "[]"])
    (simp_all add: sample_def bytes_simps wire_body_def)

end
