(* ===== verification/Message_Set.thy ===== *)
theory Message_Set
  imports Message
begin

text \<open>
  \<^verbatim>\<open>message_set.go\<close>: the frame around a payload (offset, timestamp, leader epoch, size and a checksum
  over those four), the set of frames an append writes, the walk that lists a set's entries, and
  the bounds-checked header parse of \<^verbatim>\<open>ReadMessageMetadata\<close>.

  \<open>frame\<close> is the layout as one expression; \<open>frames\<close> and \<open>entries_of\<close> are the bytes and the entries of
  a list of records, against which writer and walk are proved.
\<close>

section \<open>Frame headers\<close>

abbreviation (input) offsetPos :: int where "offsetPos \<equiv> 0"
abbreviation (input) timestampPos :: int where "timestampPos \<equiv> 8"
abbreviation (input) leaderEpochPos :: int where "leaderEpochPos \<equiv> 16"
abbreviation (input) sizePos :: int where "sizePos \<equiv> 24"
abbreviation (input) headerCrcPos :: int where "headerCrcPos \<equiv> 28"
abbreviation (input) msgSetHeaderLen :: int where "msgSetHeaderLen \<equiv> 32"

definition headerCrc :: "bytes \<Rightarrow> 32 word result" where
  "headerCrc hdr =
     and_then (go_slice hdr 0 headerCrcPos) (\<lambda>b. Inr (crc32 Castagnoli b))"

definition storedHeaderCrc :: "bytes \<Rightarrow> 32 word result" where
  "storedHeaderCrc hdr = and_then (go_from hdr headerCrcPos) uint32_of"

definition ms_Offset :: "bytes \<Rightarrow> int result" where
  "ms_Offset ms = and_then (and_then (go_slice ms offsetPos (offsetPos + 8)) uint64_of)
     (\<lambda>u. Inr (sint u))"

definition ms_Timestamp :: "bytes \<Rightarrow> int result" where
  "ms_Timestamp ms = and_then (and_then (go_slice ms timestampPos (timestampPos + 8)) uint64_of)
     (\<lambda>u. Inr (sint u))"

definition ms_LeaderEpoch :: "bytes \<Rightarrow> 64 word result" where
  "ms_LeaderEpoch ms = and_then (go_slice ms leaderEpochPos (leaderEpochPos + 8)) uint64_of"

definition ms_Size :: "bytes \<Rightarrow> int result" where
  "ms_Size ms = and_then (and_then (go_slice ms sizePos (sizePos + 4)) uint32_of)
     (\<lambda>u. Inr (sint u))"

definition ms_Message :: "bytes \<Rightarrow> bytes result" where
  "ms_Message ms =
     (if int (length ms) \<le> msgSetHeaderLen then Inr []
      else and_then (ms_Size ms) (\<lambda>size.
        go_slice ms msgSetHeaderLen (i32 (msgSetHeaderLen + size))))"

section \<open>Listing the entries of a set\<close>

record entry =
  e_Offset :: int
  e_Timestamp :: int
  e_LeaderEpoch :: "64 word"
  e_Position :: int
  e_Size :: int

lemma ms_Size_range: "ms_Size ms = Inr sz \<Longrightarrow> in_i32 sz"
  using sint_range_32 by (auto simp: ms_Size_def result_simps)

lemma go_from_shorter: "go_from b lo = Inr c \<Longrightarrow> lo \<noteq> 0 \<Longrightarrow> b \<noteq> [] \<Longrightarrow> length c < length b"
  by (auto simp: go_from_def go_slice_def split: if_splits)

lemma i32_frame_step:
  assumes "in_i32 sz" and "0 \<le> sz"
  shows "i32 (32 + sz) \<noteq> 0"
proof
  assume "i32 (32 + sz) = 0"
  then have "(32 + sz) mod 2 ^ 32 = 0"
    using take_bit_signed_take_bit [of 32 31 "32 + sz"] by (simp add: i32_def take_bit_eq_mod)
  moreover have "(32 + sz) mod 2 ^ 32 = 32 + sz" using assms by (intro mod_pos_pos_trivial) auto
  ultimately show False using assms by simp
qed

function (sequential) entries_loop :: "int \<Rightarrow> int \<Rightarrow> bytes \<Rightarrow> entry list \<Rightarrow> entry list result" where
  "entries_loop basePos n ms entries =
     (if int (length ms) \<ge> msgSetHeaderLen then
        and_then (ms_Offset ms) (\<lambda>offset.
        and_then (ms_Timestamp ms) (\<lambda>timestamp.
        and_then (ms_LeaderEpoch ms) (\<lambda>leaderEpoch.
        and_then (ms_Size ms) (\<lambda>size.
          if size < 0 \<or> size > int (length ms) - msgSetHeaderLen then Inr entries
          else and_then (go_from ms (i32 (msgSetHeaderLen + size))) (\<lambda>ms'.
            entries_loop basePos (n + (msgSetHeaderLen + size)) ms'
              (entries @ [\<lparr>e_Offset = offset, e_Timestamp = timestamp,
                 e_LeaderEpoch = leaderEpoch, e_Position = basePos + n,
                 e_Size = i32 (size + msgSetHeaderLen)\<rparr>]))))))
      else Inr entries)"
  by pat_completeness auto
termination
proof (relation "measure (\<lambda>(_, _, ms, _). length ms)")
  fix basePos n :: int and ms ms' :: bytes and entries x xa xb sz
  assume "msgSetHeaderLen \<le> int (length ms)" "ms_Size ms = Inr sz"
    "\<not> (sz < 0 \<or> sz > int (length ms) - msgSetHeaderLen)"
    "go_from ms (i32 (msgSetHeaderLen + sz)) = Inr ms'"
  then have "length ms' < length ms"
    using go_from_shorter [of ms "i32 (32 + sz)" ms'] i32_frame_step [of sz] ms_Size_range [of ms sz]
    by fastforce
  then show "((basePos, n + (msgSetHeaderLen + sz), ms', x), basePos, n, ms, entries)
      \<in> measure (\<lambda>(_, _, ms, _). length ms)" by simp
qed simp

declare entries_loop.simps [simp del]

definition entriesForMessageSet :: "int \<Rightarrow> bytes \<Rightarrow> entry list result" where
  "entriesForMessageSet basePos ms =
     (if int (length ms) \<le> msgSetHeaderLen then Inr [] else entries_loop basePos 0 ms [])"

section \<open>Writing a set\<close>

text \<open>One turn of the loop of \<^verbatim>\<open>newMessageSetFromProto\<close>, and the loop.\<close>

definition write_record ::
  "int \<Rightarrow> int \<Rightarrow> nat \<Rightarrow> Message \<Rightarrow> bytes \<times> entry list \<Rightarrow> (bytes \<times> entry list) result" where
  "write_record baseOffset basePos i m s =
     (case s of (buf, entries) \<Rightarrow>
      and_then (encode (Headers m) (Headers m) m) (\<lambda>data.
        let size = i32 (int (length data)); relPos = int (length buf); offset = int i + baseOffset;
            buf = buf @ be64 (word_of_int offset);
            buf = buf @ be64 (word_of_int (Timestamp m));
            buf = buf @ be64 (LeaderEpoch m);
            buf = buf @ be32 (word_of_int size);
            framed = buf; hdrStart = int (length buf) - headerCrcPos in
        and_then (and_then (go_from framed hdrStart) headerCrc) (\<lambda>crc.
          Inr (buf @ be32 crc @ data,
               entries @ [\<lparr>e_Offset = offset, e_Timestamp = Timestamp m,
                 e_LeaderEpoch = LeaderEpoch m, e_Position = basePos + relPos,
                 e_Size = i32 (size + msgSetHeaderLen)\<rparr>]))))"

fun write_records ::
  "int \<Rightarrow> int \<Rightarrow> nat \<Rightarrow> Message list \<Rightarrow> bytes \<times> entry list \<Rightarrow> (bytes \<times> entry list) result" where
  "write_records baseOffset basePos i [] s = Inr s"
| "write_records baseOffset basePos i (m # ms) s =
     and_then (write_record baseOffset basePos i m s) (write_records baseOffset basePos (i + 1) ms)"

definition newMessageSetFromProto ::
  "int \<Rightarrow> int \<Rightarrow> Message list \<Rightarrow> (bytes \<times> entry list) result" where
  "newMessageSetFromProto baseOffset basePos msgs =
     write_records baseOffset basePos 0 msgs ([], [])"

section \<open>The checked header parse\<close>

record payloadCursor =
  c_buf :: bytes
  c_n :: int
  c_err :: bool

definition cur_take :: "int \<Rightarrow> payloadCursor \<Rightarrow> (bytes option \<times> payloadCursor) result" where
  "cur_take n c =
     (if c_err c then Inr (None, c)
      else if n < 0 \<or> i64 (c_n c + n) < c_n c \<or> i64 (c_n c + n) > int (length (c_buf c))
      then Inr (None, c \<lparr>c_err := True\<rparr>)
      else and_then (go_slice (c_buf c) (c_n c) (i64 (c_n c + n))) (\<lambda>b.
        Inr (Some b, c \<lparr>c_n := i64 (c_n c + n)\<rparr>)))"

definition cur_uint16 :: "payloadCursor \<Rightarrow> (16 word \<times> payloadCursor) result" where
  "cur_uint16 c = and_then (cur_take 2 c) (\<lambda>(b, c).
     case b of None \<Rightarrow> Inr (0, c) | Some b \<Rightarrow> and_then (uint16_of b) (\<lambda>u. Inr (u, c)))"

definition cur_uint32 :: "payloadCursor \<Rightarrow> (32 word \<times> payloadCursor) result" where
  "cur_uint32 c = and_then (cur_take 4 c) (\<lambda>(b, c).
     case b of None \<Rightarrow> Inr (0, c) | Some b \<Rightarrow> and_then (uint32_of b) (\<lambda>u. Inr (u, c)))"

text \<open>One of the two length-prefixed fields that are skipped; \<open>ErrOther\<close> is the damaged length.\<close>

definition skip_field :: "payloadCursor \<Rightarrow> payloadCursor result" where
  "skip_field c = and_then (cur_uint32 c) (\<lambda>(u, c).
     let size = sint u in
     if size = - 1 then Inr c
     else if size < 0 then Inl ErrOther
     else and_then (cur_take size c) (\<lambda>(_, c). Inr c))"

text \<open>The loop over the headers; it breaks at the first latched error.\<close>

fun parse_headers_loop ::
  "nat \<Rightarrow> payloadCursor \<Rightarrow> header_map \<Rightarrow> (payloadCursor \<times> header_map) result" where
  "parse_headers_loop 0 c headers = Inr (c, headers)"
| "parse_headers_loop (Suc k) c headers =
     and_then (cur_uint16 c) (\<lambda>(ksize, c).
     and_then (cur_take (int (unat ksize)) c) (\<lambda>(key, c).
     and_then (cur_uint32 c) (\<lambda>(vsize, c).
     and_then (cur_take (int (unat vsize)) c) (\<lambda>(value, c).
       if c_err c then Inr (c, headers)
       else parse_headers_loop k c
         (AList.update (case key of None \<Rightarrow> [] | Some b \<Rightarrow> b)
            (case value of None \<Rightarrow> [] | Some b \<Rightarrow> b) headers)))))"

definition parseHeadersAfterValue :: "bytes \<Rightarrow> header_map result" where
  "parseHeadersAfterValue buf =
     and_then (skip_field \<lparr>c_buf = buf, c_n = 6, c_err = False\<rparr>) (\<lambda>c.
     and_then (skip_field c) (\<lambda>c.
     and_then (cur_uint16 c) (\<lambda>(numHeaders, c).
     and_then (parse_headers_loop (unat numHeaders) c []) (\<lambda>(c, headers).
       if c_err c then Inl ErrOther else Inr headers))))"

section \<open>The layout of a frame\<close>

record logrec =
  lr_offset :: int
  lr_timestamp :: int
  lr_epoch :: "64 word"
  lr_payload :: bytes

definition frame_fields :: "logrec \<Rightarrow> bytes" where
  "frame_fields r = be64 (word_of_int (lr_offset r)) @ be64 (word_of_int (lr_timestamp r)) @
     be64 (lr_epoch r) @ be32 (word_of_nat (length (lr_payload r)))"

definition frame :: "logrec \<Rightarrow> bytes" where
  "frame r = frame_fields r @ be32 (crc32 Castagnoli (frame_fields r)) @ lr_payload r"

definition frames :: "logrec list \<Rightarrow> bytes" where
  "frames rs = concat (map frame rs)"

definition entry_of :: "int \<Rightarrow> logrec \<Rightarrow> entry" where
  "entry_of pos r = \<lparr>e_Offset = lr_offset r, e_Timestamp = lr_timestamp r,
     e_LeaderEpoch = lr_epoch r, e_Position = pos, e_Size = int (length (frame r))\<rparr>"

fun entries_of :: "int \<Rightarrow> logrec list \<Rightarrow> entry list" where
  "entries_of pos [] = []"
| "entries_of pos (r # rs) = entry_of pos r # entries_of (pos + int (length (frame r))) rs"

text \<open>What fits a frame: 64-bit fields, and a payload whose frame size fits \<^verbatim>\<open>int32\<close>.\<close>

definition frame_ok :: "logrec \<Rightarrow> bool" where
  "frame_ok r \<longleftrightarrow> in_i64 (lr_offset r) \<and> in_i64 (lr_timestamp r) \<and>
     lr_payload r \<noteq> [] \<and> int (length (lr_payload r)) + 32 < 2 ^ 31"

lemma length_frame_fields [simp]: "length (frame_fields r) = 28"
  by (simp add: frame_fields_def)

lemma length_frame [simp]: "length (frame r) = 32 + length (lr_payload r)"
  by (simp add: frame_def)

lemma frames_simps [simp]:
  "frames [] = []" "frames (r # rs) = frame r @ frames rs" "frames (rs @ ss) = frames rs @ frames ss"
  by (simp_all add: frames_def)

lemma entries_of_append:
  "entries_of pos (rs @ ss) = entries_of pos rs @ entries_of (pos + int (length (frames rs))) ss"
  by (induction rs arbitrary: pos) (simp_all add: add.assoc)

lemma sint_word_of_int_64_id: "in_i64 x \<Longrightarrow> sint (word_of_int x :: 64 word) = x"
  by (simp add: sint_word_of_int_64 i64_id)

lemma frame_cut:
  "frame r @ z = be64 (word_of_int (lr_offset r)) @ be64 (word_of_int (lr_timestamp r)) @
     be64 (lr_epoch r) @ be32 (word_of_nat (length (lr_payload r))) @
     be32 (crc32 Castagnoli (frame_fields r)) @ lr_payload r @ z"
  by (simp add: frame_def frame_fields_def)

lemma frame_slices:
  "go_slice (frame r @ z) 0 8 = Inr (be64 (word_of_int (lr_offset r)))"
  "go_slice (frame r @ z) 8 16 = Inr (be64 (word_of_int (lr_timestamp r)))"
  "go_slice (frame r @ z) 16 24 = Inr (be64 (lr_epoch r))"
  "go_slice (frame r @ z) 24 28 = Inr (be32 (word_of_nat (length (lr_payload r))))"
  "go_slice (frame r @ z) 0 28 = Inr (frame_fields r)"
  "go_from (frame r @ z) 28 = Inr (be32 (crc32 Castagnoli (frame_fields r)) @ lr_payload r @ z)"
  by (simp_all add: frame_cut go_slice_def go_from_def frame_fields_def)

lemma frame_rest: "go_from (frame r @ z) (32 + int (length (lr_payload r))) = Inr z"
  using go_from_append [of "frame r" z] by simp

text \<open>Every accessor reads the field that was written.\<close>

lemma frame_accessors:
  assumes "frame_ok r"
  shows "ms_Offset (frame r @ z) = Inr (lr_offset r)"
    and "ms_Timestamp (frame r @ z) = Inr (lr_timestamp r)"
    and "ms_LeaderEpoch (frame r @ z) = Inr (lr_epoch r)"
    and "ms_Size (frame r @ z) = Inr (int (length (lr_payload r)))"
    and "ms_Message (frame r @ z) = Inr (lr_payload r)"
proof -
  show "ms_Offset (frame r @ z) = Inr (lr_offset r)"
    "ms_Timestamp (frame r @ z) = Inr (lr_timestamp r)"
    "ms_LeaderEpoch (frame r @ z) = Inr (lr_epoch r)"
    using assms by (simp_all add: ms_Offset_def ms_Timestamp_def ms_LeaderEpoch_def frame_slices
        sint_word_of_int_64_id frame_ok_def)
  show size: "ms_Size (frame r @ z) = Inr (int (length (lr_payload r)))"
    using assms by (simp add: ms_Size_def frame_slices sint_word_of_nat_32 frame_ok_def)
  have "i32 (32 + int (length (lr_payload r))) = 32 + int (length (lr_payload r))"
    using assms by (intro i32_id) (auto simp: frame_ok_def)
  moreover have "go_slice (frame r @ z) 32 (32 + int (length (lr_payload r))) = Inr (lr_payload r)"
    by (rule go_slice_at [of _ "frame_fields r @ be32 (crc32 Castagnoli (frame_fields r))" _ z])
      (simp_all add: frame_def)
  moreover have "\<not> int (length (frame r @ z)) \<le> 32"
    using assms by (cases "lr_payload r") (auto simp: frame_ok_def)
  ultimately show "ms_Message (frame r @ z) = Inr (lr_payload r)"
    using size by (simp add: ms_Message_def)
qed

lemma frame_crcs:
  "headerCrc (frame r @ z) = Inr (crc32 Castagnoli (frame_fields r))"
  "storedHeaderCrc (frame r @ z) = Inr (crc32 Castagnoli (frame_fields r))"
  by (simp_all add: headerCrc_def storedHeaderCrc_def frame_slices)

lemma entries_loop_frames:
  assumes "list_all frame_ok rs"
  shows "entries_loop basePos n (frames rs) acc = Inr (acc @ entries_of (basePos + n) rs)"
  using assms
proof (induction rs arbitrary: n acc)
  case (Cons r rs)
  have ok: "frame_ok r" using Cons.prems by simp
  have i: "i32 (32 + int (length (lr_payload r))) = int (length (frame r))"
    "i32 (int (length (lr_payload r)) + 32) = int (length (frame r))"
    using ok by (auto simp: frame_ok_def i32_id)
  have "entries_loop basePos n (frame r @ frames rs) acc =
      entries_loop basePos (n + (32 + int (length (lr_payload r)))) (frames rs)
        (acc @ [entry_of (basePos + n) r])"
    using i by (subst entries_loop.simps) (simp add: frame_accessors [OF ok] entry_of_def frame_rest)
  with Cons show ?case by (simp add: add.assoc)
qed (simp add: entries_loop.simps)

lemma entriesForMessageSet_frames:
  assumes "list_all frame_ok rs"
  shows "entriesForMessageSet basePos (frames rs) = Inr (entries_of basePos rs)"
proof (cases rs)
  case (Cons r rs')
  then have "\<not> int (length (frames rs)) \<le> 32" using assms by (cases "lr_payload r") (auto simp: frame_ok_def)
  then show ?thesis
    using entries_loop_frames [OF assms, of basePos 0 "[]"] by (simp add: entriesForMessageSet_def)
qed (simp add: entriesForMessageSet_def)

section \<open>What an append writes\<close>

definition record_of :: "int \<Rightarrow> Message \<Rightarrow> logrec" where
  "record_of offset m = \<lparr>lr_offset = offset, lr_timestamp = Timestamp m,
     lr_epoch = LeaderEpoch m, lr_payload = wire (Headers m) m\<rparr>"

fun records_of :: "int \<Rightarrow> Message list \<Rightarrow> logrec list" where
  "records_of offset [] = []"
| "records_of offset (m # ms) = record_of offset m # records_of (offset + 1) ms"

lemma write_record_frame:
  assumes "encodable (Headers m) m" and "frame_ok (record_of (int i + baseOffset) m)"
  shows "write_record baseOffset basePos i m (buf, es) =
     Inr (buf @ frame (record_of (int i + baseOffset) m),
          es @ [entry_of (basePos + int (length buf)) (record_of (int i + baseOffset) m)])"
proof -
  let ?r = "record_of (int i + baseOffset) m" and ?n = "int (length (wire (Headers m) m))"
  have n: "i32 ?n = ?n" "i32 (?n + 32) = ?n + 32"
    using assms(2) by (auto simp: frame_ok_def record_of_def i32_id)
  have f: "frame_fields ?r = be64 (word_of_int (int i + baseOffset)) @
      be64 (word_of_int (Timestamp m)) @ be64 (LeaderEpoch m) @ be32 (word_of_int ?n)"
    by (simp add: frame_fields_def record_of_def)
  have "go_from (buf @ frame_fields ?r) (int (length buf)) = Inr (frame_fields ?r)" by simp
  moreover have "headerCrc (frame_fields ?r) = Inr (crc32 Castagnoli (frame_fields ?r))"
    by (simp add: headerCrc_def go_slice_def)
  ultimately show ?thesis
    using n encode_wire_lemma [of "Headers m" "Headers m" m] assms(1)
    by (simp add: write_record_def Let_def f frame_def entry_of_def)
       (simp add: record_of_def)
qed

lemma write_records_frames:
  assumes "list_all (\<lambda>m. encodable (Headers m) m) msgs"
    and "list_all frame_ok (records_of (int i + baseOffset) msgs)"
  shows "write_records baseOffset basePos i msgs (buf, es) =
     Inr (buf @ frames (records_of (int i + baseOffset) msgs),
          es @ entries_of (basePos + int (length buf)) (records_of (int i + baseOffset) msgs))"
  using assms
proof (induction msgs arbitrary: i buf es)
  case (Cons m msgs)
  then show ?case
    using write_record_frame [of m i baseOffset basePos buf es]
      Cons.IH [of "i + 1" "buf @ frame (record_of (int i + baseOffset) m)"]
    by (simp add: ac_simps)
qed simp

section \<open>The walk on arbitrary bytes\<close>

text \<open>Entries that lie end to end from one position to another.\<close>

fun tiles :: "int \<Rightarrow> entry list \<Rightarrow> int \<Rightarrow> bool" where
  "tiles pos [] stop = (pos = stop)"
| "tiles pos (e # es) stop =
     (e_Position e = pos \<and> e_Size e \<ge> 32 \<and> tiles (pos + e_Size e) es stop)"

lemma ms_accessors_total:
  assumes "32 \<le> length ms"
  shows "\<exists>x. ms_Offset ms = Inr x" "\<exists>x. ms_Timestamp ms = Inr x" "\<exists>x. ms_LeaderEpoch ms = Inr x"
    "\<exists>x. ms_Size ms = Inr x"
  using assms by (simp_all add: ms_Offset_def ms_Timestamp_def ms_LeaderEpoch_def ms_Size_def
      go_slice_def uint64_of_def uint32_of_def)

lemma i32_past: "2 ^ 31 \<le> x \<Longrightarrow> x < 2 ^ 31 + 32 \<Longrightarrow> i32 x < 0"
proof -
  assume x: "2 ^ 31 \<le> x" "x < 2 ^ 31 + 32"
  have "(x + 2 ^ 31) mod 2 ^ 32 = ((x - 2 ^ 31) + 2 ^ 32) mod 2 ^ 32" by (simp add: add.commute)
  also have "\<dots> = x - 2 ^ 31" unfolding mod_add_self2 using x by (intro mod_pos_pos_trivial) simp_all
  finally show "i32 x < 0" using x by (simp add: i32_def signed_take_bit_eq_take_bit_shift take_bit_eq_mod)
qed

lemma go_from_negative: "lo < 0 \<Longrightarrow> go_from b lo = Inl GoPanic"
  by (simp add: go_from_def go_slice_def)

lemma entries_loop_tiles:
  "case entries_loop basePos n ms acc of
     Inl e \<Rightarrow> e = GoPanic \<and> 2 ^ 31 \<le> int (length ms)
   | Inr xs \<Rightarrow> \<exists>es stop. xs = acc @ es \<and> tiles (basePos + n) es stop \<and> stop \<le> basePos + n + int (length ms)"
proof (induction basePos n ms acc rule: entries_loop.induct)
  case (1 basePos n ms acc)
  show ?case
  proof (cases "32 \<le> length ms")
    case len: True
    obtain off ts ep sz where acc: "ms_Offset ms = Inr off" "ms_Timestamp ms = Inr ts"
      "ms_LeaderEpoch ms = Inr ep" "ms_Size ms = Inr sz"
      using ms_accessors_total [OF len] by auto
    consider (stop) "sz < 0 \<or> sz > int (length ms) - 32" | (wrap) "\<not> (sz < 0 \<or> sz > int (length ms) - 32)" "2 ^ 31 \<le> 32 + sz"
      | (step) "\<not> (sz < 0 \<or> sz > int (length ms) - 32)" "32 + sz < 2 ^ 31" by linarith
    then show ?thesis
    proof cases
      case stop
      then have "entries_loop basePos n ms acc = Inr (acc @ [])" using len acc by (subst entries_loop.simps) auto
      then show ?thesis by fastforce
    next
      case wrap
      have "sz < 2 ^ 31" using ms_Size_range [OF acc(4)] by simp
      then have "i32 (32 + sz) < 0" using wrap(2) by (intro i32_past) simp_all
      then have "entries_loop basePos n ms acc = Inl GoPanic"
        using len acc wrap(1) go_from_negative [of "i32 (32 + sz)" ms] by (subst entries_loop.simps) auto
      then show ?thesis using wrap by simp
    next
      case step
      have i: "i32 (32 + sz) = 32 + sz" "i32 (sz + 32) = 32 + sz" using step by (auto simp: i32_id add.commute)
      define ms' where "ms' = drop (nat (32 + sz)) ms"
      have ms': "go_from ms (32 + sz) = Inr ms'" "int (length ms') = int (length ms) - (32 + sz)"
        using step by (auto simp: go_from_def go_slice_def ms'_def)
      define e where "e = \<lparr>e_Offset = off, e_Timestamp = ts, e_LeaderEpoch = ep,
        e_Position = basePos + n, e_Size = 32 + sz\<rparr>"
      have eq: "entries_loop basePos n ms acc = entries_loop basePos (n + (32 + sz)) ms' (acc @ [e])"
        using len acc step(1) ms'(1) i by (subst entries_loop.simps) (simp add: e_def)
      have IH: "case entries_loop basePos (n + (32 + sz)) ms' (acc @ [e]) of
          Inl e \<Rightarrow> e = GoPanic \<and> 2 ^ 31 \<le> int (length ms')
        | Inr xs \<Rightarrow> \<exists>es stop. xs = (acc @ [e]) @ es \<and> tiles (basePos + (n + (32 + sz))) es stop \<and>
            stop \<le> basePos + (n + (32 + sz)) + int (length ms')"
        using "1.IH" [OF _ acc step(1), unfolded i, OF _ ms'(1)] len unfolding e_def by simp
      show ?thesis
      proof (cases "entries_loop basePos (n + (32 + sz)) ms' (acc @ [e])")
        case (Inl x)
        then show ?thesis using IH eq ms'(2) step(1) by simp
      next
        case (Inr xs)
        then obtain es stop where "xs = (acc @ [e]) @ es" "tiles (basePos + (n + (32 + sz))) es stop"
          "stop \<le> basePos + n + int (length ms)" using IH ms'(2) by auto
        then show ?thesis using Inr eq step(1)
          by (simp, intro exI [of _ "e # es"] conjI exI [of _ stop]) (simp_all add: e_def add.assoc)
      qed
    qed
  next
    case False
    then have "entries_loop basePos n ms acc = Inr (acc @ [])" by (subst entries_loop.simps) auto
    then show ?thesis by fastforce
  qed
qed

lemma map_offset_entries_of: "map e_Offset (entries_of pos rs) = map lr_offset rs"
  by (induction rs arbitrary: pos) (auto simp: entry_of_def)

lemma map_offset_records_of:
  "map lr_offset (records_of offset ms) = map (\<lambda>i. offset + int i) [0..<length ms]"
proof (induction ms arbitrary: offset)
  case (Cons m ms)
  then have "map lr_offset (records_of offset (m # ms)) =
      offset # map (\<lambda>i. offset + int i) (map Suc [0..<length ms])"
    by (simp add: record_of_def o_def add.assoc)
  then show ?case by (simp only: length_Cons upt_conv_Cons [of 0] map_Suc_upt) simp
qed simp

text \<open>
  C18: an append and a scan agree.  The set built from encodable messages is the frames of those
  messages with consecutive offsets from \<open>baseOffset\<close>; the entries returned with it are exactly the
  entries the walk lists when it is given those bytes.
\<close>

theorem newMessageSet_entries:
  assumes "list_all (\<lambda>m. encodable (Headers m) m) msgs"
    and "list_all frame_ok (records_of baseOffset msgs)"
  shows "\<exists>ms es. newMessageSetFromProto baseOffset basePos msgs = Inr (ms, es) \<and>
           ms = frames (records_of baseOffset msgs) \<and>
           entriesForMessageSet basePos ms = Inr es \<and>
           map e_Offset es = map (\<lambda>i. baseOffset + int i) [0..<length msgs]"
  using write_records_frames [of msgs 0 baseOffset basePos "[]" "[]"] assms
    entriesForMessageSet_frames [OF assms(2), of basePos]
  by (simp add: newMessageSetFromProto_def map_offset_entries_of map_offset_records_of)

lemma sample_frame_ok: "in_i64 off \<Longrightarrow> frame_ok (record_of off sample)"
  by (simp add: frame_ok_def record_of_def bytes_simps wire_body_def sample_def wire_def)

lemma sample_encodable: "encodable (Headers sample) sample"
  by (simp add: sample_def encodable_def string_ok_def MaxInt16_def MaxInt32_def)

theorem newMessageSet_entries_witness:
  "\<exists>ms es. newMessageSetFromProto 7 100 [sample, sample] = Inr (ms, es) \<and>
     entriesForMessageSet 100 ms = Inr es \<and> map e_Offset es = [7, 8]"
  using newMessageSet_entries [of "[sample, sample]" 7 100]
  by (auto simp: sample_encodable sample_frame_ok)

text \<open>
  C31: the walk over an arbitrary message set, cut or damaged anywhere.  If it returns, the entries it lists lie end
  to end inside the bytes it was given.  It panics only on a set of 2 GiB or more, and it does panic there when a
  size field it accepts is within 32 of the largest 32-bit number, since the step past the frame is computed in
  32 bits.
\<close>

theorem entriesForMessageSet_tiles:
  "(case entriesForMessageSet basePos ms of
      Inl e \<Rightarrow> e = GoPanic \<and> 2 ^ 31 \<le> int (length ms)
    | Inr es \<Rightarrow> \<exists>stop. tiles basePos es stop \<and> basePos \<le> stop \<and> stop \<le> basePos + int (length ms)) \<and>
   (\<forall>sz. ms_Size ms = Inr sz \<and> 2 ^ 31 - 32 \<le> sz \<and> sz + 32 \<le> int (length ms) \<longrightarrow> entriesForMessageSet basePos ms = Inl GoPanic)"
proof -
  have mono: "tiles pos es stop \<Longrightarrow> pos \<le> stop" for pos es stop
    by (induction pos es stop rule: tiles.induct) auto
  have "entriesForMessageSet basePos ms = Inl GoPanic"
    if sz: "ms_Size ms = Inr sz" "2 ^ 31 - 32 \<le> sz" "sz + 32 \<le> int (length ms)" for sz
  proof -
    have len: "32 < length ms" using sz(2,3) by simp
    obtain off ts ep where acc: "ms_Offset ms = Inr off" "ms_Timestamp ms = Inr ts" "ms_LeaderEpoch ms = Inr ep"
      using ms_accessors_total [of ms] len by auto
    have "i32 (32 + sz) < 0" using ms_Size_range [OF sz(1)] sz(2) by (intro i32_past) simp_all
    then show ?thesis
      using len acc sz go_from_negative [of "i32 (32 + sz)" ms] by (simp add: entriesForMessageSet_def entries_loop.simps [where ms = ms])
  qed
  moreover have "case entriesForMessageSet basePos ms of
      Inl e \<Rightarrow> e = GoPanic \<and> 2 ^ 31 \<le> int (length ms)
    | Inr es \<Rightarrow> \<exists>stop. tiles basePos es stop \<and> basePos \<le> stop \<and> stop \<le> basePos + int (length ms)"
    using entries_loop_tiles [where basePos = basePos and n = 0 and ms = ms and acc = "[]"] mono by (auto simp: entriesForMessageSet_def split: sum.splits)
  ultimately show ?thesis by blast
qed

theorem entriesForMessageSet_tiles_witness:
  "\<exists>ms. entriesForMessageSet 0 ms = Inl GoPanic"
proof -
  define z :: bytes where "z = replicate (2 ^ 31 + 4) 0"
  have "length z = 2 ^ 31 + 4" by (simp only: z_def length_replicate)
  then have z: "int (length z) = 2 ^ 31 + 4" by simp
  define ms where "ms = replicate 24 0 @ [127, 255, 255, 255] @ z"
  have "go_slice ms 24 28 = Inr [127, 255, 255, 255]"
    unfolding ms_def by (rule go_slice_at [of _ "replicate 24 0" _ z]) simp_all
  then have "ms_Size ms = Inr (2 ^ 31 - 1)" by (simp add: ms_Size_def uint32_of_def)
  then show ?thesis using entriesForMessageSet_tiles [where basePos = 0 and ms = ms] z by (intro exI [of _ ms]) (simp add: ms_def)
qed

text \<open>
  Damage to a frame header that stays inside four consecutive bytes of the offset, timestamp,
  epoch and size fields is always caught by the header checksum, wherever the four bytes lie.
\<close>

theorem header_damage_detected:
  assumes "frame_fields r = a @ u @ z" and "length v = length u" and "length u \<le> 4" and "v \<noteq> u"
    and "damaged = (a @ v @ z) @ drop 28 (frame r)"
  shows "headerCrc damaged \<noteq> storedHeaderCrc damaged"
proof -
  have len: "length (a @ v @ z) = 28"
    using assms(1,2) length_frame_fields [of r] by simp
  have d: "drop 28 (frame r) = be32 (crc32 Castagnoli (frame_fields r)) @ lr_payload r"
    by (simp add: frame_def)
  have "headerCrc damaged = Inr (crc32 Castagnoli (a @ v @ z))"
    unfolding assms(5) headerCrc_def using go_slice_at [of "(a @ v @ z) @ drop 28 (frame r)" "[]" "a @ v @ z"
      "drop 28 (frame r)" 0 28] len by simp
  moreover have "storedHeaderCrc damaged = Inr (crc32 Castagnoli (a @ u @ z))"
    unfolding assms(5) storedHeaderCrc_def d assms(1) [symmetric]
    using go_from_at [of "(a @ v @ z) @ be32 (crc32 Castagnoli (frame_fields r)) @ lr_payload r"
        "a @ v @ z" _ 28] len by simp
  moreover have "crc32 Castagnoli (a @ v @ z) \<noteq> crc32 Castagnoli (a @ u @ z)"
    by (rule crc_detects_window) (use assms in auto)
  ultimately show ?thesis by simp
qed

theorem header_damage_detected_witness:
  "headerCrc (7 # drop 1 (frame (record_of 3 sample)))
     \<noteq> storedHeaderCrc (7 # drop 1 (frame (record_of 3 sample)))"
proof -
  have b: "be64 3 = 0 # be 7 3" using be.simps(2) [of 7 3] by (simp add: be64_def)
  then have "frame_fields (record_of 3 sample) = [] @ [0] @ drop 1 (frame_fields (record_of 3 sample))"
    by (simp add: frame_fields_def record_of_def)
  moreover have "7 # drop 1 (frame (record_of 3 sample)) =
      ([] @ [7] @ drop 1 (frame_fields (record_of 3 sample))) @ drop 28 (frame (record_of 3 sample))"
    by (simp add: frame_def)
  note parts = calculation this
  show ?thesis by (rule header_damage_detected [OF parts(1) _ _ _ parts(2)]) simp_all
qed

section \<open>The checked parse\<close>

text \<open>A cursor stays at a 64-bit position, and a read that does not latch an error stays inside.\<close>

definition cur_ok :: "payloadCursor \<Rightarrow> bool" where
  "cur_ok c \<longleftrightarrow> 0 \<le> c_n c \<and> c_n c < 2 ^ 63"

lemma cur_take_total:
  assumes "cur_ok c"
  shows "\<exists>b c'. cur_take n c = Inr (b, c') \<and> cur_ok c'"
proof (cases "c_err c \<or> n < 0 \<or> i64 (c_n c + n) < c_n c \<or> i64 (c_n c + n) > int (length (c_buf c))")
  case True
  then show ?thesis using assms by (auto simp: cur_take_def cur_ok_def)
next
  case False
  then show ?thesis
    using assms i64_range [of "c_n c + n"] by (auto simp: cur_take_def cur_ok_def go_slice_def)
qed

lemma i64_advance:
  assumes "0 \<le> x" and "x < 2 ^ 63" and "0 \<le> n" and "n < 2 ^ 63" and "x \<le> i64 (x + n)"
  shows "i64 (x + n) = x + n"
proof (rule ccontr)
  assume "i64 (x + n) \<noteq> x + n"
  then have ge: "x + n \<ge> 2 ^ 63" using i64_id [of "x + n"] assms by force
  have "i64 (x + n) = i64 (x + n - 2 ^ 64)"
    by (simp add: i64_def signed_take_bit_eq_iff_take_bit_eq take_bit_eq_mod)
  also have "\<dots> = x + n - 2 ^ 64" using ge assms by (intro i64_id) auto
  finally show False using assms by simp
qed

lemma cur_take_Some:
  assumes "cur_take n c = Inr (b, c')" and "\<not> c_err c'" and "cur_ok c" and "n < 2 ^ 63"
  shows "\<not> c_err c" "0 \<le> n" "c' = c \<lparr>c_n := c_n c + n\<rparr>" "c_n c + n \<le> int (length (c_buf c))"
    "\<exists>d. b = Some d \<and> go_slice (c_buf c) (c_n c) (c_n c + n) = Inr d \<and> int (length d) = n"
proof -
  from assms(1,2) have "\<not> c_err c" and n: "0 \<le> n" "c_n c \<le> i64 (c_n c + n)"
    "i64 (c_n c + n) \<le> int (length (c_buf c))"
    by (auto simp: cur_take_def split: if_splits)
  then have i: "i64 (c_n c + n) = c_n c + n"
    using assms(3,4) by (intro i64_advance) (auto simp: cur_ok_def)
  show "\<not> c_err c" "0 \<le> n" by fact+
  show "c_n c + n \<le> int (length (c_buf c))" using n i by simp
  show "c' = c \<lparr>c_n := c_n c + n\<rparr>"
    and "\<exists>d. b = Some d \<and> go_slice (c_buf c) (c_n c) (c_n c + n) = Inr d \<and> int (length d) = n"
    using assms(1,3) n i \<open>\<not> c_err c\<close>
    by (auto simp: cur_take_def result_simps go_slice_def cur_ok_def split: if_splits)
qed

lemma cur_take_length:
  assumes "cur_take n c = Inr (Some d, c')" and "cur_ok c" and "n < 2 ^ 63"
  shows "int (length d) = n"
proof -
  have "\<not> c_err c'" using assms(1) by (auto simp: cur_take_def result_simps split: if_splits)
  then show ?thesis using cur_take_Some(5) [OF assms(1) _ assms(2,3)] by auto
qed

lemma cur_uint_total:
  assumes "cur_ok c"
  shows "\<exists>u c'. cur_uint16 c = Inr (u, c') \<and> cur_ok c'" "\<exists>u c'. cur_uint32 c = Inr (u, c') \<and> cur_ok c'"
proof -
  obtain b c' where t: "cur_take 2 c = Inr (b, c')" "cur_ok c'" using cur_take_total [OF assms] by blast
  then show "\<exists>u c'. cur_uint16 c = Inr (u, c') \<and> cur_ok c'"
    using cur_take_length [of 2 c _ c'] assms by (cases b) (auto simp: cur_uint16_def uint16_of_def)
  obtain b c' where t: "cur_take 4 c = Inr (b, c')" "cur_ok c'" using cur_take_total [OF assms] by blast
  then show "\<exists>u c'. cur_uint32 c = Inr (u, c') \<and> cur_ok c'"
    using cur_take_length [of 4 c _ c'] assms by (cases b) (auto simp: cur_uint32_def uint32_of_def)
qed

lemma skip_field_total:
  assumes "cur_ok c"
  shows "skip_field c = Inl ErrOther \<or> (\<exists>c'. skip_field c = Inr c' \<and> cur_ok c')"
proof -
  obtain u c1 where u: "cur_uint32 c = Inr (u, c1)" "cur_ok c1" using cur_uint_total [OF assms] by blast
  obtain b c2 where "cur_take (sint u) c1 = Inr (b, c2)" "cur_ok c2" using cur_take_total [OF u(2)] by blast
  with u show ?thesis by (auto simp: skip_field_def Let_def)
qed

lemma parse_headers_loop_total:
  "cur_ok c \<Longrightarrow> \<exists>c' hs. parse_headers_loop k c headers = Inr (c', hs)"
proof (induction k arbitrary: c headers)
  case (Suc k)
  obtain ks c1 where 1: "cur_uint16 c = Inr (ks, c1)" "cur_ok c1" using cur_uint_total Suc.prems by blast
  obtain key c2 where 2: "cur_take (int (unat ks)) c1 = Inr (key, c2)" "cur_ok c2"
    using cur_take_total 1 by blast
  obtain vs c3 where 3: "cur_uint32 c2 = Inr (vs, c3)" "cur_ok c3" using cur_uint_total 2 by blast
  obtain v c4 where 4: "cur_take (int (unat vs)) c3 = Inr (v, c4)" "cur_ok c4"
    using cur_take_total 3 by blast
  show ?case using 1 2 3 4 Suc.IH [OF 4(2)] by (simp del: of_nat_unat)
qed simp

lemma uint_of_prefix:
  "2 \<le> n \<Longrightarrow> n \<le> length b \<Longrightarrow> uint16_of (take n b) = uint16_of b"
  "4 \<le> n \<Longrightarrow> n \<le> length b \<Longrightarrow> uint32_of (take n b) = uint32_of b"
  by (simp_all add: uint16_of_def uint32_of_def min_absorb1)

lemma cur_uint16_Some:
  assumes "cur_uint16 c = Inr (u, c')" and "\<not> c_err c'" and "cur_ok c"
  shows "\<not> c_err c" "c' = c \<lparr>c_n := c_n c + 2\<rparr>" "c_n c + 2 \<le> int (length (c_buf c))"
    "and_then (go_from (c_buf c) (c_n c)) uint16_of = Inr u"
proof -
  obtain b where b: "cur_take 2 c = Inr (b, c')"
    using assms(1) by (auto simp: cur_uint16_def result_simps split: option.splits)
  note s = cur_take_Some [OF b assms(2,3)]
  show "\<not> c_err c" "c' = c \<lparr>c_n := c_n c + 2\<rparr>" "c_n c + 2 \<le> int (length (c_buf c))"
    using s by simp_all
  obtain d where d: "b = Some d" "d = take 2 (drop (nat (c_n c)) (c_buf c))"
    using s(5) by (auto simp: go_slice_def split: if_splits)
  then have "uint16_of d = Inr u"
    using assms(1) b by (auto simp: cur_uint16_def result_simps)
  moreover have "2 \<le> length (drop (nat (c_n c)) (c_buf c))"
    using assms(3) \<open>c_n c + 2 \<le> int (length (c_buf c))\<close> unfolding cur_ok_def by (simp, arith)
  ultimately show "and_then (go_from (c_buf c) (c_n c)) uint16_of = Inr u"
    using assms(3) d \<open>c_n c + 2 \<le> int (length (c_buf c))\<close> uint_of_prefix(1) [of 2 "drop (nat (c_n c)) (c_buf c)"]
    by (simp add: go_from_def go_slice_def cur_ok_def)
qed

lemma cur_uint32_Some:
  assumes "cur_uint32 c = Inr (u, c')" and "\<not> c_err c'" and "cur_ok c"
  shows "\<not> c_err c" "c' = c \<lparr>c_n := c_n c + 4\<rparr>" "c_n c + 4 \<le> int (length (c_buf c))"
    "and_then (go_from (c_buf c) (c_n c)) uint32_of = Inr u"
proof -
  obtain b where b: "cur_take 4 c = Inr (b, c')"
    using assms(1) by (auto simp: cur_uint32_def result_simps split: option.splits)
  note s = cur_take_Some [OF b assms(2,3)]
  show "\<not> c_err c" "c' = c \<lparr>c_n := c_n c + 4\<rparr>" "c_n c + 4 \<le> int (length (c_buf c))"
    using s by simp_all
  obtain d where d: "b = Some d" "d = take 4 (drop (nat (c_n c)) (c_buf c))"
    using s(5) by (auto simp: go_slice_def split: if_splits)
  then have "uint32_of d = Inr u"
    using assms(1) b by (auto simp: cur_uint32_def result_simps)
  moreover have "4 \<le> length (drop (nat (c_n c)) (c_buf c))"
    using assms(3) \<open>c_n c + 4 \<le> int (length (c_buf c))\<close> unfolding cur_ok_def by (simp, arith)
  ultimately show "and_then (go_from (c_buf c) (c_n c)) uint32_of = Inr u"
    using assms(3) d \<open>c_n c + 4 \<le> int (length (c_buf c))\<close> uint_of_prefix(2) [of 4 "drop (nat (c_n c)) (c_buf c)"]
    by (simp add: go_from_def go_slice_def cur_ok_def)
qed

lemma cursor_buf:
  "cur_take n c = Inr (b, c') \<Longrightarrow> c_buf c' = c_buf c"
  "cur_uint16 c = Inr (u, c') \<Longrightarrow> c_buf c' = c_buf c"
  "cur_uint32 c = Inr (w, c') \<Longrightarrow> c_buf c' = c_buf c"
  "skip_field c = Inr c' \<Longrightarrow> c_buf c' = c_buf c"
proof -
  show t: "cur_take n c = Inr (b, c') \<Longrightarrow> c_buf c' = c_buf c" for n c b c'
    by (auto simp: cur_take_def result_simps split: if_splits)
  show "cur_uint16 c = Inr (u, c') \<Longrightarrow> c_buf c' = c_buf c"
    by (auto simp: cur_uint16_def result_simps dest: t split: option.splits)
  show u: "cur_uint32 c = Inr (w, c') \<Longrightarrow> c_buf c' = c_buf c" for c w c'
    by (auto simp: cur_uint32_def result_simps dest: t split: option.splits)
  show "skip_field c = Inr c' \<Longrightarrow> c_buf c' = c_buf c"
    by (auto simp: skip_field_def result_simps Let_def dest!: t u split: if_splits)
qed

lemma skip_field_Some:
  assumes "skip_field c = Inr c'" and "\<not> c_err c'" and "cur_ok c"
    and len: "int (length (c_buf c)) < 2 ^ 31"
  shows "\<not> c_err c \<and> c_buf c' = c_buf c \<and> cur_ok c' \<and>
         (\<exists>sz. fieldOffsets (c_buf c) (c_n c) = Inr (c_n c, c_n c', sz))"
proof -
  obtain u c1 where u: "cur_uint32 c = Inr (u, c1)" "cur_ok c1" using cur_uint_total [OF assms(3)] by blast
  have ok: "\<not> c_err c1 \<and> (if sint u = - 1 then c' = c1 else 0 \<le> sint u \<and>
      c' = c1 \<lparr>c_n := c_n c1 + sint u\<rparr> \<and> c_n c1 + sint u \<le> int (length (c_buf c1)))"
  proof (cases "sint u = - 1")
    case False
    then have "0 \<le> sint u" and "\<exists>b. cur_take (sint u) c1 = Inr (b, c')"
      using assms(1) u by (auto simp: skip_field_def Let_def result_simps split: if_splits)
    moreover have "sint u < 2 ^ 63" using sint_range_32 [of u] by auto
    ultimately show ?thesis using cur_take_Some [of "sint u" c1 _ c'] assms(2) u(2) False by auto
  qed (use assms u in \<open>auto simp: skip_field_def Let_def\<close>)
  note s = cur_uint32_Some [OF u(1) _ assms(3)]
  have c1: "\<not> c_err c" "c1 = c \<lparr>c_n := c_n c + 4\<rparr>" "c_n c + 4 \<le> int (length (c_buf c))"
    "and_then (go_from (c_buf c) (c_n c)) uint32_of = Inr u"
    using s ok by auto
  have "i32 (c_n c + 4) = c_n c + 4" using assms(3) len c1(3) by (intro i32_id) (auto simp: cur_ok_def)
  moreover have "sint u \<noteq> - 1 \<Longrightarrow> i32 (c_n c + 4 + sint u) = c_n c + 4 + sint u"
    using assms(3) len c1(2) ok by (intro i32_id) (auto simp: cur_ok_def)
  ultimately have "fieldOffsets (c_buf c) (c_n c) = Inr (c_n c, c_n c', sint u)"
    using c1 ok by (auto simp: fieldOffsets_def Let_def)
  moreover have "cur_ok c'" using assms(3) ok c1 len by (auto simp: cur_ok_def split: if_splits)
  ultimately show ?thesis using c1 ok by (auto split: if_splits)
qed

lemma parse_headers_loop_Some:
  assumes "parse_headers_loop k c headers = Inr (c', hs)" and "\<not> c_err c'" and "cur_ok c"
    and "int (length (c_buf c)) < 2 ^ 31"
  shows "\<not> c_err c \<and> headers_loop k (c_buf c) (c_n c) headers = Inr hs"
  using assms
proof (induction k arbitrary: c headers)
  case (Suc k)
  obtain ks c1 where 1: "cur_uint16 c = Inr (ks, c1)" "cur_ok c1" using cur_uint_total Suc.prems(3) by blast
  obtain key c2 where 2: "cur_take (int (unat ks)) c1 = Inr (key, c2)" "cur_ok c2"
    using cur_take_total 1 by blast
  obtain vs c3 where 3: "cur_uint32 c2 = Inr (vs, c3)" "cur_ok c3" using cur_uint_total 2 by blast
  obtain v c4 where 4: "cur_take (int (unat vs)) c3 = Inr (v, c4)" "cur_ok c4"
    using cur_take_total 3 by blast
  let ?hs = "AList.update (case key of None \<Rightarrow> [] | Some b \<Rightarrow> b) (case v of None \<Rightarrow> [] | Some b \<Rightarrow> b) headers"
  have body: "(if c_err c4 then Inr (c4, headers) else parse_headers_loop k c4 ?hs) = Inr (c', hs)"
    using Suc.prems(1) 1 2 3 4 by (simp del: of_nat_unat)
  then have e4: "\<not> c_err c4" using Suc.prems(2) by (auto split: if_splits)
  have "int (unat vs) < 2 ^ 63" "int (unat ks) < 2 ^ 63"
    using uint_bounded [of vs] uint_bounded [of ks] by simp_all
  note s4 = cur_take_Some [OF 4(1) e4 3(2) this(1)] and ksb = this(2)
  note s3 = cur_uint32_Some [OF 3(1) s4(1) 2(2)]
  note s2 = cur_take_Some [OF 2(1) s3(1) 1(2) ksb]
  note s1 = cur_uint16_Some [OF 1(1) s2(1) Suc.prems(3)]
  have n: "0 \<le> c_n c" using Suc.prems(3) by (simp add: cur_ok_def)
  have buf: "c_buf c1 = c_buf c" "c_buf c2 = c_buf c" "c_buf c3 = c_buf c" "c_buf c4 = c_buf c"
    "c_n c1 = c_n c + 2" "c_n c2 = c_n c1 + int (unat ks)" "c_n c3 = c_n c2 + 4"
    "c_n c4 = c_n c3 + int (unat vs)"
    using s1(2) s2(3) s3(2) s4(3) by simp_all
  have small: "c_n c3 + int (unat vs) < 2 ^ 31" using s4(4) buf Suc.prems(4) by simp
  have vs: "sint vs = int (unat vs)"
  proof -
    have "int (unat vs) < 2 ^ 31"
      using small n buf(5-7) of_nat_0_le_iff [of "unat ks"] by linarith
    then have "i32 (int (unat vs)) = int (unat vs)"
      using of_nat_0_le_iff [of "unat vs"] by (intro i32_id) linarith
    then show ?thesis using sint_word_of_int_32 [of "uint vs"] by simp
  qed
  have i: "i32 (c_n c + 2) = c_n c1" "i32 (c_n c1 + int (unat ks)) = c_n c2" "i32 (c_n c2 + 4) = c_n c3"
    "i32 (c_n c3 + int (unat vs)) = c_n c4"
    using small n buf of_nat_0_le_iff [of "unat ks"] of_nat_0_le_iff [of "unat vs"]
    by (intro i32_id [THEN trans], linarith, linarith)+
  obtain dk dv where d: "key = Some dk" "v = Some dv" "go_slice (c_buf c) (c_n c1) (c_n c2) = Inr dk"
    "go_slice (c_buf c) (c_n c3) (c_n c4) = Inr dv"
    using s2(5) s4(5) buf by auto
  have g: "and_then (go_from (c_buf c) (c_n c)) uint16_of = Inr ks"
    "and_then (go_from (c_buf c) (c_n c2)) uint32_of = Inr vs"
    using s1(4) s3(4) buf by simp_all
  have "headers_loop (Suc k) (c_buf c) (c_n c) headers = headers_loop k (c_buf c) (c_n c4) ?hs"
    by (simp only: headers_loop.simps g d i vs and_then.simps Let_def option.case)
  moreover have "headers_loop k (c_buf c4) (c_n c4) ?hs = Inr hs"
    using Suc.IH [OF _ Suc.prems(2) 4(2)] body e4 Suc.prems(4) buf(4) by simp
  ultimately show ?case using s1(1) buf(4) by simp
qed simp

text \<open>
  The header parse of \<^verbatim>\<open>ReadMessageMetadata\<close> runs on bytes no checksum has vouched for and never
  panics on any of them: it returns the headers or an error.
\<close>

theorem parseHeadersAfterValue_total:
  "parseHeadersAfterValue buf = Inl ErrOther \<or> (\<exists>hs. parseHeadersAfterValue buf = Inr hs)"
proof -
  let ?c = "\<lparr>c_buf = buf, c_n = 6, c_err = False\<rparr>"
  have "cur_ok ?c" by (simp add: cur_ok_def)
  then consider "skip_field ?c = Inl ErrOther" | c1 where "skip_field ?c = Inr c1" "cur_ok c1"
    using skip_field_total by blast
  then show ?thesis
  proof cases
    case (2 c1)
    then consider "skip_field c1 = Inl ErrOther" | c2 where "skip_field c1 = Inr c2" "cur_ok c2"
      using skip_field_total by blast
    then show ?thesis
    proof cases
      case c2: (2 c2)
      obtain n c3 where n: "cur_uint16 c2 = Inr (n, c3)" "cur_ok c3" using cur_uint_total c2 by blast
      obtain c4 hs where "parse_headers_loop (unat n) c3 [] = Inr (c4, hs)"
        using parse_headers_loop_total [OF n(2)] by blast
      with 2 c2 n show ?thesis by (auto simp: parseHeadersAfterValue_def)
    qed (use 2 in \<open>simp add: parseHeadersAfterValue_def\<close>)
  qed (simp add: parseHeadersAfterValue_def)
qed

text \<open>
  The two header parsers agree.  Wherever the checked parse accepts a payload, the unchecked
  accessor \<^verbatim>\<open>Headers\<close> returns the same map and does not panic.
\<close>

theorem parse_agrees_with_Headers:
  assumes "parseHeadersAfterValue buf = Inr hs" and "int (length buf) < 2 ^ 31"
  shows "sm_Headers buf = Inr hs"
proof -
  let ?c = "\<lparr>c_buf = buf, c_n = 6, c_err = False\<rparr>"
  obtain c1 c2 n c3 c4 where p: "skip_field ?c = Inr c1" "skip_field c1 = Inr c2"
    "cur_uint16 c2 = Inr (n, c3)" "parse_headers_loop (unat n) c3 [] = Inr (c4, hs)" "\<not> c_err c4"
    using assms(1) by (auto simp: parseHeadersAfterValue_def result_simps split: if_splits)
  have ok0: "cur_ok ?c" by (simp add: cur_ok_def)
  have ok1: "cur_ok c1" using skip_field_total [OF ok0] p(1) by auto
  have ok2: "cur_ok c2" using skip_field_total [OF ok1] p(2) by auto
  have ok3: "cur_ok c3" using cur_uint_total(1) [OF ok2] p(3) by auto
  have buf: "c_buf c1 = buf" "c_buf c2 = buf" "c_buf c3 = buf"
    using cursor_buf(4) [OF p(1)] cursor_buf(4) [OF p(2)] cursor_buf(2) [OF p(3)] by simp_all
  have 3: "\<not> c_err c3" "headers_loop (unat n) buf (c_n c3) [] = Inr hs"
    using parse_headers_loop_Some [OF p(4,5) ok3] assms(2) buf by simp_all
  note 2 = cur_uint16_Some [OF p(3) 3(1) ok2]
  obtain s1 where 1: "\<not> c_err c1" "fieldOffsets buf (c_n c1) = Inr (c_n c1, c_n c2, s1)"
    using skip_field_Some [OF p(2) 2(1) ok1] assms(2) buf by auto
  obtain s0 where 0: "fieldOffsets buf 6 = Inr (6, c_n c1, s0)"
    using skip_field_Some [OF p(1) 1(1) ok0] assms(2) by auto
  have "i32 (c_n c2 + 2) = c_n c3" using 2 ok2 assms(2) buf by (simp add: i32_id cur_ok_def)
  then show ?thesis
    using 0 1(2) 2(4) 3(2) buf by (simp add: sm_Headers_def valueOffsets_def keyOffsets_def)
qed

theorem parse_agrees_with_Headers_witness:
  "sm_Headers [0, 0, 0, 0, 0, 0, 255, 255, 255, 255, 0, 0, 0, 0, 0, 1, 0, 1, 65, 0, 0, 0, 1, 66] =
     Inr [([65], [66])]"
proof -
  have "parseHeadersAfterValue
      [0, 0, 0, 0, 0, 0, 255, 255, 255, 255, 0, 0, 0, 0, 0, 1, 0, 1, 65, 0, 0, 0, 1, 66] =
      Inr [([65], [66])]"
    by (simp add: parseHeadersAfterValue_def skip_field_def cur_uint32_def cur_uint16_def cur_take_def
        go_slice_def uint32_of_def uint16_of_def i64_id Let_def)
  then show ?thesis by (rule parse_agrees_with_Headers) simp
qed

end
