(* ===== verification/Text_Format.thy ===== *)
theory Text_Format
  imports Prelude
begin

text \<open>
  The pieces of the standard library that the text checkpoints use: decimal printing
  (\<^verbatim>\<open>fmt.Sprintf("%d")\<close>), \<^verbatim>\<open>strconv.ParseUint\<close>, \<^verbatim>\<open>strconv.ParseInt\<close> and \<^verbatim>\<open>strconv.Atoi\<close> in base 10 at 64 bits, and
  \<^verbatim>\<open>bufio.ScanWords\<close>.  The scanner's limit of 64 KiB per word is not modelled.
\<close>

section \<open>Decimal numbers\<close>

fun dec :: "nat \<Rightarrow> bytes" where
  "dec n = (if n < 10 then [word_of_nat (48 + n)]
            else dec (n div 10) @ [word_of_nat (48 + n mod 10)])"

declare dec.simps [simp del]

definition dec_int :: "int \<Rightarrow> bytes" where
  "dec_int i = (if i < 0 then 45 # dec (nat (- i)) else dec (nat i))"

definition is_digit :: "byte \<Rightarrow> bool" where
  "is_digit b \<longleftrightarrow> 48 \<le> unat b \<and> unat b \<le> 57"

definition digits_value :: "bytes \<Rightarrow> nat" where
  "digits_value bs = foldl (\<lambda>a b. a * 10 + (unat b - 48)) 0 bs"

definition parse_uint :: "bytes \<Rightarrow> 64 word option" where
  "parse_uint bs =
     (if bs = [] \<or> \<not> list_all is_digit bs \<or> digits_value bs \<ge> 2 ^ 64 then None
      else Some (word_of_nat (digits_value bs)))"

definition parse_int :: "bytes \<Rightarrow> int option" where
  "parse_int bs =
     (let (neg, ds) = (case bs of [] \<Rightarrow> (False, [])
                       | b # r \<Rightarrow> if b = 45 then (True, r) else if b = 43 then (False, r)
                                 else (False, bs)) in
      if ds = [] \<or> \<not> list_all is_digit ds then None
      else if neg then (if digits_value ds > 2 ^ 63 then None else Some (- int (digits_value ds)))
      else (if digits_value ds \<ge> 2 ^ 63 then None else Some (int (digits_value ds))))"

lemma unat_digit: "k < 10 \<Longrightarrow> unat (word_of_nat (48 + k) :: byte) = 48 + k"
  by (subst unat_of_nat) simp

lemma digit_is_digit: "k < 10 \<Longrightarrow> is_digit (word_of_nat (48 + k))"
  unfolding is_digit_def by (subst (1 2) unat_digit) auto

lemma dec_not_Nil [simp]: "dec n \<noteq> []"
  by (subst dec.simps) simp

lemma dec_digits: "list_all is_digit (dec n)"
proof (induction n rule: dec.induct)
  case (1 n)
  then show ?case
    by (subst dec.simps) (auto simp del: of_nat_add intro: digit_is_digit)
qed

lemma digits_value_dec: "digits_value (dec n) = n"
proof (induction n rule: dec.induct)
  case (1 n)
  show ?case
  proof (cases "n < 10")
    case True
    then show ?thesis
      by (subst dec.simps) (simp add: digits_value_def unat_digit del: of_nat_add)
  next
    case False
    then have "digits_value (dec n) = digits_value (dec (n div 10)) * 10 + n mod 10"
      by (subst dec.simps) (simp add: digits_value_def unat_digit del: of_nat_add)
    also have "\<dots> = n" using 1 False by simp
    finally show ?thesis .
  qed
qed

lemma parse_uint_dec: "parse_uint (dec (unat (w :: 64 word))) = Some w"
  using unsigned_less [where ?'a = nat, of w]
  by (simp add: parse_uint_def dec_digits digits_value_dec)

lemma dec_head: "is_digit (hd (dec n))"
  using dec_digits [of n] by (cases "dec n") auto

lemma parse_int_dec_int: "in_i64 i \<Longrightarrow> parse_int (dec_int i) = Some i"
proof -
  assume r: "in_i64 i"
  obtain b bs where d: "dec (nat i) = b # bs" by (cases "dec (nat i)") auto
  have nd: "b \<noteq> 45" "b \<noteq> 43" using dec_head [of "nat i"] d by (auto simp: is_digit_def)
  show ?thesis
  proof (cases "i < 0")
    case True
    have "nat (- i) \<le> 2 ^ 63" using r by (simp add: nat_le_iff)
    with True show ?thesis by (simp add: parse_int_def dec_int_def dec_digits digits_value_dec)
  next
    case False
    have "nat i < 2 ^ 63" using r False by (simp add: nat_less_iff)
    with False nd show ?thesis
      using dec_digits [of "nat i"] digits_value_dec [of "nat i"]
      by (simp add: parse_int_def dec_int_def d)
  qed
qed

section \<open>Words\<close>

text \<open>
  The width of the white space at the head of the input, zero when there is none: the ASCII
  spaces, and the UTF-8 forms of U+0085, U+00A0, U+1680, U+2000 to U+200A, U+2028, U+2029, U+202F,
  U+205F and U+3000.  None of their lead bytes can occur inside another rune, so looking at every
  position is looking at every rune.
\<close>

definition space_width :: "bytes \<Rightarrow> nat" where
  "space_width bs =
     (case bs of
        [] \<Rightarrow> 0
      | a # r \<Rightarrow>
          if a = 32 \<or> (9 \<le> unat a \<and> unat a \<le> 13) then 1
          else (case r of
             [] \<Rightarrow> 0
           | b # r \<Rightarrow>
               if a = 0xC2 \<and> (b = 0x85 \<or> b = 0xA0) then 2
               else (case r of
                  [] \<Rightarrow> 0
                | c # _ \<Rightarrow>
                    if (a = 0xE1 \<and> b = 0x9A \<and> c = 0x80) \<or>
                       (a = 0xE2 \<and> b = 0x80 \<and>
                         (0x80 \<le> unat c \<and> unat c \<le> 0x8A \<or> c = 0xA8 \<or> c = 0xA9 \<or> c = 0xAF)) \<or>
                       (a = 0xE2 \<and> b = 0x81 \<and> c = 0x9F) \<or> (a = 0xE3 \<and> b = 0x80 \<and> c = 0x80)
                    then 3 else 0)))"

function scan_words :: "bytes \<Rightarrow> bytes \<Rightarrow> bytes list" where
  "scan_words tok [] = (if tok = [] then [] else [tok])"
| "scan_words tok (b # bs) =
     (let w = space_width (b # bs) in
      if w = 0 then scan_words (tok @ [b]) bs
      else (if tok = [] then [] else [tok]) @ scan_words [] (drop (w - 1) bs))"
  by pat_completeness auto
termination
  by (relation "measure (\<lambda>(_, bs). length bs)") auto

definition word_char :: "byte \<Rightarrow> bool" where
  "word_char b \<longleftrightarrow> is_digit b \<or> b = 45"

lemma space_width_word_char:
  assumes "word_char b"
  shows "space_width (b # bs) = 0"
proof -
  have u: "45 \<le> unat b" "unat b \<le> 57" using assms by (auto simp: word_char_def is_digit_def)
  then have "b \<noteq> 32" "b \<noteq> 0xC2" "b \<noteq> 0xE1" "b \<noteq> 0xE2" "b \<noteq> 0xE3" by auto
  with u show ?thesis by (simp add: space_width_def split: list.split)
qed

lemma space_width_sep: "s = 32 \<or> s = 10 \<Longrightarrow> space_width (s # bs) = 1"
  by (auto simp: space_width_def)

lemma scan_words_word:
  "list_all word_char w \<Longrightarrow> tok @ w \<noteq> [] \<Longrightarrow> s = 32 \<or> s = 10 \<Longrightarrow>
     scan_words tok (w @ s # rest) = (tok @ w) # scan_words [] rest"
proof (induction w arbitrary: tok)
  case Nil
  then show ?case by (simp add: space_width_sep Let_def)
next
  case (Cons b w)
  then show ?case by (simp add: space_width_word_char Let_def)
qed

lemma dec_word_chars: "list_all word_char (dec n)" "list_all word_char (dec_int i)"
  using dec_digits by (auto simp: list_all_iff word_char_def dec_int_def)

lemma dec_int_not_Nil [simp]: "dec_int i \<noteq> []"
  by (simp add: dec_int_def)

end
