(* ===== verification/Leader_Epoch.thy ===== *)
theory Leader_Epoch
  imports Text_Format
begin

text \<open>
  \<^verbatim>\<open>leader_epoch_cache.go\<close>: the history of leader epochs and its text checkpoint.

  An entry records where the log stood when an epoch was assigned, so the records of an epoch are
  those strictly above its entry's offset and up to the next entry's.  \<open>tenure\<close> says this as a
  function from offsets to epochs; it is the abstract state, and every operation of the cache is
  proved against it.  The mutex is not modelled: the operations are the critical sections.
\<close>

section \<open>The cache\<close>

record epochOffset =
  leaderEpoch :: "64 word"
  assignedAtOffset :: int

text \<open>
  \<open>checkpointFile\<close> is the content of the checkpoint on disk; \<open>persistent\<close> is \<^verbatim>\<open>checkpointFile != ""\<close>.
\<close>

record leaderEpochCache =
  epochOffsets :: "epochOffset list"
  persistent :: bool
  checkpointFile :: "bytes option"

text \<open>
  How an atomic file replacement ends: the new content is in place; the old content is, and the
  caller gets an error; or the rename happened and the directory flush after it failed.
\<close>

datatype write_outcome = Written | NotWritten | WrittenUnsynced

definition atomic_write :: "write_outcome \<Rightarrow> bytes \<Rightarrow> bytes option \<Rightarrow> bytes option" where
  "atomic_write w new old = (case w of NotWritten \<Rightarrow> old | _ \<Rightarrow> Some new)"

definition earliestOffset :: "epochOffset list \<Rightarrow> int" where
  "earliestOffset es = (if es = [] then - 1 else assignedAtOffset (hd es))"

definition latestEpoch :: "epochOffset list \<Rightarrow> 64 word" where
  "latestEpoch es = (if es = [] then 0 else leaderEpoch (last es))"

definition latestOffset :: "epochOffset list \<Rightarrow> int" where
  "latestOffset es = (if es = [] then - 1 else assignedAtOffset (last es))"

definition findEpoch :: "64 word \<Rightarrow> epochOffset list \<Rightarrow> epochOffset option" where
  "findEpoch epoch es =
     (let i = sort_search (length es) (\<lambda>i. leaderEpoch (es ! i) \<ge> epoch) in
      if i < length es then Some (es ! i) else None)"

text \<open>The checkpoint text.\<close>

definition epoch_line :: "epochOffset \<Rightarrow> bytes" where
  "epoch_line e = dec (unat (leaderEpoch e)) @ [32] @ dec_int (assignedAtOffset e) @ [10]"

definition checkpoint_text :: "epochOffset list \<Rightarrow> bytes" where
  "checkpoint_text es =
     dec 0 @ [10] @ dec (length es) @ [10] @ concat (map epoch_line es)"

text \<open>\<^verbatim>\<open>flush\<close> returns the error, if any, and the cache with its file.\<close>

definition flush :: "write_outcome \<Rightarrow> leaderEpochCache \<Rightarrow> leaderEpochCache \<times> err option" where
  "flush w l =
     (if \<not> persistent l then (l, None)
      else (l \<lparr>checkpointFile := atomic_write w (checkpoint_text (epochOffsets l)) (checkpointFile l)\<rparr>,
            if w = Written then None else Some IOError))"

definition assign :: "write_outcome \<Rightarrow> 64 word \<Rightarrow> int \<Rightarrow> leaderEpochCache \<Rightarrow> leaderEpochCache \<times> err option" where
  "assign w epoch offset l =
     (let es = epochOffsets l in
      if es = [] \<or> epoch > latestEpoch es \<and> offset \<ge> latestOffset es
      then flush w (l \<lparr>epochOffsets := es @ [\<lparr>leaderEpoch = epoch, assignedAtOffset = offset\<rparr>]\<rparr>)
      else (l, None))"

text \<open>\<^verbatim>\<open>epoch + 1\<close> is 64-bit and wraps.\<close>

definition LastOffsetForLeaderEpoch :: "64 word \<Rightarrow> leaderEpochCache \<Rightarrow> int \<times> bool" where
  "LastOffsetForLeaderEpoch epoch l =
     (case findEpoch (epoch + 1) (epochOffsets l) of
        None \<Rightarrow> (- 1, False)
      | Some e \<Rightarrow> (assignedAtOffset e, True))"

definition LastLeaderEpoch :: "leaderEpochCache \<Rightarrow> 64 word" where
  "LastLeaderEpoch l = latestEpoch (epochOffsets l)"

definition ClearLatest :: "write_outcome \<Rightarrow> int \<Rightarrow> leaderEpochCache \<Rightarrow> leaderEpochCache \<times> err option" where
  "ClearLatest w offset l =
     (if offset > latestOffset (epochOffsets l) then (l, None)
      else flush w (l \<lparr>epochOffsets := filter (\<lambda>e. assignedAtOffset e < offset) (epochOffsets l)\<rparr>))"

definition ClearEarliest :: "write_outcome \<Rightarrow> int \<Rightarrow> leaderEpochCache \<Rightarrow> leaderEpochCache \<times> err option" where
  "ClearEarliest w offset l =
     (let es = epochOffsets l in
      if offset \<le> 0 then (l, None)
      else if earliestOffset es \<ge> offset then (l, None)
      else let earliest = filter (\<lambda>e. assignedAtOffset e < offset) es in
        if earliest = [] then (l, None)
        else let es = drop (length earliest) es;
                 es = (if offset < earliestOffset es \<or> es = []
                       then \<lparr>leaderEpoch = leaderEpoch (last earliest), assignedAtOffset = offset\<rparr> # es
                       else es) in
          flush w (l \<lparr>epochOffsets := es\<rparr>))"

section \<open>Reading the checkpoint\<close>

text \<open>The loop over the words; \<open>seen\<close> is the map of epochs already read.\<close>

fun read_epochs :: "64 word list \<Rightarrow> bytes list \<Rightarrow> epochOffset list result" where
  "read_epochs seen [] = Inr []"
| "read_epochs seen [w] = Inl ErrOther"
| "read_epochs seen (w # v # ws) =
     (case parse_uint w of
        None \<Rightarrow> Inl ErrOther
      | Some epoch \<Rightarrow>
         (case parse_int v of
            None \<Rightarrow> Inl ErrOther
          | Some offset \<Rightarrow>
              if epoch \<in> set seen then Inl ErrOther
              else and_then (read_epochs (epoch # seen) ws) (\<lambda>es.
                Inr (\<lparr>leaderEpoch = epoch, assignedAtOffset = offset\<rparr> # es))))"

definition readLeaderEpochOffsets :: "bytes \<Rightarrow> epochOffset list result" where
  "readLeaderEpochOffsets file =
     (case scan_words [] file of
        [] \<Rightarrow> Inl ErrOther
      | v # rest \<Rightarrow>
         (case parse_int v of
            None \<Rightarrow> Inl ErrOther
          | Some version \<Rightarrow>
              if version \<noteq> 0 then Inl ErrOther
              else (case rest of
                 [] \<Rightarrow> Inl ErrOther
               | n # ws \<Rightarrow>
                  (case parse_int n of
                     None \<Rightarrow> Inl ErrOther
                   | Some numEntries \<Rightarrow>
                       and_then (read_epochs [] ws) (\<lambda>es.
                         if numEntries \<noteq> int (length es) then Inl ErrOther else Inr es)))))"

text \<open>Opening: the file is read, absent, or unreadable.\<close>

datatype file_read = FileAbsent | FileFailed | FileRead bytes

definition newLeaderEpochCache :: "file_read \<Rightarrow> leaderEpochCache result" where
  "newLeaderEpochCache f =
     (case f of
        FileAbsent \<Rightarrow> Inr \<lparr>epochOffsets = [], persistent = True, checkpointFile = None\<rparr>
      | FileFailed \<Rightarrow> Inl IOError
      | FileRead b \<Rightarrow> and_then (readLeaderEpochOffsets b) (\<lambda>es.
          Inr \<lparr>epochOffsets = es, persistent = True, checkpointFile = Some b\<rparr>))"

section \<open>Tenures\<close>

text \<open>
  The epoch the record at an offset was written under: that of the last entry anchored below it.
\<close>

definition tenure :: "epochOffset list \<Rightarrow> int \<Rightarrow> 64 word option" where
  "tenure es off =
     (let below = filter (\<lambda>e. assignedAtOffset e < off) es in
      if below = [] then None else Some (leaderEpoch (last below)))"

text \<open>Epochs rise, anchors do not fall.\<close>

definition epochs_wf :: "epochOffset list \<Rightarrow> bool" where
  "epochs_wf es \<longleftrightarrow>
     sorted_wrt (\<lambda>a b. leaderEpoch a < leaderEpoch b \<and> assignedAtOffset a \<le> assignedAtOffset b) es"

lemma epochs_wf_append:
  "epochs_wf (xs @ ys) \<longleftrightarrow> epochs_wf xs \<and> epochs_wf ys \<and>
     (\<forall>x\<in>set xs. \<forall>y\<in>set ys. leaderEpoch x < leaderEpoch y \<and> assignedAtOffset x \<le> assignedAtOffset y)"
  by (simp add: epochs_wf_def sorted_wrt_append)

lemma epochs_wf_Cons:
  "epochs_wf (x # xs) \<longleftrightarrow> epochs_wf xs \<and>
     (\<forall>y\<in>set xs. leaderEpoch x < leaderEpoch y \<and> assignedAtOffset x \<le> assignedAtOffset y)"
  by (auto simp: epochs_wf_def)

text \<open>In a well-formed history the entries below an offset are a prefix.\<close>

lemma below_prefix:
  "epochs_wf es \<Longrightarrow> filter (\<lambda>e. assignedAtOffset e < off) es = takeWhile (\<lambda>e. assignedAtOffset e < off) es"
proof (induction es)
  case (Cons e es)
  show ?case
  proof (cases "assignedAtOffset e < off")
    case False
    with Cons.prems have "filter (\<lambda>e. assignedAtOffset e < off) es = []"
      by (force simp: epochs_wf_Cons filter_empty_conv)
    with False show ?thesis by simp
  qed (use Cons in \<open>simp add: epochs_wf_Cons\<close>)
qed simp

lemma drop_below:
  "epochs_wf es \<Longrightarrow> drop (length (filter (\<lambda>e. assignedAtOffset e < off) es)) es =
     filter (\<lambda>e. \<not> assignedAtOffset e < off) es"
proof (induction es)
  case (Cons e es)
  show ?case
  proof (cases "assignedAtOffset e < off")
    case False
    with Cons.prems have "filter (\<lambda>e. assignedAtOffset e < off) es = []" "\<forall>x\<in>set es. \<not> assignedAtOffset x < off"
      by (auto simp: epochs_wf_Cons filter_empty_conv)
    with False show ?thesis by simp
  qed (use Cons in \<open>simp add: epochs_wf_Cons\<close>)
qed simp

lemma tenure_split:
  assumes "epochs_wf es" and "tenure es off = Some ep"
  obtains pre e post where "es = pre @ e # post" "leaderEpoch e = ep" "assignedAtOffset e < off"
    "\<And>x. x \<in> set post \<Longrightarrow> \<not> assignedAtOffset x < off"
proof -
  let ?b = "filter (\<lambda>e. assignedAtOffset e < off) es"
  have b: "?b \<noteq> []" "leaderEpoch (last ?b) = ep"
    using assms(2) by (auto simp: tenure_def Let_def split: if_splits)
  have "es = ?b @ filter (\<lambda>e. \<not> assignedAtOffset e < off) es"
    using below_prefix [OF assms(1), of off] drop_below [OF assms(1), of off]
    by (metis append_take_drop_id takeWhile_eq_take)
  also have "?b = butlast ?b @ [last ?b]" using b(1) by simp
  finally have es: "es = butlast ?b @ last ?b # filter (\<lambda>e. \<not> assignedAtOffset e < off) es" by simp
  have "assignedAtOffset (last ?b) < off" using last_in_set [OF b(1)] by simp
  with es b(2) show ?thesis by (intro that [OF es]) auto
qed

lemma tenure_None: "tenure es off = None \<longleftrightarrow> (\<forall>e\<in>set es. \<not> assignedAtOffset e < off)"
  by (auto simp: tenure_def Let_def filter_empty_conv split: if_splits)

section \<open>The checkpoint reads back\<close>

lemma read_epochs_lines:
  assumes "distinct (map leaderEpoch es)" and "list_all (\<lambda>e. in_i64 (assignedAtOffset e)) es"
    and "set seen \<inter> leaderEpoch ` set es = {}"
  shows "read_epochs seen (concat (map (\<lambda>e. [dec (unat (leaderEpoch e)), dec_int (assignedAtOffset e)]) es)) =
           Inr es"
  using assms
proof (induction es arbitrary: seen)
  case (Cons e es)
  then show ?case by (simp add: parse_uint_dec parse_int_dec_int)
qed simp

lemma scan_epoch_lines:
  "scan_words [] (concat (map epoch_line es)) =
     concat (map (\<lambda>e. [dec (unat (leaderEpoch e)), dec_int (assignedAtOffset e)]) es)"
  by (induction es) (simp_all add: epoch_line_def scan_words_word dec_word_chars)

lemma readLeaderEpochOffsets_checkpoint:
  assumes "distinct (map leaderEpoch es)" and "list_all (\<lambda>e. in_i64 (assignedAtOffset e)) es"
    and "int (length es) < 2 ^ 63"
  shows "readLeaderEpochOffsets (checkpoint_text es) = Inr es"
proof -
  have "scan_words [] (checkpoint_text es) =
      dec 0 # dec (length es) #
      concat (map (\<lambda>e. [dec (unat (leaderEpoch e)), dec_int (assignedAtOffset e)]) es)"
    by (simp add: checkpoint_text_def scan_words_word dec_word_chars scan_epoch_lines)
  moreover have "parse_int (dec 0) = Some 0" using parse_int_dec_int [of 0] by (simp add: dec_int_def)
  moreover have "parse_int (dec (length es)) = Some (int (length es))"
    using parse_int_dec_int [of "int (length es)"] assms(3) by (simp add: dec_int_def)
  ultimately show ?thesis
    using read_epochs_lines [OF assms(1,2), of "[]"] by (simp add: readLeaderEpochOffsets_def)
qed

lemma epochs_wf_distinct: "epochs_wf es \<Longrightarrow> distinct (map leaderEpoch es)"
  by (induction es) (auto simp: epochs_wf_Cons)

section \<open>Operations and tenures\<close>

lemma flush_epochs [simp]: "epochOffsets (fst (flush w l)) = epochOffsets l"
  by (simp add: flush_def)

lemma flush_file:
  "persistent l \<Longrightarrow> snd (flush w l) = None \<Longrightarrow>
     checkpointFile (fst (flush w l)) = Some (checkpoint_text (epochOffsets l))"
  by (cases w) (auto simp: flush_def atomic_write_def)

lemma epochs_wf_filter: "epochs_wf es \<Longrightarrow> epochs_wf (filter P es)"
  by (simp add: epochs_wf_def sorted_wrt_filter)

lemma latest_below:
  assumes "epochs_wf es" and "x \<in> set es"
  shows "leaderEpoch x \<le> latestEpoch es" "assignedAtOffset x \<le> latestOffset es"
proof -
  have "es = butlast es @ [last es]" using assms(2) by (cases es) auto
  with assms have "x = last es \<or> leaderEpoch x < leaderEpoch (last es) \<and>
      assignedAtOffset x \<le> assignedAtOffset (last es)"
    by (metis Un_iff epochs_wf_append list.set_intros(1) set_ConsD set_append empty_iff list.set(1))
  with assms(2) show "leaderEpoch x \<le> latestEpoch es" "assignedAtOffset x \<le> latestOffset es"
    by (auto simp: latestEpoch_def latestOffset_def)
qed

lemma assign_wf:
  assumes "epochs_wf (epochOffsets l)"
  shows "epochs_wf (epochOffsets (fst (assign w epoch offset l)))"
proof (cases "epochOffsets l = []")
  case False
  then show ?thesis
    using assms latest_below [OF assms]
    by (force simp: assign_def Let_def epochs_wf_append epochs_wf_Cons epochs_wf_def [of "[]"]
        intro: le_less_trans)
qed (simp add: assign_def epochs_wf_def)

lemma ClearLatest_wf:
  "epochs_wf (epochOffsets l) \<Longrightarrow> epochs_wf (epochOffsets (fst (ClearLatest w offset l)))"
  by (simp add: ClearLatest_def epochs_wf_filter)

lemma ClearEarliest_wf:
  assumes "epochs_wf (epochOffsets l)"
  shows "epochs_wf (epochOffsets (fst (ClearEarliest w offset l)))"
proof -
  let ?es = "epochOffsets l"
  let ?b = "filter (\<lambda>e. assignedAtOffset e < offset) ?es"
  let ?a = "filter (\<lambda>e. \<not> assignedAtOffset e < offset) ?es"
  have es: "?es = ?b @ ?a"
    using below_prefix [OF assms, of offset] drop_below [OF assms, of offset]
    by (metis append_take_drop_id takeWhile_eq_take)
  have "epochs_wf (\<lparr>leaderEpoch = leaderEpoch (last ?b), assignedAtOffset = offset\<rparr> # ?a)"
    if "?b \<noteq> []"
  proof -
    have "epochs_wf (?b @ ?a)" using assms es by simp
    then show ?thesis
      using last_in_set [OF that] unfolding epochs_wf_Cons epochs_wf_append by auto
  qed
  moreover have "epochs_wf ?a" using assms by (rule epochs_wf_filter)
  ultimately show ?thesis
    using assms by (simp add: ClearEarliest_def Let_def drop_below [OF assms])
qed

lemma tenure_assign:
  assumes "epochs_wf (epochOffsets l)" and "fst (assign w epoch offset l) \<noteq> l"
  shows "tenure (epochOffsets (fst (assign w epoch offset l))) off =
           (if off \<le> offset then tenure (epochOffsets l) off else Some epoch)"
  using assms by (auto simp: assign_def Let_def tenure_def split: if_splits)

lemma tenure_ClearLatest:
  assumes "epochs_wf (epochOffsets l)" and "off \<le> offset"
  shows "tenure (epochOffsets (fst (ClearLatest w offset l))) off = tenure (epochOffsets l) off"
proof -
  have [simp]: "(a < offset \<and> a < off) = (a < off)" for a using assms(2) by auto
  show ?thesis by (simp add: ClearLatest_def tenure_def)
qed

lemma tenure_ClearEarliest:
  assumes wf: "epochs_wf (epochOffsets l)" and "offset < off"
  shows "tenure (epochOffsets (fst (ClearEarliest w offset l))) off = tenure (epochOffsets l) off"
proof -
  let ?es = "epochOffsets l"
  let ?b = "filter (\<lambda>e. assignedAtOffset e < offset) ?es"
  let ?a = "filter (\<lambda>e. \<not> assignedAtOffset e < offset) ?es"
  have es: "?es = ?b @ ?a"
    using below_prefix [OF wf, of offset] drop_below [OF wf, of offset]
    by (metis append_take_drop_id takeWhile_eq_take)
  define b a where "b = ?b" and "a = ?a"
  have es': "epochOffsets l = b @ a" using es by (simp add: b_def a_def)
  have all_b: "filter (\<lambda>e. assignedAtOffset e < off) b = b"
    using assms(2) by (intro filter_True) (auto simp: b_def)
  have low: "a \<noteq> [] \<Longrightarrow> \<not> offset < earliestOffset a \<Longrightarrow> filter (\<lambda>e. assignedAtOffset e < off) a \<noteq> []"
    using assms(2) by (cases a) (auto simp: earliestOffset_def)
  show ?thesis
    unfolding ClearEarliest_def Let_def drop_below [OF wf] using all_b low assms(2)
    by (fold b_def a_def) (auto simp: es' tenure_def Let_def)
qed

text \<open>Trimming to an offset leaves the record at that offset without an epoch.\<close>

lemma tenure_at_floor:
  assumes wf: "epochs_wf (epochOffsets l)" and "0 < offset"
  shows "tenure (epochOffsets (fst (ClearEarliest w offset l))) offset = None"
proof -
  let ?es = "epochOffsets l"
  have "assignedAtOffset (hd ?es) \<le> assignedAtOffset e" if "e \<in> set ?es" for e
    using wf that by (cases ?es) (auto simp: epochs_wf_Cons)
  then have "\<not> assignedAtOffset e < offset" if "e \<in> set ?es" "offset \<le> earliestOffset ?es" for e
    using that by (fastforce simp: earliestOffset_def split: if_splits)
  then show ?thesis using assms(2)
    by (auto simp: ClearEarliest_def Let_def drop_below [OF wf] tenure_None filter_empty_conv)
qed

section \<open>Histories as their users see them\<close>

text \<open>
  What the log relies on: operations keep the history well formed, and each operation leaves the owner of certain
  offsets alone or takes it away.  The epoch of a record is then stable under any sequence of operations it
  survives, until one of them takes it away for good.
\<close>

locale epoch_history =
  fixes wf :: "'c \<Rightarrow> bool" and step :: "'o \<Rightarrow> 'c \<Rightarrow> 'c" and owner :: "'c \<Rightarrow> int \<Rightarrow> 64 word option"
    and spares :: "'o \<Rightarrow> int \<Rightarrow> bool" and disowns :: "'o \<Rightarrow> int \<Rightarrow> bool"
  assumes step_wf: "wf c \<Longrightarrow> wf (step op c)"
    and step_owner: "wf c \<Longrightarrow> spares op off \<Longrightarrow> owner (step op c) off = (if disowns op off then None else owner c off)"
begin

lemma run_wf: "wf c \<Longrightarrow> wf (fold step ops c)"
  by (induction ops arbitrary: c) (auto simp: step_wf)

lemma run_owner:
  "wf c \<Longrightarrow> list_all (\<lambda>op. spares op off) ops \<Longrightarrow>
     owner (fold step ops c) off = (if list_ex (\<lambda>op. disowns op off) ops then None else owner c off)"
  by (induction ops arbitrary: c) (auto simp: step_wf step_owner)

end

datatype epoch_op =
    AssignOp write_outcome "64 word" int
  | ClearLatestOp write_outcome int
  | ClearEarliestOp write_outcome int

fun epoch_step :: "epoch_op \<Rightarrow> leaderEpochCache \<Rightarrow> leaderEpochCache" where
  "epoch_step (AssignOp w e off) l = fst (assign w e off l)"
| "epoch_step (ClearLatestOp w off) l = fst (ClearLatest w off l)"
| "epoch_step (ClearEarliestOp w off) l = fst (ClearEarliest w off l)"

text \<open>
  The records an operation is not about: an assignment at an offset opens an epoch for what is above it, a truncation
  to an offset removes what is at or above it, and a trim what is below its floor.  The record at the floor of a
  trim survives it.
\<close>

fun epoch_spares :: "epoch_op \<Rightarrow> int \<Rightarrow> bool" where
  "epoch_spares (AssignOp w e a) off = (off \<le> a)"
| "epoch_spares (ClearLatestOp w a) off = (off \<le> a)"
| "epoch_spares (ClearEarliestOp w a) off = (a \<le> off)"

fun at_floor :: "epoch_op \<Rightarrow> int \<Rightarrow> bool" where
  "at_floor (ClearEarliestOp w a) off = (0 < a \<and> off = a)"
| "at_floor _ off = False"

definition cache_tenure :: "leaderEpochCache \<Rightarrow> int \<Rightarrow> 64 word option" where
  "cache_tenure l = tenure (epochOffsets l)"

interpretation epochs: epoch_history
  "\<lambda>l :: leaderEpochCache. epochs_wf (epochOffsets l)" epoch_step cache_tenure epoch_spares at_floor
proof
  fix op and l :: leaderEpochCache and off assume wf: "epochs_wf (epochOffsets l)"
  show "epochs_wf (epochOffsets (epoch_step op l))"
    using wf by (cases op) (simp_all add: assign_wf ClearLatest_wf ClearEarliest_wf)
  show "epoch_spares op off \<Longrightarrow>
      cache_tenure (epoch_step op l) off = (if at_floor op off then None else cache_tenure l off)"
  proof (cases op)
    case (AssignOp w e a)
    then show "epoch_spares op off \<Longrightarrow> ?thesis"
      using tenure_assign [OF wf, of w e a off] by (cases "fst (assign w e a l) = l") (auto simp: cache_tenure_def)
  next
    case (ClearEarliestOp w a)
    moreover have "a \<le> 0 \<Longrightarrow> ClearEarliest w a l = (l, None)" by (simp add: ClearEarliest_def)
    ultimately show "epoch_spares op off \<Longrightarrow> ?thesis"
      using tenure_ClearEarliest [OF wf, of a off w] tenure_at_floor [OF wf, of a w]
      by (cases "off = a"; cases "0 < a") (auto simp: cache_tenure_def)
  qed (simp add: cache_tenure_def tenure_ClearLatest [OF wf])
qed

text \<open>
  C24: attribution is stable except at a trim's floor.  From an empty history, any sequence of assignments, truncations
  and trims keeps epochs strictly rising and anchors monotone.  A record that every later operation leaves in the
  log keeps the epoch the history gave it, unless it was the oldest record left by one of the trims: then the history
  names no epoch for it any more, because the trim anchors the surviving epoch at its floor and an epoch's records
  are those above its anchor.
\<close>

theorem epoch_history_stable:
  assumes "epochOffsets l = []" and "list_all (\<lambda>op. epoch_spares op off) later"
  shows "epochs_wf (epochOffsets (fold epoch_step (ops @ later) l)) \<and>
         cache_tenure (fold epoch_step (ops @ later) l) off =
           (if list_ex (\<lambda>op. at_floor op off) later then None else cache_tenure (fold epoch_step ops l) off)"
proof -
  have "epochs_wf (epochOffsets l)" using assms(1) by (simp add: epochs_wf_def)
  then show ?thesis
    using epochs.run_wf [of l "ops @ later"] epochs.run_wf [of l ops]
      epochs.run_owner [OF _ assms(2), of "fold epoch_step ops l"] by simp
qed

definition no_history :: leaderEpochCache where
  "no_history = \<lparr>epochOffsets = [], persistent = True, checkpointFile = None\<rparr>"

theorem epoch_history_stable_witness:
  "cache_tenure (fold epoch_step ([AssignOp Written 0 (- 1), AssignOp NotWritten 3 9] @
       [AssignOp Written 4 20, ClearEarliestOp Written 2, ClearLatestOp Written 15]) no_history) 12 = Some 3 \<and>
   cache_tenure (fold epoch_step ([AssignOp Written 1 (- 1)] @ [ClearEarliestOp Written 5]) no_history) 5 = None"
  using epoch_history_stable [of no_history 12 "[AssignOp Written 4 20, ClearEarliestOp Written 2, ClearLatestOp Written 15]"
      "[AssignOp Written 0 (- 1), AssignOp NotWritten 3 9]"]
    epoch_history_stable [of no_history 5 "[ClearEarliestOp Written 5]" "[AssignOp Written 1 (- 1)]"]
  by (simp add: cache_tenure_def assign_def flush_def atomic_write_def tenure_def latestEpoch_def latestOffset_def
      Let_def no_history_def)

section \<open>The truncation probe\<close>

lemma findEpoch_first:
  assumes "epochs_wf es"
  shows "findEpoch epoch es =
           (case dropWhile (\<lambda>e. \<not> leaderEpoch e \<ge> epoch) es of [] \<Rightarrow> None | e # _ \<Rightarrow> Some e)"
proof -
  let ?n = "length (takeWhile (\<lambda>e. \<not> leaderEpoch e \<ge> epoch) es)"
  have "sort_search (length es) (\<lambda>i. leaderEpoch (es ! i) \<ge> epoch) = ?n"
  proof (rule gosort.search_list_first [where P = "\<lambda>e. leaderEpoch e \<ge> epoch"])
    fix i j assume "i \<le> j" "j < length es" "leaderEpoch (es ! i) \<ge> epoch"
    then show "leaderEpoch (es ! j) \<ge> epoch"
      using assms sorted_wrt_nth_less [of _ es i j] by (cases "i = j") (force simp: epochs_wf_def)+
  qed
  moreover have "dropWhile (\<lambda>e. \<not> leaderEpoch e \<ge> epoch) es = drop ?n es"
    by (rule dropWhile_eq_drop)
  ultimately show ?thesis
    by (auto simp: findEpoch_def Let_def Cons_nth_drop_Suc [symmetric] split: list.splits)
qed

lemma word_ge_succ:
  assumes "(e :: 64 word) \<noteq> - 1"
  shows "(x \<ge> e + 1) = (x > e)"
proof -
  have "1 + e \<noteq> 0" using assms by (metis add.commute add_eq_0_iff)
  then have "unat (e + 1) = Suc (unat e)" using unatSuc [of e] by (simp add: add.commute)
  then show ?thesis by (simp add: word_le_nat_alt word_less_nat_alt Suc_le_eq)
qed

text \<open>
  The probe splits offsets by tenure: when the cache answers a probe for epoch \<open>e\<close> with an offset, the offsets up to
  it are exactly those whose tenure is an epoch at most \<open>e\<close>; when it has no answer, no offset is of a later epoch.
\<close>

lemma probe_splits_by_tenure:
  assumes "epochs_wf (epochOffsets l)" and "e \<noteq> - 1" and "cache_tenure l off = Some ep"
  shows "case LastOffsetForLeaderEpoch e l of
           (r, True) \<Rightarrow> (off \<le> r) = (ep \<le> e)
         | (r, False) \<Rightarrow> r = - 1 \<and> ep \<le> e"
proof -
  let ?es = "epochOffsets l"
  obtain pre x post where es: "?es = pre @ x # post" "leaderEpoch x = ep" "assignedAtOffset x < off"
    "\<And>y. y \<in> set post \<Longrightarrow> \<not> assignedAtOffset y < off"
    using tenure_split [OF assms(1)] assms(3) unfolding cache_tenure_def by blast
  note ge = word_ge_succ [OF assms(2)]
  show ?thesis
  proof (cases "dropWhile (\<lambda>y. \<not> leaderEpoch y > e) ?es")
    case Nil
    then have "\<forall>y\<in>set ?es. \<not> leaderEpoch y > e" by (simp add: dropWhile_eq_Nil_conv)
    with es(1,2) have "ep \<le> e" by auto
    moreover have "findEpoch (e + 1) ?es = None"
      unfolding findEpoch_first [OF assms(1)] ge Nil by simp
    ultimately show ?thesis by (simp add: LastOffsetForLeaderEpoch_def)
  next
    case (Cons y ys)
    define us where "us = takeWhile (\<lambda>y. \<not> leaderEpoch y > e) ?es"
    have split: "?es = us @ y # ys" using Cons takeWhile_dropWhile_id [of "\<lambda>y. \<not> leaderEpoch y > e" ?es]
      by (simp add: us_def)
    have y: "leaderEpoch y > e" using hd_dropWhile [of "\<lambda>y. \<not> leaderEpoch y > e" ?es] Cons by simp
    have us: "\<And>u. u \<in> set us \<Longrightarrow> leaderEpoch u \<le> e" by (auto simp: us_def dest: set_takeWhileD)
    have "(off \<le> assignedAtOffset y) = (ep \<le> e)"
    proof
      assume "ep \<le> e"
      then have "x \<notin> set (y # ys)"
        using y es(2) assms(1) split by (auto simp: epochs_wf_append epochs_wf_Cons)
      then have "y \<in> set post" using es(1) split by (auto simp: append_eq_append_conv2 append_eq_Cons_conv Cons_eq_append_conv)
      then show "off \<le> assignedAtOffset y" using es(4) by force
    next
      assume le: "off \<le> assignedAtOffset y"
      then have "x \<notin> set (y # ys)"
        using es(3) assms(1) split by (fastforce simp: epochs_wf_append epochs_wf_Cons)
      then have "x \<in> set us" using es(1) split by (metis Un_iff in_set_conv_decomp set_append)
      then show "ep \<le> e" using us es(2) by blast
    qed
    moreover have "findEpoch (e + 1) ?es = Some y"
      unfolding findEpoch_first [OF assms(1)] ge Cons by simp
    ultimately show ?thesis by (simp add: LastOffsetForLeaderEpoch_def)
  qed
qed

text \<open>The epoch the cache stands for at an offset; before the first entry it is 0, the epoch of a log that never failed over.\<close>

definition epoch_at :: "leaderEpochCache \<Rightarrow> int \<Rightarrow> 64 word" where
  "epoch_at l off = (case cache_tenure l off of None \<Rightarrow> 0 | Some e \<Rightarrow> e)"

lemma findEpoch_mem: "findEpoch e es = Some x \<Longrightarrow> x \<in> set es"
  by (auto simp: findEpoch_def Let_def split: if_splits)

lemma probe_splits_offsets:
  assumes "epochs_wf (epochOffsets l)" and "e \<noteq> - 1"
  shows "case LastOffsetForLeaderEpoch e l of
           (r, True) \<Rightarrow> (off \<le> r) = (epoch_at l off \<le> e)
         | (r, False) \<Rightarrow> epoch_at l off \<le> e"
proof (cases "cache_tenure l off")
  case None
  then have "\<forall>x \<in> set (epochOffsets l). off \<le> assignedAtOffset x" by (auto simp: cache_tenure_def tenure_None not_less)
  then show ?thesis using None findEpoch_mem [of "e + 1" "epochOffsets l"]
    by (auto simp: LastOffsetForLeaderEpoch_def epoch_at_def split: option.split)
next
  case (Some ep)
  then show ?thesis using probe_splits_by_tenure [OF assms Some] by (auto simp: epoch_at_def split: prod.splits bool.splits)
qed

text \<open>
  A probe for the highest epoch wraps: \<^verbatim>\<open>epoch + 1\<close> is zero, and the cache answers with the anchor of
  its first entry, although no later epoch can exist.
\<close>

theorem probe_max_epoch_wraps:
  assumes "epochOffsets l = e # es" and "epochs_wf (epochOffsets l)"
  shows "LastOffsetForLeaderEpoch (- 1) l = (assignedAtOffset e, True)"
  using findEpoch_first [OF assms(2), of 0] assms(1) by (simp add: LastOffsetForLeaderEpoch_def)

theorem probe_max_epoch_wraps_witness:
  "LastOffsetForLeaderEpoch (- 1) \<lparr>epochOffsets = [\<lparr>leaderEpoch = - 1, assignedAtOffset = 4\<rparr>],
     persistent = False, checkpointFile = None\<rparr> = (4, True)"
  using probe_max_epoch_wraps [of "\<lparr>epochOffsets = [\<lparr>leaderEpoch = - 1, assignedAtOffset = 4\<rparr>],
     persistent = False, checkpointFile = None\<rparr>" "\<lparr>leaderEpoch = - 1, assignedAtOffset = 4\<rparr>" "[]"]
  by (simp add: epochs_wf_def)

text \<open>
  A flushed history survives a restart: when \<^verbatim>\<open>flush\<close> reports success, opening the checkpoint it left
  yields the history that was flushed, entry for entry.
\<close>

theorem reopen_after_flush:
  assumes "epochs_wf (epochOffsets l)" and "persistent l" and "int (length (epochOffsets l)) < 2 ^ 63"
    and "list_all (\<lambda>e. in_i64 (assignedAtOffset e)) (epochOffsets l)" and "flush w l = (l', None)"
  shows "\<exists>file. checkpointFile l' = Some file \<and> newLeaderEpochCache (FileRead file) = Inr l'"
proof -
  have f: "checkpointFile l' = Some (checkpoint_text (epochOffsets l))"
    using flush_file [OF assms(2), of w] assms(5) by simp
  have "l' = l \<lparr>checkpointFile := Some (checkpoint_text (epochOffsets l))\<rparr>"
    using assms(2,5) f by (auto simp: flush_def split: if_splits)
  then show ?thesis
    using f assms(2) readLeaderEpochOffsets_checkpoint [OF epochs_wf_distinct [OF assms(1)] assms(4,3)]
    by (simp add: newLeaderEpochCache_def)
qed

theorem reopen_after_flush_witness:
  "\<exists>l' file. flush Written \<lparr>epochOffsets = [\<lparr>leaderEpoch = 1, assignedAtOffset = - 1\<rparr>], persistent = True,
       checkpointFile = None\<rparr> = (l', None) \<and> checkpointFile l' = Some file \<and>
     newLeaderEpochCache (FileRead file) = Inr l'"
proof -
  let ?l = "\<lparr>epochOffsets = [\<lparr>leaderEpoch = 1, assignedAtOffset = - 1\<rparr>], persistent = True,
       checkpointFile = None\<rparr>"
  obtain l' where "flush Written ?l = (l', None)" by (simp add: flush_def)
  then show ?thesis using reopen_after_flush [of ?l Written l'] by (simp add: epochs_wf_def)
qed

end
