(* ===== verification/Log_Index.thy ===== *)
theory Log_Index
  imports Message_Set
begin

text \<open>
  \<^verbatim>\<open>index.go\<close> with the mapping of \<^verbatim>\<open>index_mmap_unix.go\<close>: the memory-mapped index of a segment.

  The file and its shared mapping are one byte string and a mapped length.  The operating system's
  refusals (truncate, unmap, map, sync, close) are boolean arguments of the operations that can meet
  them.  A slice past the mapping is a Go panic, and touching a mapped byte past the end of the file
  is a bus error; both are \<open>Inl GoPanic\<close>.  Locks are not modelled: each definition is one critical
  section.
\<close>

section \<open>Entries\<close>

abbreviation (input) entryWidth :: int where "entryWidth \<equiv> 20"

record relEntry =
  rel_Offset :: int
  rel_Timestamp :: int
  rel_Position :: int
  rel_Size :: int

definition newRelEntry :: "entry \<Rightarrow> int \<Rightarrow> relEntry" where
  "newRelEntry e baseOffset =
     \<lparr>rel_Offset = i32 (e_Offset e - baseOffset), rel_Timestamp = e_Timestamp e,
      rel_Position = i32 (e_Position e), rel_Size = e_Size e\<rparr>"

definition rel_fill :: "relEntry \<Rightarrow> entry \<Rightarrow> int \<Rightarrow> entry" where
  "rel_fill rel e baseOffset =
     e \<lparr>e_Offset := baseOffset + rel_Offset rel, e_Timestamp := rel_Timestamp rel,
        e_Position := rel_Position rel, e_Size := rel_Size rel\<rparr>"

text \<open>\<^verbatim>\<open>binary.Write\<close> and \<^verbatim>\<open>binary.Read\<close> of a \<^verbatim>\<open>relEntry\<close>.\<close>

definition rel_bytes :: "relEntry \<Rightarrow> bytes" where
  "rel_bytes rel = be32 (word_of_int (rel_Offset rel)) @ be64 (word_of_int (rel_Timestamp rel)) @
     be32 (word_of_int (rel_Position rel)) @ be32 (word_of_int (rel_Size rel))"

definition rel_of_bytes :: "bytes \<Rightarrow> relEntry result" where
  "rel_of_bytes b =
     and_then (uint32_of b) (\<lambda>o'. and_then (uint64_of (drop 4 b)) (\<lambda>t.
     and_then (uint32_of (drop 12 b)) (\<lambda>p. and_then (uint32_of (drop 16 b)) (\<lambda>s.
       Inr \<lparr>rel_Offset = sint o', rel_Timestamp = sint t, rel_Position = sint p, rel_Size = sint s\<rparr>))))"

section \<open>The index\<close>

text \<open>\<open>ix_mmap\<close> is the length of the mapping, \<open>None\<close> a nil one.\<close>

record index =
  ix_bytes :: int
  ix_baseOffset :: int
  ix_file :: bytes
  ix_mmap :: "nat option"
  ix_size :: int
  ix_position :: int
  ix_closed :: bool

definition mmap_len :: "index \<Rightarrow> int" where
  "mmap_len idx = (case ix_mmap idx of None \<Rightarrow> 0 | Some n \<Rightarrow> int n)"

definition roundDown :: "int \<Rightarrow> int \<Rightarrow> int" where
  "roundDown tot factor = factor * (tot div factor)"

text \<open>\<^verbatim>\<open>file.Truncate\<close>: cut, or extend with zero bytes.\<close>

definition file_truncate :: "int \<Rightarrow> bytes \<Rightarrow> bytes" where
  "file_truncate n b = take (nat n) b @ replicate (nat n - length b) 0"

text \<open>Mapping the whole file; a file of no bytes cannot be mapped.\<close>

definition mmapFile :: "bool \<Rightarrow> bytes \<Rightarrow> nat option result" where
  "mmapFile ok file = (if ok \<and> file \<noteq> [] then Inr (Some (length file)) else Inl IOError)"

definition newIndex :: "bool \<Rightarrow> bool \<Rightarrow> int \<Rightarrow> int \<Rightarrow> bytes \<Rightarrow> index result" where
  "newIndex trunc_ok map_ok bytes baseOffset file =
     (let bytes = (if bytes = 0 then 10 * 1024 * 1024 else bytes) in
      if file = [] \<and> \<not> trunc_ok then Inl IOError
      else let file = (if file = [] then file_truncate (roundDown bytes entryWidth) file else file) in
        and_then (mmapFile map_ok file) (\<lambda>m.
          Inr \<lparr>ix_bytes = bytes, ix_baseOffset = baseOffset, ix_file = file, ix_mmap = m,
               ix_size = int (length file), ix_position = int (length file), ix_closed = False\<rparr>))"

definition CountEntries :: "index \<Rightarrow> int" where
  "CountEntries idx = ix_position idx div entryWidth"

text \<open>\<^verbatim>\<open>copy(idx.mmap[offset:], p)\<close>.\<close>

definition mmap_write :: "bytes \<Rightarrow> int \<Rightarrow> index \<Rightarrow> index result" where
  "mmap_write p offset idx =
     (if offset < 0 \<or> offset > mmap_len idx then Inl GoPanic
      else let k = min (length p) (nat (mmap_len idx - offset)) in
        if nat offset + k > length (ix_file idx) then Inl GoPanic
        else Inr (idx \<lparr>ix_file := take (nat offset) (ix_file idx) @ take k p @
                                   drop (nat offset + k) (ix_file idx)\<rparr>))"

text \<open>
  \<^verbatim>\<open>writeAt\<close>; the arguments say whether truncate, unmap and map succeed.  The result is the index as the
  call leaves it and the error, or a crash.
\<close>

definition writeAt :: "bool \<Rightarrow> bool \<Rightarrow> bool \<Rightarrow> bytes \<Rightarrow> int \<Rightarrow> index \<Rightarrow> (index \<times> err option) result" where
  "writeAt trunc_ok unmap_ok map_ok p offset idx =
     (let pSize = int (length p) in
      if offset + pSize \<ge> ix_size idx \<or> offset + pSize > mmap_len idx then
        (let newSize = roundDown (ix_size idx + ix_bytes idx) entryWidth;
             newSize = (if newSize < offset + pSize then ix_size idx + pSize else newSize) in
         if \<not> trunc_ok then Inr (idx, Some IOError)
         else let idx = idx \<lparr>ix_file := file_truncate newSize (ix_file idx)\<rparr> in
           if ix_mmap idx \<noteq> None \<and> \<not> unmap_ok then Inr (idx, Some IOError)
           else (case mmapFile map_ok (ix_file idx) of
               Inl e \<Rightarrow> Inr (idx \<lparr>ix_mmap := None\<rparr>, Some e)
             | Inr m \<Rightarrow> and_then (mmap_write p offset (idx \<lparr>ix_mmap := m, ix_size := newSize\<rparr>)) (\<lambda>idx.
                 Inr (idx, None))))
      else and_then (mmap_write p offset idx) (\<lambda>idx. Inr (idx, None)))"

definition entries_bytes :: "int \<Rightarrow> entry list \<Rightarrow> bytes" where
  "entries_bytes baseOffset entries = concat (map (\<lambda>e. rel_bytes (newRelEntry e baseOffset)) entries)"

definition writeEntries :: "bool \<Rightarrow> bool \<Rightarrow> bool \<Rightarrow> entry list \<Rightarrow> index \<Rightarrow> (index \<times> err option) result" where
  "writeEntries trunc_ok unmap_ok map_ok entries idx =
     (let b = entries_bytes (ix_baseOffset idx) entries in
      if ix_closed idx then Inr (idx, Some ErrSegmentClosed)
      else and_then (writeAt trunc_ok unmap_ok map_ok b (ix_position idx) idx) (\<lambda>(idx, e).
        case e of
          Some e \<Rightarrow> Inr (idx, Some e)
        | None \<Rightarrow> Inr (idx \<lparr>ix_position := ix_position idx + entryWidth * int (length entries)\<rparr>, None)))"

definition ix_ReadAt :: "int \<Rightarrow> index \<Rightarrow> bytes result" where
  "ix_ReadAt offset idx =
     (if ix_closed idx then Inl ErrSegmentClosed
      else if ix_position idx < offset + entryWidth then Inl EOF
      else if mmap_len idx < offset + entryWidth then Inl ErrIndexCorrupt
      else go_slice (ix_file idx) offset (offset + entryWidth))"

definition ReadEntryAtFileOffset :: "entry \<Rightarrow> int \<Rightarrow> index \<Rightarrow> entry result" where
  "ReadEntryAtFileOffset e fileOffset idx =
     and_then (ix_ReadAt fileOffset idx) (\<lambda>p. and_then (rel_of_bytes p) (\<lambda>rel.
       Inr (rel_fill rel e (ix_baseOffset idx))))"

definition ReadEntryAtLogOffset :: "entry \<Rightarrow> int \<Rightarrow> index \<Rightarrow> entry result" where
  "ReadEntryAtLogOffset e logOffset idx = ReadEntryAtFileOffset e (logOffset * entryWidth) idx"

text \<open>
  \<^verbatim>\<open>searchEntries\<close>: the ordinal of the first entry accepted, the number of entries, and the entry
  itself when there is one.
\<close>

definition searchEntries :: "entry \<Rightarrow> (entry \<Rightarrow> bool) \<Rightarrow> index \<Rightarrow> (nat \<times> nat \<times> entry option) result" where
  "searchEntries e pred idx =
     (let n = nat (CountEntries idx);
          (i, serr) = search_loop_err (\<lambda>i. and_then (ReadEntryAtLogOffset e (int i) idx)
                         (\<lambda>e. Inr (pred e))) 0 n None in
      case serr of
        Some er \<Rightarrow> Inl er
      | None \<Rightarrow> if i = n then Inr (n, n, None)
          else and_then (ReadEntryAtLogOffset e (int i) idx) (\<lambda>e. Inr (i, n, Some e)))"

definition ix_shrink :: "bool \<Rightarrow> index \<Rightarrow> index \<times> err option" where
  "ix_shrink trunc_ok idx =
     (if \<not> trunc_ok then (idx, Some IOError)
      else (idx \<lparr>ix_file := file_truncate (ix_position idx) (ix_file idx), ix_size := ix_position idx\<rparr>, None))"

text \<open>
  \<^verbatim>\<open>closeIndex\<close>, with the outcomes of the sync, unmap, truncate and close; the first error stands for the
  joined one.
\<close>

definition closeIndex ::
  "bool \<Rightarrow> bool \<Rightarrow> bool \<Rightarrow> bool \<Rightarrow> bool \<Rightarrow> bool \<Rightarrow> index \<Rightarrow> index \<times> err option" where
  "closeIndex flush trim sync_ok unmap_ok trunc_ok close_ok idx =
     (if ix_closed idx then (idx, None)
      else let failed = (flush \<and> \<not> sync_ok) \<or> (ix_mmap idx \<noteq> None \<and> \<not> unmap_ok);
               idx = idx \<lparr>ix_mmap := None\<rparr>;
               (idx, shrink_err) =
                 (if trim \<and> ix_position idx < ix_size idx \<and> \<not> failed
                  then ix_shrink trunc_ok idx else (idx, None)) in
        (idx \<lparr>ix_closed := True\<rparr>,
         if failed \<or> shrink_err \<noteq> None \<or> \<not> close_ok then Some IOError else None))"

definition ix_Close where "ix_Close = closeIndex True True"
definition CloseFlushed where "CloseFlushed = closeIndex False True"
definition CloseDiscarding where "CloseDiscarding = closeIndex False False"

definition ix_Sync :: "bool \<Rightarrow> index \<Rightarrow> err option" where
  "ix_Sync sync_ok idx =
     (if ix_closed idx then Some ErrSegmentClosed else if sync_ok then None else Some IOError)"

text \<open>\<^verbatim>\<open>reset\<close>: \<^verbatim>\<open>clear(idx.mmap[:n])\<close> and start over.\<close>

definition ix_reset :: "index \<Rightarrow> index result" where
  "ix_reset idx =
     (if ix_closed idx then Inl ErrSegmentClosed
      else let n = min (ix_position idx) (mmap_len idx) in
        if n < 0 \<or> n > int (length (ix_file idx)) then Inl GoPanic
        else Inr (idx \<lparr>ix_file := replicate (nat n) 0 @ drop (nat n) (ix_file idx), ix_position := 0\<rparr>))"

definition offloadReader :: "index \<Rightarrow> (bytes \<times> int) result" where
  "offloadReader idx =
     (if ix_closed idx then Inl ErrSegmentClosed
      else Inr (take (nat (ix_position idx)) (ix_file idx), ix_position idx))"

definition empty_entry :: entry where
  "empty_entry = \<lparr>e_Offset = 0, e_Timestamp = 0, e_LeaderEpoch = 0, e_Position = 0, e_Size = 0\<rparr>"

definition is_empty_entry :: "entry \<Rightarrow> bool" where
  "is_empty_entry e \<longleftrightarrow> e_Position e = 0 \<and> e_Timestamp e = 0 \<and> e_Size e = 0"

definition InitializePosition :: "index \<Rightarrow> (index \<times> entry option) result" where
  "InitializePosition idx =
     (let n = nat (ix_size idx div entryWidth);
          (i, readErr) = search_loop_err
             (\<lambda>i. and_then (ReadEntryAtFileOffset empty_entry (int i * entryWidth) idx)
                    (\<lambda>e. Inr (is_empty_entry e))) 0 n None in
      case readErr of
        Some e \<Rightarrow> Inl e
      | None \<Rightarrow>
          let idx = idx \<lparr>ix_position := int i * entryWidth\<rparr> in
          if i = 0 then Inr (idx, None)
          else and_then (ReadEntryAtFileOffset empty_entry (int (i - 1) * entryWidth) idx) (\<lambda>e.
            if e_Offset e < ix_baseOffset idx then Inl ErrIndexCorrupt
            else if ix_position idx mod entryWidth \<noteq> 0 then Inl ErrIndexCorrupt
            else Inr (idx, Some e)))"

section \<open>Entries as bytes\<close>

lemma length_rel_bytes [simp]: "length (rel_bytes r) = 20"
  by (simp add: rel_bytes_def)

text \<open>What an entry must satisfy to survive the narrowing to 32 bits.\<close>

definition entry_fits :: "int \<Rightarrow> entry \<Rightarrow> bool" where
  "entry_fits baseOffset e \<longleftrightarrow> in_i32 (e_Offset e - baseOffset) \<and> in_i64 (e_Timestamp e) \<and>
     in_i32 (e_Position e) \<and> in_i32 (e_Size e)"

lemma sint_word_of_int_32_id: "in_i32 x \<Longrightarrow> sint (word_of_int x :: 32 word) = x"
  by (simp add: sint_word_of_int_32 i32_id)

lemma rel_of_rel_bytes:
  "rel_of_bytes (rel_bytes \<lparr>rel_Offset = o', rel_Timestamp = t, rel_Position = p, rel_Size = s\<rparr>) =
     Inr \<lparr>rel_Offset = i32 o', rel_Timestamp = i64 t, rel_Position = i32 p, rel_Size = i32 s\<rparr>"
  by (simp add: rel_of_bytes_def rel_bytes_def sint_word_of_int_32 sint_word_of_int_64)

lemma rel_round_trip:
  assumes "entry_fits baseOffset x"
  shows "and_then (rel_of_bytes (rel_bytes (newRelEntry x baseOffset)))
           (\<lambda>rel. Inr (rel_fill rel e baseOffset)) = Inr (x \<lparr>e_LeaderEpoch := e_LeaderEpoch e\<rparr>)"
  using assms by (simp add: newRelEntry_def rel_of_rel_bytes entry_fits_def i32_id i64_id rel_fill_def)

section \<open>Room for every write\<close>

definition ix_inv :: "index \<Rightarrow> bool" where
  "ix_inv idx \<longleftrightarrow> 0 \<le> ix_position idx \<and> ix_position idx mod 20 = 0 \<and> ix_position idx \<le> ix_size idx \<and>
     ix_size idx \<le> int (length (ix_file idx)) \<and> 20 \<le> ix_bytes idx"

lemma length_file_truncate [simp]: "length (file_truncate n b) = nat n"
  by (simp add: file_truncate_def)

lemma take_file_truncate: "0 \<le> k \<Longrightarrow> k \<le> n \<Longrightarrow> k \<le> int (length b) \<Longrightarrow> take (nat k) (file_truncate n b) = take (nat k) b"
  by (auto simp: file_truncate_def min_def nat_le_iff)

lemma mmap_write_fits:
  assumes "0 \<le> offset" and "offset + int (length p) \<le> mmap_len idx"
    and "offset + int (length p) \<le> int (length (ix_file idx))"
  shows "mmap_write p offset idx = Inr (idx \<lparr>ix_file := take (nat offset) (ix_file idx) @ p @
           drop (nat offset + length p) (ix_file idx)\<rparr>)"
proof -
  have "min (length p) (nat (mmap_len idx - offset)) = length p" using assms by simp
  moreover have "nat offset + length p \<le> length (ix_file idx)" using assms by simp
  ultimately show ?thesis using assms by (simp add: mmap_write_def Let_def)
qed

text \<open>
  What a write at the end leaves behind, in every outcome: the invariant, everything before the
  position, and on success the new bytes, mapped and backed by the file.
\<close>

definition write_post :: "bytes \<Rightarrow> index \<Rightarrow> index \<Rightarrow> err option \<Rightarrow> bool" where
  "write_post p idx idx' er \<longleftrightarrow>
     ix_inv idx' \<and> ix_position idx' = ix_position idx \<and> ix_baseOffset idx' = ix_baseOffset idx \<and>
     ix_closed idx' = ix_closed idx \<and>
     take (nat (ix_position idx)) (ix_file idx') = take (nat (ix_position idx)) (ix_file idx) \<and>
     (er = None \<longrightarrow> sub (ix_file idx') (nat (ix_position idx)) (length p) = p \<and>
        ix_position idx + int (length p) \<le> ix_size idx' \<and>
        ix_position idx + int (length p) \<le> mmap_len idx')"

lemma write_post_written:
  assumes "ix_inv idx" and "ix_position idx + int (length p) \<le> mmap_len idx"
    and "ix_position idx + int (length p) \<le> ix_size idx"
  shows "\<exists>idx'. mmap_write p (ix_position idx) idx = Inr idx' \<and> write_post p idx idx' None"
proof -
  have len: "nat (ix_position idx) + length p \<le> length (ix_file idx)"
    using assms(1,3) unfolding ix_inv_def by linarith
  moreover have "int (length (ix_file idx)) \<ge> ix_position idx + int (length p)"
    using assms(1,3) by (simp add: ix_inv_def)
  ultimately show ?thesis
    using assms mmap_write_fits [of "ix_position idx" p idx]
    by (auto simp: write_post_def ix_inv_def sub_def mmap_len_def)
qed

lemma writeAt_spec:
  assumes inv: "ix_inv idx"
  shows "\<exists>idx' er. writeAt trunc_ok unmap_ok map_ok p (ix_position idx) idx = Inr (idx', er) \<and>
           write_post p idx idx' er"
proof (cases "ix_position idx + int (length p) \<ge> ix_size idx \<or> ix_position idx + int (length p) > mmap_len idx")
  case False
  then show ?thesis using write_post_written [OF inv, of p] by (auto simp: writeAt_def)
next
  case grow: True
  define n0 where "n0 = roundDown (ix_size idx + ix_bytes idx) 20"
  define n where "n = (if n0 < ix_position idx + int (length p) then ix_size idx + int (length p) else n0)"
  define idx1 where "idx1 = idx \<lparr>ix_file := file_truncate n (ix_file idx)\<rparr>"
  have n: "ix_position idx + int (length p) \<le> n" using inv by (auto simp: n_def ix_inv_def)
  have keep: "take (nat (ix_position idx)) (file_truncate n (ix_file idx)) = take (nat (ix_position idx)) (ix_file idx)"
    using inv n by (intro take_file_truncate) (auto simp: ix_inv_def)
  have sz: "ix_size idx \<le> n"
    using inv by (auto simp: n_def n0_def roundDown_def ix_inv_def)
  have post1: "write_post p idx (idx1 \<lparr>ix_mmap := m\<rparr>) (Some e)" for m e
    using inv n sz keep by (auto simp: write_post_def ix_inv_def idx1_def)
  define idx2 where "idx2 = idx1 \<lparr>ix_mmap := Some (nat n), ix_size := n\<rparr>"
  have inv2: "ix_inv idx2" "ix_position idx2 = ix_position idx" "mmap_len idx2 = n" "ix_size idx2 = n"
    using inv n sz by (auto simp: ix_inv_def idx2_def idx1_def mmap_len_def)
  obtain idx3 where idx3: "mmap_write p (ix_position idx) idx2 = Inr idx3" "write_post p idx2 idx3 None"
    using write_post_written [OF inv2(1), of p] inv2(2-4) n by auto
  have post3: "write_post p idx idx3 None"
    using idx3(2) keep by (simp add: write_post_def idx2_def idx1_def)
  have w: "writeAt trunc_ok unmap_ok map_ok p (ix_position idx) idx =
     (if \<not> trunc_ok then Inr (idx, Some IOError)
      else if ix_mmap idx \<noteq> None \<and> \<not> unmap_ok then Inr (idx1, Some IOError)
      else (case mmapFile map_ok (ix_file idx1) of
               Inl e \<Rightarrow> Inr (idx1 \<lparr>ix_mmap := None\<rparr>, Some e)
             | Inr m \<Rightarrow> and_then (mmap_write p (ix_position idx) (idx1 \<lparr>ix_mmap := m, ix_size := n\<rparr>)) (\<lambda>idx.
                 Inr (idx, None))))"
    using grow unfolding writeAt_def Let_def n0_def [symmetric] n_def [symmetric] idx1_def
    by simp
  have same: "write_post p idx idx (Some IOError)" using inv by (simp add: write_post_def)
  have post1': "write_post p idx idx1 (Some IOError)"
    using post1 [of "ix_mmap idx" IOError] by (simp add: idx1_def)
  have len: "length (ix_file idx1) = nat n" by (simp add: idx1_def)
  show ?thesis
    unfolding w mmapFile_def len using same post1 post1' post3 idx3(1)
    by (auto simp: idx2_def split: if_splits)
qed

lemma length_entries_bytes [simp]: "length (entries_bytes base es) = 20 * length es"
  by (induction es) (simp_all add: entries_bytes_def)

lemma writeEntries_spec:
  assumes inv: "ix_inv idx" and op: "\<not> ix_closed idx"
  shows "\<exists>idx' er. writeEntries trunc_ok unmap_ok map_ok entries idx = Inr (idx', er) \<and> ix_inv idx' \<and>
     take (nat (ix_position idx)) (ix_file idx') = take (nat (ix_position idx)) (ix_file idx) \<and>
     ix_baseOffset idx' = ix_baseOffset idx \<and> \<not> ix_closed idx' \<and>
     (case er of Some _ \<Rightarrow> ix_position idx' = ix_position idx
      | None \<Rightarrow> ix_position idx' = ix_position idx + 20 * int (length entries) \<and>
          ix_position idx' \<le> mmap_len idx' \<and>
          sub (ix_file idx') (nat (ix_position idx)) (20 * length entries) = entries_bytes (ix_baseOffset idx) entries)"
proof -
  define b where "b = entries_bytes (ix_baseOffset idx) entries"
  have len: "length b = 20 * length entries" by (simp add: b_def)
  obtain idx1 er where w: "writeAt trunc_ok unmap_ok map_ok b (ix_position idx) idx = Inr (idx1, er)"
    and post: "write_post b idx idx1 er"
    using writeAt_spec [OF inv] by blast
  show ?thesis
  proof (cases er)
    case (Some e)
    then have "writeEntries trunc_ok unmap_ok map_ok entries idx = Inr (idx1, Some e)"
      using w op by (simp add: writeEntries_def b_def [symmetric])
    with post op Some show ?thesis by (auto simp: write_post_def)
  next
    case None
    then have "writeEntries trunc_ok unmap_ok map_ok entries idx =
        Inr (idx1 \<lparr>ix_position := ix_position idx + 20 * int (length entries)\<rparr>, None)"
      using w op post by (simp add: writeEntries_def b_def [symmetric] write_post_def)
    with post op None len show ?thesis
      by (auto simp: write_post_def ix_inv_def mmap_len_def b_def)
  qed
qed

section \<open>Reading entries\<close>

lemma read_entry_at:
  assumes "\<not> ix_closed idx" and "0 \<le> k" and "20 * k + 20 \<le> ix_position idx"
    and "20 * k + 20 \<le> mmap_len idx" and "20 * k + 20 \<le> int (length (ix_file idx))"
  shows "ReadEntryAtLogOffset e k idx =
     and_then (rel_of_bytes (sub (ix_file idx) (nat (20 * k)) 20)) (\<lambda>rel. Inr (rel_fill rel e (ix_baseOffset idx)))"
proof -
  have "go_slice (ix_file idx) (k * 20) (k * 20 + 20) = Inr (sub (ix_file idx) (nat (20 * k)) 20)"
    using assms by (simp add: go_slice_def sub_def mult.commute)
  then show ?thesis
    using assms by (simp add: ReadEntryAtLogOffset_def ReadEntryAtFileOffset_def ix_ReadAt_def mult.commute)
qed

lemma sub_entries_bytes:
  "k < length es \<Longrightarrow> sub (entries_bytes base es) (20 * k) 20 = rel_bytes (newRelEntry (es ! k) base)"
proof (induction es arbitrary: k)
  case (Cons x es)
  show ?case
  proof (cases k)
    case 0
    then show ?thesis by (simp add: entries_bytes_def sub_def)
  next
    case (Suc j)
    then have "sub (entries_bytes base (x # es)) (20 * k) 20 = sub (entries_bytes base es) (20 * j) 20"
      by (simp add: entries_bytes_def sub_def)
    with Cons Suc show ?thesis by simp
  qed
qed simp

lemma sub_take: "off + n \<le> k \<Longrightarrow> sub (take k b) off n = sub b off n"
  by (simp add: sub_def drop_take min_absorb1)

text \<open>What a failed write leaves of the mapping: the old one, or none.\<close>

lemma writeEntries_failed_map:
  assumes "writeEntries trunc_ok unmap_ok map_ok entries idx = Inr (idx', Some e)"
  shows "ix_mmap idx' = ix_mmap idx \<or> ix_mmap idx' = None"
proof -
  have "writeAt trunc_ok unmap_ok map_ok p off idx = Inr (idx', Some e) \<Longrightarrow> ?thesis" for p off
    by (simp add: writeAt_def mmapFile_def Let_def and_then_Inr_iff split: if_splits) (auto simp: and_then_Inr_iff split: if_splits)
  then show ?thesis using assms by (auto simp: writeEntries_def Let_def and_then_Inr_iff split: if_splits option.splits)
qed

lemma read_unmapped:
  "ix_mmap idx = None \<Longrightarrow> \<not> ix_closed idx \<Longrightarrow> 0 \<le> k \<Longrightarrow> 20 * k + 20 \<le> ix_position idx \<Longrightarrow>
     ReadEntryAtLogOffset e k idx = Inl ErrIndexCorrupt"
  by (simp add: ReadEntryAtLogOffset_def ReadEntryAtFileOffset_def ix_ReadAt_def mmap_len_def mult.commute)

text \<open>
  C36: writing entries to an index never crashes, whatever the operating system refuses: no slice past
  the mapping, no store past the end of the file.  A successful write makes exactly the new entries readable
  behind the old ones.  A failed one keeps the number of entries, and each old entry reads as before as long as
  the mapping is the old one.  The mapping is lost only when the file cannot be mapped anew, and then every read
  is answered with the error for a corrupt index, never with other entries.
\<close>

theorem writeEntries_correct:
  assumes inv: "ix_inv idx" and op: "\<not> ix_closed idx" and map: "ix_position idx \<le> mmap_len idx"
    and fits: "list_all (entry_fits (ix_baseOffset idx)) entries"
  shows "\<exists>idx' er. writeEntries trunc_ok unmap_ok map_ok entries idx = Inr (idx', er) \<and> ix_inv idx' \<and>
    (case er of
       Some _ \<Rightarrow> CountEntries idx' = CountEntries idx \<and> (ix_mmap idx' = ix_mmap idx \<or> ix_mmap idx' = None) \<and>
         (\<forall>k e. 0 \<le> k \<and> k < CountEntries idx \<longrightarrow> ReadEntryAtLogOffset e k idx' =
            (if ix_mmap idx' = ix_mmap idx then ReadEntryAtLogOffset e k idx else Inl ErrIndexCorrupt))
     | None \<Rightarrow> CountEntries idx' = CountEntries idx + int (length entries) \<and>
         ix_position idx' \<le> mmap_len idx' \<and>
         (\<forall>k e. 0 \<le> k \<and> k < CountEntries idx \<longrightarrow>
            ReadEntryAtLogOffset e k idx' = ReadEntryAtLogOffset e k idx) \<and>
         (\<forall>k e. k < length entries \<longrightarrow>
            ReadEntryAtLogOffset e (CountEntries idx + int k) idx' =
              Inr ((entries ! k) \<lparr>e_LeaderEpoch := e_LeaderEpoch e\<rparr>)))"
proof -
  obtain idx' er where w: "writeEntries trunc_ok unmap_ok map_ok entries idx = Inr (idx', er)"
    and inv': "ix_inv idx'" and base: "ix_baseOffset idx' = ix_baseOffset idx" "\<not> ix_closed idx'"
    and keep: "take (nat (ix_position idx)) (ix_file idx') = take (nat (ix_position idx)) (ix_file idx)"
    and res: "case er of Some _ \<Rightarrow> ix_position idx' = ix_position idx
      | None \<Rightarrow> ix_position idx' = ix_position idx + 20 * int (length entries) \<and>
          ix_position idx' \<le> mmap_len idx' \<and>
          sub (ix_file idx') (nat (ix_position idx)) (20 * length entries) =
            entries_bytes (ix_baseOffset idx) entries"
    using writeEntries_spec [OF inv op] by blast
  define c where "c = CountEntries idx"
  have c: "ix_position idx = 20 * c" "0 \<le> c"
    using inv by (auto simp: ix_inv_def c_def CountEntries_def)
  have old: "ReadEntryAtLogOffset e k idx' = ReadEntryAtLogOffset e k idx"
    if "0 \<le> k" "k < c" "ix_position idx \<le> mmap_len idx'" "ix_position idx \<le> ix_position idx'" for k e
  proof -
    have "sub (ix_file idx') (nat (20 * k)) 20 = sub (ix_file idx) (nat (20 * k)) 20"
    proof -
      have "nat (20 * k) + 20 \<le> nat (ix_position idx)" using that c by simp
      then show ?thesis by (metis keep sub_take)
    qed
    with that c inv inv' op base map show ?thesis by (simp add: read_entry_at ix_inv_def)
  qed
  show ?thesis
  proof (cases er)
    case (Some x)
    then have pos: "ix_position idx' = ix_position idx" using res by simp
    consider (kept) "ix_mmap idx' = ix_mmap idx" | (lost) "ix_mmap idx' \<noteq> ix_mmap idx" "ix_mmap idx' = None"
      using writeEntries_failed_map [of trunc_ok unmap_ok map_ok entries idx idx' x] w Some by metis
    then have "(ix_mmap idx' = ix_mmap idx \<or> ix_mmap idx' = None) \<and> (\<forall>k e. 0 \<le> k \<and> k < c \<longrightarrow> ReadEntryAtLogOffset e k idx' =
        (if ix_mmap idx' = ix_mmap idx then ReadEntryAtLogOffset e k idx else Inl ErrIndexCorrupt))"
    proof cases
      case kept
      then show ?thesis using old map pos by (simp add: mmap_len_def)
    next
      case lost
      then show ?thesis using read_unmapped [of idx'] base(2) pos c by simp
    qed
    then show ?thesis using w inv' Some pos by (simp add: c_def CountEntries_def)
  next
    case None
    then have r: "ix_position idx' = 20 * (c + int (length entries))" "ix_position idx' \<le> mmap_len idx'"
      "sub (ix_file idx') (nat (20 * c)) (20 * length entries) = entries_bytes (ix_baseOffset idx) entries"
      using res c by simp_all
    have new: "ReadEntryAtLogOffset e (c + int k) idx' = Inr ((entries ! k) \<lparr>e_LeaderEpoch := e_LeaderEpoch e\<rparr>)"
      if "k < length entries" for k e
    proof -
      have "sub (ix_file idx') (nat (20 * (c + int k))) 20 = sub (entries_bytes (ix_baseOffset idx) entries) (20 * k) 20"
      proof -
        have "nat (20 * (c + int k)) = nat (20 * c) + 20 * k" using c(2) by simp
        moreover have "20 * k + 20 \<le> 20 * length entries" using that by simp
        ultimately show ?thesis unfolding r(3) [symmetric] by (simp add: sub_sub)
      qed
      moreover have "entry_fits (ix_baseOffset idx) (entries ! k)" using fits that by (simp add: list_all_length)
      ultimately show ?thesis
        using that r(1,2) c inv' base rel_round_trip [of "ix_baseOffset idx" "entries ! k" e]
        by (simp add: read_entry_at ix_inv_def sub_entries_bytes)
    qed
    have count: "CountEntries idx' = c + int (length entries)" using r(1) by (simp add: CountEntries_def)
    show ?thesis
      using w inv' None r(1,2) c new old count by (auto simp: c_def [symmetric])
  qed
qed

section \<open>Searching\<close>

text \<open>
  A store of entries that can be read by ordinal.  A binary search over it with a predicate that
  stays true finds the first entry that satisfies it, and meets no read error.
\<close>

locale entry_store =
  fixes healthy :: "'i \<Rightarrow> bool" and count :: "'i \<Rightarrow> nat" and read :: "'i \<Rightarrow> nat \<Rightarrow> entry result"
  assumes read_total: "healthy i \<Longrightarrow> k < count i \<Longrightarrow> \<exists>x. read i k = Inr x"
begin

lemma search_first:
  assumes "healthy i"
    and mono: "\<And>j k x y. j \<le> k \<Longrightarrow> k < count i \<Longrightarrow> read i j = Inr x \<Longrightarrow> read i k = Inr y \<Longrightarrow> P x \<Longrightarrow> P y"
  obtains m where "search_loop_err (\<lambda>k. and_then (read i k) (\<lambda>x. Inr (P x))) 0 (count i) None = (m, None)"
    and "m \<le> count i" and "\<And>x. m < count i \<Longrightarrow> read i m = Inr x \<Longrightarrow> P x"
    and "\<And>k x. k < m \<Longrightarrow> read i k = Inr x \<Longrightarrow> \<not> P x"
proof -
  define g where "g k = (\<exists>x. read i k = Inr x \<and> P x)" for k
  have f: "and_then (read i k) (\<lambda>x. Inr (P x)) = Inr (g k)" if "k < count i" for k
    using read_total [OF assms(1) that] by (auto simp: g_def)
  have mono_g: "g j \<Longrightarrow> g k" if "j \<le> k" "k < count i" for j k
    using mono [OF that] read_total [OF assms(1) that(2)] by (auto simp: g_def)
  let ?m = "sort_search (count i) g"
  have "search_loop_err (\<lambda>k. and_then (read i k) (\<lambda>x. Inr (P x))) 0 (count i) None = (?m, None)"
    unfolding sort_search_def by (rule search_loop_err_ok) (rule f)
  moreover have "?m \<le> count i" by (rule gosort.search_le)
  moreover have "P x" if "?m < count i" "read i ?m = Inr x" for x
    using gosort.search_hit [OF that(1)] that(2) by (auto simp: g_def)
  moreover have "\<not> P x" if "k < ?m" "read i k = Inr x" for k x
    using gosort.search_below [of "count i" g k] mono_g that by (auto simp: g_def)
  ultimately show ?thesis by (rule that)
qed

end

definition ix_healthy :: "index \<Rightarrow> bool" where
  "ix_healthy idx \<longleftrightarrow> ix_inv idx \<and> \<not> ix_closed idx \<and> ix_position idx \<le> mmap_len idx"

lemma rel_of_bytes_total: "20 \<le> length b \<Longrightarrow> \<exists>r. rel_of_bytes b = Inr r"
  by (simp add: rel_of_bytes_def uint32_of_def uint64_of_def, arith)

lemma read_entry_total:
  assumes "ix_healthy idx" and "int k < CountEntries idx"
  shows "\<exists>x. ReadEntryAtLogOffset e (int k) idx = Inr x"
proof -
  have "20 * int k + 20 \<le> ix_position idx"
    using assms by (auto simp: ix_healthy_def ix_inv_def CountEntries_def)
  then have r: "ReadEntryAtLogOffset e (int k) idx =
      and_then (rel_of_bytes (sub (ix_file idx) (nat (20 * int k)) 20)) (\<lambda>rel. Inr (rel_fill rel e (ix_baseOffset idx)))"
    and len: "20 * int k + 20 \<le> int (length (ix_file idx))"
    using assms(1) by (auto simp: ix_healthy_def ix_inv_def intro!: read_entry_at)
  have "length (sub (ix_file idx) (nat (20 * int k)) 20) = 20" using len by simp
  then show ?thesis using rel_of_bytes_total [of "sub (ix_file idx) (nat (20 * int k)) 20"] r by auto
qed

interpretation idx_store: entry_store ix_healthy "\<lambda>idx. nat (CountEntries idx)"
  "\<lambda>idx k. ReadEntryAtLogOffset e (int k) idx"
  by unfold_locales (simp add: read_entry_total)

lemma search_entries_exact:
  assumes "ix_healthy idx"
    and mono: "\<forall>j k x y. j \<le> k \<longrightarrow> int k < CountEntries idx \<longrightarrow> ReadEntryAtLogOffset e (int j) idx = Inr x \<longrightarrow>
           ReadEntryAtLogOffset e (int k) idx = Inr y \<longrightarrow> pred x \<longrightarrow> pred y"
  shows "\<exists>i x. searchEntries e pred idx = Inr (i, nat (CountEntries idx), x) \<and> i \<le> nat (CountEntries idx) \<and>
     (\<forall>k y. k < i \<longrightarrow> ReadEntryAtLogOffset e (int k) idx = Inr y \<longrightarrow> \<not> pred y) \<and>
     (case x of None \<Rightarrow> i = nat (CountEntries idx)
      | Some y \<Rightarrow> ReadEntryAtLogOffset e (int i) idx = Inr y \<and> pred y)"
proof -
  let ?n = "nat (CountEntries idx)"
  obtain m where m: "search_loop_err (\<lambda>k. and_then (ReadEntryAtLogOffset e (int k) idx) (\<lambda>x. Inr (pred x))) 0 ?n None
      = (m, None)" "m \<le> ?n" "\<And>x. m < ?n \<Longrightarrow> ReadEntryAtLogOffset e (int m) idx = Inr x \<Longrightarrow> pred x"
    "\<And>k x. k < m \<Longrightarrow> ReadEntryAtLogOffset e (int k) idx = Inr x \<Longrightarrow> \<not> pred x"
    by (rule idx_store.search_first [of idx e pred, OF assms(1)]) (use mono in \<open>simp, blast\<close>)
  show ?thesis
  proof (cases "m = ?n")
    case True
    then show ?thesis using m by (auto simp: searchEntries_def Let_def)
  next
    case False
    with m(2) have lt: "m < ?n" by simp
    then obtain x where "ReadEntryAtLogOffset e (int m) idx = Inr x"
      using read_entry_total [OF assms(1), of m e] by (auto simp: zless_nat_eq_int_zless)
    with m lt show ?thesis by (auto simp: searchEntries_def Let_def)
  qed
qed

text \<open>
  The index search is exact.  On a healthy index whose entries are ordered with respect to the
  predicate, \<^verbatim>\<open>searchEntries\<close> returns the ordinal of the first entry that satisfies it together with that
  entry, or the number of entries when none does, and never an error.
\<close>

theorem searchEntries_first:
  assumes "ix_healthy idx"
    and mono: "\<forall>j k x y. j \<le> k \<longrightarrow> int k < CountEntries idx \<longrightarrow> ReadEntryAtLogOffset e (int j) idx = Inr x \<longrightarrow>
           ReadEntryAtLogOffset e (int k) idx = Inr y \<longrightarrow> pred x \<longrightarrow> pred y"
  shows "\<exists>i x. searchEntries e pred idx = Inr (i, nat (CountEntries idx), x) \<and> i \<le> nat (CountEntries idx) \<and>
     (\<forall>k y. k < i \<longrightarrow> ReadEntryAtLogOffset e (int k) idx = Inr y \<longrightarrow> \<not> pred y) \<and>
     (case x of None \<Rightarrow> i = nat (CountEntries idx)
      | Some y \<Rightarrow> ReadEntryAtLogOffset e (int i) idx = Inr y \<and> pred y)"
  using assms by (rule search_entries_exact)

section \<open>Reopening\<close>

text \<open>Everything past the content is zero, so the end of the content can be found again.\<close>

definition ix_clean :: "index \<Rightarrow> bool" where
  "ix_clean idx \<longleftrightarrow> (\<forall>b\<in>set (drop (nat (ix_position idx)) (ix_file idx)). b = 0)"

lemma ix_clean_alt:
  "ix_clean idx \<longleftrightarrow> drop (nat (ix_position idx)) (ix_file idx) =
     replicate (length (ix_file idx) - nat (ix_position idx)) 0"
  unfolding ix_clean_def
  using replicate_length_same [of "drop (nat (ix_position idx)) (ix_file idx)" 0]
  by auto

lemma rel_of_zeros:
  "and_then (rel_of_bytes (replicate 20 0)) (\<lambda>rel. Inr (rel_fill rel e base)) =
     Inr (e \<lparr>e_Offset := base, e_Timestamp := 0, e_Position := 0, e_Size := 0\<rparr>)"
proof -
  have z: "unbe (replicate n 0) = 0" for n by (induction n) auto
  show ?thesis by (simp add: rel_of_bytes_def uint32_of_def uint64_of_def z rel_fill_def)
qed

lemma reopen_position:
  assumes "ix_healthy idx" and "ix_clean idx" and "ix_file idx \<noteq> []"
    and full: "\<forall>k x. 0 \<le> k \<and> k < CountEntries idx \<and> ReadEntryAtLogOffset empty_entry k idx = Inr x \<longrightarrow>
        \<not> is_empty_entry x \<and> ix_baseOffset idx \<le> e_Offset x"
  shows "\<exists>idx0 idx1 last. newIndex True True bytes (ix_baseOffset idx) (ix_file idx) = Inr idx0 \<and>
    InitializePosition idx0 = Inr (idx1, last) \<and> ix_position idx1 = ix_position idx \<and>
    CountEntries idx1 = CountEntries idx \<and> ix_file idx1 = ix_file idx \<and> ix_baseOffset idx1 = ix_baseOffset idx \<and>
    (bytes = 0 \<longrightarrow> ix_healthy idx1) \<and>
    (if CountEntries idx = 0 then last = None
     else \<exists>x. last = Some x \<and> ReadEntryAtLogOffset empty_entry (CountEntries idx - 1) idx = Inr x)"
proof -
  let ?f = "ix_file idx" and ?base = "ix_baseOffset idx"
  define c where "c = nat (CountEntries idx)"
  define n where "n = length ?f div 20"
  define idx0 where "idx0 = \<lparr>ix_bytes = if bytes = 0 then 10 * 1024 * 1024 else bytes, ix_baseOffset = ?base, ix_file = ?f,
    ix_mmap = Some (length ?f), ix_size = int (length ?f), ix_position = int (length ?f), ix_closed = False\<rparr>"
  have new: "newIndex True True bytes ?base ?f = Inr idx0"
    using assms(3) by (simp add: newIndex_def mmapFile_def idx0_def Let_def)
  have pos: "ix_position idx = 20 * int c" "20 * c \<le> length ?f" "CountEntries idx = int c"
    using assms(1) by (auto simp: ix_healthy_def ix_inv_def CountEntries_def c_def)
  have cn: "c \<le> n" using pos(2) by (simp add: n_def)
  have rd: "ReadEntryAtFileOffset empty_entry (int k * 20) idx' =
      and_then (rel_of_bytes (sub ?f (20 * k) 20)) (\<lambda>rel. Inr (rel_fill rel empty_entry ?base))"
    if "20 * int k + 20 \<le> ix_position idx'" "ix_position idx' \<le> int (length ?f)" "ix_file idx' = ?f"
      "mmap_len idx' \<ge> ix_position idx'" "\<not> ix_closed idx'" "ix_baseOffset idx' = ?base" for k idx'
    using read_entry_at [of idx' "int k" empty_entry] that
    by (simp add: ReadEntryAtLogOffset_def nat_mult_distrib)
  have g: "and_then (ReadEntryAtFileOffset empty_entry (int k * 20) idx0) (\<lambda>e. Inr (is_empty_entry e)) =
      Inr (c \<le> k)" if "k < n" for k
  proof -
    have fit: "20 * k + 20 \<le> length ?f" using that by (simp add: n_def less_eq_div_iff_mult_less_eq)
    have r0: "ReadEntryAtFileOffset empty_entry (int k * 20) idx0 =
      and_then (rel_of_bytes (sub ?f (20 * k) 20)) (\<lambda>rel. Inr (rel_fill rel empty_entry ?base))"
      using fit by (intro rd) (simp_all add: idx0_def mmap_len_def)
    show ?thesis
    proof (cases "c \<le> k")
      case True
      have "drop (20 * k) ?f = drop (20 * k - 20 * c) (drop (20 * c) ?f)" using True by simp
      also have "drop (20 * c) ?f = replicate (length ?f - 20 * c) 0"
        using assms(2) pos(1) by (simp add: ix_clean_alt nat_mult_distrib)
      finally have "sub ?f (20 * k) 20 = replicate 20 0"
        using fit True by (simp add: sub_def min_absorb1 take_replicate)
      then show ?thesis using True r0 rel_of_zeros [of empty_entry ?base]
        by (simp add: is_empty_entry_def)
    next
      case False
      then have "ReadEntryAtLogOffset empty_entry (int k) idx =
        and_then (rel_of_bytes (sub ?f (20 * k) 20)) (\<lambda>rel. Inr (rel_fill rel empty_entry ?base))"
        using assms(1) pos rd [of k idx] by (simp add: ReadEntryAtLogOffset_def ix_healthy_def)
      moreover obtain x where x: "ReadEntryAtLogOffset empty_entry (int k) idx = Inr x"
        using read_entry_total [OF assms(1), of k] False pos by auto
      ultimately have "ReadEntryAtFileOffset empty_entry (int k * 20) idx0 = Inr x" using r0 by simp
      moreover have "\<not> is_empty_entry x" using full [rule_format, of "int k" x] x False pos(3) by auto
      ultimately show ?thesis using False by simp
    qed
  qed
  have srch: "search_loop_err (\<lambda>k. and_then (ReadEntryAtFileOffset empty_entry (int k * 20) idx0)
      (\<lambda>e. Inr (is_empty_entry e))) 0 n None = (c, None)"
  proof -
    have "search_loop (\<lambda>k. c \<le> k) 0 n = c"
      using gosort.search_eqI [of n "\<lambda>k. c \<le> k" c] cn by (simp add: sort_search_def)
    then show ?thesis using search_loop_err_ok [of n _ "\<lambda>k. c \<le> k" 0 None] g by simp
  qed
  define idx1 where "idx1 = idx0 \<lparr>ix_position := int c * 20\<rparr>"
  have n': "nat (ix_size idx0 div 20) = n" by (simp add: idx0_def n_def nat_div_distrib)
  have p1: "ix_position idx1 = ix_position idx" "CountEntries idx1 = CountEntries idx" "ix_file idx1 = ?f"
    "ix_baseOffset idx1 = ?base" "bytes = 0 \<longrightarrow> ix_healthy idx1"
    using pos by (simp_all add: idx1_def idx0_def CountEntries_def ix_healthy_def ix_inv_def mmap_len_def)
  show ?thesis
  proof (cases "c = 0")
    case True
    then have "InitializePosition idx0 = Inr (idx1, None)"
      using srch n' by (simp add: InitializePosition_def idx1_def)
    with new p1 True pos show ?thesis by auto
  next
    case False
    obtain x where x: "ReadEntryAtLogOffset empty_entry (int (c - 1)) idx = Inr x"
      using read_entry_total [OF assms(1), of "c - 1"] False pos by auto
    have "ReadEntryAtFileOffset empty_entry (int (c - 1) * 20) idx1 = Inr x"
      using x rd [of "c - 1" idx] rd [of "c - 1" idx1] False pos assms(1)
      by (simp add: ReadEntryAtLogOffset_def ix_healthy_def idx1_def idx0_def mmap_len_def of_nat_diff)
    moreover have "?base \<le> e_Offset x"
      using full [rule_format, of "int (c - 1)" x] x False pos(3) by auto
    ultimately have "InitializePosition idx0 = Inr (idx1, Some x)"
      using srch n' False by (simp add: InitializePosition_def idx1_def [symmetric])
        (simp add: idx1_def idx0_def)
    with new p1 False pos x show ?thesis by (auto simp: of_nat_diff)
  qed
qed

text \<open>
  An index finds its end again.  Opening the file of an index whose entries are in place and whose
  remaining bytes are zero, and initializing its position, recovers the position, the number of
  entries and the last entry.
\<close>

theorem reopen_recovers_position:
  assumes "ix_healthy idx" and "ix_clean idx" and "ix_file idx \<noteq> []"
    and full: "\<forall>k x. 0 \<le> k \<and> k < CountEntries idx \<and> ReadEntryAtLogOffset empty_entry k idx = Inr x \<longrightarrow>
        \<not> is_empty_entry x \<and> ix_baseOffset idx \<le> e_Offset x"
  shows "\<exists>idx0 idx1 last. newIndex True True bytes (ix_baseOffset idx) (ix_file idx) = Inr idx0 \<and>
    InitializePosition idx0 = Inr (idx1, last) \<and> ix_position idx1 = ix_position idx \<and>
    CountEntries idx1 = CountEntries idx \<and>
    (if CountEntries idx = 0 then last = None
     else \<exists>x. last = Some x \<and> ReadEntryAtLogOffset empty_entry (CountEntries idx - 1) idx = Inr x)"
  using reopen_position [OF assms, of bytes] by blast

section \<open>An index with given content\<close>

definition index_of :: "int \<Rightarrow> entry list \<Rightarrow> nat \<Rightarrow> index" where
  "index_of base es z =
     \<lparr>ix_bytes = 1000, ix_baseOffset = base, ix_file = entries_bytes base es @ replicate z 0,
      ix_mmap = Some (20 * length es + z), ix_size = int (20 * length es + z),
      ix_position = int (20 * length es), ix_closed = False\<rparr>"

lemma index_of_healthy: "ix_healthy (index_of base es z)"
  by (simp add: ix_healthy_def ix_inv_def index_of_def mmap_len_def)

lemma index_of_clean: "ix_clean (index_of base es z)"
  by (simp add: ix_clean_def index_of_def)

lemma index_of_count: "CountEntries (index_of base es z) = int (length es)"
  by (simp add: CountEntries_def index_of_def)

lemma index_of_read:
  assumes "list_all (entry_fits base) es" and "k < length es"
  shows "ReadEntryAtLogOffset e (int k) (index_of base es z) = Inr ((es ! k) \<lparr>e_LeaderEpoch := e_LeaderEpoch e\<rparr>)"
proof -
  have "sub (entries_bytes base es @ replicate z 0) (20 * k) 20 = rel_bytes (newRelEntry (es ! k) base)"
    using assms(2) by (simp add: sub_append_left sub_entries_bytes)
  moreover have "entry_fits base (es ! k)" using assms by (simp add: list_all_length)
  ultimately show ?thesis
    using assms(2) rel_round_trip [of base "es ! k" e]
    by (simp add: read_entry_at index_of_def mmap_len_def nat_mult_distrib)
qed

definition sample_entries :: "entry list" where
  "sample_entries = [\<lparr>e_Offset = 100, e_Timestamp = 7, e_LeaderEpoch = 0, e_Position = 0, e_Size = 48\<rparr>,
     \<lparr>e_Offset = 101, e_Timestamp = 9, e_LeaderEpoch = 0, e_Position = 48, e_Size = 50\<rparr>]"

lemma sample_entries_fit: "list_all (entry_fits 100) sample_entries"
  by (simp add: sample_entries_def entry_fits_def)

theorem writeEntries_correct_witness:
  "\<exists>idx' er. writeEntries True False True sample_entries (index_of 100 sample_entries 40) = Inr (idx', er) \<and> ix_inv idx' \<and>
     (er \<noteq> None \<longrightarrow> CountEntries idx' = 2)"
  using writeEntries_correct [of "index_of 100 sample_entries 40" sample_entries True False True] index_of_count [of 100 sample_entries 40]
    index_of_healthy [of 100 sample_entries 40] sample_entries_fit
  by (auto simp: ix_healthy_def index_of_def sample_entries_def [THEN arg_cong [of _ _ length]])

theorem searchEntries_first_witness:
  "searchEntries empty_entry (\<lambda>_. True) (index_of 100 sample_entries 40) = Inr (0, 2, Some (sample_entries ! 0))"
proof -
  have r: "ReadEntryAtLogOffset empty_entry 0 (index_of 100 sample_entries 40) = Inr (sample_entries ! 0)"
    using index_of_read [OF sample_entries_fit, of 0 empty_entry 40]
    by (simp add: sample_entries_def empty_entry_def)
  have n2: "nat (CountEntries (index_of 100 sample_entries 40)) = 2"
    unfolding index_of_count by (simp add: sample_entries_def)
  obtain i x where s: "searchEntries empty_entry (\<lambda>_. True) (index_of 100 sample_entries 40) = Inr (i, 2, x)"
    and i: "\<forall>k y. k < i \<longrightarrow> ReadEntryAtLogOffset empty_entry (int k) (index_of 100 sample_entries 40) = Inr y \<longrightarrow> False"
    and x: "case x of None \<Rightarrow> i = 2 | Some y \<Rightarrow> ReadEntryAtLogOffset empty_entry (int i) (index_of 100 sample_entries 40) = Inr y"
    using searchEntries_first [of "index_of 100 sample_entries 40" empty_entry "\<lambda>_. True", OF index_of_healthy]
    unfolding n2 by (auto split: option.splits)
  have "i = 0" using i [rule_format, of 0] r by (cases i) auto
  with s x r show ?thesis by (auto split: option.splits)
qed

theorem reopen_recovers_position_witness:
  "\<exists>idx0 idx1 x. newIndex True True 0 100 (ix_file (index_of 100 sample_entries 45)) = Inr idx0 \<and>
     InitializePosition idx0 = Inr (idx1, Some x) \<and> ix_position idx1 = 40"
proof -
  let ?i = "index_of 100 sample_entries 45"
  have full: "\<forall>k x. 0 \<le> k \<and> k < CountEntries ?i \<and> ReadEntryAtLogOffset empty_entry k ?i = Inr x \<longrightarrow>
        \<not> is_empty_entry x \<and> ix_baseOffset ?i \<le> e_Offset x"
  proof (intro allI impI)
    fix k x assume k: "0 \<le> k \<and> k < CountEntries ?i \<and> ReadEntryAtLogOffset empty_entry k ?i = Inr x"
    then have lt: "nat k < length sample_entries" by (auto simp: index_of_count nat_less_iff)
    from index_of_read [OF sample_entries_fit this, of empty_entry 45] k
    have "x = (sample_entries ! nat k) \<lparr>e_LeaderEpoch := 0\<rparr>" by (simp add: empty_entry_def)
    with lt show "\<not> is_empty_entry x \<and> ix_baseOffset ?i \<le> e_Offset x"
      by (auto simp: sample_entries_def is_empty_entry_def index_of_def nth_Cons' less_Suc_eq)
  qed
  have ne: "ix_file ?i \<noteq> []" by (simp add: index_of_def)
  have b: "ix_baseOffset ?i = 100" "CountEntries ?i = 2" "ix_position ?i = 40"
    by (simp_all add: index_of_def CountEntries_def sample_entries_def)
  from reopen_recovers_position [OF index_of_healthy index_of_clean ne full, of 0] show ?thesis
    unfolding b by auto
qed

section \<open>An index that holds a list of entries\<close>

definition ix_holds :: "int \<Rightarrow> index \<Rightarrow> entry list \<Rightarrow> bool" where
  "ix_holds base idx es \<longleftrightarrow> ix_healthy idx \<and> ix_clean idx \<and> ix_baseOffset idx = base \<and>
     ix_position idx = 20 * int (length es) \<and> take (20 * length es) (ix_file idx) = entries_bytes base es \<and>
     list_all (entry_fits base) es"

lemma ix_holds_count: "ix_holds base idx es \<Longrightarrow> CountEntries idx = int (length es)"
  by (simp add: ix_holds_def CountEntries_def)

lemma ix_holds_read:
  assumes "ix_holds base idx es" and "k < length es"
  shows "ReadEntryAtLogOffset e (int k) idx = Inr ((es ! k) \<lparr>e_LeaderEpoch := e_LeaderEpoch e\<rparr>)"
proof -
  have le: "20 * k + 20 \<le> 20 * length es" using assms(2) by simp
  have "sub (ix_file idx) (20 * k) 20 = rel_bytes (newRelEntry (es ! k) base)"
    using sub_take [OF le, of "ix_file idx"] assms sub_entries_bytes [OF assms(2), of base] by (simp add: ix_holds_def)
  moreover have "entry_fits base (es ! k)" using assms by (simp add: ix_holds_def list_all_length)
  moreover have "20 * int k + 20 \<le> ix_position idx" using assms le by (simp add: ix_holds_def)
  ultimately show ?thesis
    using assms(1) rel_round_trip [of base "es ! k" e]
    by (simp add: ix_holds_def ix_healthy_def ix_inv_def read_entry_at nat_mult_distrib)
qed

lemma ix_holds_read_file:
  assumes "ix_holds base idx es" and "k < length es"
  shows "ReadEntryAtFileOffset e (int k * 20) idx = Inr ((es ! k) \<lparr>e_LeaderEpoch := e_LeaderEpoch e\<rparr>)"
  using ix_holds_read [OF assms] by (simp add: ReadEntryAtLogOffset_def)

text \<open>A search with a predicate that ignores the epoch and stays true lands on the first hit.\<close>

lemma ix_holds_search:
  assumes h: "ix_holds base idx es" and epoch: "\<And>x w. pred (x \<lparr>e_LeaderEpoch := w\<rparr>) = pred x"
    and mono: "sorted_wrt (\<lambda>x y. pred x \<longrightarrow> pred y) es"
  shows "searchEntries e pred idx = (let i = length (takeWhile (\<lambda>x. \<not> pred x) es) in
     Inr (i, length es, if i < length es then Some ((es ! i) \<lparr>e_LeaderEpoch := e_LeaderEpoch e\<rparr>) else None))"
proof -
  let ?i = "length (takeWhile (\<lambda>x. \<not> pred x) es)"
  have n: "nat (CountEntries idx) = length es" using ix_holds_count [OF h] by simp
  have f: "and_then (ReadEntryAtLogOffset e (int k) idx) (\<lambda>x. Inr (pred x)) = Inr (pred (es ! k))"
    if "k < length es" for k
    using ix_holds_read [OF h that, of e] by (simp add: epoch)
  have "search_loop (\<lambda>k. pred (es ! k)) 0 (length es) = ?i"
    using gosort.search_list_first [of es pred] mono
    by (auto simp: sort_search_def sorted_wrt_iff_nth_less le_less)
  then have srch: "search_loop_err (\<lambda>k. and_then (ReadEntryAtLogOffset e (int k) idx) (\<lambda>x. Inr (pred x)))
      0 (length es) None = (?i, None)"
    using search_loop_err_ok [of "length es" _ "\<lambda>k. pred (es ! k)" 0 None] f by simp
  have "?i \<le> length es" by (rule length_takeWhile_le)
  then show ?thesis
    using srch ix_holds_read [OF h, of ?i e] unfolding searchEntries_def n Let_def
    by (cases "?i = length es") auto
qed

lemma index_of_holds: "list_all (entry_fits base) es \<Longrightarrow> ix_holds base (index_of base es z) es"
  using index_of_healthy [of base es z] index_of_clean [of base es z] by (simp add: ix_holds_def) (simp add: index_of_def)

lemma ix_holds_reopen:
  assumes h: "ix_holds base idx es" and "ix_file idx \<noteq> []" and full: "\<forall>e \<in> set es. 0 < e_Size e \<and> base \<le> e_Offset e"
  shows "\<exists>idx0 idx1. newIndex True True 0 base (ix_file idx) = Inr idx0 \<and> ix_holds base idx1 es \<and>
     InitializePosition idx0 = Inr (idx1, if es = [] then None else Some ((last es) \<lparr>e_LeaderEpoch := 0\<rparr>))"
proof -
  have hc: "ix_healthy idx" "ix_clean idx" "ix_baseOffset idx = base" using h by (simp_all add: ix_holds_def)
  have n: "CountEntries idx = int (length es)" by (rule ix_holds_count [OF h])
  have rd: "ReadEntryAtLogOffset empty_entry (int k) idx = Inr ((es ! k) \<lparr>e_LeaderEpoch := 0\<rparr>)" if "k < length es" for k
    using ix_holds_read [OF h that, of empty_entry] by (simp add: empty_entry_def)
  have "\<not> is_empty_entry x \<and> ix_baseOffset idx \<le> e_Offset x"
    if "0 \<le> k" "k < CountEntries idx" "ReadEntryAtLogOffset empty_entry k idx = Inr x" for k x
  proof -
    have k: "nat k < length es" "int (nat k) = k" using that(1,2) n by auto
    then have "x = (es ! nat k) \<lparr>e_LeaderEpoch := 0\<rparr>" using rd [of "nat k"] that(3) by simp
    then show ?thesis using full [rule_format, OF nth_mem [OF k(1)]] hc(3) by (simp add: is_empty_entry_def)
  qed
  then obtain idx0 idx1 lst where 1: "newIndex True True 0 base (ix_file idx) = Inr idx0"
    "InitializePosition idx0 = Inr (idx1, lst)"
    and 2: "ix_position idx1 = ix_position idx" "ix_file idx1 = ix_file idx" "ix_baseOffset idx1 = base" "ix_healthy idx1"
    and lst: "if CountEntries idx = 0 then lst = None
     else \<exists>x. lst = Some x \<and> ReadEntryAtLogOffset empty_entry (CountEntries idx - 1) idx = Inr x"
    using reopen_position [OF hc(1,2) assms(2), of 0] hc(3) by blast
  have "ix_holds base idx1 es" using h 2 by (simp add: ix_holds_def ix_clean_def)
  moreover have "lst = (if es = [] then None else Some ((last es) \<lparr>e_LeaderEpoch := 0\<rparr>))"
    using lst rd [of "length es - 1"] by (auto simp: n last_conv_nth of_nat_diff Suc_le_eq)
  ultimately show ?thesis using 1 by blast
qed

lemma drop_zeros: "drop k b = replicate m 0 \<Longrightarrow> k \<le> j \<Longrightarrow> \<forall>x \<in> set (drop j b). x = 0"
proof -
  assume z: "drop k b = replicate m 0" and le: "k \<le> j"
  have "drop j b = drop (j - k) (drop k b)" using le by simp
  then show ?thesis by (simp add: z)
qed

lemma writeAt_all_ok:
  assumes inv: "ix_inv idx" and clean: "ix_clean idx" and ne: "b \<noteq> []"
    and w: "writeAt True True True b (ix_position idx) idx = Inr (idx', er)"
  shows "er = None \<and> ix_clean (idx' \<lparr>ix_position := ix_position idx + int (length b)\<rparr>)"
proof -
  let ?p = "nat (ix_position idx)"
  have z: "drop ?p (ix_file idx) = replicate (length (ix_file idx) - ?p) 0" using clean by (simp add: ix_clean_alt)
  have nat_p: "nat (ix_position idx + int (length b)) = ?p + length b" using inv by (simp add: ix_inv_def nat_add_distrib)
  have written: "ix_clean (idx2 \<lparr>ix_position := ix_position idx + int (length b)\<rparr>)"
    if "mmap_write b (ix_position idx) idx1 = Inr idx2" and zero: "\<forall>x \<in> set (drop ?p (ix_file idx1)). x = 0"
      and room: "ix_position idx + int (length b) \<le> mmap_len idx1"
      and fit: "ix_position idx + int (length b) \<le> int (length (ix_file idx1))" for idx1 idx2
  proof -
    have "ix_file idx2 = take ?p (ix_file idx1) @ b @ drop (?p + length b) (ix_file idx1)"
      using that(1) mmap_write_fits [OF _ room fit] inv by (auto simp: ix_inv_def)
    moreover have "?p \<le> length (ix_file idx1)" using fit inv by (auto simp: ix_inv_def)
    ultimately have "drop (?p + length b) (ix_file idx2) = drop (?p + length b) (ix_file idx1)" by simp
    then show ?thesis using zero set_drop_subset_set_drop [of ?p "?p + length b" "ix_file idx1"]
      by (auto simp: ix_clean_def nat_p)
  qed
  show ?thesis
  proof (cases "ix_position idx + int (length b) \<ge> ix_size idx \<or> ix_position idx + int (length b) > mmap_len idx")
    case False
    then obtain idx2 where m: "mmap_write b (ix_position idx) idx = Inr idx2" "idx' = idx2" "er = None"
      using w by (auto simp: writeAt_def and_then_Inr_iff)
    moreover have "\<forall>x \<in> set (drop ?p (ix_file idx)). x = 0" by (simp add: z)
    ultimately show ?thesis using written [OF m(1)] False inv by (auto simp: ix_inv_def)
  next
    case grow: True
    define n where "n = (let newSize = roundDown (ix_size idx + ix_bytes idx) 20 in
       if newSize < ix_position idx + int (length b) then ix_size idx + int (length b) else newSize)"
    have n: "ix_position idx + int (length b) \<le> n" using inv by (auto simp: n_def ix_inv_def Let_def)
    have "0 < int (length b)" using ne by simp
    then have "0 < n" using n inv unfolding ix_inv_def by linarith
    then have "length (file_truncate n (ix_file idx)) \<noteq> 0" by simp
    then have f: "file_truncate n (ix_file idx) \<noteq> []" by (metis list.size(3))
    define idx1 where "idx1 = idx \<lparr>ix_file := file_truncate n (ix_file idx), ix_mmap := Some (nat n), ix_size := n\<rparr>"
    obtain idx2 where m: "mmap_write b (ix_position idx) idx1 = Inr idx2" "idx' = idx2" "er = None"
      using w grow f by (auto simp: writeAt_def mmapFile_def Let_def n_def [unfolded Let_def, symmetric] idx1_def and_then_Inr_iff)
    have pn: "?p \<le> nat n" using n inv by (auto simp: ix_inv_def)
    have "drop ?p (take (nat n) (ix_file idx)) = take (nat n - ?p) (replicate (length (ix_file idx) - ?p) 0)"
      by (simp add: drop_take z)
    then have "\<forall>x \<in> set (drop ?p (file_truncate n (ix_file idx))). x = 0"
      by (auto simp: file_truncate_def dest: in_set_takeD in_set_dropD)
    then show ?thesis using written [OF m(1)] m n inv by (auto simp: idx1_def mmap_len_def ix_inv_def)
  qed
qed

lemma ix_holds_append:
  assumes h: "ix_holds base idx es" and fits: "list_all (entry_fits base) new" and ne: "new \<noteq> []"
  shows "\<exists>idx'. writeEntries True True True new idx = Inr (idx', None) \<and> ix_holds base idx' (es @ new)"
proof -
  have inv: "ix_inv idx" and op: "\<not> ix_closed idx" using h by (simp_all add: ix_holds_def ix_healthy_def)
  define b where "b = entries_bytes base new"
  have len: "length b = 20 * length new" by (simp add: b_def)
  define p where "p = 20 * length es"
  have p: "ix_position idx = int p" using h by (simp add: ix_holds_def p_def)
  have base: "ix_baseOffset idx = base" using h by (simp add: ix_holds_def)
  obtain idx1 er where w: "writeAt True True True b (int p) idx = Inr (idx1, er)" and post: "write_post b idx idx1 er"
    using writeAt_spec [OF inv] p by metis
  have "b \<noteq> []" using len ne by auto
  moreover have "ix_clean idx" using h by (simp add: ix_holds_def)
  ultimately have er: "er = None" and clean: "ix_clean (idx1 \<lparr>ix_position := int (p + length b)\<rparr>)"
    using writeAt_all_ok [OF inv _ _ w [folded p]] by (simp_all add: p)
  have wr: "writeEntries True True True new idx = Inr (idx1 \<lparr>ix_position := int (p + length b)\<rparr>, None)"
    using w er op base p post len by (simp add: writeEntries_def b_def [symmetric] write_post_def)
  have content: "take (p + length b) (ix_file idx1) = entries_bytes base (es @ new)"
  proof -
    have "take (p + length b) (ix_file idx1) = take p (ix_file idx1) @ sub (ix_file idx1) p (length b)"
      by (simp add: sub_def take_add)
    also have "take p (ix_file idx1) = entries_bytes base es"
      using post h p by (simp add: write_post_def ix_holds_def p_def nat_mult_distrib)
    also have "sub (ix_file idx1) p (length b) = b" using post p er by (simp add: write_post_def)
    finally show ?thesis by (simp add: b_def entries_bytes_def)
  qed
  have "list_all (entry_fits base) es" using h by (simp add: ix_holds_def)
  then have "ix_holds base (idx1 \<lparr>ix_position := int (p + length b)\<rparr>) (es @ new)"
    unfolding ix_holds_def
    using post er clean content base fits op len p
    by (auto simp: ix_healthy_def write_post_def ix_inv_def mmap_len_def p_def)
  with wr show ?thesis by blast
qed

section \<open>Closing\<close>

text \<open>
  A close always finishes.  Whatever fails on the way (flush, unmap, trim, close of the handle), the
  index ends closed and unmapped and the entries in the file are untouched; when nothing fails and a
  trim was asked for, the file is exactly its content.
\<close>

theorem closeIndex_releases:
  assumes "ix_inv idx" and "\<not> ix_closed idx" and "ix_size idx = int (length (ix_file idx))"
    and "closeIndex flush trim sync_ok unmap_ok trunc_ok close_ok idx = (idx', er)"
  shows "ix_closed idx' \<and> ix_mmap idx' = None \<and> ix_position idx' = ix_position idx \<and>
    take (nat (ix_position idx)) (ix_file idx') = take (nat (ix_position idx)) (ix_file idx) \<and>
    (er = None \<and> trim \<longrightarrow> int (length (ix_file idx')) = ix_position idx)"
proof -
  have "take (nat (ix_position idx)) (file_truncate (ix_position idx) (ix_file idx)) =
      take (nat (ix_position idx)) (ix_file idx)"
    using assms(1,3) by (intro take_file_truncate) (auto simp: ix_inv_def)
  with assms show ?thesis
    by (auto simp: closeIndex_def ix_shrink_def Let_def ix_inv_def split: if_splits)
qed

theorem closeIndex_releases_witness:
  "\<exists>idx' er. closeIndex True True False True True True (index_of 100 sample_entries 40) = (idx', er) \<and>
     ix_closed idx' \<and> ix_mmap idx' = None"
proof -
  obtain idx' er where c: "closeIndex True True False True True True (index_of 100 sample_entries 40) = (idx', er)"
    by (cases "closeIndex True True False True True True (index_of 100 sample_entries 40)")
  show ?thesis
    using closeIndex_releases [OF _ _ _ c] index_of_healthy [of 100 sample_entries 40] c
    by (auto simp: ix_healthy_def index_of_def)
qed

end
