(* ===== verification/Block.thy ===== *)
theory Block
  imports Crc
begin

text \<open>
  \<^verbatim>\<open>compress/codec.go\<close>, \<^verbatim>\<open>block.go\<close> and \<^verbatim>\<open>block_table.go\<close>: codecs, the version-2 block header, block references and
  the block table that maps a segment's logical bytes to its physical ones.

  The three compression libraries are not part of the repository.  They are the record \<open>codecs\<close>, a
  parameter of every definition that compresses; \<open>codecs_ok\<close> is what their documentation promises,
  that decoding undoes encoding.
\<close>

section \<open>Codecs\<close>

record codecs =
  snappy_Encode :: "bytes \<Rightarrow> bytes"
  snappy_Decode :: "bytes \<Rightarrow> bytes result"
  s2_Encode :: "bytes \<Rightarrow> bytes"
  s2_Decode :: "bytes \<Rightarrow> bytes result"
  zstd_EncodeAll :: "bytes \<Rightarrow> bytes"
  zstd_DecodeAll :: "bytes \<Rightarrow> bytes result"

definition codecs_ok :: "codecs \<Rightarrow> bool" where
  "codecs_ok C \<longleftrightarrow> (\<forall>b. snappy_Decode C (snappy_Encode C b) = Inr b \<and>
     s2_Decode C (s2_Encode C b) = Inr b \<and> zstd_DecodeAll C (zstd_EncodeAll C b) = Inr b)"

type_synonym Codec = byte

definition None_codec :: Codec where "None_codec = 0"
definition Snappy :: Codec where "Snappy = 1"
definition S2 :: Codec where "S2 = 2"
definition Zstd :: Codec where "Zstd = 3"

definition Compress :: "codecs \<Rightarrow> Codec \<Rightarrow> bytes \<Rightarrow> bytes" where
  "Compress C c src =
     (if c = Snappy then snappy_Encode C src
      else if c = S2 then s2_Encode C src
      else if c = Zstd then zstd_EncodeAll C src
      else src)"

definition DecompressInto :: "codecs \<Rightarrow> Codec \<Rightarrow> bytes \<Rightarrow> bytes result" where
  "DecompressInto C c src =
     (if c = Snappy then snappy_Decode C src
      else if c = S2 then s2_Decode C src
      else if c = Zstd then zstd_DecodeAll C src
      else if c = None_codec then Inr src
      else Inl ErrDecompress)"

definition codec_Valid :: "Codec \<Rightarrow> bool" where
  "codec_Valid c \<longleftrightarrow> c \<le> Zstd"

lemma byte_of_unat: "unat (c :: byte) = k \<Longrightarrow> c = word_of_nat k"
  by auto

lemma codec_cases: "codec_Valid c \<Longrightarrow> c = None_codec \<or> c = Snappy \<or> c = S2 \<or> c = Zstd"
proof -
  assume "codec_Valid c"
  then have "unat c \<le> 3" by (simp add: codec_Valid_def Zstd_def word_le_nat_alt)
  then have "unat c = 0 \<or> unat c = 1 \<or> unat c = 2 \<or> unat c = 3" by linarith
  then show ?thesis
    unfolding None_codec_def Snappy_def S2_def Zstd_def
    by (elim disjE) (drule byte_of_unat, simp)+
qed

lemma Decompress_Compress:
  assumes "codecs_ok C" and "codec_Valid c"
  shows "DecompressInto C c (Compress C c b) = Inr b"
  using codec_cases [OF assms(2)] assms(1)
  by (auto simp: DecompressInto_def Compress_def codecs_ok_def Snappy_def S2_def Zstd_def None_codec_def)

section \<open>Block references\<close>

record blockRef =
  logicalStart :: int
  logicalLen :: int
  physStart :: int
  physLen :: int
  b_codec :: Codec
  b_records :: int
  b_version :: byte
  b_flags :: byte

definition blockMagic :: byte where "blockMagic = 0xC1"
definition BlockFormatVersion :: byte where "BlockFormatVersion = 2"
definition v3_Version :: byte where "v3_Version = 3"
definition FlagTransactional :: byte where "FlagTransactional = 0x02"
definition FlagControl :: byte where "FlagControl = 0x01"
definition FlagStripped :: byte where "FlagStripped = 0x04"

abbreviation (input) blockHeaderLen :: int where "blockHeaderLen \<equiv> 15"
abbreviation (input) v3_HeaderLen :: int where "v3_HeaderLen \<equiv> 76"

definition mergeable :: "blockRef \<Rightarrow> bool" where
  "mergeable b \<longleftrightarrow> b_version b \<noteq> v3_Version \<or>
     (b_flags b AND FlagStripped \<noteq> 0 \<and> b_flags b AND FlagControl = 0)"

definition headerLen :: "blockRef \<Rightarrow> int" where
  "headerLen b = (if b_version b = v3_Version then v3_HeaderLen else blockHeaderLen)"

definition payloadStart :: "blockRef \<Rightarrow> int" where
  "payloadStart b = physStart b + headerLen b"

definition payloadLen :: "blockRef \<Rightarrow> int" where
  "payloadLen b = physLen b - headerLen b"

section \<open>Block headers\<close>

definition encodeBlockHeader :: "Codec \<Rightarrow> 32 word \<Rightarrow> 32 word \<Rightarrow> 32 word \<Rightarrow> bytes" where
  "encodeBlockHeader codec uncompressedLen compressedLen records =
     [blockMagic, BlockFormatVersion, codec] @ be32 uncompressedLen @ be32 compressedLen @ be32 records"

definition parseBlockHeader :: "bytes \<Rightarrow> (Codec \<times> 32 word \<times> 32 word \<times> 32 word) result" where
  "parseBlockHeader hdr =
     (if int (length hdr) < blockHeaderLen then Inl ErrSegmentUnreadable
      else and_then (go_index hdr 0) (\<lambda>magic.
        if magic \<noteq> blockMagic then Inl ErrSegmentUnreadable
      else and_then (go_index hdr 1) (\<lambda>v.
        if v \<noteq> BlockFormatVersion then Inl ErrBlockFormat
      else and_then (go_index hdr 2) (\<lambda>codec.
        if \<not> codec_Valid codec then Inl ErrSegmentUnreadable
      else and_then (and_then (go_from hdr 11) uint32_of) (\<lambda>r.
        if r = 0 then Inl ErrSegmentUnreadable
      else and_then (and_then (go_from hdr 3) uint32_of) (\<lambda>u.
           and_then (and_then (go_from hdr 7) uint32_of) (\<lambda>c.
        Inr (codec, u, c, r))))))))"

lemma length_encodeBlockHeader [simp]: "length (encodeBlockHeader c u p r) = 15"
  by (simp add: encodeBlockHeader_def)

lemma go_from_3: "go_from (a # b # c # r) 3 = Inr r"
  by (simp add: go_from_def go_slice_def)

lemma parse_encodeBlockHeader:
  assumes "codec_Valid c" and "r \<noteq> 0"
  shows "parseBlockHeader (encodeBlockHeader c u p r @ z) = Inr (c, u, p, r)"
proof -
  let ?h = "encodeBlockHeader c u p r @ z"
  have h: "?h = [blockMagic, BlockFormatVersion, c] @ be32 u @ be32 p @ be32 r @ z"
    by (simp add: encodeBlockHeader_def)
  have "go_from ?h 3 = Inr (be32 u @ be32 p @ be32 r @ z)"
    "go_from ?h 7 = Inr (be32 p @ be32 r @ z)" "go_from ?h 11 = Inr (be32 r @ z)"
    by (simp_all add: h go_from_def go_slice_def)
  moreover have "go_index ?h 0 = Inr blockMagic" "go_index ?h 1 = Inr BlockFormatVersion" "go_index ?h 2 = Inr c"
    by (simp_all add: h go_index_def)
  ultimately show ?thesis using assms by (simp add: parseBlockHeader_def)
qed

lemma be32_uint32_of: "uint32_of b = Inr w \<Longrightarrow> be32 w = take 4 b"
  using be32_of_uint32 [of "take 4 b"] by (auto simp: uint32_of_def split: if_splits)

lemma parseBlockHeader_long:
  assumes "15 \<le> length hdr"
  shows "parseBlockHeader hdr =
     (let u = word_of_nat (unbe (sub hdr 3 4)); c = word_of_nat (unbe (sub hdr 7 4)); r = word_of_nat (unbe (sub hdr 11 4)) in
      if hdr ! 0 \<noteq> blockMagic then Inl ErrSegmentUnreadable
      else if hdr ! 1 \<noteq> BlockFormatVersion then Inl ErrBlockFormat
      else if \<not> codec_Valid (hdr ! 2) then Inl ErrSegmentUnreadable
      else if r = 0 then Inl ErrSegmentUnreadable else Inr (hdr ! 2, u, c, r))"
proof -
  have "uint32_of (drop k hdr) = Inr (word_of_nat (unbe (sub hdr k 4)))" if "k + 4 \<le> 15" for k
    using assms that by (simp add: uint32_of_def sub_def)
  then have "and_then (go_from hdr (int k)) uint32_of = Inr (word_of_nat (unbe (sub hdr k 4)))" if "k + 4 \<le> 15" for k
    using assms that by (simp add: go_from_def go_slice_def)
  from this [of 3] this [of 7] this [of 11]
  moreover have "hdr \<noteq> []" using assms by auto
  ultimately show ?thesis using assms by (simp add: parseBlockHeader_def go_index_def Let_def)
qed

lemma encodeBlockHeader_of_parse:
  assumes "15 \<le> length hdr" and "hdr ! 0 = blockMagic" and "hdr ! 1 = BlockFormatVersion"
  shows "take 15 hdr = encodeBlockHeader (hdr ! 2) (word_of_nat (unbe (sub hdr 3 4)))
           (word_of_nat (unbe (sub hdr 7 4))) (word_of_nat (unbe (sub hdr 11 4)))"
proof -
  have l: "length (sub hdr k 4) = 4" if "k + 4 \<le> 15" for k using assms(1) that by simp
  have "take 15 hdr = take 3 hdr @ sub hdr 3 4 @ sub hdr 7 4 @ sub hdr 11 4"
    by (simp add: sub_def take_add [symmetric] flip: append_assoc)
  moreover have "take 3 hdr = [hdr ! 0, hdr ! 1, hdr ! 2]"
    using assms(1) by (intro nth_equalityI) (auto simp: less_Suc_eq numeral_eq_Suc)
  ultimately show ?thesis
    using assms(2,3) l by (simp add: encodeBlockHeader_def be32_of_uint32)
qed

text \<open>
  Block headers parse without panicking on any bytes, what the writer produced parses back to its
  fields, and a refusal says \<^verbatim>\<open>ErrBlockFormat\<close> exactly when a whole header with the block magic carries
  another version; every other refusal is \<^verbatim>\<open>ErrSegmentUnreadable\<close>.
\<close>

theorem parseBlockHeader_classifies:
  "(codec_Valid c \<and> r \<noteq> 0 \<longrightarrow> parseBlockHeader (encodeBlockHeader c u p r @ z) = Inr (c, u, p, r)) \<and>
   (case parseBlockHeader hdr of
      Inr (c', u', p', r') \<Rightarrow> codec_Valid c' \<and> r' \<noteq> 0 \<and> take 15 hdr = encodeBlockHeader c' u' p' r'
    | Inl e \<Rightarrow> e = (if 15 \<le> length hdr \<and> hdr ! 0 = blockMagic \<and> hdr ! 1 \<noteq> BlockFormatVersion
                  then ErrBlockFormat else ErrSegmentUnreadable))"
proof (intro conjI impI)
  show "codec_Valid c \<and> r \<noteq> 0 \<Longrightarrow> parseBlockHeader (encodeBlockHeader c u p r @ z) = Inr (c, u, p, r)"
    using parse_encodeBlockHeader by blast
  show "case parseBlockHeader hdr of
      Inr (c', u', p', r') \<Rightarrow> codec_Valid c' \<and> r' \<noteq> 0 \<and> take 15 hdr = encodeBlockHeader c' u' p' r'
    | Inl e \<Rightarrow> e = (if 15 \<le> length hdr \<and> hdr ! 0 = blockMagic \<and> hdr ! 1 \<noteq> BlockFormatVersion
                  then ErrBlockFormat else ErrSegmentUnreadable)"
  proof (cases "15 \<le> length hdr")
    case True
    then show ?thesis using encodeBlockHeader_of_parse [OF True] by (simp add: parseBlockHeader_long Let_def)
  qed (simp add: parseBlockHeader_def)
qed

theorem parseBlockHeader_classifies_witness:
  "parseBlockHeader (encodeBlockHeader 3 100 40 7 @ [9]) = Inr (3, 100, 40, 7)"
  using parseBlockHeader_classifies [of 3 7 100 40 "[9]" "[]"]
  by (simp add: codec_Valid_def Zstd_def)

section \<open>The block table\<close>

definition blockTableMagic :: byte where "blockTableMagic = 0x42"
definition blockTableVersion :: byte where "blockTableVersion = 4"

definition table_entry :: "bool \<Rightarrow> blockRef \<Rightarrow> bytes" where
  "table_entry wide b =
     be32 (word_of_int (logicalLen b)) @ be32 (word_of_int (physLen b)) @ [b_codec b] @
     be32 (word_of_int (b_records b)) @ (if wide then [b_version b, b_flags b] else [])"

text \<open>\<open>wide\<close> is the version-4 layout, written as soon as one block is not of format version 2.\<close>

definition encodeBlockTable :: "blockRef list \<Rightarrow> bytes" where
  "encodeBlockTable blocks =
     (let wide = (\<not> list_all (\<lambda>b. b_version b = BlockFormatVersion) blocks);
          version = (if wide then blockTableVersion else 2);
          body = [blockTableMagic, version] @ be32 (word_of_nat (length blocks)) @
                 concat (map (table_entry wide) blocks) in
      body @ be32 (crc32 IEEE body))"

text \<open>The loop over the entries, at byte position \<open>at\<close> of the body.\<close>

fun table_loop :: "nat \<Rightarrow> bool \<Rightarrow> bytes \<Rightarrow> int \<Rightarrow> int \<Rightarrow> int \<Rightarrow> blockRef list result" where
  "table_loop 0 wide body at logical phys = Inr []"
| "table_loop (Suc n) wide body at logical phys =
     and_then (and_then (go_from body at) uint32_of) (\<lambda>uLen.
     and_then (and_then (go_from body (at + 4)) uint32_of) (\<lambda>pLen.
     and_then (go_index body (at + 8)) (\<lambda>codec.
     and_then (and_then (go_from body (at + 9)) uint32_of) (\<lambda>records.
     and_then (if wide then and_then (go_index body (at + 13)) (\<lambda>v.
                            and_then (go_index body (at + 14)) (\<lambda>f. Inr (v, f)))
               else Inr (BlockFormatVersion, 0)) (\<lambda>(version, flags).
       if int (unat pLen) < blockHeaderLen then Inl ErrBlockTableFormat
       else if records = 0 then Inl ErrBlockTableFormat
       else if version \<noteq> BlockFormatVersion \<and> version \<noteq> v3_Version then Inl ErrBlockTableFormat
       else and_then (table_loop n wide body (at + (if wide then 15 else 13))
                        (logical + int (unat uLen)) (phys + int (unat pLen))) (\<lambda>blocks.
         Inr (\<lparr>logicalStart = logical, logicalLen = int (unat uLen), physStart = phys,
               physLen = int (unat pLen), b_codec = codec, b_records = int (unat records),
               b_version = version, b_flags = flags\<rparr> # blocks)))))))"

definition decodeBlockTable :: "bytes \<Rightarrow> blockRef list result" where
  "decodeBlockTable buf =
     (if length buf < 10 then Inl ErrBlockTableFormat
      else and_then (go_index buf 0) (\<lambda>magic.
        if magic \<noteq> blockTableMagic then Inl ErrBlockTableFormat
      else and_then (go_index buf 1) (\<lambda>version.
        if version \<noteq> blockTableVersion \<and> version \<noteq> 2 then Inl ErrBlockTableFormat
      else let wide = (version = blockTableVersion) in
        and_then (and_then (go_from buf 2) uint32_of) (\<lambda>n.
          let want = 6 + int (unat n) * (if wide then 15 else 13) + 4 in
          if int (length buf) \<noteq> want then Inl ErrBlockTableFormat
          else and_then (go_slice buf 0 (want - 4)) (\<lambda>body.
               and_then (and_then (go_from buf (want - 4)) uint32_of) (\<lambda>exp.
                 if crc32 IEEE body \<noteq> exp then Inl ErrBlockTableFormat
                 else table_loop (unat n) wide body 6 0 0))))))"

definition maxBlockTableBytes :: "int \<Rightarrow> int" where
  "maxBlockTableBytes phys = 6 + (phys div blockHeaderLen) * 15 + 4"

definition blockTableExtent :: "blockRef list \<Rightarrow> int \<times> int" where
  "blockTableExtent blocks =
     (if blocks = [] then (0, 0)
      else (logicalStart (last blocks) + logicalLen (last blocks),
            physStart (last blocks) + physLen (last blocks)))"

definition sumBlockRecords :: "blockRef list \<Rightarrow> int" where
  "sumBlockRecords blocks = foldl (\<lambda>n b. n + b_records b) 0 blocks"

text \<open>Opening a segment: the sidecar's table is used only when it accounts for the whole file.\<close>

definition loadLocalBlockTable :: "bytes option \<Rightarrow> int \<Rightarrow> (blockRef list \<times> int) option" where
  "loadLocalBlockTable file physSize =
     (case file of
        None \<Rightarrow> None
      | Some data \<Rightarrow>
         (case decodeBlockTable data of
            Inl _ \<Rightarrow> None
          | Inr blocks \<Rightarrow>
              let (logical, phys) = blockTableExtent blocks in
              if phys \<noteq> physSize then None else Some (blocks, logical)))"

text \<open>
  Blocks that tile both byte spaces from given positions, each at least a header long and holding
  records.
\<close>

fun tiled :: "int \<Rightarrow> int \<Rightarrow> blockRef list \<Rightarrow> bool" where
  "tiled l p [] = True"
| "tiled l p (b # bs) =
     (logicalStart b = l \<and> physStart b = p \<and> 0 \<le> logicalLen b \<and> blockHeaderLen \<le> physLen b \<and>
      0 < b_records b \<and> (b_version b = BlockFormatVersion \<or> b_version b = v3_Version) \<and>
      tiled (l + logicalLen b) (p + physLen b) bs)"

text \<open>What a table entry can hold: 32-bit fields, and no flags on a version-2 block.\<close>

definition table_fits :: "blockRef \<Rightarrow> bool" where
  "table_fits b \<longleftrightarrow> logicalLen b < 2 ^ 32 \<and> physLen b < 2 ^ 32 \<and> b_records b < 2 ^ 32 \<and>
     (b_version b = BlockFormatVersion \<longrightarrow> b_flags b = 0)"

lemma length_table_entry [simp]: "length (table_entry wide b) = (if wide then 15 else 13)"
  by (simp add: table_entry_def)

lemma length_table_entries:
  "length (concat (map (table_entry wide) bs)) = length bs * (if wide then 15 else 13)"
  by (induction bs) simp_all

lemma go_index_at: "m = a @ x # z \<Longrightarrow> n = int (length a) \<Longrightarrow> go_index m n = Inr x"
  by (simp add: go_index_def)

lemma uint_word_of_int_32: "0 \<le> x \<Longrightarrow> x < 2 ^ 32 \<Longrightarrow> int (unat (word_of_int x :: 32 word)) = x"
  by (simp add: unsigned_of_int take_bit_int_eq_self)

lemma table_loop_entries:
  assumes "tiled l p bs" and "list_all table_fits bs"
    and "\<not> wide \<Longrightarrow> list_all (\<lambda>b. b_version b = BlockFormatVersion) bs"
    and "body = pre @ concat (map (table_entry wide) bs)" and "at = int (length pre)"
  shows "table_loop (length bs) wide body at l p = Inr bs"
  using assms
proof (induction bs arbitrary: l p pre at)
  case (Cons b bs)
  let ?u = "be32 (word_of_int (logicalLen b))" and ?p = "be32 (word_of_int (physLen b))"
  let ?r = "be32 (word_of_int (b_records b))" and ?w = "if wide then [b_version b, b_flags b] else []"
  define z where "z = concat (map (table_entry wide) bs)"
  have body: "body = pre @ ?u @ ?p @ [b_codec b] @ ?r @ ?w @ z"
    using Cons.prems(4) by (simp add: table_entry_def [of wide b] z_def)
  have reads: "go_from body at = Inr (?u @ ?p @ [b_codec b] @ ?r @ ?w @ z)"
    "go_from body (at + 4) = Inr (?p @ [b_codec b] @ ?r @ ?w @ z)"
    "go_index body (at + 8) = Inr (b_codec b)" "go_from body (at + 9) = Inr (?r @ ?w @ z)"
    using go_from_at [of body pre _ at] go_from_at [of body "pre @ ?u" _ "at + 4"]
      go_index_at [of body "pre @ ?u @ ?p" "b_codec b" _ "at + 8"]
      go_from_at [of body "pre @ ?u @ ?p @ [b_codec b]" _ "at + 9"] body Cons.prems(5)
    by simp_all
  have wide: "(if wide then and_then (go_index body (at + 13)) (\<lambda>v.
                            and_then (go_index body (at + 14)) (\<lambda>f. Inr (v, f)))
               else Inr (BlockFormatVersion, 0)) = Inr (b_version b, b_flags b)"
    using go_index_at [of body "pre @ ?u @ ?p @ [b_codec b] @ ?r" "b_version b" "b_flags b # z" "at + 13"]
      go_index_at [of body "pre @ ?u @ ?p @ [b_codec b] @ ?r @ [b_version b]" "b_flags b" z "at + 14"]
      body Cons.prems(2,3,5) by (auto simp: table_fits_def)
  have nums: "int (unat (word_of_int (logicalLen b) :: 32 word)) = logicalLen b"
    "int (unat (word_of_int (physLen b) :: 32 word)) = physLen b"
    "int (unat (word_of_int (b_records b) :: 32 word)) = b_records b"
    by (rule uint_word_of_int_32; use Cons.prems(1,2) in \<open>simp add: table_fits_def\<close>)+
  then have r0: "(word_of_int (b_records b) :: 32 word) \<noteq> 0"
    using Cons.prems(1) by auto
  have "table_loop (length bs) wide body (at + (if wide then 15 else 13)) (l + logicalLen b) (p + physLen b) = Inr bs"
    by (rule Cons.IH [of _ _ "pre @ table_entry wide b"]) (use Cons.prems in auto)
  then show ?case
    using Cons.prems(1) r0
    by (simp only: length_Cons table_loop.simps reads wide and_then.simps uint_of_be nums prod.case)
      (auto simp: nums)
qed simp

lemma reads_inside:
  assumes "0 \<le> at" and "at + 4 \<le> int (length b)"
  shows "\<exists>w. and_then (go_from b at) uint32_of = Inr w"
proof -
  have "nat at + 4 \<le> length b" using assms by linarith
  then have "4 \<le> length (drop (nat at) b)" by simp
  then show ?thesis using assms by (simp add: go_from_def go_slice_def uint32_of_def)
qed

lemma index_inside: "0 \<le> i \<Longrightarrow> i < int (length b) \<Longrightarrow> \<exists>x. go_index b i = Inr x"
  by (simp add: go_index_def)

lemma table_loop_sound:
  assumes "0 \<le> at" and "at + int n * (if wide then 15 else 13) \<le> int (length body)"
  shows "table_loop n wide body at l p = Inl ErrBlockTableFormat \<or>
         (\<exists>bs. table_loop n wide body at l p = Inr bs \<and> tiled l p bs \<and> length bs = n)"
  using assms
proof (induction n arbitrary: at l p)
  case (Suc n)
  let ?w = "if wide then 15 else 13 :: int"
  have room: "at + 13 \<le> int (length body)" "wide \<Longrightarrow> at + 15 \<le> int (length body)"
    "at + ?w + int n * ?w \<le> int (length body)" "0 \<le> at + ?w"
    using Suc.prems by (cases wide; simp add: algebra_simps)+
  obtain u where u: "and_then (go_from body at) uint32_of = Inr u"
    using reads_inside [of at body] room Suc.prems(1) by auto
  obtain q where q: "and_then (go_from body (at + 4)) uint32_of = Inr q"
    using reads_inside [of "at + 4" body] room Suc.prems(1) by auto
  obtain c where c: "go_index body (at + 8) = Inr c"
    using index_inside [of "at + 8" body] room Suc.prems(1) by auto
  obtain r where r: "and_then (go_from body (at + 9)) uint32_of = Inr r"
    using reads_inside [of "at + 9" body] room Suc.prems(1) by auto
  obtain v f where vf: "(if wide then and_then (go_index body (at + 13)) (\<lambda>v.
                            and_then (go_index body (at + 14)) (\<lambda>f. Inr (v, f)))
               else Inr (BlockFormatVersion, 0)) = Inr (v, f)"
  proof (cases wide)
    case True
    then obtain a b where "go_index body (at + 13) = Inr a" "go_index body (at + 14) = Inr b"
      using index_inside [of "at + 13" body] index_inside [of "at + 14" body] room Suc.prems(1) by auto
    with True show ?thesis using that by simp
  qed (use that in simp)
  let ?rest = "table_loop n wide body (at + ?w) (l + int (unat u)) (p + int (unat q))"
  have step: "table_loop (Suc n) wide body at l p =
     (if int (unat q) < 15 then Inl ErrBlockTableFormat
      else if r = 0 then Inl ErrBlockTableFormat
      else if v \<noteq> BlockFormatVersion \<and> v \<noteq> v3_Version then Inl ErrBlockTableFormat
      else and_then ?rest (\<lambda>blocks. Inr (\<lparr>logicalStart = l, logicalLen = int (unat u), physStart = p,
               physLen = int (unat q), b_codec = c, b_records = int (unat r),
               b_version = v, b_flags = f\<rparr> # blocks)))"
    by (simp only: table_loop.simps u q c r vf and_then.simps prod.case)
  have "r \<noteq> 0 \<Longrightarrow> 0 < unat r" by (simp add: unat_gt_0)
  then show ?case
    using Suc.IH [of "at + ?w" "l + int (unat u)" "p + int (unat q)"] room(3,4)
    unfolding step by (auto simp del: of_nat_unat)
qed simp

lemma decodeBlockTable_long:
  assumes "10 \<le> length buf" and n: "and_then (go_from buf 2) uint32_of = Inr n"
    and x: "and_then (go_from buf (int (length buf) - 4)) uint32_of = Inr x"
  defines "wide \<equiv> buf ! 1 = blockTableVersion"
  shows "decodeBlockTable buf =
     (if buf ! 0 \<noteq> blockTableMagic then Inl ErrBlockTableFormat
      else if buf ! 1 \<noteq> blockTableVersion \<and> buf ! 1 \<noteq> 2 then Inl ErrBlockTableFormat
      else if int (length buf) \<noteq> 6 + int (unat n) * (if wide then 15 else 13) + 4 then Inl ErrBlockTableFormat
      else if crc32 IEEE (take (length buf - 4) buf) \<noteq> x then Inl ErrBlockTableFormat
      else table_loop (unat n) wide (take (length buf - 4) buf) 6 0 0)"
proof -
  have i: "go_index buf 0 = Inr (buf ! 0)" "go_index buf 1 = Inr (buf ! 1)"
    using assms(1) by (auto simp: go_index_def)
  have sl: "go_slice buf 0 (int (length buf) - 4) = Inr (take (length buf - 4) buf)"
    using assms(1) by (simp add: go_slice_def nat_diff_distrib)
  show ?thesis
    using assms(1) sl x by (auto simp: decodeBlockTable_def i n Let_def wide_def simp del: of_nat_unat)
qed

lemma decodeBlockTable_cases:
  "decodeBlockTable buf = Inl ErrBlockTableFormat \<or>
   (\<exists>bs. decodeBlockTable buf = Inr bs \<and> tiled 0 0 bs \<and> 4 \<le> length buf \<and>
      and_then (go_from buf (int (length buf) - 4)) uint32_of = Inr (crc32 IEEE (take (length buf - 4) buf)))"
proof (cases "length buf < 10")
  case True
  then show ?thesis by (simp add: decodeBlockTable_def)
next
  case False
  then have ten: "10 \<le> length buf" by simp
  obtain n where n: "and_then (go_from buf 2) uint32_of = Inr n" using reads_inside [of 2 buf] False by auto
  obtain x where x: "and_then (go_from buf (int (length buf) - 4)) uint32_of = Inr x"
    using reads_inside [of "int (length buf) - 4" buf] False by auto
  show ?thesis
    unfolding decodeBlockTable_long [OF ten n x]
    using table_loop_sound [of 6 "unat n" "buf ! 1 = blockTableVersion" "take (length buf - 4) buf" 0 0] x False
    by (auto simp del: of_nat_unat)
qed

lemma tiled_extent: "tiled l p bs \<Longrightarrow> bs \<noteq> [] \<Longrightarrow>
    blockTableExtent bs = (l + sum_list (map logicalLen bs), p + sum_list (map physLen bs))"
proof (induction bs arbitrary: l p)
  case (Cons b bs)
  show ?case
  proof (cases "bs = []")
    case False
    then have "blockTableExtent (b # bs) = blockTableExtent bs" by (simp add: blockTableExtent_def)
    with Cons.IH [of "l + logicalLen b" "p + physLen b"] Cons.prems False show ?thesis by simp
  qed (use Cons.prems in \<open>simp add: blockTableExtent_def\<close>)
qed simp

text \<open>
  The block table round trip.  A table written for blocks that tile the segment decodes to exactly
  those blocks, starts included, in either of its two layouts.
\<close>

theorem decode_encodeBlockTable:
  assumes "tiled 0 0 blocks" and "list_all table_fits blocks" and "length blocks < 2 ^ 32"
  shows "decodeBlockTable (encodeBlockTable blocks) = Inr blocks"
proof -
  define wide where "wide = (\<not> list_all (\<lambda>b. b_version b = BlockFormatVersion) blocks)"
  define hd2 where "hd2 = [blockTableMagic, if wide then blockTableVersion else 2]"
  define cnt where "cnt = be32 (word_of_nat (length blocks))"
  define ents where "ents = concat (map (table_entry wide) blocks)"
  define body where "body = hd2 @ cnt @ ents"
  have buf: "encodeBlockTable blocks = body @ be32 (crc32 IEEE body)"
    by (simp add: encodeBlockTable_def Let_def body_def hd2_def cnt_def ents_def wide_def)
  have n: "unat (word_of_nat (length blocks) :: 32 word) = length blocks"
    using assms(3) by (simp add: unat_of_nat)
  have len: "length body = 6 + length blocks * (if wide then 15 else 13)"
    by (simp add: body_def hd2_def cnt_def ents_def length_table_entries)
  let ?b = "body @ be32 (crc32 IEEE body)"
  have hd: "?b ! 0 = blockTableMagic" "?b ! 1 = (if wide then blockTableVersion else 2)"
    by (simp_all add: body_def hd2_def)
  have r: "and_then (go_from ?b 2) uint32_of = Inr (word_of_nat (length blocks))"
    using go_from_at [of ?b hd2 "cnt @ ents @ be32 (crc32 IEEE body)" 2]
    by (simp add: body_def hd2_def cnt_def)
  have x: "and_then (go_from ?b (int (length ?b) - 4)) uint32_of = Inr (crc32 IEEE body)" by simp
  have v: "(?b ! 1 = blockTableVersion) = wide" unfolding hd by (simp add: blockTableVersion_def)
  have "table_loop (length blocks) wide body 6 0 0 = Inr blocks"
    by (rule table_loop_entries [OF assms(1,2)])
      (auto simp: wide_def body_def ents_def hd2_def cnt_def)
  moreover have "10 \<le> length ?b" using len by simp
  ultimately show ?thesis
    unfolding buf decodeBlockTable_long [OF \<open>10 \<le> length ?b\<close> r x] v n using hd len by (cases wide) simp_all
qed

definition sample_blocks :: "blockRef list" where
  "sample_blocks =
     [\<lparr>logicalStart = 0, logicalLen = 100, physStart = 0, physLen = 60, b_codec = 3, b_records = 2,
       b_version = 2, b_flags = 0\<rparr>,
      \<lparr>logicalStart = 100, logicalLen = 50, physStart = 60, physLen = 140, b_codec = 0, b_records = 1,
       b_version = 3, b_flags = 4\<rparr>]"

theorem decode_encodeBlockTable_witness:
  "decodeBlockTable (encodeBlockTable sample_blocks) = Inr sample_blocks"
  by (rule decode_encodeBlockTable)
    (simp_all add: sample_blocks_def table_fits_def BlockFormatVersion_def v3_Version_def)

text \<open>
  Decoding a block table never panics and never yields blocks that overlap or leave gaps: arbitrary
  bytes either are refused as \<^verbatim>\<open>ErrBlockTableFormat\<close> or give blocks that tile both byte spaces from zero.
\<close>

theorem decodeBlockTable_tiles:
  "decodeBlockTable buf = Inl ErrBlockTableFormat \<or>
   (\<exists>bs. decodeBlockTable buf = Inr bs \<and> tiled 0 0 bs \<and>
      blockTableExtent bs = (sum_list (map logicalLen bs), sum_list (map physLen bs)))"
proof -
  have "blockTableExtent bs = (sum_list (map logicalLen bs), sum_list (map physLen bs))"
    if "tiled 0 0 bs" for bs
    using tiled_extent [OF that] by (cases "bs = []") (auto simp: blockTableExtent_def)
  then show ?thesis using decodeBlockTable_cases [of buf] by blast
qed

text \<open>
  A block table damaged inside four consecutive bytes of its header or entries is refused.
\<close>

theorem damaged_block_table_refused:
  assumes "encodeBlockTable blocks = a @ u @ z" and "4 \<le> length z" and "length v = length u"
    and "length u \<le> 4" and "v \<noteq> u"
  shows "decodeBlockTable (a @ v @ z) = Inl ErrBlockTableFormat"
proof (rule ccontr)
  let ?b = "a @ v @ z" and ?c = "a @ u @ z"
  assume "decodeBlockTable ?b \<noteq> Inl ErrBlockTableFormat"
  then have crc: "and_then (go_from ?b (int (length ?b) - 4)) uint32_of = Inr (crc32 IEEE (take (length ?b - 4) ?b))"
    using decodeBlockTable_cases [of ?b] by auto
  define z1 z2 where "z1 = take (length z - 4) z" and "z2 = drop (length z - 4) z"
  have z: "z = z1 @ z2" "length z2 = 4" using assms(2) by (simp_all add: z1_def z2_def)
  have b: "take (length ?b - 4) ?b = a @ v @ z1" "?b = (a @ v @ z1) @ z2" using z by simp_all
  have "go_from ?b (int (length ?b) - 4) = Inr z2"
    by (rule go_from_at [OF b(2)]) (use z in simp)
  with crc b(1) have crc_v: "uint32_of z2 = Inr (crc32 IEEE (a @ v @ z1))" by simp
  have "\<exists>body. ?c = body @ be32 (crc32 IEEE body)"
    unfolding assms(1) [symmetric] encodeBlockTable_def Let_def by blast
  then obtain body where body: "?c = body @ be32 (crc32 IEEE body)" ..
  moreover have "?c = (a @ u @ z1) @ z2" using z by simp
  ultimately have "body = a @ u @ z1" "z2 = be32 (crc32 IEEE body)"
    using z(2) append_eq_append_conv [of "a @ u @ z1" body z2 "be32 (crc32 IEEE body)"] by simp_all
  with crc_v have "crc32 IEEE (a @ v @ z1) = crc32 IEEE (a @ u @ z1)" by simp
  with crc_detects_window [of IEEE v u a z1] assms(3-5) show False by simp
qed

theorem damaged_block_table_refused_witness:
  "decodeBlockTable (0x43 # drop 1 (encodeBlockTable sample_blocks)) = Inl ErrBlockTableFormat"
  using damaged_block_table_refused [of sample_blocks "[]" "[0x42]" "drop 1 (encodeBlockTable sample_blocks)" "[0x43]"]
  by (simp add: encodeBlockTable_def Let_def blockTableMagic_def)

end
