(* ===== verification/Varint.thy ===== *)
theory Varint
  imports Prelude
begin

text \<open>
  \<^verbatim>\<open>encoding/binary\<close>'s variable-length integers.
  A varint's value is a natural number below \<open>2 ^ 64\<close>; the decoder's two overflow checks are written out.
\<close>

section \<open>Varints\<close>

text \<open>\<^verbatim>\<open>AppendUvarint\<close>, \<^verbatim>\<open>AppendVarint\<close>.\<close>

fun uvarint :: "nat \<Rightarrow> bytes" where
  "uvarint x = (if x < 128 then [word_of_nat x] else word_of_nat (128 + x mod 128) # uvarint (x div 128))"

declare uvarint.simps [simp del]

definition zigzag :: "int \<Rightarrow> nat" where
  "zigzag x = (if x < 0 then nat (- 2 * x - 1) else nat (2 * x))"

definition varint :: "int \<Rightarrow> bytes" where
  "varint x = uvarint (zigzag x)"

text \<open>
  \<^verbatim>\<open>Uvarint\<close>: the loop at byte \<open>i\<close> with the value so far; \<open>None\<close> is a count of zero or less (the buffer ended,
  or the value overflows 64 bits), otherwise the value and the number of bytes.
\<close>

fun uvarint_loop :: "nat \<Rightarrow> nat \<Rightarrow> bytes \<Rightarrow> (nat \<times> nat) option" where
  "uvarint_loop i x [] = None"
| "uvarint_loop i x (b # bs) =
     (if i = 10 then None
      else if unat b < 128 then
        (if i = 9 \<and> unat b > 1 then None else Some (x + unat b * 128 ^ i, i + 1))
      else uvarint_loop (i + 1) (x + (unat b mod 128) * 128 ^ i) bs)"

definition Uvarint :: "bytes \<Rightarrow> (nat \<times> nat) option" where
  "Uvarint bs = uvarint_loop 0 0 bs"

definition unzigzag :: "nat \<Rightarrow> int" where
  "unzigzag u = (if u mod 2 = 0 then int (u div 2) else - int (u div 2) - 1)"

definition Varint :: "bytes \<Rightarrow> (int \<times> nat) option" where
  "Varint bs = map_option (\<lambda>(u, n). (unzigzag u, n)) (Uvarint bs)"

lemma uvarint_not_Nil [simp]: "uvarint x \<noteq> []"
  by (subst uvarint.simps) simp

lemma unat_byte: "k < 256 \<Longrightarrow> unat (word_of_nat k :: byte) = k"
  by (simp add: unat_of_nat)

lemma uvarint_loop_uvarint:
  assumes "i \<le> 9" and "x < 2 ^ (64 - 7 * i)"
  shows "uvarint_loop i acc (uvarint x @ rest) = Some (acc + x * 128 ^ i, i + length (uvarint x))"
  using assms
proof (induction x arbitrary: i acc rule: uvarint.induct)
  case (1 x)
  show ?case
  proof (cases "x < 128")
    case True
    then have "uvarint x = [word_of_nat x]" by (subst uvarint.simps) simp
    moreover have "i = 9 \<longrightarrow> x \<le> 1" using "1.prems"(2) by auto
    ultimately show ?thesis using True "1.prems"(1) by (auto simp: unat_byte)
  next
    case False
    have u: "uvarint x = word_of_nat (128 + x mod 128) # uvarint (x div 128)"
      using False by (subst uvarint.simps) simp
    have b: "unat (word_of_nat (128 + x mod 128) :: byte) = 128 + x mod 128"
      by (rule unat_byte) (simp add: less_trans [OF mod_less_divisor])
    have i: "i < 9"
    proof (rule ccontr)
      assume "\<not> i < 9"
      then have "i = 9" using "1.prems"(1) by simp
      then have "x < 2" using "1.prems"(2) by simp
      then show False using False by simp
    qed
    have p: "(2 :: nat) ^ (64 - 7 * i) = 128 * 2 ^ (64 - 7 * (i + 1))"
    proof -
      define k where "k = 64 - 7 * (i + 1)"
      have e: "64 - 7 * i = 7 + k" using i by (simp add: k_def)
      show ?thesis unfolding e k_def [symmetric] power_add by simp
    qed
    have "x div 128 < 2 ^ (64 - 7 * (i + 1))"
      using "1.prems"(2) unfolding p by (simp add: div_less_iff_less_mult mult.commute)
    then have "uvarint_loop (i + 1) (acc + (x mod 128) * 128 ^ i) (uvarint (x div 128) @ rest) =
        Some (acc + (x mod 128) * 128 ^ i + x div 128 * 128 ^ (i + 1), i + 1 + length (uvarint (x div 128)))"
      using "1.IH" [OF False] i by simp
    moreover have "(x mod 128) * 128 ^ i + x div 128 * 128 ^ (i + 1) = x * 128 ^ i"
    proof -
      define q r where "q = x div 128" and "r = x mod 128"
      have x: "x = 128 * q + r" by (simp add: q_def r_def)
      have "r * 128 ^ i + q * 128 ^ (i + 1) = x * 128 ^ i" unfolding x by (simp add: algebra_simps)
      then show ?thesis by (simp add: q_def r_def)
    qed
    ultimately show ?thesis using i by (simp add: u b add.assoc del: of_nat_add)
  qed
qed

lemma Uvarint_uvarint: "x < 2 ^ 64 \<Longrightarrow> Uvarint (uvarint x @ rest) = Some (x, length (uvarint x))"
  using uvarint_loop_uvarint [of 0 x 0 rest] by (simp add: Uvarint_def)

lemma unzigzag_zigzag: "unzigzag (zigzag x) = x"
proof (cases "x < 0")
  case True
  define n where "n = nat (- x - 1)"
  have n: "x = - int n - 1" using True by (simp add: n_def)
  then have "zigzag x = 2 * n + 1" by (simp add: zigzag_def)
  then show ?thesis by (simp add: unzigzag_def n)
next
  case False
  then have "zigzag x = 2 * nat x" by (simp add: zigzag_def)
  then show ?thesis using False by (simp add: unzigzag_def)
qed

lemma zigzag_bound: "in_i64 x \<Longrightarrow> zigzag x < 2 ^ 64"
  by (auto simp: zigzag_def nat_less_iff)

lemma Varint_varint: "in_i64 x \<Longrightarrow> Varint (varint x @ rest) = Some (x, length (varint x))"
  using Uvarint_uvarint [OF zigzag_bound, of x rest] by (simp add: Varint_def varint_def unzigzag_zigzag)

lemma uvarint_loop_bounds:
  "uvarint_loop i x bs = Some (v, n) \<Longrightarrow> i < n \<and> n \<le> i + length bs"
proof (induction i x bs rule: uvarint_loop.induct)
  case (2 i x b bs)
  then show ?case by (auto split: if_splits)
qed simp

lemma uvarint_loop_value:
  "uvarint_loop i x bs = Some (v, n) \<Longrightarrow> i \<le> 9 \<Longrightarrow> x < 128 ^ i \<Longrightarrow> v < 2 ^ 64"
proof (induction i x bs rule: uvarint_loop.induct)
  case (2 i x b bs)
  have top: "x + y * 128 ^ i < 128 ^ (i + 1)" if "y < 128" for y
  proof -
    have "x + y * 128 ^ i < 128 ^ i + 127 * 128 ^ i"
      using "2.prems"(3) that by (intro add_less_le_mono mult_le_mono1) auto
    then show ?thesis by simp
  qed
  have i9: "i < 9 \<Longrightarrow> (128 :: nat) ^ (i + 1) \<le> 2 ^ 64"
  proof -
    assume "i < 9"
    then have "(128 :: nat) ^ (i + 1) \<le> 128 ^ 9" by (intro power_increasing) auto
    then show ?thesis by simp
  qed
  show ?case
  proof (cases "unat b < 128")
    case True
    show ?thesis
    proof (cases "i = 9")
      case i: True
      then have "unat b \<le> 1" "v = x + unat b * 128 ^ 9" using "2.prems"(1) True by (auto split: if_splits)
      then have "v < 128 ^ 9 + 128 ^ 9" using "2.prems"(3) i
        by (metis add_less_le_mono mult_le_mono1 nat_mult_1)
      also have "(128 ^ 9 + 128 ^ 9 :: nat) = 2 ^ 64" by simp
      finally show ?thesis .
    next
      case False
      then have "v = x + unat b * 128 ^ i" "i < 9" using "2.prems"(1,2) True by (auto split: if_splits)
      with top [OF True] i9 show ?thesis by simp
    qed
  next
    case False
    have "i < 9 \<or> i = 9" using "2.prems"(2) by auto
    then show ?thesis
    proof
      assume "i < 9"
      then show ?thesis using "2.IH" False "2.prems"(1) top [of "unat b mod 128"] by simp
    next
      assume "i = 9"
      then show ?thesis using False "2.prems"(1) by (cases bs) auto
    qed
  qed
qed simp

lemma Uvarint_bounds:
  assumes "Uvarint bs = Some (v, n)"
  shows "0 < n" "n \<le> length bs" "v < 2 ^ 64"
  using uvarint_loop_bounds [of 0 0 bs v n] uvarint_loop_value [of 0 0 bs v n] assms
  by (auto simp: Uvarint_def)

end
