(* ===== verification/Block_V3.thy ===== *)
theory Block_V3
  imports Block Varint "HOL-Library.List_Lexorder" "HOL-Library.AList"
begin

text \<open>
  \<^verbatim>\<open>blockv3/blockv3.go\<close>: version-3 blocks, a fixed 76-byte header over a compressed payload of
  varint-framed records; the in-place header edits of a hop (\<open>Rewrite\<close>, \<open>Restamp\<close>, \<open>Strip\<close>); and the decoder.

  A record's header map is the list of its entries; the encoder writes them in key order and the
  decoder fills them in that order.  Byte strings are compared as \<^verbatim>\<open>sort.Strings\<close> does.
\<close>

section \<open>Headers\<close>

record Header =
  h_Codec :: Codec
  h_Flags :: byte
  h_BaseOffset :: int
  h_LeaderEpoch :: "64 word"
  h_BaseTimestamp :: int
  h_ProducerID :: int
  h_ProducerEpoch :: int
  h_BaseSequence :: int
  h_TxNonce :: "64 word"
  h_Records :: "32 word"
  h_LastOffsetDelta :: "32 word"
  h_UncompressedLen :: "32 word"
  h_CompressedLen :: "32 word"
  h_PayloadCRC :: "32 word"

text \<open>The first 72 bytes, in the order of the field offsets of the source.\<close>

definition header_fields :: "Header \<Rightarrow> bytes" where
  "header_fields h =
     [blockMagic, v3_Version, h_Codec h, h_Flags h] @ be64 (word_of_int (h_BaseOffset h)) @
     be64 (h_LeaderEpoch h) @ be64 (word_of_int (h_BaseTimestamp h)) @
     be64 (word_of_int (h_ProducerID h)) @ be32 (word_of_int (h_ProducerEpoch h)) @
     be32 (word_of_int (h_BaseSequence h)) @ be64 (h_TxNonce h) @ be32 (h_Records h) @
     be32 (h_LastOffsetDelta h) @ be32 (h_UncompressedLen h) @ be32 (h_CompressedLen h) @
     be32 (h_PayloadCRC h)"

definition EncodeHeader :: "bytes \<Rightarrow> Header \<Rightarrow> bytes" where
  "EncodeHeader dst h = dst @ header_fields h @ be32 (crc32 Castagnoli (header_fields h))"

definition headerCRC :: "bytes \<Rightarrow> 32 word result" where
  "headerCRC b = and_then (go_slice b 0 72) (\<lambda>f. Inr (crc32 Castagnoli f))"

definition sealHeader :: "bytes \<Rightarrow> bytes result" where
  "sealHeader b = and_then (headerCRC b) (\<lambda>c. go_put b 72 (be32 c))"

definition u32_at :: "bytes \<Rightarrow> int \<Rightarrow> 32 word result" where
  "u32_at b i = and_then (go_from b i) uint32_of"

definition u64_at :: "bytes \<Rightarrow> int \<Rightarrow> 64 word result" where
  "u64_at b i = and_then (go_from b i) uint64_of"

text \<open>The fourteen fields read at their offsets, \<open>c\<close> the codec byte.\<close>

definition read_header :: "bytes \<Rightarrow> Codec \<Rightarrow> Header result" where
  "read_header b c =
     and_then (go_index b 3) (\<lambda>flags.
     and_then (u64_at b 4) (\<lambda>bo. and_then (u64_at b 12) (\<lambda>le. and_then (u64_at b 20) (\<lambda>ts.
     and_then (u64_at b 28) (\<lambda>pid. and_then (u32_at b 36) (\<lambda>pe. and_then (u32_at b 40) (\<lambda>bs.
     and_then (u64_at b 44) (\<lambda>nonce. and_then (u32_at b 52) (\<lambda>n. and_then (u32_at b 56) (\<lambda>lod.
     and_then (u32_at b 60) (\<lambda>ul. and_then (u32_at b 64) (\<lambda>cl. and_then (u32_at b 68) (\<lambda>pc.
       Inr \<lparr>h_Codec = c, h_Flags = flags, h_BaseOffset = sint bo, h_LeaderEpoch = le,
            h_BaseTimestamp = sint ts, h_ProducerID = sint pid, h_ProducerEpoch = sint pe,
            h_BaseSequence = sint bs, h_TxNonce = nonce, h_Records = n, h_LastOffsetDelta = lod,
            h_UncompressedLen = ul, h_CompressedLen = cl, h_PayloadCRC = pc\<rparr>)))))))))))))"

definition DecodeHeader :: "bytes \<Rightarrow> Header result" where
  "DecodeHeader b =
     (if int (length b) < v3_HeaderLen then Inl ErrCorrupt
      else and_then (go_index b 0) (\<lambda>m. if m \<noteq> blockMagic then Inl ErrFormat
      else and_then (go_index b 1) (\<lambda>v. if v \<noteq> v3_Version then Inl ErrFormat
      else and_then (u32_at b 72) (\<lambda>want. and_then (headerCRC b) (\<lambda>got.
        if want \<noteq> got then Inl ErrCorrupt
      else and_then (go_index b 2) (\<lambda>codec. if \<not> codec_Valid codec then Inl ErrCorrupt
      else and_then (read_header b codec) (\<lambda>h.
        if h_Records h = 0 then Inl ErrCorrupt else Inr h)))))))"

text \<open>\<^verbatim>\<open>Rewrite\<close>, \<^verbatim>\<open>Restamp\<close> and \<^verbatim>\<open>Strip\<close> return the block they edited in place.\<close>

definition v3_Rewrite :: "bytes \<Rightarrow> int \<Rightarrow> 64 word \<Rightarrow> int \<Rightarrow> bytes result" where
  "v3_Rewrite block baseOffset leaderEpoch' baseTimestamp =
     and_then (DecodeHeader block) (\<lambda>_.
     and_then (go_put block 4 (be64 (word_of_int baseOffset))) (\<lambda>block.
     and_then (go_put block 12 (be64 leaderEpoch')) (\<lambda>block.
     and_then (go_put block 20 (be64 (word_of_int baseTimestamp))) sealHeader)))"

definition v3_Restamp :: "bytes \<Rightarrow> int \<Rightarrow> int \<Rightarrow> int \<Rightarrow> 64 word \<Rightarrow> bytes result" where
  "v3_Restamp block producerID producerEpoch baseSequence nonce =
     and_then (DecodeHeader block) (\<lambda>_.
     and_then (go_put block 28 (be64 (word_of_int producerID))) (\<lambda>block.
     and_then (go_put block 36 (be32 (word_of_int producerEpoch))) (\<lambda>block.
     and_then (go_put block 40 (be32 (word_of_int baseSequence))) (\<lambda>block.
     and_then (go_put block 44 (be64 nonce)) (\<lambda>block.
     and_then (go_index block 3) (\<lambda>f.
       let flags = f AND NOT (FlagTransactional OR FlagStripped);
           flags = (if nonce \<noteq> 0 then flags OR FlagTransactional else flags) in
       and_then (go_put block 3 [flags]) sealHeader))))))"

definition v3_Strip :: "bytes \<Rightarrow> bytes result" where
  "v3_Strip block =
     and_then (DecodeHeader block) (\<lambda>_.
     and_then (go_put block 28 (replicate 24 0)) (\<lambda>block.
     and_then (go_index block 3) (\<lambda>f.
     and_then (go_put block 3 [f AND NOT FlagTransactional OR FlagStripped]) sealHeader)))"

definition VerifyPayload :: "bytes \<Rightarrow> Header result" where
  "VerifyPayload block =
     and_then (DecodeHeader block) (\<lambda>h.
       if int (length block) \<noteq> v3_HeaderLen + int (unat (h_CompressedLen h)) then Inl ErrCorrupt
       else and_then (go_from block v3_HeaderLen) (\<lambda>payload.
         if crc32 Castagnoli payload \<noteq> h_PayloadCRC h then Inl ErrCorrupt else Inr h))"

section \<open>Records\<close>

record Record =
  r_Attributes :: byte
  r_OffsetDelta :: "32 word"
  r_Key :: "bytes option"
  r_Value :: "bytes option"
  r_Headers :: "(bytes \<times> bytes option) list"

definition appendBytes :: "bytes \<Rightarrow> bytes option \<Rightarrow> bytes" where
  "appendBytes dst b =
     (case b of None \<Rightarrow> dst @ varint (- 1) | Some d \<Rightarrow> dst @ varint (int (length d)) @ d)"

text \<open>A nil header value is written as an empty one.\<close>

definition nil_bytes :: "bytes option \<Rightarrow> bytes" where
  "nil_bytes b = (case b of None \<Rightarrow> [] | Some b \<Rightarrow> b)"

definition encode_headers :: "(bytes \<times> bytes option) list \<Rightarrow> bytes" where
  "encode_headers hs =
     concat (map (\<lambda>(k, v). uvarint (length k) @ k @ uvarint (length (nil_bytes v)) @ nil_bytes v) (sort_key fst hs))"

definition encodeRecord :: "Record \<Rightarrow> bytes" where
  "encodeRecord r =
     appendBytes (appendBytes ([r_Attributes r] @ uvarint (unat (r_OffsetDelta r))) (r_Key r)) (r_Value r) @
     uvarint (length (r_Headers r)) @ encode_headers (r_Headers r)"

definition EncodeRecords :: "bytes \<Rightarrow> Record list \<Rightarrow> bytes" where
  "EncodeRecords dst recs =
     foldl (\<lambda>dst r. let scratch = encodeRecord r in dst @ uvarint (length scratch) @ scratch) dst recs"

section \<open>The cursor\<close>

record cursor =
  cu_buf :: bytes
  cu_pos :: nat
  cu_err :: bool

definition cu_fail :: "cursor \<Rightarrow> cursor" where
  "cu_fail c = c \<lparr>cu_err := True\<rparr>"

definition cu_byte :: "cursor \<Rightarrow> (byte \<times> cursor) result" where
  "cu_byte c =
     (if cu_err c \<or> cu_pos c \<ge> length (cu_buf c) then Inr (0, cu_fail c)
      else and_then (go_index (cu_buf c) (int (cu_pos c))) (\<lambda>b.
        Inr (b, c \<lparr>cu_pos := cu_pos c + 1\<rparr>)))"

definition cu_uvarint :: "cursor \<Rightarrow> (nat \<times> cursor) result" where
  "cu_uvarint c =
     (if cu_err c then Inr (0, c)
      else and_then (go_from (cu_buf c) (int (cu_pos c))) (\<lambda>s.
        case Uvarint s of
          None \<Rightarrow> Inr (0, cu_fail c)
        | Some (v, n) \<Rightarrow> Inr (v, c \<lparr>cu_pos := cu_pos c + n\<rparr>)))"

definition cu_varint :: "cursor \<Rightarrow> (int \<times> cursor) result" where
  "cu_varint c =
     (if cu_err c then Inr (0, c)
      else and_then (go_from (cu_buf c) (int (cu_pos c))) (\<lambda>s.
        case Varint s of
          None \<Rightarrow> Inr (0, cu_fail c)
        | Some (v, n) \<Rightarrow> Inr (v, c \<lparr>cu_pos := cu_pos c + n\<rparr>)))"

text \<open>The comparison is of 64-bit unsigned values.\<close>

definition cu_bytes :: "nat \<Rightarrow> cursor \<Rightarrow> (bytes option \<times> cursor) result" where
  "cu_bytes n c =
     (if cu_err c then Inr (None, c)
      else if int n > (int (length (cu_buf c)) - int (cu_pos c)) mod 2 ^ 64 then Inr (None, cu_fail c)
      else and_then (go_slice (cu_buf c) (int (cu_pos c)) (int (cu_pos c) + int n)) (\<lambda>b.
        Inr (Some b, c \<lparr>cu_pos := cu_pos c + n\<rparr>)))"

definition cu_field :: "cursor \<Rightarrow> (bytes option \<times> cursor) result" where
  "cu_field c =
     and_then (cu_varint c) (\<lambda>(n, c).
       if cu_err c then Inr (None, c)
       else if n = - 1 then Inr (None, c)
       else if n < - 1 then Inr (None, cu_fail c)
       else cu_bytes (nat n) c)"

section \<open>Decoding records\<close>

text \<open>The loop over a record's headers stops at the first latched error.\<close>

fun header_loop ::
  "nat \<Rightarrow> cursor \<Rightarrow> (bytes \<times> bytes option) list \<Rightarrow> (cursor \<times> (bytes \<times> bytes option) list) result" where
  "header_loop 0 c hs = Inr (c, hs)"
| "header_loop (Suc n) c hs =
     (if cu_err c then Inr (c, hs)
      else and_then (cu_uvarint c) (\<lambda>(ks, c). and_then (cu_bytes ks c) (\<lambda>(k, c).
           and_then (cu_uvarint c) (\<lambda>(vs, c). and_then (cu_bytes vs c) (\<lambda>(v, c).
             header_loop n c (AList.update (nil_bytes k) v hs))))))"

definition decodeRecord :: "bytes \<Rightarrow> Record result" where
  "decodeRecord body =
     and_then (cu_byte \<lparr>cu_buf = body, cu_pos = 0, cu_err = False\<rparr>) (\<lambda>(attrs, c).
     and_then (cu_uvarint c) (\<lambda>(delta, c).
     and_then (cu_field c) (\<lambda>(key, c).
     and_then (cu_field c) (\<lambda>(value, c).
     and_then (cu_uvarint c) (\<lambda>(n, c).
     and_then (header_loop n c []) (\<lambda>(c, hs).
       if cu_err c then Inl ErrOther
       else if cu_pos c \<noteq> length body then Inl ErrOther
       else Inr \<lparr>r_Attributes = attrs, r_OffsetDelta = word_of_nat delta, r_Key = key, r_Value = value,
                 r_Headers = hs\<rparr>))))))"

fun decode_records_loop :: "nat \<Rightarrow> cursor \<Rightarrow> (cursor \<times> Record list) result" where
  "decode_records_loop 0 c = Inr (c, [])"
| "decode_records_loop (Suc n) c =
     and_then (cu_uvarint c) (\<lambda>(len, c). and_then (cu_bytes len c) (\<lambda>(body, c).
       if cu_err c then Inl ErrCorrupt
       else (case decodeRecord (nil_bytes body) of
           Inl GoPanic \<Rightarrow> Inl GoPanic
         | Inl _ \<Rightarrow> Inl ErrCorrupt
         | Inr r \<Rightarrow> and_then (decode_records_loop n c) (\<lambda>(c, rs). Inr (c, r # rs)))))"

definition DecodeRecords :: "bytes \<Rightarrow> nat \<Rightarrow> Record list result" where
  "DecodeRecords payload n =
     and_then (decode_records_loop n \<lparr>cu_buf = payload, cu_pos = 0, cu_err = False\<rparr>) (\<lambda>(c, recs).
       if cu_pos c \<noteq> length payload then Inl ErrCorrupt else Inr recs)"

section \<open>Blocks\<close>

definition EncodeBlock :: "codecs \<Rightarrow> Header \<Rightarrow> Record list \<Rightarrow> bytes result" where
  "EncodeBlock C h recs =
     (if recs = [] then Inl ErrOther
      else let logical = EncodeRecords [] recs;
               (payload, codec) =
                 (if h_Codec h \<noteq> None_codec then
                    (let c = Compress C (h_Codec h) logical in
                     if length c < length logical then (c, h_Codec h) else (logical, None_codec))
                  else (logical, h_Codec h));
               h = h \<lparr>h_Codec := codec, h_Records := word_of_nat (length recs),
                      h_LastOffsetDelta := r_OffsetDelta (last recs),
                      h_UncompressedLen := word_of_nat (length logical),
                      h_CompressedLen := word_of_nat (length payload),
                      h_PayloadCRC := crc32 Castagnoli payload\<rparr> in
        Inr (EncodeHeader [] h @ payload))"

definition DecodeBlock :: "codecs \<Rightarrow> bytes \<Rightarrow> (Header \<times> Record list) result" where
  "DecodeBlock C block =
     and_then (VerifyPayload block) (\<lambda>h.
     and_then (go_from block v3_HeaderLen) (\<lambda>payload.
     and_then (if h_Codec h \<noteq> None_codec
               then (case DecompressInto C (h_Codec h) payload of Inl _ \<Rightarrow> Inl ErrCorrupt | Inr p \<Rightarrow> Inr p)
               else Inr payload) (\<lambda>payload.
       if length payload \<noteq> unat (h_UncompressedLen h) then Inl ErrCorrupt
       else and_then (DecodeRecords payload (unat (h_Records h))) (\<lambda>recs.
         if recs = [] then Inl GoPanic
         else if r_OffsetDelta (last recs) \<noteq> h_LastOffsetDelta h then Inl ErrCorrupt
         else Inr (h, recs)))))"

section \<open>Reading back what was written\<close>

text \<open>The cursor standing between what it has read and what is left.\<close>

definition CU :: "bytes \<Rightarrow> bytes \<Rightarrow> cursor" where
  "CU pre s = \<lparr>cu_buf = pre @ s, cu_pos = length pre, cu_err = False\<rparr>"

lemma nil_bytes_Some [simp]: "nil_bytes (Some b) = b"
  by (simp add: nil_bytes_def)

lemma CU_simps [simp]:
  "cu_err (CU pre s) = False" "cu_pos (CU pre s) = length pre" "cu_buf (CU pre s) = pre @ s"
  by (simp_all add: CU_def)

lemma CU_advance: "(CU pre (x @ s)) \<lparr>cu_pos := length pre + length x\<rparr> = CU (pre @ x) s"
  by (simp add: CU_def)

lemma cu_byte_CU: "cu_byte (CU pre (b # s)) = Inr (b, CU (pre @ [b]) s)"
  using CU_advance [of pre "[b]" s] by (simp add: cu_byte_def go_index_def nth_append)

lemma cu_uvarint_CU: "x < 2 ^ 64 \<Longrightarrow> cu_uvarint (CU pre (uvarint x @ s)) = Inr (x, CU (pre @ uvarint x) s)"
  by (simp add: cu_uvarint_def Uvarint_uvarint CU_advance)

lemma cu_varint_CU: "in_i64 x \<Longrightarrow> cu_varint (CU pre (varint x @ s)) = Inr (x, CU (pre @ varint x) s)"
  by (simp add: cu_varint_def Varint_varint CU_advance)

lemma cu_bytes_CU:
  assumes "length (d @ s) < 2 ^ 64"
  shows "cu_bytes (length d) (CU pre (d @ s)) = Inr (Some d, CU (pre @ d) s)"
proof -
  have "(int (length (pre @ d @ s)) - int (length pre)) mod 2 ^ 64 = int (length d + length s)"
    using assms by simp
  then show ?thesis
    by (simp add: cu_bytes_def go_slice_at [of _ pre d s] CU_advance)
qed

lemma appendBytes_append: "appendBytes dst b = dst @ appendBytes [] b"
  by (simp add: appendBytes_def split: option.split)

lemma cu_field_CU:
  assumes "length (appendBytes [] b @ s) < 2 ^ 63"
  shows "cu_field (CU pre (appendBytes [] b @ s)) = Inr (b, CU (pre @ appendBytes [] b) s)"
proof (cases b)
  case None
  then show ?thesis by (simp add: cu_field_def appendBytes_def cu_varint_CU)
next
  case (Some d)
  have l: "length d < 2 ^ 63" "length (d @ s) < 2 ^ 64" using assms by (simp_all add: Some appendBytes_def)
  then have "cu_varint (CU pre (varint (int (length d)) @ d @ s)) =
      Inr (int (length d), CU (pre @ varint (int (length d))) (d @ s))"
    by (intro cu_varint_CU) simp
  then show ?thesis using cu_bytes_CU [OF l(2), of "pre @ varint (int (length d))"]
    by (simp add: Some cu_field_def appendBytes_def)
qed

definition header_bytes :: "(bytes \<times> bytes option) \<Rightarrow> bytes" where
  "header_bytes h = uvarint (length (fst h)) @ fst h @ uvarint (length (nil_bytes (snd h))) @ nil_bytes (snd h)"

abbreviation present :: "bytes \<times> bytes option \<Rightarrow> bytes \<times> bytes option" where
  "present h \<equiv> (fst h, Some (nil_bytes (snd h)))"

lemma encode_headers_eq: "encode_headers hs = concat (map header_bytes (sort_key fst hs))"
  by (simp add: encode_headers_def header_bytes_def case_prod_beta cong: map_cong)

lemma header_loop_CU:
  assumes "length (concat (map header_bytes hs) @ s) < 2 ^ 63" and "distinct (map fst (acc @ hs))"
  shows "header_loop (length hs) (CU pre (concat (map header_bytes hs) @ s)) acc =
           Inr (CU (pre @ concat (map header_bytes hs)) s, acc @ map present hs)"
  using assms
proof (induction hs arbitrary: pre acc)
  case (Cons h hs)
  obtain k w where h: "h = (k, w)" by (cases h)
  define v where "v = nil_bytes w"
  have hb: "header_bytes (k, w) = uvarint (length k) @ k @ uvarint (length v) @ v"
    by (simp add: header_bytes_def v_def)
  let ?rest = "concat (map header_bytes hs) @ s"
  have l: "length k < 2 ^ 64" "length v < 2 ^ 64" "length (k @ uvarint (length v) @ v @ ?rest) < 2 ^ 64"
    "length (v @ ?rest) < 2 ^ 64"
    using Cons.prems(1) by (simp_all add: h hb)
  have upd: "AList.update k (Some v) acc = acc @ [(k, Some v)]"
  proof -
    have "k \<notin> fst ` set acc" using Cons.prems(2) by (auto simp: h)
    then show ?thesis by (induction acc) auto
  qed
  have "header_loop (length hs) (CU (pre @ header_bytes h) ?rest) (acc @ [(k, Some v)]) =
      Inr (CU ((pre @ header_bytes h) @ concat (map header_bytes hs)) s, (acc @ [(k, Some v)]) @ map present hs)"
    using Cons.prems by (intro Cons.IH) (auto simp: h)
  then show ?case
    using cu_uvarint_CU [OF l(1), of pre "k @ uvarint (length v) @ v @ ?rest"]
      cu_bytes_CU [OF l(3), of "pre @ uvarint (length k)"]
      cu_uvarint_CU [OF l(2), of "pre @ uvarint (length k) @ k" "v @ ?rest"]
      cu_bytes_CU [OF l(4), of "pre @ uvarint (length k) @ k @ uvarint (length v)"]
    by (simp add: h hb upd v_def [symmetric])
qed simp

definition sorted_headers :: "Record \<Rightarrow> Record" where
  "sorted_headers r = r \<lparr>r_Headers := map present (sort_key fst (r_Headers r))\<rparr>"

lemma decodeRecord_encodeRecord:
  assumes len: "length (encodeRecord r) < 2 ^ 63" and "distinct (map fst (r_Headers r))"
  shows "decodeRecord (encodeRecord r) = Inr (sorted_headers r)"
proof -
  define hs where "hs = sort_key fst (r_Headers r)"
  have hs: "length hs = length (r_Headers r)" "distinct (map fst hs)"
    using assms(2) by (simp_all add: hs_def distinct_map inj_on_def)
  let ?d = "uvarint (unat (r_OffsetDelta r))" and ?k = "appendBytes [] (r_Key r)"
    and ?v = "appendBytes [] (r_Value r)" and ?n = "uvarint (length hs)" and ?h = "concat (map header_bytes hs)"
  have e: "encodeRecord r = r_Attributes r # ?d @ ?k @ ?v @ ?n @ ?h @ []"
    by (simp add: encodeRecord_def appendBytes_append [of "appendBytes _ _"]
        appendBytes_append [of "_ # _"] encode_headers_eq hs hs_def [symmetric])
  have start: "\<lparr>cu_buf = b, cu_pos = 0, cu_err = False\<rparr> = CU [] b" for b by (simp add: CU_def)
  have nh: "length hs \<le> length ?h"
  proof (induction hs)
    case (Cons a hs)
    then show ?case using uvarint_not_Nil [of "length (fst a)"]
      by (cases "uvarint (length (fst a))") (auto simp: header_bytes_def)
  qed simp
  have b: "unat (r_OffsetDelta r) < 2 ^ 64" "length hs < 2 ^ 64"
    using unsigned_less [where ?'a = nat, of "r_OffsetDelta r"] len nh by (simp_all add: e)
  show ?thesis unfolding decodeRecord_def e start
    using len b
      cu_field_CU [of "r_Key r" "?v @ ?n @ ?h @ []" "[r_Attributes r] @ ?d"]
      cu_field_CU [of "r_Value r" "?n @ ?h @ []" "[r_Attributes r] @ ?d @ ?k"]
      header_loop_CU [of hs "[]" "[]" "[r_Attributes r] @ ?d @ ?k @ ?v @ ?n"]
    by (simp add: e cu_byte_CU cu_uvarint_CU hs sorted_headers_def hs_def [symmetric])
qed

definition record_frame :: "Record \<Rightarrow> bytes" where
  "record_frame r = uvarint (length (encodeRecord r)) @ encodeRecord r"

lemma EncodeRecords_concat: "EncodeRecords dst recs = dst @ concat (map record_frame recs)"
proof (induction recs arbitrary: dst)
  case (Cons r recs)
  from Cons [of "dst @ record_frame r"] show ?case
    by (simp add: EncodeRecords_def Let_def record_frame_def)
qed (simp add: EncodeRecords_def)

lemma decode_records_loop_CU:
  assumes "length (concat (map record_frame recs) @ s) < 2 ^ 63"
    and "\<And>r. r \<in> set recs \<Longrightarrow> distinct (map fst (r_Headers r))"
  shows "decode_records_loop (length recs) (CU pre (concat (map record_frame recs) @ s)) =
           Inr (CU (pre @ concat (map record_frame recs)) s, map sorted_headers recs)"
  using assms
proof (induction recs arbitrary: pre)
  case (Cons r recs)
  let ?rest = "concat (map record_frame recs) @ s"
  have rf: "record_frame r = uvarint (length (encodeRecord r)) @ encodeRecord r"
    by (rule record_frame_def)
  have l: "length (encodeRecord r) < 2 ^ 64" "length (encodeRecord r @ ?rest) < 2 ^ 64"
    "length (encodeRecord r) < 2 ^ 63"
    using Cons.prems(1) by (simp_all add: rf)
  have "decode_records_loop (length recs) (CU (pre @ record_frame r) ?rest) =
      Inr (CU ((pre @ record_frame r) @ concat (map record_frame recs)) s, map sorted_headers recs)"
    using Cons.prems by (intro Cons.IH) auto
  then show ?case
    using cu_uvarint_CU [OF l(1), of pre "encodeRecord r @ ?rest"]
      cu_bytes_CU [OF l(2), of "pre @ uvarint (length (encodeRecord r))"]
      decodeRecord_encodeRecord [OF l(3)] Cons.prems(2) [of r]
    by (simp add: rf)
qed simp

lemma DecodeRecords_EncodeRecords:
  assumes "length (EncodeRecords [] recs) < 2 ^ 63"
    and "\<And>r. r \<in> set recs \<Longrightarrow> distinct (map fst (r_Headers r))"
  shows "DecodeRecords (EncodeRecords [] recs) (length recs) = Inr (map sorted_headers recs)"
  using decode_records_loop_CU [of recs "[]" "[]"] assms
  by (simp add: DecodeRecords_def EncodeRecords_concat CU_def)

section \<open>The header\<close>

definition header_ok :: "Header \<Rightarrow> bool" where
  "header_ok h \<longleftrightarrow> codec_Valid (h_Codec h) \<and> h_Records h \<noteq> 0 \<and> in_i64 (h_BaseOffset h) \<and>
     in_i64 (h_BaseTimestamp h) \<and> in_i64 (h_ProducerID h) \<and> in_i32 (h_ProducerEpoch h) \<and>
     in_i32 (h_BaseSequence h)"

text \<open>Walking over a layout: reading at an offset passes the pieces in front of it.\<close>

lemma go_from_walk:
  "go_from xs 0 = Inr xs"
  "0 < n \<Longrightarrow> go_from (x # xs) n = go_from xs (n - 1)"
  "8 \<le> n \<Longrightarrow> go_from (be64 w @ s) n = go_from s (n - 8)"
  "4 \<le> n \<Longrightarrow> go_from (be32 v @ s) n = go_from s (n - 4)"
  by (auto simp: go_from_def go_slice_def drop_Cons' nat_diff_distrib drop_append)

lemma go_index_walk:
  "go_index (x # xs) 0 = Inr x"
  "0 < n \<Longrightarrow> go_index (x # xs) n = go_index xs (n - 1)"
  by (auto simp: go_index_def nth_Cons' nat_diff_distrib)

lemma go_put_walk:
  "0 < n \<Longrightarrow> go_put (x # xs) n d = and_then (go_put xs (n - 1) d) (\<lambda>r. Inr (x # r))"
  "8 \<le> n \<Longrightarrow> go_put (be64 w @ s) n d = and_then (go_put s (n - 8) d) (\<lambda>r. Inr (be64 w @ r))"
  "4 \<le> n \<Longrightarrow> go_put (be32 v @ s) n d = and_then (go_put s (n - 4) d) (\<lambda>r. Inr (be32 v @ r))"
  "go_put (x # xs) 0 [y] = Inr (y # xs)"
  "go_put (be64 w @ s) 0 (be64 w') = Inr (be64 w' @ s)"
  "go_put (be32 v @ s) 0 (be32 v') = Inr (be32 v' @ s)"
  by (auto simp: go_put_def take_Cons' drop_Cons' nat_diff_distrib)

lemma length_header_fields [simp]: "length (header_fields h) = 72"
  by (simp add: header_fields_def)

lemma headerCRC_fields: "headerCRC (header_fields h @ s) = Inr (crc32 Castagnoli (header_fields h))"
  by (simp add: headerCRC_def go_slice_at [of _ "[]" "header_fields h" s])

lemma read_header_fields:
  assumes "header_ok h"
  shows "read_header (header_fields h @ s) (h_Codec h) = Inr h"
  using assms
  by (simp add: read_header_def header_fields_def u64_at_def u32_at_def go_from_walk go_index_walk
      header_ok_def sint_word_of_int_64 sint_word_of_int_32 i64_id i32_id)

lemma DecodeHeader_EncodeHeader:
  assumes "header_ok h"
  shows "DecodeHeader (EncodeHeader [] h @ payload) = Inr h"
proof -
  let ?s = "be32 (crc32 Castagnoli (header_fields h)) @ payload"
  have u: "u32_at (header_fields h @ ?s) 72 = Inr (crc32 Castagnoli (header_fields h))"
    by (simp add: u32_at_def go_from_at [of _ "header_fields h" ?s])
  have i: "go_index (header_fields h @ ?s) 0 = Inr blockMagic"
      "go_index (header_fields h @ ?s) 1 = Inr v3_Version"
      "go_index (header_fields h @ ?s) 2 = Inr (h_Codec h)"
    by (simp_all add: header_fields_def go_index_walk)
  show ?thesis using assms
    by (simp add: DecodeHeader_def EncodeHeader_def u i headerCRC_fields read_header_fields) (simp add: header_ok_def)
qed

lemma drop_split: "n + k \<le> length b \<Longrightarrow> drop n b = sub b n k @ drop (n + k) b"
  by (simp add: sub_def drop_drop [symmetric] add.commute del: drop_drop)

lemma u64_at_Inr: "u64_at b (int n) = Inr w \<Longrightarrow> n + 8 \<le> length b \<and> drop n b = be64 w @ drop (n + 8) b"
  using drop_split [of n 8 b]
  by (auto simp: u64_at_def go_from_def go_slice_def uint64_of_def be64_of_uint64 sub_def split: if_splits)

lemma u32_at_Inr: "u32_at b (int n) = Inr w \<Longrightarrow> n + 4 \<le> length b \<and> drop n b = be32 w @ drop (n + 4) b"
  using drop_split [of n 4 b]
  by (auto simp: u32_at_def go_from_def go_slice_def uint32_of_def be32_of_uint32 sub_def split: if_splits)

lemma go_index_Inr: "go_index b (int n) = Inr x \<Longrightarrow> n < length b \<and> drop n b = x # drop (n + 1) b"
  by (auto simp: go_index_def Cons_nth_drop_Suc split: if_splits)

lemma u64_drop: "u64_at b (int n) = Inr w \<Longrightarrow> m = n + 8 \<Longrightarrow> drop n b = be64 w @ drop m b"
  by (simp add: u64_at_Inr)

lemma u32_drop: "u32_at b (int n) = Inr w \<Longrightarrow> m = n + 4 \<Longrightarrow> drop n b = be32 w @ drop m b"
  by (simp add: u32_at_Inr)

lemma drop_index: "go_index b (int n) = Inr x \<Longrightarrow> m = n + 1 \<Longrightarrow> drop n b = x # drop m b"
  by (simp add: go_index_Inr)

lemma read_header_inverse:
  assumes "read_header b c = Inr h" and "go_index b 0 = Inr m" and "go_index b 1 = Inr v" and "go_index b 2 = Inr c"
  shows "h_Codec h = c \<and> b = m # v # c # drop 3 (header_fields h) @ drop 72 b"
proof -
  obtain flags bo le ts pid pe bs nonce n lod ul cl pc where
    r: "go_index b (int 3) = Inr flags" "u64_at b (int 4) = Inr bo" "u64_at b (int 12) = Inr le"
      "u64_at b (int 20) = Inr ts" "u64_at b (int 28) = Inr pid" "u32_at b (int 36) = Inr pe"
      "u32_at b (int 40) = Inr bs" "u64_at b (int 44) = Inr nonce" "u32_at b (int 52) = Inr n"
      "u32_at b (int 56) = Inr lod" "u32_at b (int 60) = Inr ul" "u32_at b (int 64) = Inr cl"
      "u32_at b (int 68) = Inr pc"
    and h: "h = \<lparr>h_Codec = c, h_Flags = flags, h_BaseOffset = sint bo, h_LeaderEpoch = le,
            h_BaseTimestamp = sint ts, h_ProducerID = sint pid, h_ProducerEpoch = sint pe,
            h_BaseSequence = sint bs, h_TxNonce = nonce, h_Records = n, h_LastOffsetDelta = lod,
            h_UncompressedLen = ul, h_CompressedLen = cl, h_PayloadCRC = pc\<rparr>"
    using assms(1) by (auto simp: read_header_def and_then_Inr_iff)
  have i: "drop 0 b = m # drop 1 b" "drop 1 b = v # drop 2 b" "drop 2 b = c # drop 3 b"
    using drop_index [of b 0 m 1] drop_index [of b 1 v 2] drop_index [of b 2 c 3] assms by simp_all
  have d: "drop 3 b = flags # drop 4 b" "drop 4 b = be64 bo @ drop 12 b" "drop 12 b = be64 le @ drop 20 b"
      "drop 20 b = be64 ts @ drop 28 b" "drop 28 b = be64 pid @ drop 36 b" "drop 36 b = be32 pe @ drop 40 b"
      "drop 40 b = be32 bs @ drop 44 b" "drop 44 b = be64 nonce @ drop 52 b" "drop 52 b = be32 n @ drop 56 b"
      "drop 56 b = be32 lod @ drop 60 b" "drop 60 b = be32 ul @ drop 64 b" "drop 64 b = be32 cl @ drop 68 b"
      "drop 68 b = be32 pc @ drop 72 b"
    by (rule drop_index [OF r(1)], simp) (rule u64_drop u32_drop, rule r, simp)+
  have "drop 0 b = m # v # c # drop 3 (header_fields h) @ drop 72 b"
    by (simp only: i d) (simp add: h header_fields_def)
  then show ?thesis by (simp add: h)
qed

lemma read_header_ranges:
  "read_header b c = Inr h \<Longrightarrow> in_i64 (h_BaseOffset h) \<and> in_i64 (h_BaseTimestamp h) \<and>
     in_i64 (h_ProducerID h) \<and> in_i32 (h_ProducerEpoch h) \<and> in_i32 (h_BaseSequence h)"
  using sint_range_64 sint_range_32 by (auto simp: read_header_def and_then_Inr_iff)

lemma header_fields_front:
  "header_fields h = blockMagic # v3_Version # h_Codec h # drop 3 (header_fields h)"
  by (simp add: header_fields_def)

text \<open>A header that decodes is the encoding of what it decodes to.\<close>

lemma DecodeHeader_inverse:
  assumes "DecodeHeader b = Inr h"
  shows "header_ok h" and "b = EncodeHeader [] h @ drop 76 b"
proof -
  obtain want where len: "76 \<le> length b" and i: "go_index b 0 = Inr blockMagic" "go_index b 1 = Inr v3_Version"
      "go_index b 2 = Inr (h_Codec h)" and w: "u32_at b (int 72) = Inr want" "headerCRC b = Inr want"
    and ok: "codec_Valid (h_Codec h)" "h_Records h \<noteq> 0" and r: "read_header b (h_Codec h) = Inr h"
  proof -
    from assms obtain codec want where
      *: "76 \<le> length b" "go_index b 0 = Inr blockMagic" "go_index b 1 = Inr v3_Version"
      "go_index b 2 = Inr codec" "u32_at b 72 = Inr want" "headerCRC b = Inr want"
      "codec_Valid codec" "h_Records h \<noteq> 0" "read_header b codec = Inr h"
      by (auto simp: DecodeHeader_def and_then_Inr_iff split: if_splits)
    with read_header_inverse [OF *(9,2,3,4)] show ?thesis by (intro that [of want]) auto
  qed
  show "header_ok h" using ok read_header_ranges [OF r] by (simp add: header_ok_def)
  have b: "b = header_fields h @ drop 72 b"
    using read_header_inverse [OF r i] by (subst header_fields_front) simp
  have d: "drop 72 b = be32 want @ drop 76 b" using u32_drop [OF w(1), of 76] by simp
  have "want = crc32 Castagnoli (header_fields h)"
    using w(2) by (subst (asm) b) (simp add: headerCRC_fields)
  then show "b = EncodeHeader [] h @ drop 76 b" using b d by (simp add: EncodeHeader_def)
qed

lemma length_EncodeHeader [simp]: "length (EncodeHeader [] h) = 76"
  by (simp add: EncodeHeader_def)

lemma go_from_EncodeHeader: "go_from (EncodeHeader [] h @ p) 76 = Inr p"
  by (rule go_from_at [of _ "EncodeHeader [] h"]) simp_all

text \<open>The block decoder past the header depends on the payload's own fields only.\<close>

lemma VerifyPayload_EncodeHeader:
  assumes "header_ok h"
  shows "VerifyPayload (EncodeHeader [] h @ p) =
    (if length p = unat (h_CompressedLen h) \<and> crc32 Castagnoli p = h_PayloadCRC h then Inr h else Inl ErrCorrupt)"
  by (auto simp: VerifyPayload_def DecodeHeader_EncodeHeader [OF assms] go_from_EncodeHeader simp del: of_nat_unat)

lemma sealHeader_fields: "sealHeader (header_fields h @ be32 c @ p) = Inr (EncodeHeader [] h @ p)"
proof -
  have "go_put (header_fields h @ be32 c @ p) 72 (be32 x) = Inr (header_fields h @ be32 x @ p)" for x
    by (simp add: go_put_def)
  then show ?thesis by (simp add: sealHeader_def headerCRC_fields EncodeHeader_def)
qed

definition rewritten :: "int \<Rightarrow> 64 word \<Rightarrow> int \<Rightarrow> Header \<Rightarrow> Header" where
  "rewritten bo le ts h = h \<lparr>h_BaseOffset := i64 bo, h_LeaderEpoch := le, h_BaseTimestamp := i64 ts\<rparr>"

definition restamped :: "int \<Rightarrow> int \<Rightarrow> int \<Rightarrow> 64 word \<Rightarrow> Header \<Rightarrow> Header" where
  "restamped pid pe bs nonce h = h \<lparr>h_ProducerID := i64 pid, h_ProducerEpoch := i32 pe,
     h_BaseSequence := i32 bs, h_TxNonce := nonce,
     h_Flags := (let f = h_Flags h AND NOT (FlagTransactional OR FlagStripped) in
                 if nonce \<noteq> 0 then f OR FlagTransactional else f)\<rparr>"

definition stripped :: "Header \<Rightarrow> Header" where
  "stripped h = h \<lparr>h_ProducerID := 0, h_ProducerEpoch := 0, h_BaseSequence := 0, h_TxNonce := 0,
     h_Flags := h_Flags h AND NOT FlagTransactional OR FlagStripped\<rparr>"

lemma word_of_int_i32: "(word_of_int (i32 x) :: 32 word) = word_of_int x"
  by (simp flip: sint_word_of_int_32)

lemmas edit_simps = header_fields_def go_put_walk go_index_walk word_of_int_i64 word_of_int_i32

lemma v3_Rewrite_EncodeHeader:
  assumes "header_ok h"
  shows "v3_Rewrite (EncodeHeader [] h @ p) bo le ts = Inr (EncodeHeader [] (rewritten bo le ts h) @ p)"
proof -
  let ?c = "be32 (crc32 Castagnoli (header_fields h))"
  have "v3_Rewrite (EncodeHeader [] h @ p) bo le ts = sealHeader (header_fields (rewritten bo le ts h) @ ?c @ p)"
    unfolding v3_Rewrite_def DecodeHeader_EncodeHeader [OF assms]
    by (simp add: EncodeHeader_def edit_simps rewritten_def)
  then show ?thesis by (simp add: sealHeader_fields)
qed

lemma v3_Restamp_EncodeHeader:
  assumes "header_ok h"
  shows "v3_Restamp (EncodeHeader [] h @ p) pid pe bs nonce =
           Inr (EncodeHeader [] (restamped pid pe bs nonce h) @ p)"
proof -
  let ?c = "be32 (crc32 Castagnoli (header_fields h))"
  have "v3_Restamp (EncodeHeader [] h @ p) pid pe bs nonce =
      sealHeader (header_fields (restamped pid pe bs nonce h) @ ?c @ p)"
    unfolding v3_Restamp_def DecodeHeader_EncodeHeader [OF assms]
    by (simp add: EncodeHeader_def edit_simps restamped_def Let_def)
  then show ?thesis by (simp add: sealHeader_fields)
qed

lemma zero_identity: "replicate 24 (0 :: byte) = be64 0 @ be32 0 @ be32 0 @ be64 0"
proof -
  have z: "be n 0 = replicate n 0" for n by (induction n) auto
  show ?thesis by (simp add: be64_def be32_def z flip: replicate_add)
qed

lemma v3_Strip_EncodeHeader:
  assumes "header_ok h"
  shows "v3_Strip (EncodeHeader [] h @ p) = Inr (EncodeHeader [] (stripped h) @ p)"
proof -
  let ?c = "be32 (crc32 Castagnoli (header_fields h))"
  have z: "go_put (be64 a @ be32 b @ be32 c @ be64 d @ s) 0 (replicate 24 0) =
      Inr (be64 0 @ be32 0 @ be32 0 @ be64 0 @ s)" for a b c d and s :: bytes
    by (simp add: go_put_def zero_identity)
  have "v3_Strip (EncodeHeader [] h @ p) = sealHeader (header_fields (stripped h) @ ?c @ p)"
    unfolding v3_Strip_def DecodeHeader_EncodeHeader [OF assms]
    by (simp add: EncodeHeader_def edit_simps stripped_def z)
  then show ?thesis by (simp add: sealHeader_fields)
qed

lemma edits_header_ok:
  assumes "header_ok h"
  shows "header_ok (rewritten bo le ts h)" "header_ok (restamped pid pe bs nonce h)" "header_ok (stripped h)"
  using assms i64_range i32_range by (auto simp: header_ok_def rewritten_def restamped_def stripped_def)

definition decode_payload :: "codecs \<Rightarrow> Header \<Rightarrow> bytes \<Rightarrow> Record list result" where
  "decode_payload C h p =
     (if length p = unat (h_CompressedLen h) \<and> crc32 Castagnoli p = h_PayloadCRC h then
       and_then (if h_Codec h \<noteq> None_codec
                 then (case DecompressInto C (h_Codec h) p of Inl _ \<Rightarrow> Inl ErrCorrupt | Inr p \<Rightarrow> Inr p)
                 else Inr p) (\<lambda>p.
         if length p \<noteq> unat (h_UncompressedLen h) then Inl ErrCorrupt
         else and_then (DecodeRecords p (unat (h_Records h))) (\<lambda>recs.
           if recs = [] then Inl GoPanic
           else if r_OffsetDelta (last recs) \<noteq> h_LastOffsetDelta h then Inl ErrCorrupt
           else Inr recs))
      else Inl ErrCorrupt)"

lemma and_then_if: "and_then (if c then x else y) f = (if c then and_then x f else and_then y f)"
  by simp

lemma DecodeBlock_EncodeHeader:
  assumes "header_ok h"
  shows "DecodeBlock C (EncodeHeader [] h @ p) = and_then (decode_payload C h p) (\<lambda>recs. Inr (h, recs))"
  unfolding DecodeBlock_def VerifyPayload_EncodeHeader [OF assms] decode_payload_def
  by (simp add: go_from_EncodeHeader and_then_if and_then_assoc cong: and_then_cong if_cong)

lemma decode_payload_edits [simp]:
  "decode_payload C (rewritten bo le ts h) p = decode_payload C h p"
  "decode_payload C (restamped pid pe bs nonce h) p = decode_payload C h p"
  "decode_payload C (stripped h) p = decode_payload C h p"
  by (simp_all add: decode_payload_def rewritten_def restamped_def stripped_def cong: if_cong)

lemma DecodeBlock_inverse:
  assumes "DecodeBlock C b = Inr (h, recs)"
  shows "header_ok h" and "b = EncodeHeader [] h @ drop 76 b" and "decode_payload C h (drop 76 b) = Inr recs"
proof -
  from assms have d: "DecodeHeader b = Inr h"
    by (auto simp: DecodeBlock_def VerifyPayload_def and_then_Inr_iff split: if_splits)
  show "header_ok h" and "b = EncodeHeader [] h @ drop 76 b" by (fact DecodeHeader_inverse [OF d])+
  then show "decode_payload C h (drop 76 b) = Inr recs"
    using assms DecodeBlock_EncodeHeader [of h C "drop 76 b"]
    by (cases "decode_payload C h (drop 76 b)") auto
qed

section \<open>The decoder on arbitrary bytes\<close>

definition cu_inv :: "cursor \<Rightarrow> bool" where
  "cu_inv c \<longleftrightarrow> cu_pos c \<le> length (cu_buf c)"

lemma cu_fail_inv [simp]: "cu_inv (cu_fail c) = cu_inv c"
  by (simp add: cu_inv_def cu_fail_def)

lemma go_from_inv: "cu_inv c \<Longrightarrow> go_from (cu_buf c) (int (cu_pos c)) = Inr (drop (cu_pos c) (cu_buf c))"
  by (simp add: cu_inv_def go_from_def go_slice_def)

lemma cu_byte_total: "cu_inv c \<Longrightarrow> \<exists>b c'. cu_byte c = Inr (b, c') \<and> cu_inv c'"
  by (simp add: cu_byte_def go_index_def) (simp add: cu_inv_def)

lemma cu_uvarint_total: "cu_inv c \<Longrightarrow> \<exists>v c'. cu_uvarint c = Inr (v, c') \<and> cu_inv c'"
  using Uvarint_bounds(2) [of "drop (cu_pos c) (cu_buf c)"]
  by (auto simp: cu_uvarint_def go_from_inv split: option.split) (fastforce simp: cu_inv_def)

lemma cu_varint_total: "cu_inv c \<Longrightarrow> \<exists>v c'. cu_varint c = Inr (v, c') \<and> cu_inv c'"
  using Uvarint_bounds(2) [of "drop (cu_pos c) (cu_buf c)"]
  by (auto simp: cu_varint_def Varint_def go_from_inv split: option.split) (fastforce simp: cu_inv_def)

lemma cu_bytes_total:
  assumes "cu_inv c"
  shows "\<exists>b c'. cu_bytes n c = Inr (b, c') \<and> cu_inv c'"
proof -
  have "(int (length (cu_buf c)) - int (cu_pos c)) mod 2 ^ 64 \<le> int (length (cu_buf c)) - int (cu_pos c)"
    using assms by (intro zmod_le_nonneg_dividend) (simp add: cu_inv_def)
  then show ?thesis using assms by (auto simp: cu_bytes_def go_slice_def) (auto simp: cu_inv_def)
qed

lemma cu_field_total:
  assumes "cu_inv c"
  shows "\<exists>b c'. cu_field c = Inr (b, c') \<and> cu_inv c'"
proof -
  from cu_varint_total [OF assms] obtain v c' where "cu_varint c = Inr (v, c')" "cu_inv c'" by blast
  then show ?thesis using cu_bytes_total [of c' "nat v"] by (simp add: cu_field_def)
qed

lemma header_loop_total: "cu_inv c \<Longrightarrow> \<exists>c' hs'. header_loop n c hs = Inr (c', hs') \<and> cu_inv c'"
proof (induction n c hs rule: header_loop.induct)
  case (2 n c hs)
  obtain ks c1 where 1: "cu_uvarint c = Inr (ks, c1)" "cu_inv c1" using cu_uvarint_total "2.prems" by blast
  obtain k c2 where 2: "cu_bytes ks c1 = Inr (k, c2)" "cu_inv c2" using cu_bytes_total 1(2) by blast
  obtain vs c3 where 3: "cu_uvarint c2 = Inr (vs, c3)" "cu_inv c3" using cu_uvarint_total 2(2) by blast
  obtain v c4 where 4: "cu_bytes vs c3 = Inr (v, c4)" "cu_inv c4" using cu_bytes_total 3(2) by blast
  show ?case using "2.IH" [OF _ 1(1) refl 2(1) refl 3(1) refl 4(1) refl 4(2)] "2.prems"
    by (simp add: 1 2 3 4)
qed simp

lemma decodeRecord_total: "decodeRecord body = Inl e \<Longrightarrow> e = ErrOther"
proof -
  assume d: "decodeRecord body = Inl e"
  have "cu_inv \<lparr>cu_buf = body, cu_pos = 0, cu_err = False\<rparr>" by (simp add: cu_inv_def)
  then obtain a c1 where 1: "cu_byte \<lparr>cu_buf = body, cu_pos = 0, cu_err = False\<rparr> = Inr (a, c1)" "cu_inv c1"
    using cu_byte_total by blast
  obtain dl c2 where 2: "cu_uvarint c1 = Inr (dl, c2)" "cu_inv c2" using cu_uvarint_total 1(2) by blast
  obtain k c3 where 3: "cu_field c2 = Inr (k, c3)" "cu_inv c3" using cu_field_total 2(2) by blast
  obtain v c4 where 4: "cu_field c3 = Inr (v, c4)" "cu_inv c4" using cu_field_total 3(2) by blast
  obtain n c5 where 5: "cu_uvarint c4 = Inr (n, c5)" "cu_inv c5" using cu_uvarint_total 4(2) by blast
  obtain c6 hs where 6: "header_loop n c5 [] = Inr (c6, hs)" using header_loop_total 5(2) by blast
  show ?thesis using d by (simp add: decodeRecord_def 1 2 3 4 5 6 split: if_splits)
qed

lemma decode_records_loop_total:
  "cu_inv c \<Longrightarrow> decode_records_loop n c = Inl ErrCorrupt \<or>
     (\<exists>c' rs. decode_records_loop n c = Inr (c', rs) \<and> cu_inv c' \<and> length rs = n)"
proof (induction n arbitrary: c)
  case (Suc n)
  obtain l c1 where 1: "cu_uvarint c = Inr (l, c1)" "cu_inv c1" using cu_uvarint_total Suc.prems by blast
  obtain b c2 where 2: "cu_bytes l c1 = Inr (b, c2)" "cu_inv c2" using cu_bytes_total 1(2) by blast
  show ?case
  proof (cases "cu_err c2")
    case False
    let ?r = "decodeRecord (nil_bytes b)"
    show ?thesis
    proof (cases ?r)
      case (Inl e)
      then show ?thesis using decodeRecord_total [OF Inl] by (simp add: 1 2 False)
    next
      case (Inr r)
      then show ?thesis using Suc.IH [OF 2(2)] by (auto simp: 1 2 False)
    qed
  qed (simp add: 1 2)
qed simp

lemma DecodeRecords_total:
  "DecodeRecords p n = Inl ErrCorrupt \<or> (\<exists>rs. DecodeRecords p n = Inr rs \<and> length rs = n)"
  using decode_records_loop_total [of "\<lparr>cu_buf = p, cu_pos = 0, cu_err = False\<rparr>" n]
  by (auto simp: DecodeRecords_def cu_inv_def)

lemma record_count_le: "length recs \<le> length (EncodeRecords [] recs)"
proof (induction recs)
  case (Cons r recs)
  have "0 < length (record_frame r)" by (simp add: record_frame_def)
  moreover have "length (EncodeRecords [] (r # recs)) = length (record_frame r) + length (EncodeRecords [] recs)"
    by (simp add: EncodeRecords_concat)
  ultimately show ?case using Cons unfolding list.size by linarith
qed simp

lemma codec_Valid_None: "codec_Valid None_codec"
  by (simp add: codec_Valid_def None_codec_def)

lemma u_at_total: "n + 8 \<le> length b \<Longrightarrow> \<exists>w. u64_at b (int n) = Inr w" "n + 4 \<le> length b \<Longrightarrow> \<exists>w. u32_at b (int n) = Inr w"
  by (simp_all add: u64_at_def u32_at_def go_from_def go_slice_def uint64_of_def uint32_of_def)

lemma read_header_total: "76 \<le> length b \<Longrightarrow> \<exists>h. read_header b c = Inr h"
  using u_at_total [of 4 b] u_at_total [of 12 b] u_at_total [of 20 b] u_at_total [of 28 b] u_at_total [of 36 b]
    u_at_total [of 40 b] u_at_total [of 44 b] u_at_total [of 52 b] u_at_total [of 56 b] u_at_total [of 60 b]
    u_at_total [of 64 b] u_at_total [of 68 b]
  by (auto simp: read_header_def go_index_def)

lemma DecodeHeader_errors:
  assumes "DecodeHeader b = Inl e"
  shows "e = ErrFormat \<or> e = ErrCorrupt"
proof (cases "length b < 76")
  case True
  then show ?thesis using assms by (simp add: DecodeHeader_def)
next
  case False
  then obtain w c where "u32_at b 72 = Inr w" "headerCRC b = Inr c"
    using u_at_total(2) [of 72 b] by (auto simp: headerCRC_def go_slice_def)
  then show ?thesis using assms False read_header_total [of b "b ! 2"]
    by (auto simp: DecodeHeader_def go_index_def split: if_splits)
qed

lemma decode_payload_sound:
  assumes "0 < unat (h_Records h)"
  shows "case decode_payload C h p of
      Inl e \<Rightarrow> e = ErrCorrupt
    | Inr recs \<Rightarrow> recs \<noteq> [] \<and> length recs = unat (h_Records h) \<and>
       r_OffsetDelta (last recs) = h_LastOffsetDelta h \<and> length p = unat (h_CompressedLen h)"
proof -
  have *: "case and_then (DecodeRecords q (unat (h_Records h))) (\<lambda>recs.
           if recs = [] then Inl GoPanic
           else if r_OffsetDelta (last recs) \<noteq> h_LastOffsetDelta h then Inl ErrCorrupt
           else Inr recs) of
      Inl e \<Rightarrow> e = ErrCorrupt
    | Inr recs \<Rightarrow> recs \<noteq> [] \<and> length recs = unat (h_Records h) \<and> r_OffsetDelta (last recs) = h_LastOffsetDelta h" for q
    using DecodeRecords_total [of q "unat (h_Records h)"] assms by auto
  show ?thesis
  proof (cases "if h_Codec h \<noteq> None_codec
      then (case DecompressInto C (h_Codec h) p of Inl _ \<Rightarrow> Inl ErrCorrupt | Inr p \<Rightarrow> Inr p) else Inr p")
    case (Inl e)
    then have "e = ErrCorrupt" by (auto split: if_splits sum.splits)
    then show ?thesis unfolding decode_payload_def Inl by simp
  next
    case (Inr q)
    show ?thesis unfolding decode_payload_def Inr
      using * [of q] by (cases "length q = unat (h_UncompressedLen h)") (simp_all split: sum.splits)
  qed
qed

lemma EncodeBlock_decodes:
  assumes "codecs_ok C" and "recs \<noteq> []" and "\<forall>r \<in> set recs. distinct (map fst (r_Headers r))"
    and "length (EncodeRecords [] recs) < 2 ^ 32" and "header_ok (h \<lparr>h_Records := 1\<rparr>)"
  shows "\<exists>b h'. EncodeBlock C h recs = Inr b \<and> DecodeBlock C b = Inr (h', map sorted_headers recs) \<and>
           (h_Codec h' = h_Codec h \<or> h_Codec h' = None_codec) \<and>
           h' = h \<lparr>h_Codec := h_Codec h', h_Records := word_of_nat (length recs),
                   h_LastOffsetDelta := r_OffsetDelta (last recs),
                   h_UncompressedLen := word_of_nat (length (EncodeRecords [] recs)),
                   h_CompressedLen := word_of_nat (length b - 76),
                   h_PayloadCRC := crc32 Castagnoli (drop 76 b)\<rparr> \<and>
           length b \<le> 76 + length (EncodeRecords [] recs)"
proof -
  define logical where "logical = EncodeRecords [] recs"
  define squeezed where "squeezed \<longleftrightarrow> h_Codec h \<noteq> None_codec \<and> length (Compress C (h_Codec h) logical) < length logical"
  define payload where "payload = (if squeezed then Compress C (h_Codec h) logical else logical)"
  define codec where "codec = (if squeezed then h_Codec h else None_codec)"
  define h' where "h' = h \<lparr>h_Codec := codec, h_Records := word_of_nat (length recs),
                   h_LastOffsetDelta := r_OffsetDelta (last recs),
                   h_UncompressedLen := word_of_nat (length logical),
                   h_CompressedLen := word_of_nat (length payload),
                   h_PayloadCRC := crc32 Castagnoli payload\<rparr>"
  have enc: "EncodeBlock C h recs = Inr (EncodeHeader [] h' @ payload)"
    using assms(2) unfolding EncodeBlock_def logical_def [symmetric] h'_def payload_def codec_def squeezed_def
    by (cases "h_Codec h = None_codec") (simp_all add: Let_def)
  have small: "length logical < 2 ^ 32" "length payload \<le> length logical"
    using assms(4) by (auto simp: logical_def payload_def squeezed_def)
  have n: "length recs < 2 ^ 32"
    using record_count_le [of recs] small by (simp add: logical_def)
  have pos: "(word_of_nat (length recs) :: 32 word) \<noteq> 0"
    using assms(2) n by (simp add: word_of_nat_eq_0_iff nat_dvd_not_less)
  have u: "unat (word_of_nat (length recs) :: 32 word) = length recs"
      "unat (word_of_nat (length logical) :: 32 word) = length logical"
      "unat (word_of_nat (length payload) :: 32 word) = length payload"
    using small n by (simp_all add: unat_of_nat)
  have ok: "header_ok h'"
    using assms(5) pos codec_Valid_None by (auto simp: h'_def header_ok_def codec_def)
  have plain: "(if codec \<noteq> None_codec
      then (case DecompressInto C codec payload of Inl _ \<Rightarrow> Inl ErrCorrupt | Inr p \<Rightarrow> Inr p)
      else Inr payload) = Inr logical"
    using Decompress_Compress [OF assms(1), of "h_Codec h" logical] assms(5)
    by (auto simp: codec_def payload_def squeezed_def header_ok_def)
  have recs: "DecodeRecords logical (length recs) = Inr (map sorted_headers recs)"
    unfolding logical_def using assms(3,4) by (intro DecodeRecords_EncodeRecords) auto
  have h: "h_Codec h' = codec" "h_Records h' = word_of_nat (length recs)"
      "h_LastOffsetDelta h' = r_OffsetDelta (last recs)" "h_UncompressedLen h' = word_of_nat (length logical)"
      "h_CompressedLen h' = word_of_nat (length payload)" "h_PayloadCRC h' = crc32 Castagnoli payload"
    by (simp_all add: h'_def)
  have "decode_payload C h' payload = Inr (map sorted_headers recs)"
    unfolding decode_payload_def h u plain and_then.simps recs
    using assms(2) by (simp add: last_map sorted_headers_def)
  then have dec: "DecodeBlock C (EncodeHeader [] h' @ payload) = Inr (h', map sorted_headers recs)"
    by (simp add: DecodeBlock_EncodeHeader [OF ok])
  have shape: "h' = h \<lparr>h_Codec := h_Codec h', h_Records := word_of_nat (length recs),
                   h_LastOffsetDelta := r_OffsetDelta (last recs),
                   h_UncompressedLen := word_of_nat (length logical),
                   h_CompressedLen := word_of_nat (length payload),
                   h_PayloadCRC := crc32 Castagnoli payload\<rparr>" by (simp add: h'_def)
  have "h_Codec h' = h_Codec h \<or> h_Codec h' = None_codec" by (simp add: h codec_def)
  then show ?thesis
    using enc dec small(2) shape
    by (intro exI [of _ "EncodeHeader [] h' @ payload"] exI [of _ h']) (simp add: logical_def)
qed

definition raw_codecs :: codecs where
  "raw_codecs = \<lparr>snappy_Encode = id, snappy_Decode = Inr, s2_Encode = id, s2_Decode = Inr,
     zstd_EncodeAll = id, zstd_DecodeAll = Inr\<rparr>"

definition sample_header :: Header where
  "sample_header = \<lparr>h_Codec = Zstd, h_Flags = 2, h_BaseOffset = 7, h_LeaderEpoch = 1, h_BaseTimestamp = 1000,
     h_ProducerID = 5, h_ProducerEpoch = 1, h_BaseSequence = 3, h_TxNonce = 9, h_Records = 0,
     h_LastOffsetDelta = 0, h_UncompressedLen = 0, h_CompressedLen = 0, h_PayloadCRC = 0\<rparr>"

definition sample_records :: "Record list" where
  "sample_records =
    [\<lparr>r_Attributes = 0, r_OffsetDelta = 0, r_Key = Some [107], r_Value = None, r_Headers = [([98], Some [1]), ([97], None)]\<rparr>,
     \<lparr>r_Attributes = 0, r_OffsetDelta = 4, r_Key = None, r_Value = Some [118], r_Headers = []\<rparr>]"

lemma sample_ok:
  "codecs_ok raw_codecs" "sample_records \<noteq> []" "\<forall>r \<in> set sample_records. distinct (map fst (r_Headers r))"
  "length (EncodeRecords [] sample_records) < 2 ^ 32" "header_ok (sample_header \<lparr>h_Records := 1\<rparr>)"
  "length sample_records = 2"
  by (simp_all add: sample_records_def EncodeRecords_def encodeRecord_def appendBytes_def varint_def zigzag_def
      uvarint.simps encode_headers_def nil_bytes_def header_ok_def sample_header_def codec_Valid_def Zstd_def
      codecs_ok_def raw_codecs_def)

definition sample_block :: bytes where
  "sample_block = (case EncodeBlock raw_codecs sample_header sample_records of Inl _ \<Rightarrow> [] | Inr b \<Rightarrow> b)"

lemma sample_block_decodes: "\<exists>h. DecodeBlock raw_codecs sample_block = Inr (h, map sorted_headers sample_records)"
  using EncodeBlock_decodes [OF sample_ok(1-5)] by (auto simp: sample_block_def)

lemma VerifyPayload_errors: "VerifyPayload b = Inl e \<Longrightarrow> e = ErrFormat \<or> e = ErrCorrupt"
proof (cases "DecodeHeader b")
  case (Inl e')
  then show "VerifyPayload b = Inl e \<Longrightarrow> ?thesis" using DecodeHeader_errors [OF Inl] by (simp add: VerifyPayload_def)
next
  case (Inr h)
  have "VerifyPayload b = (if length (drop 76 b) = unat (h_CompressedLen h) \<and>
      crc32 Castagnoli (drop 76 b) = h_PayloadCRC h then Inr h else Inl ErrCorrupt)"
    using VerifyPayload_EncodeHeader [OF DecodeHeader_inverse(1) [OF Inr], of "drop 76 b"]
      DecodeHeader_inverse(2) [OF Inr] by simp
  then show "VerifyPayload b = Inl e \<Longrightarrow> ?thesis" by (simp split: if_splits)
qed

text \<open>A block that verifies: its checksum field, its header and its payload's checksum are determined.\<close>

lemma VerifyPayload_inverse:
  assumes "VerifyPayload b = Inr h"
  shows "b = take 72 b @ be32 (crc32 Castagnoli (take 72 b)) @ drop 76 b"
    and "be32 (crc32 Castagnoli (take 72 b)) = take 4 (drop 72 b)"
    and "DecodeHeader (take 76 b) = Inr h" and "crc32 Castagnoli (drop 76 b) = h_PayloadCRC h"
proof -
  from assms have d: "DecodeHeader b = Inr h"
    by (auto simp: VerifyPayload_def and_then_Inr_iff split: if_splits)
  define p where "p = drop 76 b"
  have b: "b = header_fields h @ be32 (crc32 Castagnoli (header_fields h)) @ p"
    using DecodeHeader_inverse(2) [OF d] by (simp add: p_def EncodeHeader_def)
  show "b = take 72 b @ be32 (crc32 Castagnoli (take 72 b)) @ drop 76 b"
    and "be32 (crc32 Castagnoli (take 72 b)) = take 4 (drop 72 b)" by (simp_all add: b)
  have t: "take 76 b = EncodeHeader [] h @ []" by (simp add: b EncodeHeader_def)
  show "DecodeHeader (take 76 b) = Inr h"
    unfolding t by (rule DecodeHeader_EncodeHeader [OF DecodeHeader_inverse(1) [OF d]])
  show "crc32 Castagnoli (drop 76 b) = h_PayloadCRC h"
  proof -
    have "VerifyPayload (EncodeHeader [] h @ p) = Inr h" using assms by (simp add: b EncodeHeader_def)
    then show ?thesis unfolding VerifyPayload_EncodeHeader [OF DecodeHeader_inverse(1) [OF d]] p_def [symmetric]
      by (simp split: if_splits)
  qed
qed

section \<open>Properties of the block format\<close>

text \<open>
  C22: Encoding then decoding a block gives back its records, headers in key order and nil values empty, and the header as
  given with the codec actually used, the counts, the lengths and the checksum filled in, for every
  valid codec, provided the payload's length fits its 32-bit field; the codecs are assumed to invert.
\<close>

theorem DecodeBlock_EncodeBlock:
  assumes "codecs_ok C" and "recs \<noteq> []" and "\<forall>r \<in> set recs. distinct (map fst (r_Headers r))"
    and "length (EncodeRecords [] recs) < 2 ^ 32" and "header_ok (h \<lparr>h_Records := 1\<rparr>)"
  shows "\<exists>b h'. EncodeBlock C h recs = Inr b \<and> DecodeBlock C b = Inr (h', map sorted_headers recs) \<and>
           (h_Codec h' = h_Codec h \<or> h_Codec h' = None_codec) \<and>
           h' = h \<lparr>h_Codec := h_Codec h', h_Records := word_of_nat (length recs),
                   h_LastOffsetDelta := r_OffsetDelta (last recs),
                   h_UncompressedLen := word_of_nat (length (EncodeRecords [] recs)),
                   h_CompressedLen := word_of_nat (length b - 76),
                   h_PayloadCRC := crc32 Castagnoli (drop 76 b)\<rparr> \<and>
           length b \<le> 76 + length (EncodeRecords [] recs)"
  using assms by (rule EncodeBlock_decodes)

theorem DecodeBlock_EncodeBlock_witness:
  "\<exists>b h'. EncodeBlock raw_codecs sample_header sample_records = Inr b \<and>
     DecodeBlock raw_codecs b = Inr (h', map sorted_headers sample_records) \<and> h_Records h' = 2"
  using DecodeBlock_EncodeBlock [OF sample_ok(1-5)] sample_ok(6) by fastforce

text \<open>
  C32: the block decoder is total and sound on arbitrary bytes: it refuses them as of another format or
  as corrupt, without a panic, or it returns as many records as the header counts, at least one, the
  last at the header's last offset delta, from a block of exactly the length the header promises.
\<close>

theorem DecodeBlock_total:
  "case DecodeBlock C b of
     Inl e \<Rightarrow> e = ErrFormat \<or> e = ErrCorrupt
   | Inr (h, recs) \<Rightarrow> recs \<noteq> [] \<and> length recs = unat (h_Records h) \<and>
       r_OffsetDelta (last recs) = h_LastOffsetDelta h \<and> length b = 76 + unat (h_CompressedLen h)"
proof (cases "DecodeHeader b")
  case (Inl e)
  then have "DecodeBlock C b = Inl e" by (simp add: DecodeBlock_def VerifyPayload_def)
  then show ?thesis using DecodeHeader_errors [OF Inl] by simp
next
  case (Inr h)
  note ok = DecodeHeader_inverse [OF Inr]
  have b: "DecodeBlock C b = and_then (decode_payload C h (drop 76 b)) (\<lambda>recs. Inr (h, recs))"
    using DecodeBlock_EncodeHeader [OF ok(1), of C "drop 76 b"] ok(2) by simp
  have len: "76 \<le> length b"
    using Inr by (simp add: DecodeHeader_def split: if_splits)
  have pos: "0 < unat (h_Records h)" using ok(1) by (simp add: header_ok_def unat_gt_0)
  have "case decode_payload C h p of
      Inl e \<Rightarrow> e = ErrCorrupt
    | Inr recs \<Rightarrow> recs \<noteq> [] \<and> length recs = unat (h_Records h) \<and>
       r_OffsetDelta (last recs) = h_LastOffsetDelta h \<and> length p = unat (h_CompressedLen h)" for p
    using pos by (rule decode_payload_sound)
  from this [of "drop 76 b"] len show ?thesis
    unfolding b by (cases "decode_payload C h (drop 76 b)") (simp_all, linarith)
qed

text \<open>
  C33: the in-place header edits of a hop change what they say they change and nothing else.  On a block
  that decodes to a header and records, each edit succeeds, the result decodes to the same records under
  the edited header, and the edited block has the same payload bytes.
\<close>

theorem header_edits_keep_records:
  assumes "DecodeBlock C b = Inr (h, recs)"
  shows "\<exists>b1 b2 b3. v3_Rewrite b bo le ts = Inr b1 \<and> v3_Restamp b pid pe bs nonce = Inr b2 \<and> v3_Strip b = Inr b3 \<and>
     DecodeBlock C b1 = Inr (h \<lparr>h_BaseOffset := i64 bo, h_LeaderEpoch := le, h_BaseTimestamp := i64 ts\<rparr>, recs) \<and>
     DecodeBlock C b2 = Inr (h \<lparr>h_ProducerID := i64 pid, h_ProducerEpoch := i32 pe, h_BaseSequence := i32 bs,
       h_TxNonce := nonce, h_Flags := (let f = h_Flags h AND NOT (FlagTransactional OR FlagStripped) in
                 if nonce \<noteq> 0 then f OR FlagTransactional else f)\<rparr>, recs) \<and>
     DecodeBlock C b3 = Inr (h \<lparr>h_ProducerID := 0, h_ProducerEpoch := 0, h_BaseSequence := 0, h_TxNonce := 0,
       h_Flags := h_Flags h AND NOT FlagTransactional OR FlagStripped\<rparr>, recs) \<and>
     drop 76 b1 = drop 76 b \<and> drop 76 b2 = drop 76 b \<and> drop 76 b3 = drop 76 b"
proof -
  note inv = DecodeBlock_inverse [OF assms]
  define p where "p = drop 76 b"
  have b: "b = EncodeHeader [] h @ p" and d: "decode_payload C h p = Inr recs" using inv by (simp_all add: p_def)
  note edits = edits_header_ok [OF inv(1)]
  show ?thesis
    unfolding rewritten_def [symmetric] restamped_def [symmetric] stripped_def [symmetric] b
    by (simp add: v3_Rewrite_EncodeHeader v3_Restamp_EncodeHeader v3_Strip_EncodeHeader DecodeBlock_EncodeHeader
        inv(1) edits d)
qed

theorem header_edits_keep_records_witness:
  "\<exists>b' h. v3_Rewrite sample_block 500 2 3000 = Inr b' \<and>
     DecodeBlock raw_codecs b' = Inr (h, map sorted_headers sample_records) \<and> h_BaseOffset h = 500"
proof -
  obtain h where h: "DecodeBlock raw_codecs sample_block = Inr (h, map sorted_headers sample_records)"
    using sample_block_decodes by blast
  have "i64 500 = 500" by (simp add: i64_id)
  then show ?thesis
    using header_edits_keep_records [OF h, of 500 2 3000 1 1 1 1] by fastforce
qed

text \<open>
  C34: a block whose header or payload is damaged inside four consecutive bytes is refused: if a block
  verifies, the block with a differing stretch of up to four bytes, inside the checksummed header
  fields, inside the header checksum or inside the payload, does not.
\<close>

theorem damaged_block_refused:
  assumes "VerifyPayload (a @ u @ z) = Inr h" and "length v = length u" and "length u \<le> 4" and "v \<noteq> u"
    and "length a + length u \<le> 72 \<or> (72 \<le> length a \<and> length a + length u \<le> 76) \<or> 76 \<le> length a"
  shows "VerifyPayload (a @ v @ z) = Inl ErrFormat \<or> VerifyPayload (a @ v @ z) = Inl ErrCorrupt"
proof (rule ccontr)
  assume neg: "\<not> ?thesis"
  then obtain h' where h': "VerifyPayload (a @ v @ z) = Inr h'"
    using VerifyPayload_errors by (cases "VerifyPayload (a @ v @ z)") auto
  note x = VerifyPayload_inverse [OF assms(1)] and y = VerifyPayload_inverse [OF h']
  have neq: "a @ u @ z \<noteq> a @ v @ z" using assms(2,4) by simp
  from assms(5) consider "length a + length u \<le> 72" | "72 \<le> length a" "length a + length u \<le> 76" | "76 \<le> length a"
    by blast
  then show False
  proof cases
    case 1
    then have t: "take 72 (a @ w @ z) = a @ w @ take (72 - length a - length u) z"
      "drop 72 (a @ w @ z) = drop (72 - length a - length u) z" if "length w = length u" for w
      using that by simp_all
    have "be32 (crc32 Castagnoli (a @ v @ take (72 - length a - length u) z)) =
        be32 (crc32 Castagnoli (a @ u @ take (72 - length a - length u) z))"
      using x(2) y(2) unfolding t [OF refl] t [OF assms(2)] by (rule trans [OF _ sym, rotated])
    then have "crc32 Castagnoli (a @ v @ take (72 - length a - length u) z) =
        crc32 Castagnoli (a @ u @ take (72 - length a - length u) z)" unfolding be_fixed_inject .
    with crc_detects_window [of Castagnoli v u a] assms(2-4) show False by simp
  next
    case 2
    then have "take 72 (a @ u @ z) = take 72 (a @ v @ z)" "drop 76 (a @ u @ z) = drop 76 (a @ v @ z)"
      using assms(2) by simp_all
    then have "a @ u @ z = a @ v @ z" using x(1) y(1) by metis
    with neq show False ..
  next
    case 3
    then have t: "take 76 (a @ w @ z) = take 76 a" "drop 76 (a @ w @ z) = drop 76 a @ w @ z" for w :: bytes
      by simp_all
    have "h = h'" using x(3) y(3) unfolding t by simp
    then have "crc32 Castagnoli (drop 76 a @ v @ z) = crc32 Castagnoli (drop 76 a @ u @ z)"
      using x(4) y(4) unfolding t by simp
    with crc_detects_window [of Castagnoli v u] assms(2-4) show False by simp
  qed
qed

theorem damaged_block_refused_witness:
  "\<exists>x. VerifyPayload sample_block = Inr x \<and>
     (let b = 0xC0 # drop 1 sample_block in VerifyPayload b = Inl ErrFormat \<or> VerifyPayload b = Inl ErrCorrupt)"
proof -
  obtain h recs where h: "DecodeBlock raw_codecs sample_block = Inr (h, recs)" using sample_block_decodes by blast
  then have v: "VerifyPayload sample_block = Inr h"
    by (auto simp: DecodeBlock_def and_then_Inr_iff split: if_splits)
  have "sample_block = [blockMagic] @ drop 1 sample_block"
    using DecodeBlock_inverse(2) [OF h] by (metis EncodeHeader_def append_Cons append_Nil drop0 drop_Suc_Cons
        header_fields_front One_nat_def)
  then have s: "sample_block = [] @ [0xC1] @ drop 1 sample_block" by (simp add: blockMagic_def)
  show ?thesis
    using damaged_block_refused [of "[]" "[0xC1]" "drop 1 sample_block" h "[0xC0]"] v s by (auto simp: Let_def)
qed

end
