(* ===== verification/Block_V3_Read.thy ===== *)
theory Block_V3_Read
  imports Block_V3 Message_Set
begin

text \<open>
  \<^verbatim>\<open>blockv3_read.go\<close>: how a version-3 block reads as the log's frames.  Every record becomes one frame with
  the block's offset, timestamp and epoch, and the producer identity of the block header becomes
  headers of the record, which \<^verbatim>\<open>identityFromHeaders\<close> reads back.

  The maps of the source are lists of entries with distinct keys.  Their iteration orders do not show,
  since the code sorts the keys before it writes.
\<close>

section \<open>Synthesized frames\<close>

definition hdrProducerID :: bytes where "hdrProducerID = [112, 105, 100]"
definition hdrProducerEpoch :: bytes where "hdrProducerEpoch = [101, 112, 111, 99, 104]"
definition hdrSequence :: bytes where "hdrSequence = [115, 101, 113]"
definition hdrNonce :: bytes where "hdrNonce = [110, 111, 110, 99, 101]"

definition appendV1Bytes :: "bytes \<Rightarrow> bytes option \<Rightarrow> bytes" where
  "appendV1Bytes dst b =
     (case b of
        None \<Rightarrow> dst @ be32 0xffffffff
      | Some d \<Rightarrow> dst @ be32 (word_of_nat (length d)) @ d)"

text \<open>The loop over the sorted keys; \<open>hs\<close> pairs each key with its value.\<close>

fun append_headers :: "header list \<Rightarrow> bytes \<Rightarrow> bytes result" where
  "append_headers [] dst = Inr dst"
| "append_headers ((k, v) # hs) dst =
     (if int (length k) > 2 ^ 15 - 1 then Inl ErrOther
      else append_headers hs (appendV1Bytes (dst @ be16 (word_of_nat (length k)) @ k) v))"

definition encodeV1Message :: "bytes \<Rightarrow> byte \<Rightarrow> bytes option \<Rightarrow> bytes option \<Rightarrow> header list \<Rightarrow> bytes result" where
  "encodeV1Message dst attrs key value hs =
     (let start = int (length dst);
          dst = dst @ [0, 0, 0, 0];
          dst = dst @ [0, attrs];
          dst = appendV1Bytes dst key;
          dst = appendV1Bytes dst value in
      if int (length hs) > 2 ^ 15 - 1 then Inl ErrOther
      else and_then (append_headers hs (dst @ be16 (word_of_nat (length hs)))) (\<lambda>dst.
           and_then (go_from dst (start + 4)) (\<lambda>covered.
             go_put dst start (be32 (crc32 Castagnoli covered)))))"

definition is_stamped :: "Header \<Rightarrow> bool" where
  "is_stamped h \<longleftrightarrow> h_Flags h AND FlagStripped = 0"

definition id_headers :: "Header \<Rightarrow> header list" where
  "id_headers h =
     (let ids = [(hdrProducerID, Some (be64 (word_of_int (h_ProducerID h)))),
                 (hdrProducerEpoch, Some (be32 (word_of_int (h_ProducerEpoch h))))] in
      if h_Flags h AND FlagTransactional \<noteq> 0 then ids @ [(hdrNonce, Some (be64 (h_TxNonce h)))] else ids)"

text \<open>The headers of record \<open>i\<close>: its own, overwritten by the identity.\<close>

definition record_headers :: "Header \<Rightarrow> nat \<Rightarrow> Record \<Rightarrow> header list" where
  "record_headers h i r =
     (if is_stamped h
      then AList.update hdrSequence (Some (be32 (word_of_int (h_BaseSequence h + int i))))
             (fold (\<lambda>(k, v). AList.update k v) (id_headers h) (r_Headers r))
      else r_Headers r)"

definition frame_attrs :: "Header \<Rightarrow> Record \<Rightarrow> byte" where
  "frame_attrs h r =
     (if h_Flags h AND FlagControl \<noteq> 0 then AttrControl else 0) OR (r_Attributes r AND AttrTombstone)"

fun framing_loop :: "Header \<Rightarrow> nat \<Rightarrow> Record list \<Rightarrow> bytes \<Rightarrow> bytes result" where
  "framing_loop h i [] dst = Inr dst"
| "framing_loop h i (r # rs) dst =
     and_then (encodeV1Message [] (frame_attrs h r) (r_Key r) (r_Value r)
                 (sort_key fst (record_headers h i r))) (\<lambda>msg.
       let hdr = int (length dst);
           dst = dst @ be64 (word_of_int (h_BaseOffset h + int (unat (r_OffsetDelta r))));
           dst = dst @ be64 (word_of_int (h_BaseTimestamp h));
           dst = dst @ be64 (h_LeaderEpoch h);
           dst = dst @ be32 (word_of_nat (length msg)) in
       and_then (and_then (go_from dst hdr) headerCrc) (\<lambda>crc.
         framing_loop h (i + 1) rs (dst @ be32 crc @ msg)))"

definition synthesizeFraming :: "bytes \<Rightarrow> Header \<Rightarrow> Record list \<Rightarrow> bytes result" where
  "synthesizeFraming dst h recs = framing_loop h 0 recs dst"

definition decodeV3Block :: "codecs \<Rightarrow> bytes \<Rightarrow> bytes result" where
  "decodeV3Block C block = and_then (DecodeBlock C block) (\<lambda>(h, recs). synthesizeFraming [] h recs)"

text \<open>The identity of a record, from its headers; the answer is \<open>None\<close> where the source's \<^verbatim>\<open>ok\<close> is false.\<close>

definition identityFromHeaders :: "header_map \<Rightarrow> (64 word \<times> 32 word \<times> int \<times> 64 word) option" where
  "identityFromHeaders headers =
     (case (map_of headers hdrProducerID, map_of headers hdrProducerEpoch, map_of headers hdrSequence) of
        (Some p, Some e, Some s) \<Rightarrow>
          if length p \<noteq> 8 \<or> length e \<noteq> 4 \<or> length s \<noteq> 4 then None
          else Some (word_of_nat (unbe p), word_of_nat (unbe e), sint (word_of_nat (unbe s) :: 32 word),
            case map_of headers hdrNonce of
              Some n \<Rightarrow> if length n = 8 then word_of_nat (unbe n) else 0
            | None \<Rightarrow> 0)
      | _ \<Rightarrow> None)"

section \<open>The frames of a block\<close>

definition v3_message :: "Header \<Rightarrow> nat \<Rightarrow> Record \<Rightarrow> Message" where
  "v3_message h i r = \<lparr>Crc = 0, MagicByte = 0, Attributes = frame_attrs h r, Key = r_Key r, Value = r_Value r,
     Headers = sort_key fst (record_headers h i r), Timestamp = h_BaseTimestamp h, LeaderEpoch = h_LeaderEpoch h\<rparr>"

definition v3_logrec :: "Header \<Rightarrow> nat \<Rightarrow> Record \<Rightarrow> logrec" where
  "v3_logrec h i r = record_of (h_BaseOffset h + int (unat (r_OffsetDelta r))) (v3_message h i r)"

fun v3_logrecs :: "Header \<Rightarrow> nat \<Rightarrow> Record list \<Rightarrow> logrec list" where
  "v3_logrecs h i [] = []"
| "v3_logrecs h i (r # rs) = v3_logrec h i r # v3_logrecs h (i + 1) rs"

lemma appendV1Bytes_wire: "appendV1Bytes dst b = dst @ wire_field b"
proof -
  have "(0xffffffff :: 32 word) = - 1" by simp
  then show ?thesis by (simp only: appendV1Bytes_def wire_field_def split: option.split) simp
qed

lemma append_headers_wire:
  "append_headers hs dst =
     (if list_all (\<lambda>h. length (fst h) < 2 ^ 15) hs then Inr (dst @ concat (map wire_header hs)) else Inl ErrOther)"
proof (induction hs arbitrary: dst)
  case (Cons h hs)
  have "wire_header (k, v) = be16 (word_of_nat (length k)) @ k @ wire_field v" for k v
    by (simp add: wire_header_def wire_string_def)
  with Cons show ?case by (cases h) (auto simp: appendV1Bytes_wire)
qed simp

lemma encodeV1Message_wire:
  assumes "MagicByte m = 0"
  shows "encodeV1Message [] (Attributes m) (Key m) (Value m) hs =
    (if length hs < 2 ^ 15 \<and> list_all (\<lambda>h. length (fst h) < 2 ^ 15) hs then Inr (wire hs m) else Inl ErrOther)"
proof (cases "length hs < 2 ^ 15 \<and> list_all (\<lambda>h. length (fst h) < 2 ^ 15) hs")
  case True
  have "append_headers hs ((appendV1Bytes (appendV1Bytes ([] @ [0, 0, 0, 0] @ [0, Attributes m]) (Key m)) (Value m)) @
      be16 (word_of_nat (length hs))) = Inr ([0, 0, 0, 0] @ wire_body hs m)"
    using True assms by (simp add: append_headers_wire appendV1Bytes_wire wire_body_def)
  moreover have "go_from ([0, 0, 0, 0] @ wire_body hs m) 4 = Inr (wire_body hs m)"
    by (rule go_from_at [of _ "[0, 0, 0, 0]"]) simp_all
  moreover have "go_put ([0, 0, 0, 0] @ wire_body hs m) 0 (be32 c) = Inr (be32 c @ wire_body hs m)" for c
    by (simp add: go_put_def)
  ultimately show ?thesis using True by (simp add: encodeV1Message_def wire_def)
next
  case False
  then show ?thesis by (auto simp: encodeV1Message_def append_headers_wire Let_def)
qed

text \<open>The limits of the wire form on a record's headers.\<close>

definition headers_fit :: "Header \<Rightarrow> nat \<Rightarrow> Record \<Rightarrow> bool" where
  "headers_fit h i r \<longleftrightarrow> length (record_headers h i r) < 2 ^ 15 \<and>
     list_all (\<lambda>h. length (fst h) < 2 ^ 15) (record_headers h i r)"

fun all_fit :: "Header \<Rightarrow> nat \<Rightarrow> Record list \<Rightarrow> bool" where
  "all_fit h i [] = True"
| "all_fit h i (r # rs) = (headers_fit h i r \<and> all_fit h (i + 1) rs)"

lemma encode_record_wire:
  "encodeV1Message [] (frame_attrs h r) (r_Key r) (r_Value r) (sort_key fst (record_headers h i r)) =
     (if headers_fit h i r then Inr (lr_payload (v3_logrec h i r)) else Inl ErrOther)"
  using encodeV1Message_wire [of "v3_message h i r" "sort_key fst (record_headers h i r)"]
  by (simp add: v3_message_def headers_fit_def v3_logrec_def record_of_def list_all_iff)

lemma framing_loop_frames:
  "framing_loop h i recs dst = (if all_fit h i recs then Inr (dst @ frames (v3_logrecs h i recs)) else Inl ErrOther)"
proof (induction recs arbitrary: i dst)
  case (Cons r rs)
  let ?l = "v3_logrec h i r"
  have f: "be64 (word_of_int (h_BaseOffset h + int (unat (r_OffsetDelta r)))) @ be64 (word_of_int (h_BaseTimestamp h)) @
      be64 (h_LeaderEpoch h) @ be32 (word_of_nat (length (lr_payload ?l))) = frame_fields ?l"
    by (simp add: frame_fields_def v3_logrec_def record_of_def v3_message_def del: of_nat_unat)
  have c: "and_then (go_from (dst @ frame_fields ?l) (int (length dst))) headerCrc =
      Inr (crc32 Castagnoli (frame_fields ?l))"
    using go_slice_at [of "frame_fields ?l" "[]" "frame_fields ?l" "[]" 0 28] by (simp add: headerCrc_def)
  have f': "be64 (word_of_int (h_BaseOffset h + int (unat (r_OffsetDelta r)))) @ be64 (word_of_int (h_BaseTimestamp h)) @
      be64 (h_LeaderEpoch h) @ be32 (word_of_nat (length (lr_payload ?l))) @ z = frame_fields ?l @ z" for z
    by (simp only: f [symmetric] append_assoc)
  have step: "framing_loop h i (r # rs) dst =
      (if headers_fit h i r then framing_loop h (i + 1) rs (dst @ frame ?l) else Inl ErrOther)"
    by (cases "headers_fit h i r")
      (simp_all only: framing_loop.simps encode_record_wire if_True if_False and_then.simps Let_def append_assoc
        f f' c frame_def)
  show ?case unfolding step Cons by simp
qed simp

lemma synthesizeFraming_frames:
  "synthesizeFraming dst h recs = (if all_fit h 0 recs then Inr (dst @ frames (v3_logrecs h 0 recs)) else Inl ErrOther)"
  by (simp add: synthesizeFraming_def framing_loop_frames)

section \<open>Headers read back\<close>

definition headers_wf :: "header list \<Rightarrow> bool" where
  "headers_wf hs \<longleftrightarrow> distinct (map fst hs) \<and> (\<forall>h \<in> set hs. snd h \<noteq> None)"

lemma headers_wf_update: "headers_wf hs \<Longrightarrow> headers_wf (AList.update k (Some v) hs)"
proof -
  have "\<forall>h \<in> set (AList.update k (Some v) hs). h = (k, Some v) \<or> h \<in> set hs"
    by (induction hs) auto
  then show "headers_wf hs \<Longrightarrow> ?thesis" by (auto simp: headers_wf_def distinct_update)
qed

lemma cu_err_latched:
  "cu_uvarint c = Inr (v, c') \<Longrightarrow> cu_err c \<Longrightarrow> cu_err c'"
  "cu_bytes n c = Inr (b, c') \<Longrightarrow> cu_err c \<Longrightarrow> cu_err c'"
  "cu_bytes n c = Inr (b, c') \<Longrightarrow> b = None \<Longrightarrow> cu_err c'"
  by (auto simp: cu_uvarint_def cu_bytes_def cu_fail_def and_then_Inr_iff split: if_splits)

lemma header_loop_wf:
  "header_loop n c hs = Inr (c', hs') \<Longrightarrow> \<not> cu_err c' \<Longrightarrow> headers_wf hs \<Longrightarrow> headers_wf hs'"
proof (induction n c hs arbitrary: c' hs' rule: header_loop.induct)
  case (2 n c hs)
  show ?case
  proof (cases "cu_err c")
    case False
    with "2.prems"(1) obtain ks c1 k c2 vs c3 v c4 where
      r: "cu_uvarint c = Inr (ks, c1)" "cu_bytes ks c1 = Inr (k, c2)" "cu_uvarint c2 = Inr (vs, c3)"
        "cu_bytes vs c3 = Inr (v, c4)" "header_loop n c4 (AList.update (nil_bytes k) v hs) = Inr (c', hs')"
      by (auto simp: and_then_Inr_iff)
    have latch: "cu_err c4 \<Longrightarrow> cu_err c'"
      using r(5) by (cases n) auto
    then obtain w where v: "v = Some w" using cu_err_latched(3) [OF r(4)] "2.prems"(2) by (cases v) auto
    show ?thesis
      by (rule "2.IH" [OF False r(1) refl r(2) refl r(3) refl r(4) refl r(5)])
        (use "2.prems" headers_wf_update v in auto)
  qed (use 2 in auto)
qed simp

lemma decodeRecord_headers_wf: "decodeRecord body = Inr r \<Longrightarrow> headers_wf (r_Headers r)"
  using header_loop_wf [where hs = "[]"]
  by (auto simp: decodeRecord_def and_then_Inr_iff headers_wf_def split: if_splits) fastforce+

lemma decode_records_loop_wf:
  "decode_records_loop n c = Inr (c', rs) \<Longrightarrow> r \<in> set rs \<Longrightarrow> headers_wf (r_Headers r)"
proof (induction n arbitrary: c rs)
  case (Suc n)
  then show ?case using decodeRecord_headers_wf
    by (fastforce simp: and_then_Inr_iff split: if_splits sum.splits err.splits)
qed simp

lemma DecodeBlock_headers_wf:
  assumes "DecodeBlock C b = Inr (h, recs)" and "r \<in> set recs"
  shows "headers_wf (r_Headers r)"
proof -
  from DecodeBlock_inverse(3) [OF assms(1)] obtain p where "DecodeRecords p (unat (h_Records h)) = Inr recs"
    by (auto simp: decode_payload_def and_then_Inr_iff split: if_splits)
  then show ?thesis using decode_records_loop_wf assms(2)
    by (auto simp: DecodeRecords_def and_then_Inr_iff split: if_splits)
qed

lemma record_headers_wf:
  assumes "headers_wf (r_Headers r)"
  shows "headers_wf (record_headers h i r)"
  using assms by (auto simp: record_headers_def id_headers_def Let_def headers_wf_update)

text \<open>The identity headers are in place, and a record's own nonce shows only outside a transaction.\<close>

lemma header_names_distinct [simp]:
  "hdrProducerID \<noteq> hdrProducerEpoch" "hdrProducerID \<noteq> hdrSequence" "hdrProducerID \<noteq> hdrNonce"
  "hdrProducerEpoch \<noteq> hdrSequence" "hdrProducerEpoch \<noteq> hdrNonce" "hdrSequence \<noteq> hdrNonce"
  by (simp_all add: hdrProducerID_def hdrProducerEpoch_def hdrSequence_def hdrNonce_def)

lemmas header_names_distinct' [simp] = header_names_distinct [THEN not_sym]

lemma record_headers_lookup:
  assumes "is_stamped h"
  shows "map_of (record_headers h i r) hdrProducerID = Some (Some (be64 (word_of_int (h_ProducerID h))))"
    and "map_of (record_headers h i r) hdrProducerEpoch = Some (Some (be32 (word_of_int (h_ProducerEpoch h))))"
    and "map_of (record_headers h i r) hdrSequence = Some (Some (be32 (word_of_int (h_BaseSequence h + int i))))"
    and "map_of (record_headers h i r) hdrNonce =
      (if h_Flags h AND FlagTransactional \<noteq> 0 then Some (Some (be64 (h_TxNonce h))) else map_of (r_Headers r) hdrNonce)"
  using assms by (simp_all add: record_headers_def id_headers_def Let_def update_conv' del: of_int_add)

lemma map_of_sort:
  assumes "distinct (map fst hs)"
  shows "map_of (sort_key fst hs) = map_of hs"
proof -
  have "distinct (map fst (sort_key fst hs))" using assms by (simp add: distinct_map)
  then show ?thesis using assms by (simp add: map_of_inject_set)
qed

definition read_headers :: "Header \<Rightarrow> nat \<Rightarrow> Record \<Rightarrow> header_map" where
  "read_headers h i r = map (\<lambda>(k, v). (k, nil_bytes v)) (sort_key fst (record_headers h i r))"

definition block_nonce :: "Header \<Rightarrow> Record \<Rightarrow> 64 word" where
  "block_nonce h r =
     (if h_Flags h AND FlagTransactional \<noteq> 0 then h_TxNonce h
      else case map_of (r_Headers r) hdrNonce of
        Some n \<Rightarrow> if length (nil_bytes n) = 8 then word_of_nat (unbe (nil_bytes n)) else 0
      | None \<Rightarrow> 0)"

lemma unbe_be_word: "(word_of_nat (unbe (be64 w)) :: 64 word) = w" "(word_of_nat (unbe (be32 v)) :: 32 word) = v"
  by (simp_all add: be64_def be32_def word_of_nat_unbe_be)

lemma identity_of_read_headers:
  assumes "is_stamped h" and "headers_wf (r_Headers r)"
  shows "identityFromHeaders (read_headers h i r) =
    Some (word_of_int (h_ProducerID h), word_of_int (h_ProducerEpoch h), i32 (h_BaseSequence h + int i), block_nonce h r)"
proof -
  have wf: "headers_wf (record_headers h i r)" using assms(2) by (rule record_headers_wf)
  have lookup: "map_of (read_headers h i r) k = map_option nil_bytes (map_of (record_headers h i r) k)" for k
    using wf by (simp add: read_headers_def map_of_map map_of_sort headers_wf_def)
  show ?thesis
    unfolding identityFromHeaders_def lookup record_headers_lookup [OF assms(1)] block_nonce_def
    by (auto simp: unbe_be_word sint_word_of_int_32 simp del: of_int_add split: option.splits)
qed

lemma v3_logrec_payload: "lr_payload (v3_logrec h i r) = wire (sort_key fst (record_headers h i r)) (v3_message h i r)"
  by (simp add: v3_logrec_def record_of_def v3_message_def)

lemma v3_logrec_fields:
  assumes "headers_wf (r_Headers r)" and "headers_fit h i r" and "frame_ok (v3_logrec h i r)"
  shows "sm_Key (lr_payload (v3_logrec h i r)) = Inr (r_Key r)"
    and "sm_Value (lr_payload (v3_logrec h i r)) = Inr (r_Value r)"
    and "sm_Headers (lr_payload (v3_logrec h i r)) = Inr (read_headers h i r)"
proof -
  let ?hs = "sort_key fst (record_headers h i r)"
  have wf: "headers_wf ?hs" using record_headers_wf [OF assms(1), of h i] by (auto simp: headers_wf_def distinct_map)
  have eq: "?hs = map (apsnd Some) (read_headers h i r)"
    unfolding read_headers_def map_map
    by (rule sym, rule map_idI) (use wf in \<open>force simp: headers_wf_def nil_bytes_def\<close>)
  have d: "distinct (map fst (read_headers h i r))"
    using wf by (simp add: read_headers_def headers_wf_def case_prod_beta comp_def)
  have l: "length (read_headers h i r) < 65536" "list_all (\<lambda>h. length (fst h) < 65536) (read_headers h i r)"
    "length (wire ?hs (v3_message h i r)) < 2 ^ 31"
    using assms(2,3) by (auto simp: headers_fit_def read_headers_def list_all_iff frame_ok_def v3_logrec_payload)
  note r = wire_read_back [OF eq d l]
  show "sm_Key (lr_payload (v3_logrec h i r)) = Inr (r_Key r)"
    "sm_Value (lr_payload (v3_logrec h i r)) = Inr (r_Value r)"
    "sm_Headers (lr_payload (v3_logrec h i r)) = Inr (read_headers h i r)"
    using r(3-5) by (simp_all add: v3_logrec_payload v3_message_def)
qed

lemma v3_logrecs_nth: "k < length recs \<Longrightarrow> v3_logrecs h i recs ! k = v3_logrec h (i + k) (recs ! k)"
  by (induction recs arbitrary: i k) (auto simp: nth_Cons split: nat.split)

lemma length_v3_logrecs [simp]: "length (v3_logrecs h i recs) = length recs"
  by (induction recs arbitrary: i) auto

lemma all_fit_nth: "all_fit h i recs \<Longrightarrow> k < length recs \<Longrightarrow> headers_fit h (i + k) (recs ! k)"
proof (induction recs arbitrary: i k)
  case (Cons r recs)
  then show ?case using Cons.IH [of "i + 1" "k - 1"] by (cases k) auto
qed simp

text \<open>
  C23: a version-3 block reads as message-set frames.  When a block decodes and its frames fit their size
  field, the synthesized bytes are one frame per record; the walk of the log lists exactly them; each
  carries its record's offset, key and value; and on a block that was not stripped every record's
  headers give back the producer identity of the block header, with the sequence counted by index.
\<close>

theorem v3_block_reads_as_frames:
  assumes "DecodeBlock C b = Inr (h, recs)" and "decodeV3Block C b = Inr fr"
    and "list_all frame_ok (v3_logrecs h 0 recs)"
  shows "entriesForMessageSet pos fr = Inr (entries_of pos (v3_logrecs h 0 recs)) \<and> fr = frames (v3_logrecs h 0 recs) \<and>
    (\<forall>i < length recs. let r = recs ! i; l = v3_logrecs h 0 recs ! i; p = lr_payload l in
       lr_offset l = h_BaseOffset h + int (unat (r_OffsetDelta r)) \<and>
       sm_Key p = Inr (r_Key r) \<and> sm_Value p = Inr (r_Value r) \<and>
       (\<exists>hm. sm_Headers p = Inr hm \<and> (is_stamped h \<longrightarrow> identityFromHeaders hm =
          Some (word_of_int (h_ProducerID h), word_of_int (h_ProducerEpoch h), i32 (h_BaseSequence h + int i),
                block_nonce h r))))"
proof -
  have fit: "all_fit h 0 recs" and fr: "fr = frames (v3_logrecs h 0 recs)"
    using assms(1,2) by (simp_all add: decodeV3Block_def synthesizeFraming_frames split: if_splits)
  have e: "entriesForMessageSet pos fr = Inr (entries_of pos (v3_logrecs h 0 recs))"
    unfolding fr by (rule entriesForMessageSet_frames [OF assms(3)])
  have "let r = recs ! i; l = v3_logrecs h 0 recs ! i; p = lr_payload l in
       lr_offset l = h_BaseOffset h + int (unat (r_OffsetDelta r)) \<and>
       sm_Key p = Inr (r_Key r) \<and> sm_Value p = Inr (r_Value r) \<and>
       (\<exists>hm. sm_Headers p = Inr hm \<and> (is_stamped h \<longrightarrow> identityFromHeaders hm =
          Some (word_of_int (h_ProducerID h), word_of_int (h_ProducerEpoch h), i32 (h_BaseSequence h + int i),
                block_nonce h r)))" if i: "i < length recs" for i
  proof -
    have wf: "headers_wf (r_Headers (recs ! i))" by (rule DecodeBlock_headers_wf [OF assms(1) nth_mem [OF i]])
    have ok: "frame_ok (v3_logrec h i (recs ! i))"
      using assms(3) i v3_logrecs_nth [OF i, of h 0] by (auto simp: list_all_length)
    have "lr_offset (v3_logrec h i (recs ! i)) = h_BaseOffset h + int (unat (r_OffsetDelta (recs ! i)))"
      by (simp add: v3_logrec_def record_of_def)
    then show ?thesis
      using v3_logrecs_nth [OF i, of h 0] v3_logrec_fields [OF wf _ ok] all_fit_nth [OF fit i]
        identity_of_read_headers [OF _ wf, of h i]
      by (simp add: Let_def del: of_nat_unat)
  qed
  with e fr show ?thesis by blast
qed

lemma sample_header_decoded:
  "\<exists>h. DecodeBlock raw_codecs sample_block = Inr (h, map sorted_headers sample_records) \<and> h_BaseOffset h = 7 \<and>
     h_BaseTimestamp h = 1000 \<and> is_stamped h"
  using EncodeBlock_decodes [OF sample_ok(1-5)]
  by (auto simp: sample_block_def sample_header_def is_stamped_def FlagStripped_def)

theorem v3_block_reads_as_frames_witness:
  "\<exists>h fr. decodeV3Block raw_codecs sample_block = Inr fr \<and>
     entriesForMessageSet 0 fr = Inr (entries_of 0 (v3_logrecs h 0 (map sorted_headers sample_records))) \<and>
     sm_Key (lr_payload (v3_logrecs h 0 (map sorted_headers sample_records) ! 0)) = Inr (Some [107])"
proof -
  let ?recs = "map sorted_headers sample_records"
  obtain h where h: "DecodeBlock raw_codecs sample_block = Inr (h, ?recs)" "h_BaseOffset h = 7"
    "h_BaseTimestamp h = 1000" using sample_header_decoded by blast
  have fit: "all_fit h 0 ?recs"
    by (simp add: sample_records_def sorted_headers_def headers_fit_def record_headers_def id_headers_def Let_def
        hdrProducerID_def hdrProducerEpoch_def hdrSequence_def hdrNonce_def)
  have ok: "list_all frame_ok (v3_logrecs h 0 ?recs)"
    by (simp add: sample_records_def sorted_headers_def frame_ok_def v3_logrec_def record_of_def v3_message_def h
        record_headers_def id_headers_def Let_def wire_def wire_body_def wire_field_def wire_header_def
        wire_string_def nil_bytes_def hdrProducerID_def hdrProducerEpoch_def hdrSequence_def hdrNonce_def)
  have d: "decodeV3Block raw_codecs sample_block = Inr (frames (v3_logrecs h 0 ?recs))"
    using fit by (simp add: decodeV3Block_def h synthesizeFraming_frames)
  have "length ?recs = 2" "r_Key (?recs ! 0) = Some [107]" by (simp_all add: sample_records_def sorted_headers_def)
  then show ?thesis
    using v3_block_reads_as_frames [OF h(1) d ok, of 0] d by (auto simp: Let_def)
qed

end
