(* ===== verification/Segment.thy ===== *)
theory Segment
  imports Log_Index Block_V3_Read
begin

text \<open>
  \<^verbatim>\<open>segment.go\<close>, the segment itself: its state, the write path and the read path.

  The backing file (or store object) is a byte string; \<open>s_Index\<close> is the resident index, \<open>s_remoteIndex\<close> the
  one an offloaded segment fetches through its cache.  A write is told how the operating system
  answers it by an \<open>io\<close> record.  Reads of bytes that exist succeed.  Waiters, the one-block decode
  cache and the stream a scan may read through change no result and are left out; locks are not
  modelled, each definition is one critical section.
\<close>

section \<open>State\<close>

record segment =
  s_BaseOffset :: int
  s_firstOffset :: int
  s_lastOffset :: int
  s_firstWriteTime :: int
  s_lastWriteTime :: int
  s_position :: int
  s_maxBytes :: int
  s_backing :: bytes
  s_Index :: "index option"
  s_remoteIndex :: "index option"
  s_sealed :: bool
  s_closed :: bool
  s_left :: bool
  s_dirtyData :: bool
  s_dirtyIndex :: bool
  s_codec :: Codec
  s_format :: byte
  s_blockMode :: bool
  s_blocks :: "blockRef list"
  s_physPosition :: int
  s_records :: int
  s_blocksPending :: bool
  s_blocksObject :: "bytes option"
  s_blocksFile :: "bytes option"
  s_blocksWalked :: int
  s_droppedTornTail :: bool
  s_tier :: "bytes option"

definition emptySegment :: "int \<Rightarrow> int \<Rightarrow> Codec \<Rightarrow> segment" where
  "emptySegment baseOffset maxBytes codec =
     \<lparr>s_BaseOffset = baseOffset, s_firstOffset = - 1, s_lastOffset = - 1, s_firstWriteTime = 0,
      s_lastWriteTime = 0, s_position = 0, s_maxBytes = maxBytes, s_backing = [], s_Index = None,
      s_remoteIndex = None, s_sealed = False, s_closed = False, s_left = False, s_dirtyData = False,
      s_dirtyIndex = False, s_codec = codec, s_format = BlockFormatVersion, s_blockMode = False,
      s_blocks = [], s_physPosition = 0, s_records = 0, s_blocksPending = False, s_blocksObject = None,
      s_blocksFile = None, s_blocksWalked = 0, s_droppedTornTail = False, s_tier = None\<rparr>"

definition isOffloaded :: "segment \<Rightarrow> bool" where
  "isOffloaded s \<longleftrightarrow> s_tier s \<noteq> None"

definition NextOffset :: "segment \<Rightarrow> int" where
  "NextOffset s = (if s_lastOffset s = - 1 then s_BaseOffset s else s_lastOffset s + 1)"

definition PhysicalSize :: "segment \<Rightarrow> int" where
  "PhysicalSize s = (if s_blockMode s then s_physPosition s else s_position s)"

definition IsEmpty :: "segment \<Rightarrow> bool" where
  "IsEmpty s \<longleftrightarrow> s_firstOffset s = - 1"

definition messageCountLocked :: "segment \<Rightarrow> int" where
  "messageCountLocked s =
     (case s_Index s of
        Some idx \<Rightarrow> if \<not> s_blockMode s then CountEntries idx
                   else if \<not> s_blocksPending s then sumBlockRecords (s_blocks s) else s_records s
      | None \<Rightarrow> if s_blockMode s \<and> \<not> s_blocksPending s then sumBlockRecords (s_blocks s) else s_records s)"

text \<open>\<open>now\<close> is the clock \<^verbatim>\<open>timestamp()\<close> reads, \<open>maxSegmentBlocks\<close> the bound on blocks per segment.\<close>

abbreviation (input) maxSegmentBlocks :: int where "maxSegmentBlocks \<equiv> 16384"

definition CheckSplit :: "int \<Rightarrow> int \<Rightarrow> segment \<Rightarrow> bool" where
  "CheckSplit now logRollTime s =
     (if s_position s \<ge> s_maxBytes s then True
      else if s_blockMode s \<and> int (length (s_blocks s)) \<ge> maxSegmentBlocks then True
      else if logRollTime = 0 \<or> s_firstWriteTime s = 0 then False
      else now - s_firstWriteTime s \<ge> logRollTime)"

definition shutErrorLocked :: "segment \<Rightarrow> err option" where
  "shutErrorLocked s =
     (if \<not> s_closed s then None else if s_left s then Some ErrSegmentReplaced else Some ErrSegmentClosed)"

section \<open>Writing\<close>

text \<open>
  How the operating system answers a write: \<open>io_write\<close> is \<open>None\<close> when all bytes land, \<open>Some k\<close> when \<open>k\<close> of
  them do and the write reports an error; the others are the index file's truncate, unmap and map.
\<close>

record io =
  io_write :: "nat option"
  io_trunc :: bool
  io_unmap :: bool
  io_map :: bool

definition io_ok :: io where
  "io_ok = \<lparr>io_write = None, io_trunc = True, io_unmap = True, io_map = True\<rparr>"

text \<open>\<^verbatim>\<open>localBacking.Write\<close>: the file is open for append.\<close>

definition backing_Write :: "nat option \<Rightarrow> bytes \<Rightarrow> bytes \<Rightarrow> bytes \<times> nat \<times> bool" where
  "backing_Write w p file =
     (case w of None \<Rightarrow> (file @ p, length p, True) | Some k \<Rightarrow> (file @ take k p, min k (length p), False))"

definition noteWrittenLocked :: "entry list \<Rightarrow> segment \<Rightarrow> segment result" where
  "noteWrittenLocked entries s =
     and_then (if s_firstOffset s = - 1
               then and_then (go_index entries 0) (\<lambda>first.
                 Inr (s \<lparr>s_firstOffset := e_Offset first, s_firstWriteTime := e_Timestamp first\<rparr>))
               else Inr s) (\<lambda>s.
     and_then (go_index entries (int (length entries) - 1)) (\<lambda>last.
       Inr (if e_Offset last > s_lastOffset s
            then s \<lparr>s_lastOffset := e_Offset last, s_lastWriteTime := e_Timestamp last\<rparr> else s)))"

definition appendBlockBytes ::
  "io \<Rightarrow> bytes \<Rightarrow> Codec \<Rightarrow> int \<Rightarrow> int \<Rightarrow> byte \<Rightarrow> byte \<Rightarrow> segment \<Rightarrow> segment \<times> err option" where
  "appendBlockBytes w buf codec llen records version flags s =
     (let (file, n, ok) = backing_Write (io_write w) buf (s_backing s);
          s = s \<lparr>s_backing := file\<rparr> in
      if \<not> ok then (s, Some IOError)
      else (s \<lparr>s_blocks := s_blocks s @
                 [\<lparr>logicalStart = s_position s, logicalLen = llen, physStart = s_physPosition s,
                   physLen = int n, b_codec = codec, b_records = records, b_version = version,
                   b_flags = flags\<rparr>],
              s_position := s_position s + llen, s_physPosition := s_physPosition s + int n\<rparr>, None))"

abbreviation (input) compressMinBlock :: int where "compressMinBlock \<equiv> 4096"

definition block_payload :: "codecs \<Rightarrow> Codec \<Rightarrow> bytes \<Rightarrow> Codec \<times> bytes" where
  "block_payload C codec p =
     (if int (length p) < compressMinBlock then (None_codec, p)
      else let payload = Compress C codec p in
        if length payload \<ge> length p then (None_codec, p) else (codec, payload))"

definition appendBlock :: "codecs \<Rightarrow> io \<Rightarrow> bytes \<Rightarrow> nat \<Rightarrow> segment \<Rightarrow> segment \<times> err option" where
  "appendBlock C w p records s =
     (let (codec, payload) = block_payload C (s_codec s) p;
          hdr = encodeBlockHeader codec (word_of_nat (length p)) (word_of_nat (length payload)) (word_of_nat records) in
      appendBlockBytes w (hdr @ payload) codec (int (length p)) (int records) BlockFormatVersion 0 s)"

definition s_write :: "codecs \<Rightarrow> io \<Rightarrow> bytes \<Rightarrow> entry list \<Rightarrow> segment \<Rightarrow> (segment \<times> err option) result" where
  "s_write C w p entries s =
     (if s_closed s then Inr (s, Some ErrSegmentClosed)
      else if entries = [] then Inr (s, Some ErrMessageSetRefused)
      else let s = s \<lparr>s_dirtyData := True, s_dirtyIndex := True\<rparr>;
               (s, e) = (if s_blockMode s then appendBlock C w p (length entries) s
                         else let (file, n, ok) = backing_Write (io_write w) p (s_backing s);
                                  s = s \<lparr>s_backing := file\<rparr> in
                           if \<not> ok then (s, Some IOError)
                           else (s \<lparr>s_position := s_position s + int n\<rparr>, None)) in
        case e of
          Some e \<Rightarrow> Inr (s, Some e)
        | None \<Rightarrow> and_then (noteWrittenLocked entries s) (\<lambda>s. Inr (s, None)))"

text \<open>\<^verbatim>\<open>s.Index.writeEntries\<close>; a nil index is dereferenced.\<close>

definition index_entries :: "io \<Rightarrow> entry list \<Rightarrow> segment \<Rightarrow> (segment \<times> err option) result" where
  "index_entries w entries s =
     (case s_Index s of
        None \<Rightarrow> Inl GoPanic
      | Some idx \<Rightarrow> and_then (writeEntries (io_trunc w) (io_unmap w) (io_map w) entries idx) (\<lambda>(idx, e).
          Inr (s \<lparr>s_Index := Some idx\<rparr>, e)))"

definition WriteMessageSet ::
  "codecs \<Rightarrow> io \<Rightarrow> bytes \<Rightarrow> entry list \<Rightarrow> segment \<Rightarrow> (segment \<times> err option) result" where
  "WriteMessageSet C w ms entries s =
     and_then (s_write C w ms entries s) (\<lambda>(s, e).
       case e of
         Some e \<Rightarrow> Inr (s, Some e)
       | None \<Rightarrow>
           if s_blockMode s then and_then (go_slice entries 0 1) (\<lambda>first. index_entries w first s)
           else index_entries w entries s)"

definition WriteBlock ::
  "io \<Rightarrow> bytes \<Rightarrow> Codec \<Rightarrow> int \<Rightarrow> entry list \<Rightarrow> segment \<Rightarrow> (segment \<times> err option) result" where
  "WriteBlock w data codec llen entries s =
     (if s_closed s then Inr (s, Some ErrSegmentClosed)
      else if entries = [] then Inr (s, Some ErrMessageSetRefused)
      else let s = s \<lparr>s_dirtyData := True, s_dirtyIndex := True\<rparr> in
        and_then (go_index data 1) (\<lambda>version.
        case (if version = v3_Version then map_sum id h_Flags (DecodeHeader data) else Inr 0) of
          Inl GoPanic \<Rightarrow> Inl GoPanic
        | Inl _ \<Rightarrow> Inr (s, Some ErrMessageSetRefused)
        | Inr flags \<Rightarrow>
            (case appendBlockBytes w data codec llen (int (length entries)) version flags s of
               (s, Some e) \<Rightarrow> Inr (s, Some e)
             | (s, None) \<Rightarrow>
                 and_then (noteWrittenLocked entries s) (\<lambda>s.
                 and_then (go_slice entries 0 1) (\<lambda>first. index_entries w first s)))))"

definition seal :: "bool \<Rightarrow> bool \<Rightarrow> bool \<Rightarrow> segment \<Rightarrow> segment" where
  "seal shrink_ok sync_ok table_ok s =
     (if s_sealed s then s
      else let s = s \<lparr>s_sealed := True\<rparr>;
               s = (case s_Index s of
                      None \<Rightarrow> s
                    | Some idx \<Rightarrow>
                        let idx = (if ix_closed idx then idx else fst (ix_shrink shrink_ok idx)) in
                        s \<lparr>s_Index := Some idx,
                           s_dirtyIndex := (if ix_Sync sync_ok idx = None then False else s_dirtyIndex s)\<rparr>) in
        if s_blockMode s \<and> s_blocks s \<noteq> [] \<and> table_ok
        then s \<lparr>s_blocksFile := Some (encodeBlockTable (s_blocks s))\<rparr> else s)"

section \<open>Reading\<close>

text \<open>\<^verbatim>\<open>ReadAt\<close> of a file: all the bytes asked for, or an error.\<close>

definition file_ReadAt :: "bytes \<Rightarrow> nat \<Rightarrow> int \<Rightarrow> bytes result" where
  "file_ReadAt file n off =
     (if off < 0 then Inl IOError
      else if n = 0 then Inr []
      else if off + int n \<le> int (length file) then Inr (sub file (nat off) n) else Inl EOF)"

definition findBlock :: "int \<Rightarrow> segment \<Rightarrow> blockRef option" where
  "findBlock logical s =
     (let i = sort_search (length (s_blocks s))
                (\<lambda>i. logicalStart (s_blocks s ! i) + logicalLen (s_blocks s ! i) > logical) in
      if i \<ge> length (s_blocks s) \<or> logical < logicalStart (s_blocks s ! i) then None
      else Some (s_blocks s ! i))"

definition blockAt :: "int \<Rightarrow> segment \<Rightarrow> blockRef option" where
  "blockAt logical s = (if \<not> s_blockMode s \<or> s_blocksPending s then None else findBlock logical s)"

definition decodeBlock :: "codecs \<Rightarrow> segment \<Rightarrow> blockRef \<Rightarrow> bytes result" where
  "decodeBlock C s b =
     (if b_version b = v3_Version then
        if physLen b < 0 then Inl GoPanic
        else and_then (file_ReadAt (s_backing s) (nat (physLen b)) (physStart b)) (\<lambda>raw.
             and_then (decodeV3Block C raw) (\<lambda>data.
               if int (length data) \<noteq> logicalLen b then Inl ErrOther else Inr data))
      else if payloadLen b < 0 then Inl GoPanic
      else and_then (file_ReadAt (s_backing s) (nat (payloadLen b)) (payloadStart b)) (\<lambda>raw.
           and_then (DecompressInto C (b_codec b) raw) (\<lambda>data.
             if int (length data) \<noteq> logicalLen b then Inl ErrOther else Inr data)))"

text \<open>\<^verbatim>\<open>blockCopyIntoCache\<close>: what one block contributes to a read of \<open>need\<close> bytes.\<close>

definition blockCopy :: "codecs \<Rightarrow> segment \<Rightarrow> nat \<Rightarrow> blockRef \<Rightarrow> int \<Rightarrow> bytes result" where
  "blockCopy C s need b srcOff =
     and_then (decodeBlock C s b) (\<lambda>data.
       if srcOff \<ge> int (length data) then Inl EOF
       else and_then (go_from data srcOff) (\<lambda>src. Inr (take need src)))"

lemma blockCopy_length: "blockCopy C s need b srcOff = Inr c \<Longrightarrow> 0 < need \<Longrightarrow> 0 < length c"
  by (auto simp: blockCopy_def and_then_Inr_iff go_from_def go_slice_def split: if_splits)

function read_loop :: "codecs \<Rightarrow> segment \<Rightarrow> nat \<Rightarrow> int \<Rightarrow> bytes result" where
  "read_loop C s need cur =
     (if need = 0 then Inr []
      else if cur \<ge> s_position s then Inl EOF
      else (case findBlock cur s of
          None \<Rightarrow> Inl EOF
        | Some b \<Rightarrow>
            and_then (blockCopy C s need b (cur - logicalStart b)) (\<lambda>chunk.
            and_then (read_loop C s (need - length chunk) (cur + int (length chunk))) (\<lambda>rest.
              Inr (chunk @ rest)))))"
  by pat_completeness auto
termination
proof (relation "measure (\<lambda>(_, _, need, _). need)")
  fix C s and need :: nat and cur b x
  assume "need \<noteq> 0" "blockCopy C s need b (cur - logicalStart b) = Inr x"
  then show "((C, s, need - length x, cur + int (length x)), C, s, need, cur) \<in> measure (\<lambda>(_, _, need, _). need)"
    using blockCopy_length [of C s need b "cur - logicalStart b" x] by simp
qed simp

declare read_loop.simps [simp del]

definition readBlocks :: "codecs \<Rightarrow> segment \<Rightarrow> nat \<Rightarrow> int \<Rightarrow> bytes result" where
  "readBlocks C s n off =
     (if off < 0 then Inl ErrOther else if off \<ge> s_position s then Inl EOF else read_loop C s n off)"

definition readAtLocked :: "codecs \<Rightarrow> segment \<Rightarrow> nat \<Rightarrow> int \<Rightarrow> bytes result" where
  "readAtLocked C s n off =
     (case shutErrorLocked s of
        Some e \<Rightarrow> Inl e
      | None \<Rightarrow> if \<not> s_blockMode s then file_ReadAt (s_backing s) n off else readBlocks C s n off)"

text \<open>The block table of an offloaded segment is fetched before the first read.\<close>

definition fetchBlockTable :: "segment \<Rightarrow> blockRef list result" where
  "fetchBlockTable s =
     (case s_blocksObject s of
        None \<Rightarrow> Inl ErrOther
      | Some buf \<Rightarrow>
          if length buf < 10 then Inl ErrBlockTableFormat
          else if int (length buf) > maxBlockTableBytes (s_physPosition s) then Inl ErrBlockTableFormat
          else and_then (decodeBlockTable buf) (\<lambda>blocks.
            if blockTableExtent blocks \<noteq> (s_position s, s_physPosition s) then Inl ErrOther
            else if sumBlockRecords blocks \<noteq> s_records s then Inl ErrOther
            else Inr blocks))"

definition ensureBlocksLoaded :: "segment \<Rightarrow> segment result" where
  "ensureBlocksLoaded s =
     (if \<not> s_blocksPending s then Inr s
      else and_then (fetchBlockTable s) (\<lambda>blocks. Inr (s \<lparr>s_blocks := blocks, s_blocksPending := False\<rparr>)))"

definition s_ReadAt :: "codecs \<Rightarrow> segment \<Rightarrow> nat \<Rightarrow> int \<Rightarrow> bytes result" where
  "s_ReadAt C s n off = and_then (ensureBlocksLoaded s) (\<lambda>s. readAtLocked C s n off)"

section \<open>What a block segment reads as\<close>

text \<open>Blocks and what they decode to.\<close>

definition decodes_to :: "codecs \<Rightarrow> segment \<Rightarrow> blockRef \<Rightarrow> bytes \<Rightarrow> bool" where
  "decodes_to C s b d \<longleftrightarrow> decodeBlock C s b = Inr d \<and> logicalLen b = int (length d) \<and> d \<noteq> []"

lemma tiled_logicalLen: "tiled l p bs \<Longrightarrow> k < length bs \<Longrightarrow> 0 \<le> logicalLen (bs ! k)"
proof (induction bs arbitrary: l p k)
  case (Cons x xs)
  then show ?case by (cases k) fastforce+
qed simp

lemma tiled_mono:
  assumes "tiled l p bs" and "i \<le> j" and "j < length bs"
  shows "logicalStart (bs ! i) + logicalLen (bs ! i) \<le> logicalStart (bs ! j) + logicalLen (bs ! j)"
  using assms
proof (induction bs arbitrary: l p i j)
  case (Cons b bs)
  have ge: "tiled l p bs \<Longrightarrow> k < length bs \<Longrightarrow> l \<le> logicalStart (bs ! k)" for l p k
  proof (induction bs arbitrary: l p k)
    case (Cons x xs)
    then show ?case by (cases k) fastforce+
  qed simp
  show ?case
  proof (cases i)
    case 0
    then show ?thesis using Cons.prems ge [of "l + logicalLen b" "p + physLen b" "j - 1"]
        tiled_logicalLen [of "l + logicalLen b" "p + physLen b" bs "j - 1"]
      by (cases j) auto
  next
    case (Suc i')
    then show ?thesis using Cons.prems Cons.IH [of "l + logicalLen b" "p + physLen b" i' "j - 1"] by (cases j) auto
  qed
qed simp

text \<open>The block a logical position falls into, and how much lies before it.\<close>

lemma tiled_locate:
  assumes "tiled l p bs" and "list_all2 (decodes_to C s) bs ds" and "l \<le> x" and "x < l + int (length (concat ds))"
  shows "\<exists>ds1 d ds2 b. ds = ds1 @ d # ds2 \<and> length (takeWhile (\<lambda>b. \<not> logicalStart b + logicalLen b > x) bs) = length ds1 \<and>
     length ds1 < length bs \<and> b = bs ! length ds1 \<and>
     decodes_to C s b d \<and> logicalStart b = l + int (length (concat ds1)) \<and>
     logicalStart b \<le> x \<and> x < logicalStart b + int (length d)"
  using assms
proof (induction bs arbitrary: l p ds)
  case (Cons b bs)
  from Cons.prems(2) obtain d ds' where ds: "ds = d # ds'" "decodes_to C s b d" "list_all2 (decodes_to C s) bs ds'"
    by (cases ds) auto
  have st: "logicalStart b = l" "logicalLen b = int (length d)" "tiled (l + int (length d)) (p + physLen b) bs"
    using Cons.prems(1) ds(2) by (auto simp: decodes_to_def)
  show ?case
  proof (cases "l + int (length d) > x")
    case True
    then show ?thesis using ds st Cons.prems(3)
      by (intro exI [of _ "[]"] exI [of _ d] exI [of _ ds'] exI [of _ b]) simp
  next
    case False
    have "\<exists>ds1 d' ds2 b'. ds' = ds1 @ d' # ds2 \<and> length (takeWhile (\<lambda>b. \<not> logicalStart b + logicalLen b > x) bs) = length ds1 \<and>
     length ds1 < length bs \<and> b' = bs ! length ds1 \<and>
     decodes_to C s b' d' \<and> logicalStart b' = (l + int (length d)) + int (length (concat ds1)) \<and>
     logicalStart b' \<le> x \<and> x < logicalStart b' + int (length d')"
      by (rule Cons.IH [OF st(3) ds(3)]) (use False Cons.prems(4) ds(1) in auto)
    then obtain ds1 d' ds2 b' where r: "ds' = ds1 @ d' # ds2"
      "length (takeWhile (\<lambda>b. \<not> logicalStart b + logicalLen b > x) bs) = length ds1"
      "length ds1 < length bs" "b' = bs ! length ds1" "decodes_to C s b' d'"
      "logicalStart b' = (l + int (length d)) + int (length (concat ds1))"
      "logicalStart b' \<le> x" "x < logicalStart b' + int (length d')" by blast
    then show ?thesis using ds st False
      by (intro exI [of _ "d # ds1"] exI [of _ d'] exI [of _ ds2] exI [of _ b']) simp
  qed
qed simp

lemma findBlock_locate:
  assumes "tiled 0 0 (s_blocks s)" and "list_all2 (decodes_to C s) (s_blocks s) ds"
    and "0 \<le> x" and "x < int (length (concat ds))"
  obtains ds1 d ds2 b where "ds = ds1 @ d # ds2" "findBlock x s = Some b" "decodes_to C s b d"
    "logicalStart b = int (length (concat ds1))" "int (length (concat ds1)) \<le> x"
    "x < int (length (concat ds1)) + int (length d)"
proof -
  let ?P = "\<lambda>b. logicalStart b + logicalLen b > x"
  from tiled_locate [OF assms(1-3)] assms(4) obtain ds1 d ds2 b where
    r: "ds = ds1 @ d # ds2" "length (takeWhile (\<lambda>b. \<not> ?P b) (s_blocks s)) = length ds1"
      "length ds1 < length (s_blocks s)" "b = s_blocks s ! length ds1" "decodes_to C s b d"
      "logicalStart b = int (length (concat ds1))" "logicalStart b \<le> x" "x < logicalStart b + int (length d)"
    by auto
  have "sort_search (length (s_blocks s)) (\<lambda>i. ?P (s_blocks s ! i)) = length (takeWhile (\<lambda>b. \<not> ?P b) (s_blocks s))"
    by (rule gosort.search_list_first) (use tiled_mono [OF assms(1)] in fastforce)
  then have "findBlock x s = Some b" using r by (simp add: findBlock_def)
  then show ?thesis using r(6-8) by (intro that [OF r(1) _ r(5)]) auto
qed

lemma sub_split: "m \<le> n \<Longrightarrow> sub b off n = sub b off m @ sub b (off + m) (n - m)"
  by (simp add: sub_def take_add [symmetric] drop_drop [symmetric] add.commute del: drop_drop)

lemma read_loop_concat:
  assumes "tiled 0 0 (s_blocks s)" and "list_all2 (decodes_to C s) (s_blocks s) ds"
    and "s_position s = int (length (concat ds))" and "0 \<le> cur" and "cur + int n \<le> int (length (concat ds))"
  shows "read_loop C s n cur = Inr (sub (concat ds) (nat cur) n)"
  using assms(4,5)
proof (induction n arbitrary: cur rule: less_induct)
  case (less n)
  show ?case
  proof (cases "n = 0")
    case True
    then show ?thesis by (subst read_loop.simps) (simp add: sub_def)
  next
    case False
    then have lt: "cur < int (length (concat ds))" using less.prems(2) by simp
    obtain ds1 d ds2 b where r: "ds = ds1 @ d # ds2" "findBlock cur s = Some b" "decodes_to C s b d"
      "logicalStart b = int (length (concat ds1))" "int (length (concat ds1)) \<le> cur"
      "cur < int (length (concat ds1)) + int (length d)"
      by (rule findBlock_locate [OF assms(1,2) less.prems(1) lt])
    define k where "k = nat (cur - logicalStart b)"
    have k: "cur - logicalStart b = int k" "k < length d" "nat cur = length (concat ds1) + k"
      using r(4-6) by (auto simp: k_def)
    define chunk where "chunk = take n (drop k d)"
    have copy: "blockCopy C s n b (cur - logicalStart b) = Inr chunk"
      using r(3) k by (simp add: blockCopy_def decodes_to_def chunk_def go_from_def go_slice_def)
    have len: "0 < length chunk" "length chunk \<le> n" using blockCopy_length [OF copy] False by (auto simp: chunk_def)
    have this_chunk: "sub (concat ds) (nat cur) (length chunk) = chunk"
      using k by (simp add: r(1) sub_def chunk_def min_def)
    have "read_loop C s (n - length chunk) (cur + int (length chunk)) =
        Inr (sub (concat ds) (nat (cur + int (length chunk))) (n - length chunk))"
    proof (rule less.IH)
      show "n - length chunk < n" using len by linarith
    qed (use len less.prems in auto)
    moreover have "nat (cur + int (length chunk)) = nat cur + length chunk" using less.prems(1) by simp
    ultimately show ?thesis
      using False lt assms(3) r(2) copy this_chunk sub_split [OF len(2), of "concat ds" "nat cur"]
      by (subst read_loop.simps) simp
  qed
qed

lemma read_loop_eof:
  assumes "tiled 0 0 (s_blocks s)" and "list_all2 (decodes_to C s) (s_blocks s) ds"
    and "s_position s = int (length (concat ds))" and "0 \<le> cur" and "cur + int n > int (length (concat ds))" and "0 < n"
  shows "read_loop C s n cur = Inl EOF"
  using assms(4-6)
proof (induction n arbitrary: cur rule: less_induct)
  case (less n)
  show ?case
  proof (cases "cur < int (length (concat ds))")
    case False
    then show ?thesis using assms(3) less.prems by (subst read_loop.simps) simp
  next
    case True
    obtain ds1 d ds2 b where r: "ds = ds1 @ d # ds2" "findBlock cur s = Some b" "decodes_to C s b d"
      "logicalStart b = int (length (concat ds1))" "int (length (concat ds1)) \<le> cur"
      "cur < int (length (concat ds1)) + int (length d)"
      by (rule findBlock_locate [OF assms(1,2) less.prems(1) True])
    define chunk where "chunk = take n (drop (nat (cur - logicalStart b)) d)"
    have copy: "blockCopy C s n b (cur - logicalStart b) = Inr chunk"
      using r(3-6) by (simp add: blockCopy_def decodes_to_def chunk_def go_from_def go_slice_def)
    have "length chunk < n"
    proof -
      have "int (length d) \<le> int (length (concat ds)) - int (length (concat ds1))" by (simp add: r(1))
      then show ?thesis using r(4-6) less.prems by (auto simp: chunk_def)
    qed
    have "0 < length chunk" using blockCopy_length [OF copy] less.prems(3) by simp
    have "read_loop C s (n - length chunk) (cur + int (length chunk)) = Inl EOF"
    proof (intro less.IH)
      show "n - length chunk < n" using \<open>0 < length chunk\<close> less.prems(3) by linarith
    qed (use less.prems \<open>length chunk < n\<close> in auto)
    then show ?thesis using True assms(3) r(2) copy less.prems(3) by (subst read_loop.simps) simp
  qed
qed

end
