(* ===== verification/Segment_Holds.thy ===== *)
theory Segment_Holds
  imports Segment
begin

text \<open>
  What a segment holds.  \<open>seg_holds C s cs\<close> says that a segment stores the records \<open>concat cs\<close>, grouped into
  the chunks that were written together: one chunk per block in a block segment, one record per chunk
  in a raw one.  The index has one entry per chunk, at its first record.

  A write appends a chunk, and a read of logical bytes returns what the frames of the records spell,
  whatever the storage mode: the locale \<open>frame_bytes\<close> is that promise, and the walks over a segment are
  proved against it.
\<close>

section \<open>The representation\<close>

type_synonym chunks = "logrec list list"

fun anchors :: "int \<Rightarrow> chunks \<Rightarrow> entry list" where
  "anchors pos [] = []"
| "anchors pos (c # cs) = entry_of pos (hd c) # anchors (pos + int (length (frames c))) cs"

lemma anchors_append:
  "anchors pos (cs @ ds) = anchors pos cs @ anchors (pos + int (length (frames (concat cs)))) ds"
  by (induction cs arbitrary: pos) (simp_all add: add.assoc)

lemma anchors_singletons: "anchors pos (map (\<lambda>r. [r]) rs) = entries_of pos rs"
  by (induction rs arbitrary: pos) simp_all

lemma length_anchors [simp]: "length (anchors pos cs) = length cs"
  by (induction cs arbitrary: pos) simp_all

text \<open>The records of a segment: they fit their frames and their offsets ascend from its base.\<close>

definition records_ok :: "int \<Rightarrow> logrec list \<Rightarrow> bool" where
  "records_ok base rs \<longleftrightarrow> 0 \<le> base \<and> list_all frame_ok rs \<and> sorted_wrt (<) (map lr_offset rs) \<and>
     (\<forall>r \<in> set rs. base \<le> lr_offset r \<and> lr_offset r - base < 2 ^ 31) \<and> int (length (frames rs)) < 2 ^ 31"

definition ends_match :: "segment \<Rightarrow> logrec list \<Rightarrow> bool" where
  "ends_match s rs \<longleftrightarrow>
     s_firstOffset s = (if rs = [] then - 1 else lr_offset (hd rs)) \<and>
     s_firstWriteTime s = (if rs = [] then 0 else lr_timestamp (hd rs)) \<and>
     s_lastOffset s = (if rs = [] then - 1 else lr_offset (last rs)) \<and>
     s_lastWriteTime s = (if rs = [] then 0 else lr_timestamp (last rs))"

definition seg_bytes :: "codecs \<Rightarrow> segment \<Rightarrow> chunks \<Rightarrow> bool" where
  "seg_bytes C s cs \<longleftrightarrow> s_position s = int (length (frames (concat cs))) \<and>
     (if s_blockMode s
      then \<not> s_blocksPending s \<and> tiled 0 0 (s_blocks s) \<and>
           list_all2 (decodes_to C s) (s_blocks s) (map frames cs) \<and>
           map b_records (s_blocks s) = map (int \<circ> length) cs \<and>
           s_physPosition s = int (length (s_backing s)) \<and> sum_list (map physLen (s_blocks s)) = s_physPosition s
      else s_backing s = frames (concat cs) \<and> list_all (\<lambda>c. length c = 1) cs)"

definition seg_holds :: "codecs \<Rightarrow> segment \<Rightarrow> chunks \<Rightarrow> bool" where
  "seg_holds C s cs \<longleftrightarrow> records_ok (s_BaseOffset s) (concat cs) \<and> [] \<notin> set cs \<and> ends_match s (concat cs) \<and>
     seg_bytes C s cs \<and> (\<exists>idx. s_Index s = Some idx \<and> ix_holds (s_BaseOffset s) idx (anchors 0 cs))"

lemma records_ok_nonneg: "records_ok base rs \<Longrightarrow> r \<in> set rs \<Longrightarrow> 0 \<le> lr_offset r"
  unfolding records_ok_def by (meson order_trans)

lemma entry_of_fits:
  assumes "records_ok base (rs @ r # zs)"
  shows "entry_fits base (entry_of (int (length (frames rs))) r)"
proof -
  have r: "frame_ok r" "base \<le> lr_offset r" "lr_offset r - base < 2 ^ 31"
    using assms by (auto simp: records_ok_def)
  have "int (length (frames rs)) < 2 ^ 31" using assms by (simp add: records_ok_def)
  then show ?thesis using r by (simp add: entry_fits_def entry_of_def frame_ok_def)
qed

lemma anchors_fit:
  assumes "records_ok base (concat pre @ concat cs)" and "[] \<notin> set cs"
  shows "list_all (entry_fits base) (anchors (int (length (frames (concat pre)))) cs)"
  using assms
proof (induction cs arbitrary: pre)
  case (Cons c cs)
  then obtain r rs where c: "c = r # rs" by (cases c) auto
  have "entry_fits base (entry_of (int (length (frames (concat pre)))) r)"
    using entry_of_fits [of base "concat pre" r "rs @ concat cs"] Cons.prems(1) c by simp
  then show ?case using Cons.IH [of "pre @ [c]"] Cons.prems c by simp
qed simp

section \<open>Reading\<close>

text \<open>
  The promise of a store of frames: a read inside the frames of its records returns those bytes, a
  read past them ends in \<^verbatim>\<open>EOF\<close>.
\<close>

locale frame_bytes =
  fixes holds :: "'s \<Rightarrow> logrec list \<Rightarrow> bool" and read :: "'s \<Rightarrow> nat \<Rightarrow> int \<Rightarrow> bytes result"
  assumes read_inside: "holds s rs \<Longrightarrow> 0 \<le> off \<Longrightarrow> off + int n \<le> int (length (frames rs)) \<Longrightarrow> 0 < n \<Longrightarrow>
      read s n off = Inr (sub (frames rs) (nat off) n)"
    and read_past: "holds s rs \<Longrightarrow> 0 \<le> off \<Longrightarrow> int (length (frames rs)) < off + int n \<Longrightarrow> 0 < n \<Longrightarrow>
      read s n off = Inl EOF"
begin

text \<open>A read at the start of a record returns its frame header; one at the end of the records ends.\<close>

lemma read_header:
  assumes "holds s (pre @ r # post)"
  shows "read s 32 (int (length (frames pre))) = Inr (sub (frame r) 0 32)"
proof -
  have "read s 32 (int (length (frames pre))) =
      Inr (sub (frames (pre @ r # post)) (length (frames pre)) 32)"
    using read_inside [OF assms, of "int (length (frames pre))" 32] by simp
  then show ?thesis by (simp add: sub_append_right sub_append_left)
qed

lemma read_payload:
  assumes "holds s (pre @ r # post)" and "lr_payload r \<noteq> []"
  shows "read s (length (lr_payload r)) (int (length (frames pre)) + 32) = Inr (lr_payload r)"
proof -
  have e: "nat (int (length (frames pre)) + 32) = length (frames pre) + 32" by simp
  have "read s (length (lr_payload r)) (int (length (frames pre)) + 32) =
      Inr (sub (frames (pre @ r # post)) (length (frames pre) + 32) (length (lr_payload r)))"
    using read_inside [OF assms(1), of "int (length (frames pre)) + 32" "length (lr_payload r)"] assms(2)
    unfolding e by simp
  moreover have "sub (frame r @ frames post) 32 (length (lr_payload r)) = lr_payload r"
    by (simp add: frame_def sub_def)
  ultimately show ?thesis by (simp add: sub_append_right)
qed

lemma read_end:
  assumes "holds s rs"
  shows "read s 32 (int (length (frames rs))) = Inl EOF"
  using read_past [OF assms, of "int (length (frames rs))" 32] by simp

end

definition open_holds :: "codecs \<Rightarrow> segment \<Rightarrow> logrec list \<Rightarrow> bool" where
  "open_holds C s rs \<longleftrightarrow> \<not> s_closed s \<and> (\<exists>cs. seg_bytes C s cs \<and> concat cs = rs)"

lemma concat_map_frames: "concat (map frames cs) = frames (concat cs)"
  by (induction cs) simp_all

interpretation segment_bytes: frame_bytes "open_holds C" "readAtLocked C"
proof
  fix s rs and n :: nat and off :: int
  assume h: "open_holds C s rs" and off: "0 \<le> off" and n: "0 < n"
  then obtain cs where cs: "seg_bytes C s cs" "concat cs = rs" and op: "shutErrorLocked s = None"
    by (auto simp: open_holds_def shutErrorLocked_def)
  show "readAtLocked C s n off = Inr (sub (frames rs) (nat off) n)" if "off + int n \<le> int (length (frames rs))"
  proof (cases "s_blockMode s")
    case True
    then show ?thesis using cs op off n that read_loop_concat [of s C "map frames cs" off n]
      by (auto simp: readAtLocked_def seg_bytes_def readBlocks_def concat_map_frames)
  next
    case False
    then show ?thesis using cs op off n that by (auto simp: readAtLocked_def seg_bytes_def file_ReadAt_def)
  qed
  show "readAtLocked C s n off = Inl EOF" if "int (length (frames rs)) < off + int n"
  proof (cases "s_blockMode s")
    case True
    then show ?thesis using cs op off n that read_loop_eof [of s C "map frames cs" off n]
      by (auto simp: readAtLocked_def seg_bytes_def readBlocks_def concat_map_frames)
  next
    case False
    then show ?thesis using cs op off n that by (auto simp: readAtLocked_def seg_bytes_def file_ReadAt_def)
  qed
qed

section \<open>Writing\<close>

lemma file_ReadAt_append: "file_ReadAt f n off = Inr d \<Longrightarrow> file_ReadAt (f @ x) n off = Inr d"
  by (auto simp: file_ReadAt_def sub_append_left split: if_splits)

lemma decodes_to_append:
  assumes "decodes_to C s b d" and "s_backing s' = s_backing s @ x"
  shows "decodes_to C s' b d"
proof -
  have "file_ReadAt (s_backing s) n off = Inr raw \<Longrightarrow> file_ReadAt (s_backing s') n off = Inr raw" for n off raw
    unfolding assms(2) by (rule file_ReadAt_append)
  then show ?thesis
    using assms(1) by (auto simp: decodes_to_def decodeBlock_def and_then_Inr_iff split: if_splits)
qed

lemma tiled_snoc:
  "tiled l p (bs @ [b]) \<longleftrightarrow> tiled l p bs \<and>
     tiled (l + sum_list (map logicalLen bs)) (p + sum_list (map physLen bs)) [b]"
  by (induction bs arbitrary: l p) (auto simp: add.assoc)

lemma decodes_to_logical:
  "list_all2 (decodes_to C s) bs ds \<Longrightarrow> sum_list (map logicalLen bs) = int (length (concat ds))"
  by (induction bs ds rule: list_all2_induct) (auto simp: decodes_to_def)

lemma block_payload_decodes:
  assumes "codecs_ok C" and "codec_Valid codec" and "block_payload C codec p = (c, pl)"
  shows "DecompressInto C c pl = Inr p"
proof -
  have "DecompressInto C None_codec p = Inr p"
    by (simp add: DecompressInto_def None_codec_def Snappy_def S2_def Zstd_def)
  then show ?thesis using Decompress_Compress [OF assms(1,2), of p] assms(3)
    by (auto simp: block_payload_def Let_def split: if_splits)
qed

text \<open>The block a write adds decodes to what was written.\<close>

lemma new_block_decodes:
  assumes "codecs_ok C" and "codec_Valid codec" and "block_payload C codec p = (c, pl)" and "p \<noteq> []"
    and "s_backing s' = f @ encodeBlockHeader c u v r @ pl"
  shows "decodes_to C s' \<lparr>logicalStart = l, logicalLen = int (length p), physStart = int (length f),
           physLen = int (length (encodeBlockHeader c u v r @ pl)), b_codec = c, b_records = k,
           b_version = BlockFormatVersion, b_flags = 0\<rparr> p"
proof -
  have h: "length (encodeBlockHeader c u v r) = 15" by (simp add: encodeBlockHeader_def)
  have "sub (f @ encodeBlockHeader c u v r @ pl) (length f + 15) (length pl) = pl"
    using sub_append_exact [of "length f + 15" "f @ encodeBlockHeader c u v r" "length pl" pl "[]"] h by simp
  then have "file_ReadAt (s_backing s') (length pl) (int (length f) + 15) = Inr pl"
    unfolding assms(5) by (simp add: file_ReadAt_def h nat_add_distrib)
  then show ?thesis using block_payload_decodes [OF assms(1-3)] assms(4)
    by (simp add: decodes_to_def decodeBlock_def payloadLen_def payloadStart_def headerLen_def h
        BlockFormatVersion_def v3_Version_def)
qed

lemma entries_of_ends:
  assumes "ns \<noteq> []"
  shows "go_index (entries_of pos ns) 0 = Inr (entry_of pos (hd ns))"
    and "\<exists>q. go_index (entries_of pos ns) (int (length (entries_of pos ns)) - 1) = Inr (entry_of q (last ns))"
    and "entries_of pos ns \<noteq> []" and "go_slice (entries_of pos ns) 0 1 = Inr [entry_of pos (hd ns)]"
proof -
  show "go_index (entries_of pos ns) 0 = Inr (entry_of pos (hd ns))" "entries_of pos ns \<noteq> []"
    "go_slice (entries_of pos ns) 0 1 = Inr [entry_of pos (hd ns)]"
    using assms by (cases ns; simp add: go_index_def go_slice_def)+
  have "entries_of pos ns = entries_of pos (butlast ns) @ [entry_of (pos + int (length (frames (butlast ns)))) (last ns)]"
    using entries_of_append [of pos "butlast ns" "[last ns]"] assms by simp
  then show "\<exists>q. go_index (entries_of pos ns) (int (length (entries_of pos ns)) - 1) = Inr (entry_of q (last ns))"
    by (intro exI [of _ "pos + int (length (frames (butlast ns)))"]) (simp add: go_index_def nth_append)
qed

lemma last_ascends:
  assumes "records_ok base (rs @ ns)" and "ns \<noteq> []"
  shows "(if rs = [] then - 1 else lr_offset (last rs)) < lr_offset (last ns)"
proof -
  have "last ns \<in> set ns" using assms(2) by simp
  then have "0 \<le> lr_offset (last ns)" using records_ok_nonneg [OF assms(1)] by simp
  moreover have "lr_offset (last rs) < lr_offset (last ns)" if "rs \<noteq> []"
    using assms that by (simp add: records_ok_def sorted_wrt_append)
  ultimately show ?thesis by simp
qed

lemma noteWrittenLocked_ends:
  assumes "ends_match s rs" and "records_ok base (rs @ ns)" and "ns \<noteq> []"
  shows "\<exists>s'. noteWrittenLocked (entries_of pos ns) s = Inr s' \<and> ends_match s' (rs @ ns) \<and>
     s' = s \<lparr>s_firstOffset := s_firstOffset s', s_firstWriteTime := s_firstWriteTime s',
             s_lastOffset := s_lastOffset s', s_lastWriteTime := s_lastWriteTime s'\<rparr>"
proof -
  obtain q where q: "go_index (entries_of pos ns) (int (length (entries_of pos ns)) - 1) = Inr (entry_of q (last ns))"
    using entries_of_ends(2) [OF assms(3)] by blast
  have lt: "s_lastOffset s < lr_offset (last ns)"
    using last_ascends(1) [OF assms(2,3)] assms(1) by (simp add: ends_match_def)
  show ?thesis
  proof (cases "rs = []")
    case True
    then show ?thesis using assms lt q entries_of_ends(1) [OF assms(3), of pos]
      by (simp add: noteWrittenLocked_def ends_match_def entry_of_def)
  next
    case False
    have "\<forall>r \<in> set rs. 0 \<le> lr_offset r" using records_ok_nonneg [OF assms(2)] by simp
    then have "0 \<le> lr_offset (hd rs)" using False by simp
    then have "s_firstOffset s \<noteq> - 1" using assms(1) False by (simp add: ends_match_def)
    then show ?thesis using assms lt q False
      by (simp add: noteWrittenLocked_def ends_match_def entry_of_def)
  qed
qed

lemma index_entries_holds:
  assumes "s_Index s = Some idx" and "ix_holds base idx es" and "list_all (entry_fits base) new" and "new \<noteq> []"
  shows "\<exists>idx'. index_entries io_ok new s = Inr (s \<lparr>s_Index := Some idx'\<rparr>, None) \<and> ix_holds base idx' (es @ new)"
  using ix_holds_append [OF assms(2-4)] assms(1) by (auto simp: index_entries_def io_ok_def)

definition same_shape :: "segment \<Rightarrow> segment \<Rightarrow> bool" where
  "same_shape s s' \<longleftrightarrow> s_BaseOffset s' = s_BaseOffset s \<and> s_closed s' = s_closed s \<and> s_left s' = s_left s \<and>
     s_sealed s' = s_sealed s \<and> s_codec s' = s_codec s \<and> s_blockMode s' = s_blockMode s \<and>
     s_maxBytes s' = s_maxBytes s \<and> s_tier s' = s_tier s \<and> s_blocksPending s' = s_blocksPending s"

text \<open>What a raw write does depends on the file only through the bytes it appends to.\<close>

lemma WriteMessageSet_raw_any:
  assumes "seg_holds C (s \<lparr>s_backing := b\<rparr>) cs" and "\<not> s_closed s" and "\<not> s_blockMode s" and "ns \<noteq> []"
    and ok: "records_ok (s_BaseOffset s) (concat cs @ ns)"
  shows "\<exists>s'. WriteMessageSet C io_ok (frames ns) (entries_of (s_position s) ns) s = Inr (s', None) \<and>
     seg_holds C (s' \<lparr>s_backing := b @ frames ns\<rparr>) (cs @ map (\<lambda>r. [r]) ns) \<and> same_shape s s' \<and>
     s_backing s' = s_backing s @ frames ns"
proof -
  define s1 where "s1 = s \<lparr>s_dirtyData := True, s_dirtyIndex := True, s_backing := s_backing s @ frames ns,
      s_position := s_position s + int (length (frames ns))\<rparr>"
  have pos: "s_position s = int (length (frames (concat cs)))" and bk: "b = frames (concat cs)"
    and one: "list_all (\<lambda>c. length c = 1) cs"
    using assms(1,3) by (simp_all add: seg_holds_def seg_bytes_def)
  obtain idx where idx: "s_Index s = Some idx" "ix_holds (s_BaseOffset s) idx (anchors 0 cs)"
    using assms(1) by (auto simp: seg_holds_def)
  have "ends_match s1 (concat cs)" using assms(1) by (simp add: seg_holds_def ends_match_def s1_def)
  then obtain s2 where n: "noteWrittenLocked (entries_of (s_position s) ns) s1 = Inr s2"
    and ends: "ends_match s2 (concat cs @ ns)"
    and s2: "s2 = s1 \<lparr>s_firstOffset := s_firstOffset s2, s_firstWriteTime := s_firstWriteTime s2,
             s_lastOffset := s_lastOffset s2, s_lastWriteTime := s_lastWriteTime s2\<rparr>"
    using noteWrittenLocked_ends [OF _ ok assms(4)] by blast
  have w: "s_write C io_ok (frames ns) (entries_of (s_position s) ns) s = Inr (s2, None)"
    using assms(2,3) n entries_of_ends(3) [OF assms(4)]
    by (simp add: s_write_def backing_Write_def io_ok_def s1_def)
  have ix: "s_Index s2 = Some idx" "s_blockMode s2 = False" using idx assms(3) by (subst s2, simp add: s1_def)+
  have fits: "list_all (entry_fits (s_BaseOffset s)) (entries_of (s_position s) ns)"
    using anchors_fit [of "s_BaseOffset s" cs "map (\<lambda>r. [r]) ns"] ok
    by (auto simp: pos anchors_singletons concat_map_singleton)
  obtain idx' where i: "index_entries io_ok (entries_of (s_position s) ns) s2 = Inr (s2 \<lparr>s_Index := Some idx'\<rparr>, None)"
    and h: "ix_holds (s_BaseOffset s) idx' (anchors 0 cs @ entries_of (s_position s) ns)"
    using index_entries_holds [OF ix(1) idx(2) fits entries_of_ends(3) [OF assms(4)]] by blast
  let ?s = "s2 \<lparr>s_Index := Some idx'\<rparr>"
  have "WriteMessageSet C io_ok (frames ns) (entries_of (s_position s) ns) s = Inr (?s, None)"
    by (simp add: WriteMessageSet_def w ix i)
  moreover have shape: "same_shape s ?s" by (subst s2) (simp add: same_shape_def s1_def)
  moreover have "s_backing ?s = s_backing s @ frames ns" by (subst s2) (simp add: s1_def)
  moreover have "seg_bytes C (?s \<lparr>s_backing := b @ frames ns\<rparr>) (cs @ map (\<lambda>r. [r]) ns)"
    using assms(3) bk pos one by (subst s2) (auto simp: seg_bytes_def s1_def concat_map_singleton list_all_iff)
  moreover have "ix_holds (s_BaseOffset s) idx' (anchors 0 (cs @ map (\<lambda>r. [r]) ns))"
    using h by (simp add: anchors_append anchors_singletons pos)
  moreover have "ends_match (?s \<lparr>s_backing := b @ frames ns\<rparr>) (concat cs @ ns)" using ends by (simp add: ends_match_def)
  ultimately show ?thesis
    using ok assms(1) by (auto simp: seg_holds_def concat_map_singleton same_shape_def)
qed

lemma WriteMessageSet_raw:
  assumes "seg_holds C s cs" and "\<not> s_closed s" and "\<not> s_blockMode s" and "ns \<noteq> []"
    and "records_ok (s_BaseOffset s) (concat cs @ ns)"
  shows "\<exists>s'. WriteMessageSet C io_ok (frames ns) (entries_of (s_position s) ns) s = Inr (s', None) \<and>
     seg_holds C s' (cs @ map (\<lambda>r. [r]) ns) \<and> same_shape s s'"
proof -
  have id: "t \<lparr>s_backing := s_backing t\<rparr> = t" for t :: segment by simp
  have "seg_holds C (s \<lparr>s_backing := s_backing s\<rparr>) cs" unfolding id by (rule assms(1))
  from WriteMessageSet_raw_any [OF this assms(2-5)]
  obtain s' where w: "WriteMessageSet C io_ok (frames ns) (entries_of (s_position s) ns) s = Inr (s', None)" "same_shape s s'"
    "seg_holds C (s' \<lparr>s_backing := s_backing s @ frames ns\<rparr>) (cs @ map (\<lambda>r. [r]) ns)" "s_backing s' = s_backing s @ frames ns"
    by blast
  have "seg_holds C s' (cs @ map (\<lambda>r. [r]) ns)" using w(3) unfolding w(4) [symmetric] id .
  with w show ?thesis by blast
qed

text \<open>The bytes and the reference of the block a write adds.\<close>

definition block_bytes :: "codecs \<Rightarrow> Codec \<Rightarrow> bytes \<Rightarrow> nat \<Rightarrow> bytes" where
  "block_bytes C codec p n =
     (let (c, pl) = block_payload C codec p in
      encodeBlockHeader c (word_of_nat (length p)) (word_of_nat (length pl)) (word_of_nat n) @ pl)"

definition block_ref :: "codecs \<Rightarrow> Codec \<Rightarrow> bytes \<Rightarrow> nat \<Rightarrow> int \<Rightarrow> int \<Rightarrow> blockRef" where
  "block_ref C codec p n logical phys =
     \<lparr>logicalStart = logical, logicalLen = int (length p), physStart = phys,
      physLen = int (length (block_bytes C codec p n)), b_codec = fst (block_payload C codec p),
      b_records = int n, b_version = BlockFormatVersion, b_flags = 0\<rparr>"

lemma WriteMessageSet_blocks:
  assumes "seg_holds C s cs" and "\<not> s_closed s" and "s_blockMode s" and "ns \<noteq> []"
    and ok: "records_ok (s_BaseOffset s) (concat cs @ ns)" and C: "codecs_ok C" "codec_Valid (s_codec s)"
  shows "\<exists>s'. WriteMessageSet C io_ok (frames ns) (entries_of (s_position s) ns) s = Inr (s', None) \<and>
     seg_holds C s' (cs @ [ns]) \<and> same_shape s s' \<and>
     s_backing s' = s_backing s @ block_bytes C (s_codec s) (frames ns) (length ns) \<and>
     s_blocks s' = s_blocks s @ [block_ref C (s_codec s) (frames ns) (length ns) (s_position s) (s_physPosition s)]"
proof -
  obtain c pl where pl: "block_payload C (s_codec s) (frames ns) = (c, pl)" by (cases "block_payload C (s_codec s) (frames ns)")
  define hdr where "hdr = encodeBlockHeader c (word_of_nat (length (frames ns))) (word_of_nat (length pl)) (word_of_nat (length ns))"
  define b where "b = \<lparr>logicalStart = s_position s, logicalLen = int (length (frames ns)), physStart = s_physPosition s,
      physLen = int (length (hdr @ pl)), b_codec = c, b_records = int (length ns), b_version = BlockFormatVersion, b_flags = 0\<rparr>"
  define s1 where "s1 = s \<lparr>s_dirtyData := True, s_dirtyIndex := True, s_backing := s_backing s @ hdr @ pl,
      s_blocks := s_blocks s @ [b], s_position := s_position s + int (length (frames ns)),
      s_physPosition := s_physPosition s + int (length (hdr @ pl))\<rparr>"
  have old: "s_position s = int (length (frames (concat cs)))" "\<not> s_blocksPending s" "tiled 0 0 (s_blocks s)"
    "list_all2 (decodes_to C s) (s_blocks s) (map frames cs)" "map b_records (s_blocks s) = map (int \<circ> length) cs"
    "s_physPosition s = int (length (s_backing s))" "sum_list (map physLen (s_blocks s)) = s_physPosition s"
    using assms(1,3) by (simp_all add: seg_holds_def seg_bytes_def)
  obtain idx where idx: "s_Index s = Some idx" "ix_holds (s_BaseOffset s) idx (anchors 0 cs)"
    using assms(1) by (auto simp: seg_holds_def)
  have ne: "frames ns \<noteq> []" using assms(4) by (cases ns) (auto simp: frame_def)
  have "ends_match s1 (concat cs)" using assms(1) by (simp add: seg_holds_def ends_match_def s1_def)
  then obtain s2 where n: "noteWrittenLocked (entries_of (s_position s) ns) s1 = Inr s2"
    and ends: "ends_match s2 (concat cs @ ns)"
    and s2: "s2 = s1 \<lparr>s_firstOffset := s_firstOffset s2, s_firstWriteTime := s_firstWriteTime s2,
             s_lastOffset := s_lastOffset s2, s_lastWriteTime := s_lastWriteTime s2\<rparr>"
    using noteWrittenLocked_ends [OF _ ok assms(4)] by blast
  have len: "length (entries_of (s_position s) ns) = length ns"
    using length_anchors [of "s_position s" "map (\<lambda>r. [r]) ns"] by (simp add: anchors_singletons)
  have w: "s_write C io_ok (frames ns) (entries_of (s_position s) ns) s = Inr (s2, None)"
    using assms(2,3) n entries_of_ends(3) [OF assms(4)] len
    by (simp add: s_write_def appendBlock_def appendBlockBytes_def pl backing_Write_def io_ok_def s1_def b_def hdr_def)
  have ix: "s_Index s2 = Some idx" "s_blockMode s2" using idx assms(3) by (subst s2, simp add: s1_def)+
  have fits: "list_all (entry_fits (s_BaseOffset s)) [entry_of (s_position s) (hd ns)]"
    using anchors_fit [of "s_BaseOffset s" cs "[ns]"] ok assms(4) by (simp add: old(1))
  obtain idx' where i: "index_entries io_ok [entry_of (s_position s) (hd ns)] s2 = Inr (s2 \<lparr>s_Index := Some idx'\<rparr>, None)"
    and h: "ix_holds (s_BaseOffset s) idx' (anchors 0 cs @ [entry_of (s_position s) (hd ns)])"
    using index_entries_holds [OF ix(1) idx(2) fits] by blast
  let ?s = "s2 \<lparr>s_Index := Some idx'\<rparr>"
  have bk: "s_backing ?s = s_backing s @ hdr @ pl" by (subst s2) (simp add: s1_def)
  have "WriteMessageSet C io_ok (frames ns) (entries_of (s_position s) ns) s = Inr (?s, None)"
    by (simp add: WriteMessageSet_def w ix i entries_of_ends(4) [OF assms(4)])
  moreover have shape: "same_shape s ?s" by (subst s2) (simp add: same_shape_def s1_def)
  moreover have "seg_bytes C ?s (cs @ [ns])"
  proof -
    have "decodes_to C ?s b (frames ns)"
      using new_block_decodes [OF C pl ne bk [unfolded hdr_def]] old(6) by (simp add: b_def hdr_def)
    moreover have "list_all2 (decodes_to C ?s) (s_blocks s) (map frames cs)"
      by (rule list_all2_mono [OF old(4)]) (rule decodes_to_append [OF _ bk])
    ultimately have l2: "list_all2 (decodes_to C ?s) (s_blocks s @ [b]) (map frames (cs @ [ns]))"
      by (simp add: list_all2_appendI)
    have "tiled 0 0 (s_blocks s @ [b])"
      using old(3,7) decodes_to_logical [OF old(4)] old(1) assms(4)
      by (simp add: tiled_snoc concat_map_frames) (simp add: b_def hdr_def encodeBlockHeader_def)
    moreover have "s_blocks ?s = s_blocks s @ [b]" "s_position ?s = s_position s + int (length (frames ns))"
      "s_physPosition ?s = s_physPosition s + int (length (hdr @ pl))" "\<not> s_blocksPending ?s" "s_blockMode ?s"
      by (subst s2, simp add: s1_def old(2) assms(3))+
    moreover have "b_records b = int (length ns)" "physLen b = int (length (hdr @ pl))" by (simp_all add: b_def)
    ultimately show ?thesis using l2 old(1,5-7) bk unfolding seg_bytes_def by simp
  qed
  moreover have "s_blocks ?s = s_blocks s @ [block_ref C (s_codec s) (frames ns) (length ns) (s_position s) (s_physPosition s)]"
    by (subst s2) (simp add: s1_def b_def block_ref_def block_bytes_def pl hdr_def)
  moreover have "s_backing ?s = s_backing s @ block_bytes C (s_codec s) (frames ns) (length ns)"
    using bk by (simp add: block_bytes_def pl hdr_def)
  moreover have "ix_holds (s_BaseOffset s) idx' (anchors 0 (cs @ [ns]))"
    using h by (simp add: anchors_append old(1))
  moreover have "ends_match ?s (concat cs @ ns)" using ends by (simp add: ends_match_def)
  ultimately show ?thesis
    using ok assms(1,4) by (auto simp: seg_holds_def same_shape_def)
qed

text \<open>A write of frames that fit extends what the segment holds by exactly them, in either mode.\<close>

lemma WriteMessageSet_holds:
  assumes "seg_holds C s cs" and "\<not> s_closed s" and "ns \<noteq> []"
    and "records_ok (s_BaseOffset s) (concat cs @ ns)" and "codecs_ok C" "codec_Valid (s_codec s)"
  shows "\<exists>s' cs'. WriteMessageSet C io_ok (frames ns) (entries_of (s_position s) ns) s = Inr (s', None) \<and>
     seg_holds C s' cs' \<and> concat cs' = concat cs @ ns \<and> same_shape s s'"
proof (cases "s_blockMode s")
  case True
  obtain s' where "WriteMessageSet C io_ok (frames ns) (entries_of (s_position s) ns) s = Inr (s', None)"
    "seg_holds C s' (cs @ [ns])" "same_shape s s'"
    using WriteMessageSet_blocks [OF assms(1,2) True assms(3-6)] by blast
  then show ?thesis by (intro exI [of _ s'] exI [of _ "cs @ [ns]"]) simp
next
  case False
  obtain s' where "WriteMessageSet C io_ok (frames ns) (entries_of (s_position s) ns) s = Inr (s', None)"
    "seg_holds C s' (cs @ map (\<lambda>r. [r]) ns)" "same_shape s s'"
    using WriteMessageSet_raw [OF assms(1,2) False assms(3,4)] by blast
  then show ?thesis by (intro exI [of _ s'] exI [of _ "cs @ map (\<lambda>r. [r]) ns"]) (simp add: concat_map_singleton)
qed

end
