(* ===== verification/Segment_Search.thy ===== *)
theory Segment_Search
  imports Segment_Holds
begin

text \<open>
  \<^verbatim>\<open>segment.go\<close>, finding and scanning: the index search of a raw segment, the anchor-and-scan of a block
  segment, and the scanner every rewrite and recovery walks with.

  \<^verbatim>\<open>scanForward\<close> is a partial function: a frame whose size field is \<open>-32\<close> makes the source's loop stay where
  it is, and then the value is \<open>None\<close>.  On a segment that holds records it is proved to return.
\<close>

section \<open>Finding an entry\<close>

text \<open>The fields of the frame header read at \<open>pos\<close>, and the payload size.\<close>

definition header_entry :: "int \<Rightarrow> bytes \<Rightarrow> (entry \<times> int) result" where
  "header_entry pos m =
     and_then (ms_Offset m) (\<lambda>off. and_then (ms_Timestamp m) (\<lambda>ts. and_then (ms_LeaderEpoch m) (\<lambda>ep.
     and_then (ms_Size m) (\<lambda>sz.
       Inr (\<lparr>e_Offset = off, e_Timestamp = ts, e_LeaderEpoch = ep, e_Position = pos,
             e_Size = i32 (sz + msgSetHeaderLen)\<rparr>, sz)))))"

partial_function (option) scanForward ::
  "codecs \<Rightarrow> segment \<Rightarrow> (bytes \<Rightarrow> bool result) \<Rightarrow> int \<Rightarrow> entry result option" where
  "scanForward C s match pos =
     (case readAtLocked C s 32 pos of
        Inl e \<Rightarrow> Some (Inl (if e = EOF then ErrEntryNotFound else e))
      | Inr hdr \<Rightarrow>
          (case and_then (header_entry pos hdr) (\<lambda>(e, sz). and_then (match hdr) (\<lambda>hit. Inr (e, sz, hit))) of
             Inl e \<Rightarrow> Some (Inl e)
           | Inr (e, sz, hit) \<Rightarrow>
               if hit then Some (Inr e) else scanForward C s match (pos + (msgSetHeaderLen + sz))))"

definition withIndex :: "segment \<Rightarrow> (index \<Rightarrow> 'a result) \<Rightarrow> 'a result" where
  "withIndex s f =
     (case s_Index s of
        Some idx \<Rightarrow> f idx
      | None \<Rightarrow> (case s_remoteIndex s of None \<Rightarrow> Inl ErrIndexCorrupt | Some idx \<Rightarrow> f idx))"

text \<open>An error while searching leaves the position at zero and is not reported.\<close>

definition anchorPosition :: "(entry \<Rightarrow> bool) \<Rightarrow> segment \<Rightarrow> int result" where
  "anchorPosition pred s =
     withIndex s (\<lambda>idx.
       case searchEntries empty_entry pred idx of
         Inl GoPanic \<Rightarrow> Inl GoPanic
       | Inl _ \<Rightarrow> Inr 0
       | Inr (i, n, e) \<Rightarrow>
           if n = 0 then Inr 0
           else if i > 0 then
             (case ReadEntryAtLogOffset empty_entry (int i - 1) idx of
                Inl GoPanic \<Rightarrow> Inl GoPanic
              | Inl _ \<Rightarrow> Inr 0
              | Inr e \<Rightarrow> Inr (e_Position e))
           else Inr (case e of None \<Rightarrow> 0 | Some e \<Rightarrow> e_Position e))"

definition anchorPositionForOffset :: "int \<Rightarrow> segment \<Rightarrow> int result" where
  "anchorPositionForOffset off s = anchorPosition (\<lambda>e. e_Offset e > off) s"

definition anchorPositionForTimestamp :: "int \<Rightarrow> segment \<Rightarrow> int result" where
  "anchorPositionForTimestamp ts s = anchorPosition (\<lambda>e. e_Timestamp e \<ge> ts) s"

text \<open>\<^verbatim>\<open>findEntryBy\<close> of an \<^verbatim>\<open>entrySearch\<close>: its anchor, message and entry predicates.\<close>

definition findEntryBy ::
  "codecs \<Rightarrow> (segment \<Rightarrow> int result) \<Rightarrow> (bytes \<Rightarrow> bool result) \<Rightarrow> (entry \<Rightarrow> bool) \<Rightarrow> segment \<Rightarrow> entry result option" where
  "findEntryBy C anchor message ent s =
     (case ensureBlocksLoaded s of
        Inl e \<Rightarrow> Some (Inl e)
      | Inr s \<Rightarrow>
          if s_left s then Some (Inl ErrSegmentReplaced)
          else if s_blockMode s then
            (case anchor s of Inl e \<Rightarrow> Some (Inl e) | Inr pos \<Rightarrow> scanForward C s message pos)
          else Some (withIndex s (\<lambda>idx.
            and_then (searchEntries empty_entry ent idx) (\<lambda>(i, n, e).
              case e of None \<Rightarrow> Inl ErrEntryNotFound | Some e \<Rightarrow> Inr e))))"

definition findEntry :: "codecs \<Rightarrow> int \<Rightarrow> segment \<Rightarrow> entry result option" where
  "findEntry C off =
     findEntryBy C (anchorPositionForOffset off) (\<lambda>m. and_then (ms_Offset m) (\<lambda>x. Inr (x \<ge> off)))
       (\<lambda>e. e_Offset e \<ge> off)"

definition findEntryByTimestamp :: "codecs \<Rightarrow> int \<Rightarrow> segment \<Rightarrow> entry result option" where
  "findEntryByTimestamp C ts =
     findEntryBy C (anchorPositionForTimestamp ts) (\<lambda>m. and_then (ms_Timestamp m) (\<lambda>x. Inr (x \<ge> ts)))
       (\<lambda>e. e_Timestamp e \<ge> ts)"

section \<open>Scanning\<close>

definition scanReadAt :: "codecs \<Rightarrow> segment \<Rightarrow> nat \<Rightarrow> int \<Rightarrow> (segment \<times> bytes) result" where
  "scanReadAt C s n off =
     and_then (ensureBlocksLoaded s) (\<lambda>s. and_then (readAtLocked C s n off) (\<lambda>p. Inr (s, p)))"

text \<open>\<^verbatim>\<open>Scan\<close>: the frame, its entry and the scanner's next position.\<close>

definition Scan :: "codecs \<Rightarrow> segment \<Rightarrow> int \<Rightarrow> (bytes \<times> entry \<times> int) result" where
  "Scan C s pos =
     and_then (scanReadAt C s 32 pos) (\<lambda>(s, header).
     and_then (storedHeaderCrc header) (\<lambda>want. and_then (headerCrc header) (\<lambda>got.
       if want \<noteq> got then Inl ErrCorruptFrameHeader
       else and_then (header_entry pos header) (\<lambda>(e, sz).
         if sz > s_position s - (pos + msgSetHeaderLen) then Inl ErrCorruptRecord
         else if sz < 0 then Inl GoPanic
         else and_then (scanReadAt C s (nat sz) (pos + msgSetHeaderLen)) (\<lambda>(s, payload).
           Inr (header @ payload, e, pos + (msgSetHeaderLen + sz)))))))"

section \<open>Frame headers\<close>

lemma header_slices:
  "go_slice (sub (frame r) 0 32) 0 8 = Inr (be64 (word_of_int (lr_offset r)))"
  "go_slice (sub (frame r) 0 32) 8 16 = Inr (be64 (word_of_int (lr_timestamp r)))"
  "go_slice (sub (frame r) 0 32) 16 24 = Inr (be64 (lr_epoch r))"
  "go_slice (sub (frame r) 0 32) 24 28 = Inr (be32 (word_of_nat (length (lr_payload r))))"
  "go_slice (sub (frame r) 0 32) 0 28 = Inr (frame_fields r)"
  "go_from (sub (frame r) 0 32) 28 = Inr (be32 (crc32 Castagnoli (frame_fields r)))"
  by (simp_all add: frame_def frame_fields_def sub_def go_slice_def go_from_def)

lemma header_fields:
  assumes "frame_ok r"
  shows "ms_Offset (sub (frame r) 0 32) = Inr (lr_offset r)"
    and "ms_Timestamp (sub (frame r) 0 32) = Inr (lr_timestamp r)"
    and "header_entry pos (sub (frame r) 0 32) = Inr (entry_of pos r, int (length (lr_payload r)))"
    and "headerCrc (sub (frame r) 0 32) = Inr (crc32 Castagnoli (frame_fields r))"
    and "storedHeaderCrc (sub (frame r) 0 32) = Inr (crc32 Castagnoli (frame_fields r))"
proof -
  let ?h = "sub (frame r) 0 32"
  show o: "ms_Offset ?h = Inr (lr_offset r)" and t: "ms_Timestamp ?h = Inr (lr_timestamp r)"
    using assms by (simp_all add: ms_Offset_def ms_Timestamp_def header_slices sint_word_of_int_64_id frame_ok_def)
  have s: "ms_Size ?h = Inr (int (length (lr_payload r)))" and e: "ms_LeaderEpoch ?h = Inr (lr_epoch r)"
    using assms by (simp_all add: ms_Size_def ms_LeaderEpoch_def header_slices sint_word_of_nat_32 frame_ok_def)
  have "i32 (int (length (lr_payload r)) + 32) = int (length (frame r))"
    using assms by (simp add: frame_ok_def i32_id)
  then show "header_entry pos ?h = Inr (entry_of pos r, int (length (lr_payload r)))"
    by (simp add: header_entry_def o t s e entry_of_def)
  show "headerCrc ?h = Inr (crc32 Castagnoli (frame_fields r))" "storedHeaderCrc ?h = Inr (crc32 Castagnoli (frame_fields r))"
    by (simp_all add: headerCrc_def storedHeaderCrc_def header_slices)
qed

section \<open>Scanning forward\<close>

lemma scanForward_finds:
  assumes "open_holds C s (pre @ post)" and "list_all frame_ok (pre @ post)"
    and match: "\<And>r. frame_ok r \<Longrightarrow> match (sub (frame r) 0 32) = Inr (P r)"
  shows "scanForward C s match (int (length (frames pre))) =
     Some (case dropWhile (\<lambda>r. \<not> P r) post of
             [] \<Rightarrow> Inl ErrEntryNotFound
           | r # _ \<Rightarrow> Inr (entry_of (int (length (frames (pre @ takeWhile (\<lambda>r. \<not> P r) post)))) r))"
  using assms(1,2)
proof (induction post arbitrary: pre)
  case Nil
  then show ?case using segment_bytes.read_end [of C s pre]
    by (subst scanForward.simps) simp
next
  case (Cons r post)
  have ok: "frame_ok r" using Cons.prems(2) by simp
  have rd: "readAtLocked C s 32 (int (length (frames pre))) = Inr (sub (frame r) 0 32)"
    by (rule segment_bytes.read_header [OF Cons.prems(1)])
  show ?case
  proof (cases "P r")
    case True
    then show ?thesis
      by (subst scanForward.simps) (simp add: rd header_fields [OF ok] match [OF ok])
  next
    case False
    have "scanForward C s match (int (length (frames pre))) =
        scanForward C s match (int (length (frames (pre @ [r]))))"
      using False by (subst scanForward.simps) (simp add: rd header_fields [OF ok] match [OF ok])
    moreover have "(pre @ [r]) @ takeWhile (\<lambda>r. \<not> P r) post = pre @ takeWhile (\<lambda>r. \<not> P r) (r # post)"
      using False by simp
    ultimately show ?thesis using Cons.IH [of "pre @ [r]"] Cons.prems False by (simp only: append_assoc) simp
  qed
qed

section \<open>Anchors\<close>

lemma anchors_nth:
  "k < length cs \<Longrightarrow> anchors pos cs ! k = entry_of (pos + int (length (frames (concat (take k cs))))) (hd (cs ! k))"
proof (induction cs arbitrary: pos k)
  case (Cons c cs)
  then show ?case by (cases k) (simp_all add: add.assoc)
qed simp

lemma length_entries_of [simp]: "length (entries_of pos rs) = length rs"
  by (induction rs arbitrary: pos) simp_all

lemma entries_of_takeWhile:
  "(\<And>p r. Q (entry_of p r) = P r) \<Longrightarrow> takeWhile Q (entries_of pos rs) = entries_of pos (takeWhile P rs)"
  by (induction rs arbitrary: pos) simp_all

lemma anchors_member:
  assumes "e \<in> set (anchors pos cs)" and "[] \<notin> set cs"
  shows "\<exists>p r. e = entry_of p r \<and> r \<in> set (concat cs)"
  using assms
proof (induction cs arbitrary: pos)
  case (Cons c cs)
  then show ?case by (cases c) (auto, blast+)
qed simp

lemma anchors_mono:
  assumes "[] \<notin> set cs" and "sorted_wrt (\<lambda>x y. P x \<longrightarrow> P y) (concat cs)" and Q: "\<And>p r. Q (entry_of p r) = P r"
  shows "sorted_wrt (\<lambda>x y. Q x \<longrightarrow> Q y) (anchors pos cs)"
  using assms(1,2)
proof (induction cs arbitrary: pos)
  case (Cons c cs)
  have hd: "hd c \<in> set c" using Cons.prems(1) by (cases c) simp_all
  have "Q (entry_of pos (hd c)) \<longrightarrow> Q e" if e: "e \<in> set (anchors (pos + int (length (frames c))) cs)" for e
  proof -
    obtain p r where "e = entry_of p r" "r \<in> set (concat cs)" using anchors_member [OF e] Cons.prems(1) by auto
    then show ?thesis using Cons.prems(2) hd by (auto simp: Q sorted_wrt_append)
  qed
  then show ?case using Cons by (simp add: sorted_wrt_append)
qed simp

text \<open>The anchor is the start of a chunk before which nothing matches.\<close>

lemma anchorPosition_before:
  assumes h: "seg_holds C s cs" and epoch: "\<And>x w. A (x \<lparr>e_LeaderEpoch := w\<rparr>) = A x"
    and A: "\<And>p r. A (entry_of p r) = B r" and mono: "sorted_wrt (\<lambda>x y. B x \<longrightarrow> B y) (concat cs)"
    and key: "sorted_wrt (\<lambda>x y. P x \<longrightarrow> B y) (concat cs)"
  shows "\<exists>pre post. concat cs = pre @ post \<and> (\<forall>r \<in> set pre. \<not> P r) \<and> anchorPosition A s = Inr (int (length (frames pre)))"
proof -
  obtain idx where idx: "s_Index s = Some idx" "ix_holds (s_BaseOffset s) idx (anchors 0 cs)" and ne: "[] \<notin> set cs"
    using h by (auto simp: seg_holds_def)
  define i where "i = length (takeWhile (\<lambda>x. \<not> A x) (anchors 0 cs))"
  have il: "i \<le> length cs" unfolding i_def by (metis length_anchors length_takeWhile_le)
  have srch: "searchEntries empty_entry A idx = Inr (i, length cs,
      if i < length cs then Some ((anchors 0 cs ! i) \<lparr>e_LeaderEpoch := 0\<rparr>) else None)"
    using ix_holds_search [OF idx(2) epoch anchors_mono [OF ne mono A], of empty_entry]
    by (simp add: Let_def i_def empty_entry_def)
  show ?thesis
  proof (cases "i = 0")
    case True
    then have "anchorPosition A s = Inr 0"
      using srch anchors_nth [of 0 cs 0] by (auto simp: anchorPosition_def withIndex_def idx entry_of_def)
    then show ?thesis by (intro exI [of _ "[]"] exI [of _ "concat cs"]) simp
  next
    case False
    define k where "k = i - 1"
    have k: "k < length cs" "k < i" "int i - 1 = int k" using False il by (auto simp: k_def)
    have "anchorPosition A s = Inr (int (length (frames (concat (take k cs)))))"
      using srch ix_holds_read [OF idx(2), of k empty_entry] k False anchors_nth [of k cs 0]
      by (auto simp: anchorPosition_def withIndex_def idx entry_of_def)
    moreover have "\<not> A (anchors 0 cs ! k)" using k(2) unfolding i_def by (metis nth_mem set_takeWhileD takeWhile_nth)
    then have "\<not> B (hd (cs ! k))" using anchors_nth [OF k(1)] A by simp
    moreover have split: "concat cs = concat (take k cs) @ cs ! k @ concat (drop (Suc k) cs)"
      using k(1) by (metis concat.simps(2) concat_append id_take_nth_drop)
    moreover have "cs ! k \<noteq> []" using ne k(1) by (metis nth_mem)
    ultimately show ?thesis using key
      by (intro exI [of _ "concat (take k cs)"] exI [of _ "cs ! k @ concat (drop (Suc k) cs)"])
        (auto simp: sorted_wrt_append split)
  qed
qed

section \<open>The first matching record\<close>

text \<open>A segment that is not closed, not replaced, and whose block table is loaded.\<close>

definition s_live :: "segment \<Rightarrow> bool" where
  "s_live s \<longleftrightarrow> \<not> s_closed s \<and> \<not> s_left s \<and> \<not> s_blocksPending s"

text \<open>The entry of the first record of \<open>rs\<close> that satisfies \<open>P\<close>; the index of a raw segment keeps no epoch.\<close>

definition first_entry :: "bool \<Rightarrow> (logrec \<Rightarrow> bool) \<Rightarrow> logrec list \<Rightarrow> entry result" where
  "first_entry blockMode P rs =
     (case dropWhile (\<lambda>r. \<not> P r) rs of
        [] \<Rightarrow> Inl ErrEntryNotFound
      | r # _ \<Rightarrow> Inr ((entry_of (int (length (frames (takeWhile (\<lambda>r. \<not> P r) rs)))) r)
                   \<lparr>e_LeaderEpoch := if blockMode then lr_epoch r else 0\<rparr>))"

lemma takeWhile_prefix_false:
  "\<forall>r \<in> set pre. \<not> P r \<Longrightarrow> takeWhile (\<lambda>r. \<not> P r) (pre @ post) = pre @ takeWhile (\<lambda>r. \<not> P r) post \<and>
     dropWhile (\<lambda>r. \<not> P r) (pre @ post) = dropWhile (\<lambda>r. \<not> P r) post"
  by (simp add: takeWhile_append2 dropWhile_append2)

lemma singletons_concat: "list_all (\<lambda>c. length c = 1) cs \<Longrightarrow> cs = map (\<lambda>r. [r]) (concat cs)"
  by (induction cs) (auto simp: length_Suc_conv)

lemma raw_search_first:
  assumes h: "seg_holds C s cs" and raw: "\<not> s_blockMode s"
    and epoch: "\<And>x w. Q (x \<lparr>e_LeaderEpoch := w\<rparr>) = Q x" and Q: "\<And>p r. Q (entry_of p r) = P r"
    and mono: "sorted_wrt (\<lambda>x y. P x \<longrightarrow> P y) (concat cs)"
  shows "withIndex s (\<lambda>idx. and_then (searchEntries empty_entry Q idx) (\<lambda>(i, n, e).
           case e of None \<Rightarrow> Inl ErrEntryNotFound | Some e \<Rightarrow> Inr e)) = first_entry False P (concat cs)"
proof -
  let ?rs = "concat cs" let ?tw = "takeWhile (\<lambda>r. \<not> P r) (concat cs)"
  obtain idx where idx: "s_Index s = Some idx" "ix_holds (s_BaseOffset s) idx (anchors 0 cs)" and ne: "[] \<notin> set cs"
    using h by (auto simp: seg_holds_def)
  have cs: "cs = map (\<lambda>r. [r]) ?rs" using h raw singletons_concat by (auto simp: seg_holds_def seg_bytes_def)
  have an: "anchors 0 cs = entries_of 0 ?rs" using cs anchors_singletons [of 0 ?rs] by simp
  have i: "length (takeWhile (\<lambda>x. \<not> Q x) (anchors 0 cs)) = length ?tw"
    using entries_of_takeWhile [of "\<lambda>x. \<not> Q x" "\<lambda>r. \<not> P r" 0 ?rs] by (simp add: Q an)
  have srch: "searchEntries empty_entry Q idx = Inr (length ?tw, length ?rs,
      if length ?tw < length ?rs then Some ((anchors 0 cs ! length ?tw) \<lparr>e_LeaderEpoch := 0\<rparr>) else None)"
    using ix_holds_search [OF idx(2) epoch anchors_mono [OF ne mono Q], of empty_entry] arg_cong [OF an, of length]
    by (simp add: Let_def i empty_entry_def)
  show ?thesis
  proof (cases "dropWhile (\<lambda>r. \<not> P r) ?rs")
    case Nil
    then have "length ?tw = length ?rs" by (metis append_Nil2 takeWhile_dropWhile_id)
    then show ?thesis by (simp add: withIndex_def idx srch first_entry_def Nil)
  next
    case (Cons r zs)
    have sp: "?rs = ?tw @ r # zs" using Cons by (metis takeWhile_dropWhile_id)
    then have lt: "length ?tw < length ?rs" by (metis length_append length_Cons less_add_Suc1 add_Suc_right)
    have "anchors 0 cs ! length ?tw = entry_of (int (length (frames ?tw))) r"
      unfolding an by (subst sp) (simp add: entries_of_append nth_append)
    then show ?thesis using lt by (simp add: withIndex_def idx srch first_entry_def Cons)
  qed
qed

lemma findEntryBy_first:
  assumes h: "seg_holds C s cs" and live: "s_live s"
    and msg: "\<And>r. frame_ok r \<Longrightarrow> message (sub (frame r) 0 32) = Inr (P r)"
    and epQ: "\<And>x w. Q (x \<lparr>e_LeaderEpoch := w\<rparr>) = Q x" and Q: "\<And>p r. Q (entry_of p r) = P r"
    and epA: "\<And>x w. A (x \<lparr>e_LeaderEpoch := w\<rparr>) = A x" and A: "\<And>p r. A (entry_of p r) = B r"
    and monoP: "sorted_wrt (\<lambda>x y. P x \<longrightarrow> P y) (concat cs)" and monoB: "sorted_wrt (\<lambda>x y. B x \<longrightarrow> B y) (concat cs)"
    and key: "sorted_wrt (\<lambda>x y. P x \<longrightarrow> B y) (concat cs)"
  shows "findEntryBy C (anchorPosition A) message Q s = Some (first_entry (s_blockMode s) P (concat cs))"
proof (cases "s_blockMode s")
  case False
  then show ?thesis using raw_search_first [OF h False epQ Q monoP] live
    by (simp add: findEntryBy_def s_live_def ensureBlocksLoaded_def)
next
  case True
  obtain pre post where pp: "concat cs = pre @ post" "\<forall>r \<in> set pre. \<not> P r"
    and an: "anchorPosition A s = Inr (int (length (frames pre)))"
    using anchorPosition_before [OF h epA A monoB key] by blast
  have op: "open_holds C s (pre @ post)" using h live pp(1) by (auto simp: open_holds_def s_live_def seg_holds_def)
  have ok: "list_all frame_ok (pre @ post)" using h pp(1) by (simp add: seg_holds_def records_ok_def)
  have "(entry_of p r) \<lparr>e_LeaderEpoch := lr_epoch r\<rparr> = entry_of p r" for p r by (simp add: entry_of_def)
  then show ?thesis
    using scanForward_finds [OF op ok, of message P, OF msg] an True live takeWhile_prefix_false [OF pp(2), of post]
    by (simp add: findEntryBy_def s_live_def ensureBlocksLoaded_def first_entry_def pp(1) cong: list.case_cong)
qed

lemma sorted_offsets:
  "records_ok base rs \<Longrightarrow> sorted_wrt (\<lambda>x y. lr_offset x < lr_offset y) rs"
  by (simp add: records_ok_def sorted_wrt_map)

lemma findEntry_first:
  assumes "seg_holds C s cs" and "s_live s"
  shows "findEntry C off s = Some (first_entry (s_blockMode s) (\<lambda>r. lr_offset r \<ge> off) (concat cs))"
proof -
  have srt: "sorted_wrt (\<lambda>x y. lr_offset x < lr_offset y) (concat cs)"
    using assms(1) sorted_offsets by (auto simp: seg_holds_def)
  have "anchorPositionForOffset off = anchorPosition (\<lambda>e. e_Offset e > off)"
    by (simp add: anchorPositionForOffset_def fun_eq_iff)
  then show ?thesis unfolding findEntry_def
    by (simp only:)
      (rule findEntryBy_first [OF assms, where B = "\<lambda>r. lr_offset r > off"];
        (rule sorted_wrt_mono_rel [OF _ srt])?; simp add: header_fields entry_of_def)
qed

lemma findEntryByTimestamp_first:
  assumes "seg_holds C s cs" and "s_live s" and "sorted (map lr_timestamp (concat cs))"
  shows "findEntryByTimestamp C ts s = Some (first_entry (s_blockMode s) (\<lambda>r. lr_timestamp r \<ge> ts) (concat cs))"
proof -
  have srt: "sorted_wrt (\<lambda>x y. lr_timestamp x \<le> lr_timestamp y) (concat cs)"
    using assms(3) by (simp add: sorted_map)
  have "anchorPositionForTimestamp ts = anchorPosition (\<lambda>e. e_Timestamp e \<ge> ts)"
    by (simp add: anchorPositionForTimestamp_def fun_eq_iff)
  then show ?thesis unfolding findEntryByTimestamp_def
    by (simp only:)
      (rule findEntryBy_first [OF assms(1,2), where B = "\<lambda>r. lr_timestamp r \<ge> ts"];
        (rule sorted_wrt_mono_rel [OF _ srt])?; simp add: header_fields entry_of_def)
qed

section \<open>The scanner\<close>

lemma Scan_at:
  assumes "open_holds C s (pre @ r # post)" and "frame_ok r" and "\<not> s_blocksPending s"
  shows "Scan C s (int (length (frames pre))) =
     Inr (frame r, entry_of (int (length (frames pre))) r, int (length (frames (pre @ [r]))))"
proof -
  have h: "readAtLocked C s 32 (int (length (frames pre))) = Inr (sub (frame r) 0 32)"
    by (rule segment_bytes.read_header [OF assms(1)])
  have p: "readAtLocked C s (length (lr_payload r)) (int (length (frames pre)) + 32) = Inr (lr_payload r)"
    using assms(2) by (intro segment_bytes.read_payload [OF assms(1)]) (simp add: frame_ok_def)
  have pos: "s_position s = int (length (frames (pre @ r # post)))"
    using assms(1) by (auto simp: open_holds_def seg_bytes_def)
  have "sub (frame r) 0 32 @ lr_payload r = frame r"
    by (simp add: frame_def frame_fields_def sub_def)
  then show ?thesis using assms(3) header_fields [OF assms(2)]
    by (simp add: Scan_def scanReadAt_def ensureBlocksLoaded_def h p pos)
qed

lemma Scan_end:
  assumes "open_holds C s rs" and "\<not> s_blocksPending s"
  shows "Scan C s (int (length (frames rs))) = Inl EOF"
  using segment_bytes.read_end [OF assms(1)] assms(2) by (simp add: Scan_def scanReadAt_def ensureBlocksLoaded_def)

section \<open>A segment with records\<close>

definition fresh_segment :: "bool \<Rightarrow> segment" where
  "fresh_segment blockMode =
     (emptySegment 100 1000 Snappy) \<lparr>s_blockMode := blockMode, s_Index := Some (index_of 100 [] 40)\<rparr>"

definition sample_logrecs :: "logrec list" where
  "sample_logrecs =
     [\<lparr>lr_offset = 100, lr_timestamp = 7, lr_epoch = 1, lr_payload = [1, 2]\<rparr>,
      \<lparr>lr_offset = 103, lr_timestamp = 9, lr_epoch = 2, lr_payload = [3]\<rparr>]"

definition sample_segment :: "bool \<Rightarrow> segment" where
  "sample_segment blockMode =
     (case WriteMessageSet raw_codecs io_ok (frames sample_logrecs) (entries_of 0 sample_logrecs) (fresh_segment blockMode) of
        Inr (s, _) \<Rightarrow> s
      | Inl _ \<Rightarrow> fresh_segment blockMode)"

lemma fresh_segment_holds: "seg_holds C (fresh_segment blockMode) []"
proof -
  have "ix_holds 100 (index_of 100 [] 40) []" by (rule index_of_holds) simp
  then show ?thesis
    by (simp add: seg_holds_def fresh_segment_def emptySegment_def records_ok_def ends_match_def seg_bytes_def)
qed

lemma sample_logrecs_ok: "records_ok 100 sample_logrecs"
  by (simp add: records_ok_def sample_logrecs_def frame_ok_def)

lemma sample_segment_holds:
  "\<exists>cs. seg_holds raw_codecs (sample_segment blockMode) cs \<and> concat cs = sample_logrecs \<and>
     same_shape (fresh_segment blockMode) (sample_segment blockMode)"
proof -
  have "\<exists>s' cs'. WriteMessageSet raw_codecs io_ok (frames sample_logrecs)
       (entries_of (s_position (fresh_segment blockMode)) sample_logrecs) (fresh_segment blockMode) = Inr (s', None) \<and>
     seg_holds raw_codecs s' cs' \<and> concat cs' = concat [] @ sample_logrecs \<and> same_shape (fresh_segment blockMode) s'"
    by (rule WriteMessageSet_holds [OF fresh_segment_holds])
      (simp_all add: fresh_segment_def emptySegment_def sample_logrecs_ok sample_ok codec_Valid_def Snappy_def Zstd_def,
        simp add: sample_logrecs_def)
  then show ?thesis by (auto simp: sample_segment_def fresh_segment_def emptySegment_def)
qed

lemma sample_segment_live: "s_live (sample_segment blockMode)" "s_blockMode (sample_segment blockMode) = blockMode"
  using sample_segment_holds [of blockMode]
  by (auto simp: same_shape_def s_live_def fresh_segment_def emptySegment_def)

section \<open>Properties\<close>

text \<open>
  C7: writing a message set to a live segment succeeds, and the segment then holds its old records followed
  by the new ones - in its bytes, block table, index and first and last marks - whether it is a raw or a
  block-compressed segment; its next offset is one past the last record written.
\<close>

theorem write_appends_records:
  assumes "seg_holds C s cs" and "s_live s" and "ns \<noteq> []"
    and "records_ok (s_BaseOffset s) (concat cs @ ns)" and "codecs_ok C" and "codec_Valid (s_codec s)"
  shows "\<exists>s' cs'. WriteMessageSet C io_ok (frames ns) (entries_of (s_position s) ns) s = Inr (s', None) \<and>
     seg_holds C s' cs' \<and> concat cs' = concat cs @ ns \<and> s_live s' \<and> NextOffset s' = lr_offset (last ns) + 1"
proof -
  obtain s' cs' where w: "WriteMessageSet C io_ok (frames ns) (entries_of (s_position s) ns) s = Inr (s', None)"
    "seg_holds C s' cs'" "concat cs' = concat cs @ ns" "same_shape s s'"
    using WriteMessageSet_holds [OF assms(1) _ assms(3-6)] assms(2) by (auto simp: s_live_def)
  have "0 \<le> lr_offset (last ns)" using records_ok_nonneg [OF assms(4), of "last ns"] assms(3) by simp
  then have "NextOffset s' = lr_offset (last ns) + 1"
    using w(2,3) assms(3) by (auto simp: seg_holds_def ends_match_def NextOffset_def)
  then show ?thesis using w assms(2) by (auto simp: same_shape_def s_live_def)
qed

theorem write_appends_records_witness:
  "\<exists>s' cs'. WriteMessageSet raw_codecs io_ok (frames sample_logrecs) (entries_of 0 sample_logrecs) (fresh_segment True)
       = Inr (s', None) \<and> seg_holds raw_codecs s' cs' \<and> concat cs' = sample_logrecs \<and> NextOffset s' = 104"
proof -
  have "sample_logrecs \<noteq> []" "lr_offset (last sample_logrecs) = 103" by (simp_all add: sample_logrecs_def)
  then show ?thesis
    using write_appends_records [of raw_codecs "fresh_segment True" "[]" sample_logrecs, OF fresh_segment_holds]
      sample_logrecs_ok sample_ok(1)
    by (auto simp: s_live_def fresh_segment_def emptySegment_def codec_Valid_def Snappy_def Zstd_def)
qed

text \<open>
  C37: a block-compressed segment and a raw one holding the same records answer every read alike: a read
  inside the log returns those bytes of the concatenated frames, decompressing whatever blocks it spans, and
  a read that runs past the end returns the end of file.
\<close>

theorem segment_reads_logical_bytes:
  assumes "seg_holds C s cs" and "s_live s" and "0 \<le> off" and "0 < n"
  shows "s_ReadAt C s n off =
     (if off + int n \<le> int (length (frames (concat cs))) then Inr (sub (frames (concat cs)) (nat off) n) else Inl EOF)"
proof -
  have "open_holds C s (concat cs)" using assms(1,2) by (auto simp: open_holds_def seg_holds_def s_live_def)
  then show ?thesis
    using segment_bytes.read_inside [of C s "concat cs" off n] segment_bytes.read_past [of C s "concat cs" off n] assms
    by (simp add: s_ReadAt_def ensureBlocksLoaded_def s_live_def)
qed

theorem segment_reads_logical_bytes_witness:
  "s_ReadAt raw_codecs (sample_segment True) 2 32 = Inr [1, 2] \<and> s_ReadAt raw_codecs (sample_segment False) 2 32 = Inr [1, 2]"
proof -
  have "s_ReadAt raw_codecs (sample_segment b) 2 32 = Inr [1, 2]" for b
  proof -
    obtain cs where "seg_holds raw_codecs (sample_segment b) cs" "concat cs = sample_logrecs"
      using sample_segment_holds by blast
    then show ?thesis
      using segment_reads_logical_bytes [of raw_codecs "sample_segment b" cs 32 2, OF _ sample_segment_live(1)]
      by (simp add: sample_logrecs_def sub_def frame_def)
  qed
  then show ?thesis by simp
qed

text \<open>
  C8: \<^verbatim>\<open>findEntry\<close> terminates and returns the entry - offset, timestamp, position and size - of the first
  record whose offset is at least the one asked for, and \<^verbatim>\<open>ErrEntryNotFound\<close> when there is none; the
  anchor-and-scan of a block segment agrees with the index search of a raw one.
\<close>

theorem findEntry_returns_first:
  assumes "seg_holds C s cs" and "s_live s"
  shows "findEntry C off s = Some (first_entry (s_blockMode s) (\<lambda>r. lr_offset r \<ge> off) (concat cs))"
  using assms by (rule findEntry_first)

theorem findEntry_returns_first_witness:
  "findEntry raw_codecs 101 (sample_segment True) =
     Some (Inr \<lparr>e_Offset = 103, e_Timestamp = 9, e_LeaderEpoch = 2, e_Position = 34, e_Size = 33\<rparr>)"
proof -
  obtain cs where "seg_holds raw_codecs (sample_segment True) cs" "concat cs = sample_logrecs"
    using sample_segment_holds by blast
  then show ?thesis
    using findEntry_returns_first [of raw_codecs "sample_segment True" cs 101, OF _ sample_segment_live(1)]
    by (simp add: sample_segment_live(2) first_entry_def sample_logrecs_def entry_of_def)
qed

text \<open>
  When timestamps do not decrease along the segment, \<^verbatim>\<open>findEntryByTimestamp\<close> terminates with the first
  record written at or after the time asked for, in both kinds of segment.
\<close>

theorem findEntryByTimestamp_returns_first:
  assumes "seg_holds C s cs" and "s_live s" and "sorted (map lr_timestamp (concat cs))"
  shows "findEntryByTimestamp C ts s = Some (first_entry (s_blockMode s) (\<lambda>r. lr_timestamp r \<ge> ts) (concat cs))"
  using assms by (rule findEntryByTimestamp_first)

theorem findEntryByTimestamp_returns_first_witness:
  "findEntryByTimestamp raw_codecs 8 (sample_segment False) =
     Some (Inr \<lparr>e_Offset = 103, e_Timestamp = 9, e_LeaderEpoch = 0, e_Position = 34, e_Size = 33\<rparr>) \<and>
   findEntryByTimestamp raw_codecs 10 (sample_segment True) = Some (Inl ErrEntryNotFound)"
proof -
  obtain cs ds where "seg_holds raw_codecs (sample_segment False) cs" "concat cs = sample_logrecs"
    "seg_holds raw_codecs (sample_segment True) ds" "concat ds = sample_logrecs"
    using sample_segment_holds [of True] sample_segment_holds [of False] by blast
  moreover have "sorted (map lr_timestamp sample_logrecs)" by (simp add: sample_logrecs_def)
  ultimately show ?thesis
    using findEntryByTimestamp_returns_first [of raw_codecs "sample_segment False" cs 8, OF _ sample_segment_live(1)]
      findEntryByTimestamp_returns_first [of raw_codecs "sample_segment True" ds 10, OF _ sample_segment_live(1)]
    by (simp add: sample_segment_live(2) first_entry_def sample_logrecs_def entry_of_def)
qed

text \<open>
  The scanner walks the records of a segment one by one: at the start of a record it returns that
  record's frame and entry and moves to the start of the next, and after the last it returns the end of file.
\<close>

theorem Scan_walks_records:
  assumes "seg_holds C s cs" and "s_live s" and "concat cs = pre @ post"
  shows "Scan C s (int (length (frames pre))) =
     (case post of
        [] \<Rightarrow> Inl EOF
      | r # _ \<Rightarrow> Inr (frame r, entry_of (int (length (frames pre))) r, int (length (frames (pre @ [r])))))"
proof -
  have op: "open_holds C s (pre @ post)" "\<not> s_blocksPending s"
    using assms by (auto simp: open_holds_def seg_holds_def s_live_def)
  have "list_all frame_ok (pre @ post)" using assms(1,3) by (simp add: seg_holds_def records_ok_def)
  then show ?thesis using op Scan_at [of C s pre] Scan_end [of C s pre] by (cases post) auto
qed

theorem Scan_walks_records_witness:
  "Scan raw_codecs (sample_segment True) 34 = Inr (frame (sample_logrecs ! 1), entry_of 34 (sample_logrecs ! 1), 67) \<and>
   Scan raw_codecs (sample_segment True) 67 = Inl EOF"
proof -
  obtain cs where "seg_holds raw_codecs (sample_segment True) cs" "concat cs = sample_logrecs"
    using sample_segment_holds by blast
  then show ?thesis
    using Scan_walks_records [of raw_codecs "sample_segment True" cs "[sample_logrecs ! 0]" "[sample_logrecs ! 1]",
        OF _ sample_segment_live(1)]
      Scan_walks_records [of raw_codecs "sample_segment True" cs sample_logrecs "[]", OF _ sample_segment_live(1)]
    by (simp add: sample_logrecs_def)
qed

text \<open>
  C28: a write that fails part way leaves the bytes it wrote in a raw segment's file but not its position,
  and the next write goes to the end of the file: the segment then claims the new records at a position
  where the file has the leftover bytes.
\<close>

theorem failed_write_displaces_next:
  assumes "seg_holds C s cs" and "s_live s" and "\<not> s_blockMode s" and "es \<noteq> []" and "ns \<noteq> []"
    and "records_ok (s_BaseOffset s) (concat cs @ ns)"
  shows "\<exists>s1 s2. WriteMessageSet C (io_ok \<lparr>io_write := Some k\<rparr>) p es s = Inr (s1, Some IOError) \<and>
     WriteMessageSet C io_ok (frames ns) (entries_of (s_position s1) ns) s1 = Inr (s2, None) \<and>
     s_position s1 = s_position s \<and> s_position s2 = s_position s + int (length (frames ns)) \<and>
     s_backing s2 = frames (concat cs) @ take k p @ frames ns"
proof -
  let ?s1 = "s \<lparr>s_dirtyData := True, s_dirtyIndex := True, s_backing := s_backing s @ take k p\<rparr>"
  let ?b = "frames (concat cs)"
  have bk: "s_backing s = ?b" using assms(1,3) by (simp add: seg_holds_def seg_bytes_def)
  have 1: "WriteMessageSet C (io_ok \<lparr>io_write := Some k\<rparr>) p es s = Inr (?s1, Some IOError)"
    using assms(2-4) by (simp add: WriteMessageSet_def s_write_def backing_Write_def s_live_def)
  have h: "seg_holds C (?s1 \<lparr>s_backing := ?b\<rparr>) cs"
    using assms(1) bk by (simp add: seg_holds_def ends_match_def seg_bytes_def decodes_to_def assms(3))
  obtain s2 where 2: "WriteMessageSet C io_ok (frames ns) (entries_of (s_position ?s1) ns) ?s1 = Inr (s2, None)"
    and h2: "seg_holds C (s2 \<lparr>s_backing := ?b @ frames ns\<rparr>) (cs @ map (\<lambda>r. [r]) ns)"
    and b2: "s_backing s2 = s_backing ?s1 @ frames ns"
    using WriteMessageSet_raw_any [OF h, of ns] assms(2,3,5,6) by (auto simp: s_live_def)
  have "s_position s2 = s_position s + int (length (frames ns))"
    using h2 assms(1) by (simp add: seg_holds_def seg_bytes_def concat_map_singleton)
  then show ?thesis using 1 2 b2 bk by (intro exI [of _ ?s1] exI [of _ s2]) simp
qed

theorem failed_write_displaces_next_witness:
  "\<exists>s1 s2. WriteMessageSet raw_codecs (io_ok \<lparr>io_write := Some 3\<rparr>) [9, 8, 7, 6] [empty_entry] (fresh_segment False)
       = Inr (s1, Some IOError) \<and>
     WriteMessageSet raw_codecs io_ok (frames sample_logrecs) (entries_of 0 sample_logrecs) s1 = Inr (s2, None) \<and>
     s_position s2 = 67 \<and> length (s_backing s2) = 70 \<and> take 3 (s_backing s2) = [9, 8, 7]"
proof -
  have "sample_logrecs \<noteq> []" "length (frames sample_logrecs) = 67" by (simp_all add: sample_logrecs_def)
  then show ?thesis
    using failed_write_displaces_next [of raw_codecs "fresh_segment False" "[]" "[empty_entry]" sample_logrecs 3
        "[9, 8, 7, 6]", OF fresh_segment_holds] sample_logrecs_ok
    by (force simp: s_live_def fresh_segment_def emptySegment_def)
qed

end
