(* ===== verification/Segment_Recovery.thy ===== *)
theory Segment_Recovery
  imports Segment_Search
begin

text \<open>
  \<^verbatim>\<open>segment.go\<close>, opening: a segment found on disk after a clean shutdown or a crash.  \<^verbatim>\<open>initPositions\<close> finds
  the log's extent (walking the blocks, cutting a torn one off), \<^verbatim>\<open>setupIndexKnownEnd\<close> opens the index and
  rebuilds one that does not describe the log, and \<^verbatim>\<open>reconcileIndexTail\<close> indexes what the index lacks and
  drops a torn last frame.

  The walks over frames are partial functions, since a size field of \<open>-32\<close> keeps the source's loops where they
  are.  Refusals of the operating system are arguments: \<open>size_ok\<close>, \<open>cut_ok\<close> and \<open>sync_ok\<close> for the log file, an
  \<open>io\<close> for the index.
\<close>

section \<open>Positions\<close>

definition discardTornTail :: "bool \<Rightarrow> bool \<Rightarrow> int \<Rightarrow> segment \<Rightarrow> segment result" where
  "discardTornTail cut_ok sync_ok keep s =
     (if isOffloaded s then Inr s
      else if \<not> cut_ok then Inl IOError
      else if \<not> sync_ok then Inl IOError
      else Inr (s \<lparr>s_backing := file_truncate keep (s_backing s)\<rparr>))"

text \<open>\<^verbatim>\<open>scanV3Block\<close>: \<open>None\<close> when the block is cut short.\<close>

definition scanV3Block :: "codecs \<Rightarrow> bytes \<Rightarrow> int \<Rightarrow> int \<Rightarrow> int \<Rightarrow> blockRef option result" where
  "scanV3Block C log phys logical sz =
     (if sz - phys < v3_HeaderLen then Inr None
      else and_then (file_ReadAt log (nat v3_HeaderLen) phys) (\<lambda>hdr.
           and_then (DecodeHeader hdr) (\<lambda>h.
             let pl = v3_HeaderLen + int (unat (h_CompressedLen h)) in
             if phys + pl > sz then Inr None
             else and_then (file_ReadAt log (nat pl) phys) (\<lambda>raw.
                  and_then (decodeV3Block C raw) (\<lambda>framing.
                    Inr (Some \<lparr>logicalStart = logical, logicalLen = int (length framing), physStart = phys,
                       physLen = pl, b_codec = h_Codec h, b_records = int (unat (h_Records h)),
                       b_version = v3_Version, b_flags = h_Flags h\<rparr>))))))"

text \<open>One turn of the walk of \<^verbatim>\<open>scanBlocks\<close>: the block at \<open>phys\<close>, or \<open>None\<close> when what is left is torn.\<close>

definition scan_block :: "codecs \<Rightarrow> bytes \<Rightarrow> int \<Rightarrow> int \<Rightarrow> int \<Rightarrow> blockRef option result" where
  "scan_block C log sz phys logical =
     (if sz - phys < blockHeaderLen then Inr None
      else and_then (file_ReadAt log 15 phys) (\<lambda>hdr.
           and_then (go_index hdr 0) (\<lambda>magic. and_then (go_index hdr 1) (\<lambda>version.
             if magic = blockMagic \<and> version = v3_Version then scanV3Block C log phys logical sz
             else and_then (parseBlockHeader hdr) (\<lambda>(codec, uLen, cLen, records).
               let pl = blockHeaderLen + int (unat cLen) in
               if phys + pl > sz then Inr None
               else Inr (Some \<lparr>logicalStart = logical, logicalLen = int (unat uLen), physStart = phys,
                    physLen = pl, b_codec = codec, b_records = int (unat records),
                    b_version = BlockFormatVersion, b_flags = 0\<rparr>))))))"

lemma scan_block_advances: "scan_block C log sz phys logical = Inr (Some b) \<Longrightarrow> 0 < physLen b"
  by (auto simp: scan_block_def scanV3Block_def and_then_Inr_iff Let_def add_pos_nonneg split: if_splits)

function scan_loop :: "codecs \<Rightarrow> bytes \<Rightarrow> int \<Rightarrow> int \<Rightarrow> int \<Rightarrow> blockRef list \<Rightarrow> (blockRef list \<times> int \<times> int) result" where
  "scan_loop C log sz phys logical blocks =
     (if phys \<ge> sz then Inr (blocks, phys, logical)
      else (case scan_block C log sz phys logical of
          Inl e \<Rightarrow> Inl e
        | Inr None \<Rightarrow> Inr (blocks, phys, logical)
        | Inr (Some b) \<Rightarrow> scan_loop C log sz (phys + physLen b) (logical + logicalLen b) (blocks @ [b])))"
  by pat_completeness auto
termination
  by (relation "measure (\<lambda>(_, _, sz, phys, _, _). nat (sz - phys))") (auto dest: scan_block_advances)

declare scan_loop.simps [simp del]

definition scanBlocks :: "codecs \<Rightarrow> bool \<Rightarrow> bool \<Rightarrow> int \<Rightarrow> segment \<Rightarrow> segment result" where
  "scanBlocks C cut_ok sync_ok sz s =
     and_then (scan_loop C (s_backing s) sz 0 0 (s_blocks s)) (\<lambda>(blocks, phys, logical).
       let s = s \<lparr>s_blocks := blocks\<rparr> in
       and_then (if phys \<noteq> sz
                 then and_then (discardTornTail cut_ok sync_ok phys s) (\<lambda>s. Inr (s \<lparr>s_droppedTornTail := True\<rparr>))
                 else Inr s) (\<lambda>s.
         Inr (s \<lparr>s_position := logical, s_physPosition := phys, s_blocksWalked := int (length blocks)\<rparr>)))"

definition initPositions :: "codecs \<Rightarrow> bool \<Rightarrow> bool \<Rightarrow> bool \<Rightarrow> segment \<Rightarrow> segment result" where
  "initPositions C size_ok cut_ok sync_ok s =
     (if \<not> size_ok then Inl IOError
      else let sz = int (length (s_backing s)); s = s \<lparr>s_physPosition := sz, s_blocks := []\<rparr> in
        if sz = 0
        then Inr (s \<lparr>s_blockMode := (s_codec s \<noteq> None_codec \<or> s_format s = v3_Version), s_position := 0\<rparr>)
        else and_then (file_ReadAt (s_backing s) 1 0) (\<lambda>magic.
          if magic = [blockMagic] then
            let s = s \<lparr>s_blockMode := True\<rparr> in
            (case loadLocalBlockTable (s_blocksFile s) sz of
               Some (blocks, logical) \<Rightarrow> Inr (s \<lparr>s_blocks := blocks, s_position := logical\<rparr>)
             | None \<Rightarrow> scanBlocks C cut_ok sync_ok sz s)
          else Inr (s \<lparr>s_blockMode := False, s_position := sz\<rparr>)))"

section \<open>The index over the log\<close>

definition indexOvershootsLog :: "entry \<Rightarrow> segment \<Rightarrow> bool" where
  "indexOvershootsLog lastEnt s \<longleftrightarrow>
     (if s_blockMode s then e_Position lastEnt \<ge> s_position s
      else e_Position lastEnt + e_Size lastEnt > s_position s)"

definition frameOffsetAt :: "codecs \<Rightarrow> segment \<Rightarrow> int \<Rightarrow> int option" where
  "frameOffsetAt C s pos =
     (let hdr = (if s_blockMode s
                 then (case findBlock pos s of
                         None \<Rightarrow> Inl ErrOther
                       | Some blk \<Rightarrow> and_then (decodeBlock C s blk) (\<lambda>data.
                           let at = pos - logicalStart blk in
                           if at < 0 \<or> at + msgSetHeaderLen > int (length data) then Inl ErrOther
                           else Inr (sub data (nat at) 32)))
                 else file_ReadAt (s_backing s) 32 pos) in
      case and_then hdr ms_Offset of Inl _ \<Rightarrow> None | Inr off \<Rightarrow> Some off)"

fun describes_loop :: "codecs \<Rightarrow> segment \<Rightarrow> index \<Rightarrow> nat \<Rightarrow> bool" where
  "describes_loop C s idx 0 = False"
| "describes_loop C s idx (Suc i) =
     (case ReadEntryAtFileOffset empty_entry (int i * entryWidth) idx of
        Inl _ \<Rightarrow> False
      | Inr e \<Rightarrow>
          if e_Position e + e_Size e > s_position s then describes_loop C s idx i
          else frameOffsetAt C s (e_Position e) = Some (e_Offset e))"

definition indexDescribesLog :: "codecs \<Rightarrow> index \<Rightarrow> segment \<Rightarrow> bool" where
  "indexDescribesLog C idx s = describes_loop C s idx (nat (CountEntries idx))"

definition rebuildOverIndex :: "codecs \<Rightarrow> index \<Rightarrow> segment \<Rightarrow> bool" where
  "rebuildOverIndex C idx s \<longleftrightarrow> s_droppedTornTail s \<or> \<not> s_blockMode s \<or> \<not> indexDescribesLog C idx s"

text \<open>The walk of \<^verbatim>\<open>lastFrameInBlock\<close> over the decoded bytes of one block.\<close>

partial_function (option) last_frame_loop :: "bytes \<Rightarrow> int \<Rightarrow> int \<Rightarrow> entry option \<Rightarrow> entry option result option" where
  "last_frame_loop data start pos lst =
     (if pos + msgSetHeaderLen \<le> int (length data)
      then (case and_then (go_from data pos) (header_entry (start + pos)) of
          Inl e \<Rightarrow> Some (Inl e)
        | Inr (e, sz) \<Rightarrow> last_frame_loop data start (pos + (msgSetHeaderLen + sz)) (Some e))
      else Some (Inr lst))"

definition lastFrameInBlock :: "codecs \<Rightarrow> int \<Rightarrow> segment \<Rightarrow> entry result option" where
  "lastFrameInBlock C start s =
     (case findBlock start s of
        None \<Rightarrow> Some (Inl ErrIndexCorrupt)
      | Some blk \<Rightarrow>
          (case decodeBlock C s blk of
             Inl e \<Rightarrow> Some (Inl e)
           | Inr data \<Rightarrow>
               (case last_frame_loop data (logicalStart blk) (start - logicalStart blk) None of
                  None \<Rightarrow> None
                | Some (Inl e) \<Rightarrow> Some (Inl e)
                | Some (Inr None) \<Rightarrow> Some (Inl ErrIndexCorrupt)
                | Some (Inr (Some e)) \<Rightarrow> Some (Inr e))))"

section \<open>Indexing what the index lacks\<close>

definition mark_first :: "entry \<Rightarrow> segment \<Rightarrow> segment" where
  "mark_first e s =
     (if s_firstOffset s = - 1 then s \<lparr>s_firstOffset := e_Offset e, s_firstWriteTime := e_Timestamp e\<rparr> else s)"

definition mark_last :: "entry \<Rightarrow> segment \<Rightarrow> segment" where
  "mark_last e s = s \<lparr>s_lastOffset := e_Offset e, s_lastWriteTime := e_Timestamp e\<rparr>"

text \<open>One index entry more; an error of the index is the caller's error.\<close>

definition index_one :: "io \<Rightarrow> entry \<Rightarrow> segment \<Rightarrow> segment result" where
  "index_one w e s =
     and_then (index_entries w [e] s) (\<lambda>(s, er). case er of None \<Rightarrow> Inr s | Some er \<Rightarrow> Inl er)"

text \<open>The walk of \<^verbatim>\<open>reconcileIndexTailRaw\<close>: the segment, where the walk stopped, and whether the frame there is torn.\<close>

partial_function (option) raw_loop :: "io \<Rightarrow> int \<Rightarrow> segment \<Rightarrow> (segment \<times> int \<times> bool) result option" where
  "raw_loop w startPos s =
     (if startPos \<ge> s_position s then Some (Inr (s, startPos, False))
      else if startPos + msgSetHeaderLen > s_position s then Some (Inr (s, startPos, True))
      else (case and_then (file_ReadAt (s_backing s) 32 startPos) (header_entry startPos) of
          Inl e \<Rightarrow> Some (Inl e)
        | Inr (e, sz) \<Rightarrow>
            if startPos + (msgSetHeaderLen + sz) > s_position s then Some (Inr (s, startPos, True))
            else (case index_one w e s of
                Inl er \<Rightarrow> Some (Inl er)
              | Inr s \<Rightarrow> raw_loop w (startPos + (msgSetHeaderLen + sz)) (mark_last e (mark_first e s)))))"

text \<open>Where the walk starts: after the frame the last index entry describes.\<close>

definition raw_start :: "index \<Rightarrow> int result" where
  "raw_start idx =
     (let n = CountEntries idx in
      if n > 0 then and_then (ReadEntryAtFileOffset empty_entry ((n - 1) * entryWidth) idx) (\<lambda>lst.
        Inr (e_Position lst + e_Size lst))
      else Inr 0)"

definition raw_finish :: "bool \<Rightarrow> bool \<Rightarrow> int \<Rightarrow> segment \<times> int \<times> bool \<Rightarrow> segment result" where
  "raw_finish cut_ok sync_ok committedThrough = (\<lambda>(s, startPos, torn).
     if \<not> torn then Inr s
     else if committedThrough \<ge> s_BaseOffset s \<and> s_lastOffset s < committedThrough then Inl ErrOther
     else and_then (discardTornTail cut_ok sync_ok startPos s) (\<lambda>s.
       Inr (s \<lparr>s_position := startPos, s_physPosition := startPos\<rparr>)))"

definition reconcileIndexTailRaw :: "io \<Rightarrow> bool \<Rightarrow> bool \<Rightarrow> int \<Rightarrow> index \<Rightarrow> segment \<Rightarrow> segment result option" where
  "reconcileIndexTailRaw w cut_ok sync_ok committedThrough idx s =
     (case raw_start idx of
        Inl e \<Rightarrow> Some (Inl e)
      | Inr startPos \<Rightarrow>
          (case raw_loop w startPos s of
             None \<Rightarrow> None
           | Some (Inl e) \<Rightarrow> Some (Inl e)
           | Some (Inr r) \<Rightarrow> Some (raw_finish cut_ok sync_ok committedThrough r)))"

text \<open>Anchors for the blocks from the \<open>i\<close>-th on; a block too short for a frame ends the walk.\<close>

fun blocks_loop :: "codecs \<Rightarrow> io \<Rightarrow> blockRef list \<Rightarrow> segment \<Rightarrow> segment result" where
  "blocks_loop C w [] s = Inr s"
| "blocks_loop C w (blk # blks) s =
     and_then (decodeBlock C s blk) (\<lambda>data.
       if int (length data) < msgSetHeaderLen then Inr s
       else and_then (header_entry (logicalStart blk) data) (\<lambda>(anchor, _).
            and_then (index_one w anchor s) (\<lambda>s. blocks_loop C w blks (mark_first anchor s))))"

definition reconcileIndexTailBlocks :: "codecs \<Rightarrow> io \<Rightarrow> index \<Rightarrow> segment \<Rightarrow> segment result option" where
  "reconcileIndexTailBlocks C w idx s =
     (let anchored = nat (CountEntries idx) in
      if anchored \<ge> length (s_blocks s) then Some (Inr s)
      else (case blocks_loop C w (drop anchored (s_blocks s)) s of
          Inl e \<Rightarrow> Some (Inl e)
        | Inr s \<Rightarrow>
            (case lastFrameInBlock C (logicalStart (last (s_blocks s))) s of
               None \<Rightarrow> None
             | Some (Inl e) \<Rightarrow> Some (Inl e)
             | Some (Inr e) \<Rightarrow> Some (Inr (mark_last e s)))))"

definition reconcileIndexTail :: "codecs \<Rightarrow> io \<Rightarrow> bool \<Rightarrow> bool \<Rightarrow> int \<Rightarrow> segment \<Rightarrow> segment result option" where
  "reconcileIndexTail C w cut_ok sync_ok committedThrough s =
     (case s_Index s of
        None \<Rightarrow> Some (Inr s)
      | Some idx \<Rightarrow>
          (case (if s_blockMode s then reconcileIndexTailBlocks C w idx s
                 else reconcileIndexTailRaw w cut_ok sync_ok committedThrough idx s) of
             None \<Rightarrow> None
           | Some (Inl e) \<Rightarrow> Some (Inl e)
           | Some (Inr s) \<Rightarrow>
               Some (Inr (if map_option CountEntries (s_Index s) = Some (CountEntries idx)
                          then s \<lparr>s_dirtyIndex := False\<rparr> else s))))"

definition rebuildIndexFromLog :: "codecs \<Rightarrow> io \<Rightarrow> bool \<Rightarrow> bool \<Rightarrow> index \<Rightarrow> segment \<Rightarrow> segment result option" where
  "rebuildIndexFromLog C w cut_ok sync_ok idx s =
     (case ix_reset idx of
        Inl e \<Rightarrow> Some (Inl e)
      | Inr idx \<Rightarrow> reconcileIndexTail C w cut_ok sync_ok (- 1)
          (s \<lparr>s_Index := Some idx, s_firstOffset := - 1, s_lastOffset := - 1,
              s_firstWriteTime := 0, s_lastWriteTime := 0\<rparr>))"

section \<open>Opening\<close>

record segmentEnd =
  se_Offset :: int
  se_WriteTime :: int

text \<open>The last marks: what the caller knows, the last frame of the last indexed block, or the last entry.\<close>

definition end_marks :: "codecs \<Rightarrow> segmentEnd option \<Rightarrow> entry \<Rightarrow> segment \<Rightarrow> segment result option" where
  "end_marks C known lastEntry s =
     (if s_blockMode s then
        (case known of
           Some en \<Rightarrow> Some (Inr (s \<lparr>s_lastOffset := se_Offset en, s_lastWriteTime := se_WriteTime en\<rparr>))
         | None \<Rightarrow>
             (case lastFrameInBlock C (e_Position lastEntry) s of
                None \<Rightarrow> None
              | Some (Inl e) \<Rightarrow> Some (Inl e)
              | Some (Inr e) \<Rightarrow> Some (Inr (mark_last e s))))
      else Some (Inr (mark_last lastEntry s)))"

text \<open>\<open>idxfile\<close> is the index file as found on disk, empty when it was just created.\<close>

definition setupIndexKnownEnd ::
  "codecs \<Rightarrow> io \<Rightarrow> bool \<Rightarrow> bool \<Rightarrow> segmentEnd option \<Rightarrow> bytes \<Rightarrow> segment \<Rightarrow> segment result option" where
  "setupIndexKnownEnd C w cut_ok sync_ok known idxfile s =
     (case and_then (ensureBlocksLoaded s) (\<lambda>s.
           and_then (newIndex (io_trunc w) (io_map w) 0 (s_BaseOffset s) idxfile) (\<lambda>idx.
           and_then (InitializePosition idx) (\<lambda>(idx, lastEntry). Inr (s \<lparr>s_Index := Some idx\<rparr>, idx, lastEntry)))) of
        Inl e \<Rightarrow> Some (Inl e)
      | Inr (s, idx, None) \<Rightarrow> Some (Inr s)
      | Inr (s, idx, Some lastEntry) \<Rightarrow>
          if indexOvershootsLog lastEntry s \<and> rebuildOverIndex C idx s
          then rebuildIndexFromLog C w cut_ok sync_ok idx s
          else (case ReadEntryAtFileOffset empty_entry 0 idx of
              Inl e \<Rightarrow> Some (Inl e)
            | Inr firstEntry \<Rightarrow>
                end_marks C known lastEntry
                  (s \<lparr>s_firstOffset := e_Offset firstEntry, s_firstWriteTime := e_Timestamp firstEntry\<rparr>)))"

text \<open>
  \<^verbatim>\<open>newSegmentWith\<close> over the files found: the log, its block table if there is one, and the index.  A walked
  block table is written out; failing to is ignored.
\<close>

definition newSegmentWith ::
  "codecs \<Rightarrow> io \<Rightarrow> bool \<Rightarrow> bool \<Rightarrow> bool \<Rightarrow> bool \<Rightarrow> int \<Rightarrow> int \<Rightarrow> bool \<Rightarrow> Codec \<Rightarrow> byte \<Rightarrow>
     bytes option \<Rightarrow> bytes option \<Rightarrow> bytes \<Rightarrow> segment result option" where
  "newSegmentWith C w size_ok cut_ok sync_ok table_ok baseOffset maxBytes isNew codec format logfile blocksfile idxfile =
     (if isNew \<and> logfile \<noteq> None then Some (Inl ErrSegmentExists)
      else let s = (emptySegment baseOffset maxBytes codec)
                 \<lparr>s_format := format, s_dirtyData := True, s_dirtyIndex := True,
                  s_backing := (case logfile of None \<Rightarrow> [] | Some b \<Rightarrow> b), s_blocksFile := blocksfile\<rparr> in
        (case initPositions C size_ok cut_ok sync_ok s of
           Inl e \<Rightarrow> Some (Inl e)
         | Inr s \<Rightarrow>
             setupIndexKnownEnd C w cut_ok sync_ok None idxfile
               (if s_blocksWalked s > 0 \<and> table_ok
                then s \<lparr>s_blocksFile := Some (encodeBlockTable (s_blocks s))\<rparr> else s)))"

section \<open>Index steps\<close>

lemma index_one_holds:
  assumes "s_Index s = Some idx" and "ix_holds base idx es" and "entry_fits base e"
  shows "\<exists>idx'. index_one io_ok e s = Inr (s \<lparr>s_Index := Some idx'\<rparr>) \<and> ix_holds base idx' (es @ [e])"
  using index_entries_holds [OF assms(1,2), of "[e]"] assms(3) by (auto simp: index_one_def)

lemma ix_holds_reset:
  assumes "ix_holds base idx es"
  shows "\<exists>idx'. ix_reset idx = Inr idx' \<and> ix_holds base idx' []"
proof -
  let ?n = "20 * length es"
  have h: "ix_healthy idx" "ix_clean idx" "ix_position idx = int ?n" "ix_baseOffset idx = base"
    using assms by (simp_all add: ix_holds_def)
  have le: "?n \<le> length (ix_file idx)" "min (int ?n) (mmap_len idx) = int ?n"
    using h by (auto simp: ix_healthy_def ix_inv_def)
  let ?i = "idx \<lparr>ix_file := replicate ?n 0 @ drop ?n (ix_file idx), ix_position := 0\<rparr>"
  have "ix_reset idx = Inr ?i" using h le by (simp add: ix_reset_def ix_healthy_def Let_def nat_mult_distrib)
  moreover have "ix_holds base ?i []"
    using h le by (auto simp: ix_holds_def ix_healthy_def ix_inv_def ix_clean_def mmap_len_def entries_bytes_def nat_mult_distrib)
  ultimately show ?thesis by blast
qed

section \<open>Recovering a raw segment\<close>

text \<open>A raw segment being opened: its index covers \<open>pre\<close>, its file has \<open>rs\<close> and then torn bytes.\<close>

definition raw_open :: "segment \<Rightarrow> logrec list \<Rightarrow> logrec list \<Rightarrow> bytes \<Rightarrow> bool" where
  "raw_open s pre rs torn \<longleftrightarrow> \<not> s_blockMode s \<and> s_live s \<and> \<not> isOffloaded s \<and> s_backing s = frames rs @ torn \<and>
     s_position s = int (length (s_backing s)) \<and> ends_match s pre \<and>
     (\<exists>idx. s_Index s = Some idx \<and> ix_holds (s_BaseOffset s) idx (entries_of 0 pre))"

lemma raw_open_holds:
  assumes "raw_open s rs rs []" and "records_ok (s_BaseOffset s) rs"
  shows "seg_holds C s (map (\<lambda>r. [r]) rs)"
  using assms by (auto simp: raw_open_def seg_holds_def seg_bytes_def concat_map_singleton list_all_iff anchors_singletons)

lemma ends_match_mark:
  assumes "ends_match s pre" and "records_ok base (pre @ [r])"
  shows "ends_match (mark_last (entry_of p r) (mark_first (entry_of p r) s)) (pre @ [r])"
proof -
  have "0 \<le> lr_offset x" if "x \<in> set (pre @ [r])" for x using records_ok_nonneg [OF assms(2) that] .
  then have "pre \<noteq> [] \<Longrightarrow> lr_offset (hd pre) \<noteq> - 1" by (metis Un_iff hd_in_set set_append neg_0_le_iff_le not_one_le_zero)
  then show ?thesis using assms(1) by (cases "pre = []") (auto simp: ends_match_def mark_first_def mark_last_def entry_of_def)
qed

lemma raw_header_at:
  "file_ReadAt (frames pre @ frame r @ z) 32 (int (length (frames pre))) = Inr (sub (frame r) 0 32)"
  by (simp add: file_ReadAt_def sub_append_right sub_append_left)

lemma raw_header_torn:
  assumes "32 \<le> k"
  shows "file_ReadAt (frames pre @ take k (frame r)) 32 (int (length (frames pre))) = Inr (sub (frame r) 0 32)"
  using assms by (simp add: file_ReadAt_def sub_append_right) (simp add: sub_def min_def)

lemma records_ok_prefix: "records_ok base (rs @ zs) \<Longrightarrow> records_ok base rs"
  by (auto simp: records_ok_def sorted_wrt_append)

lemma raw_loop_walk:
  assumes "raw_open s pre (pre @ post) (take k (frame r))" and "records_ok (s_BaseOffset s) (pre @ post)"
    and "frame_ok r" and "k < length (frame r)"
  shows "\<exists>s'. raw_loop io_ok (int (length (frames pre))) s = Some (Inr (s', int (length (frames (pre @ post))), 0 < k)) \<and>
     raw_open s' (pre @ post) (pre @ post) (take k (frame r)) \<and> s_BaseOffset s' = s_BaseOffset s"
  using assms(1,2)
proof (induction post arbitrary: pre s)
  case Nil
  have pos: "s_position s = int (length (frames pre) + k)" and bk: "s_backing s = frames pre @ take k (frame r)"
    using Nil.prems(1) assms(4) by (simp_all add: raw_open_def)
  have "raw_loop io_ok (int (length (frames pre))) s = Some (Inr (s, int (length (frames pre)), 0 < k))"
  proof (cases "k < 32")
    case True
    then show ?thesis by (subst raw_loop.simps) (simp add: pos)
  next
    case False
    then show ?thesis using raw_header_torn [of k pre r] header_fields(3) [OF assms(3)] assms(4)
      by (subst raw_loop.simps) (simp add: pos bk)
  qed
  then show ?case using Nil.prems(1) by auto
next
  case (Cons x post)
  let ?p = "int (length (frames pre))" let ?e = "entry_of ?p x"
  have x: "frame_ok x" using Cons.prems(2) by (simp add: records_ok_def)
  have pos: "s_position s = int (length (frames (pre @ x # post)) + k)"
    and bk: "s_backing s = frames pre @ frame x @ frames post @ take k (frame r)" and ends: "ends_match s pre"
    using Cons.prems(1) assms(4) by (simp_all add: raw_open_def)
  obtain idx where idx: "s_Index s = Some idx" "ix_holds (s_BaseOffset s) idx (entries_of 0 pre)"
    using Cons.prems(1) by (auto simp: raw_open_def)
  obtain idx' where i: "index_one io_ok ?e s = Inr (s \<lparr>s_Index := Some idx'\<rparr>)"
    and h: "ix_holds (s_BaseOffset s) idx' (entries_of 0 pre @ [?e])"
    using index_one_holds [OF idx entry_of_fits [OF Cons.prems(2)]] by blast
  let ?s = "mark_last ?e (mark_first ?e (s \<lparr>s_Index := Some idx'\<rparr>))"
  have step: "raw_loop io_ok ?p s = raw_loop io_ok (int (length (frames (pre @ [x])))) ?s"
    using header_fields(3) [OF x] raw_header_at [of pre x]
    by (subst raw_loop.simps) (simp add: pos bk i)
  have "ends_match (s \<lparr>s_Index := Some idx'\<rparr>) pre" using ends by (simp add: ends_match_def)
  moreover have "records_ok (s_BaseOffset s) (pre @ [x])" using records_ok_prefix [of _ "pre @ [x]" post] Cons.prems(2) by simp
  ultimately have "ends_match ?s (pre @ [x])" by (rule ends_match_mark)
  moreover have frame: "s_blockMode ?s = s_blockMode s \<and> s_live ?s = s_live s \<and> isOffloaded ?s = isOffloaded s \<and>
      s_backing ?s = s_backing s \<and> s_position ?s = s_position s \<and> s_BaseOffset ?s = s_BaseOffset s \<and> s_Index ?s = Some idx'"
    by (simp add: mark_last_def mark_first_def s_live_def isOffloaded_def)
  ultimately have "raw_open ?s (pre @ [x]) ((pre @ [x]) @ post) (take k (frame r))"
    using Cons.prems(1) h by (simp add: raw_open_def entries_of_append)
  then show ?case using Cons.IH [of ?s "pre @ [x]"] Cons.prems(2) frame by (simp only: step append_assoc) simp
qed

lemma entries_of_last:
  "rs \<noteq> [] \<Longrightarrow> last (entries_of 0 rs) = entry_of (int (length (frames (butlast rs)))) (last rs)"
  using entries_of_append [of 0 "butlast rs" "[last rs]"] by simp

lemma last_entry_end:
  "rs \<noteq> [] \<Longrightarrow> int (length (frames (butlast rs))) + int (length (frame (last rs))) = int (length (frames rs))"
proof -
  assume "rs \<noteq> []"
  then have "length (frames (butlast rs @ [last rs])) = length (frames rs)" by (simp del: frames_simps)
  then show ?thesis by simp
qed

lemma offset_le_last:
  assumes "records_ok base rs" and "x \<in> set rs"
  shows "lr_offset x \<le> lr_offset (last rs)"
proof -
  have "rs \<noteq> []" using assms(2) by auto
  then have sp: "rs = butlast rs @ [last rs]" by simp
  then have "x \<in> set (butlast rs) \<or> x = last rs" using assms(2) by (metis Un_iff empty_iff empty_set set_ConsD set_append)
  moreover have "sorted_wrt (\<lambda>x y. lr_offset x < lr_offset y) (butlast rs @ [last rs])"
    using sorted_offsets [OF assms(1)] sp by simp
  ultimately show ?thesis by (auto simp: sorted_wrt_append)
qed

lemma raw_start_at:
  assumes "ix_holds base idx (entries_of 0 pre)"
  shows "raw_start idx = Inr (int (length (frames pre)))"
proof (cases "pre = []")
  case True
  then show ?thesis using ix_holds_count [OF assms] by (simp add: raw_start_def)
next
  case False
  let ?k = "length pre - 1"
  have k: "int (length pre) - 1 = int ?k" "?k < length (entries_of 0 pre)" using False by (auto simp: of_nat_diff Suc_le_eq)
  have "entries_of 0 pre ! ?k = entry_of (int (length (frames (butlast pre)))) (last pre)"
    using entries_of_last [OF False] False by (metis k(2) last_conv_nth length_entries_of length_0_conv)
  then show ?thesis
    using ix_holds_count [OF assms] ix_holds_read_file [OF assms k(2), of empty_entry] False last_entry_end [OF False]
    by (simp add: raw_start_def k(1) entry_of_def mult.commute)
qed

lemma cut_torn: "file_truncate (int (length a)) (a @ b) = a"
  by (simp add: file_truncate_def)

lemma reconcile_raw:
  assumes "raw_open s pre (pre @ post) (take k (frame r))" and "records_ok (s_BaseOffset s) (pre @ post)"
    and "frame_ok r" and "k < length (frame r)"
  shows "\<exists>s'. reconcileIndexTail C io_ok True True hw s =
       Some (if 0 < k \<and> s_BaseOffset s \<le> hw \<and> (\<forall>x \<in> set (pre @ post). lr_offset x < hw) then Inl ErrOther else Inr s') \<and>
     raw_open s' (pre @ post) (pre @ post) [] \<and> s_BaseOffset s' = s_BaseOffset s"
proof -
  let ?rs = "pre @ post"
  obtain idx where idx: "s_Index s = Some idx" "ix_holds (s_BaseOffset s) idx (entries_of 0 pre)"
    using assms(1) by (auto simp: raw_open_def)
  obtain s1 where l: "raw_loop io_ok (int (length (frames pre))) s = Some (Inr (s1, int (length (frames ?rs)), 0 < k))"
    and o: "raw_open s1 ?rs ?rs (take k (frame r))" "s_BaseOffset s1 = s_BaseOffset s"
    using raw_loop_walk [OF assms] by blast
  define s2 where "s2 = (if 0 < k then s1 \<lparr>s_backing := frames ?rs, s_position := int (length (frames ?rs)),
      s_physPosition := int (length (frames ?rs))\<rparr> else s1)"
  have o2: "raw_open s2 ?rs ?rs []" "s_BaseOffset s2 = s_BaseOffset s"
    using o by (auto simp: s2_def raw_open_def ends_match_def s_live_def isOffloaded_def)
  have lt: "s_lastOffset s1 < hw \<longleftrightarrow> (\<forall>x \<in> set ?rs. lr_offset x < hw)" if "s_BaseOffset s \<le> hw"
  proof (cases "?rs = []")
    case True
    then show ?thesis using o(1) assms(2) that by (simp add: raw_open_def ends_match_def records_ok_def)
  next
    case False
    then have "s_lastOffset s1 = lr_offset (last ?rs)" using o(1) by (auto simp: raw_open_def ends_match_def)
    then show ?thesis
      using offset_le_last [OF assms(2)] False by (metis last_in_set le_less_trans)
  qed
  have f: "raw_finish True True hw (s1, int (length (frames ?rs)), 0 < k) =
      (if 0 < k \<and> s_BaseOffset s \<le> hw \<and> (\<forall>x \<in> set ?rs. lr_offset x < hw) then Inl ErrOther else Inr s2)"
    using o lt cut_torn [of "frames ?rs"]
    by (auto simp: raw_finish_def s2_def discardTornTail_def raw_open_def)
  let ?s = "if map_option CountEntries (s_Index s2) = Some (CountEntries idx) then s2 \<lparr>s_dirtyIndex := False\<rparr> else s2"
  have "raw_open ?s ?rs ?rs []" "s_BaseOffset ?s = s_BaseOffset s"
    using o2 by (auto simp: raw_open_def ends_match_def s_live_def isOffloaded_def)
  moreover have "\<not> s_blockMode s" using assms(1) by (simp add: raw_open_def)
  moreover have "reconcileIndexTailRaw io_ok True True hw idx s =
      Some (if 0 < k \<and> s_BaseOffset s \<le> hw \<and> (\<forall>x \<in> set ?rs. lr_offset x < hw) then Inl ErrOther else Inr s2)"
    by (simp only: reconcileIndexTailRaw_def raw_start_at [OF idx(2)] l f sum.case option.case)
  ultimately show ?thesis by (intro exI [of _ ?s]) (simp add: reconcileIndexTail_def idx)
qed

section \<open>Opening a raw segment\<close>

text \<open>Offsets are not negative, so a frame never begins with the block magic.\<close>

lemma frame_first_byte:
  assumes "frame_ok r" and "0 \<le> lr_offset r"
  shows "\<exists>b z. frame r = b # z \<and> b \<noteq> blockMagic"
proof -
  have u: "unat (word_of_int (lr_offset r) :: 64 word) < 2 ^ 63"
    using assms sint_word_of_int_64_id [of "lr_offset r"]
    by (simp add: frame_ok_def unat_eq_nat_uint uint_word_of_int nat_less_iff)
  define n where "n = unat (word_of_int (lr_offset r) :: 64 word) div 256 ^ 7"
  have "n < 128" using u unfolding n_def by (intro less_mult_imp_div_less) simp
  then have "unat (word_of_nat n :: byte) = n" by (simp add: unat_of_nat)
  then have "unat (word_of_nat n :: byte) \<noteq> unat blockMagic" using \<open>n < 128\<close> by (simp add: blockMagic_def)
  then have "(word_of_nat n :: byte) \<noteq> blockMagic" by metis
  moreover have "be 8 x = word_of_nat (x div 256 ^ 7) # be 7 x" for x using be.simps(2) [of 7 x] by simp
  then have "\<exists>z. frame r = word_of_nat n # z" by (simp add: frame_def frame_fields_def be64_def n_def)
  ultimately show ?thesis by blast
qed

lemma initPositions_raw:
  assumes "s_backing s = b # z" and "b \<noteq> blockMagic"
  shows "initPositions C True cut_ok sync_ok s = Inr (s \<lparr>s_physPosition := int (length (s_backing s)), s_blocks := [],
     s_blockMode := False, s_position := int (length (s_backing s))\<rparr>)"
  using assms by (simp add: initPositions_def file_ReadAt_def sub_def Let_def)

text \<open>The index read back: entries it may have for frames the log does not hold any more.\<close>

lemma entries_of_bounds:
  "\<forall>r \<in> set rs. base \<le> lr_offset r \<Longrightarrow> \<forall>e \<in> set (entries_of pos rs). 0 < e_Size e \<and> base \<le> e_Offset e"
  by (induction rs arbitrary: pos) (auto simp: entry_of_def)

lemma setup_raw:
  assumes h: "ix_holds (s_BaseOffset s) idx (entries_of 0 ixs)" and ne: "ix_file idx \<noteq> []"
    and ok: "records_ok (s_BaseOffset s) rs" and okix: "records_ok (s_BaseOffset s) ixs" and fr: "frame_ok r"
    and pre: "(\<exists>post. rs = ixs @ post) \<or> (\<exists>tl'. ixs = rs @ r # tl')" and k: "k < length (frame r)"
    and s: "\<not> s_blockMode s" "s_live s" "\<not> isOffloaded s" "s_backing s = frames rs @ take k (frame r)"
      "s_position s = int (length (s_backing s))" "ends_match s []"
  shows "\<exists>s0 pre post torn. setupIndexKnownEnd C io_ok True True None (ix_file idx) s = Some (Inr s0) \<and>
     raw_open s0 pre (pre @ post) (take torn (frame r)) \<and> torn = (if length ixs \<le> length rs then k else 0) \<and>
     pre @ post = rs \<and> s_BaseOffset s0 = s_BaseOffset s"
proof -
  let ?base = "s_BaseOffset s" and ?es = "entries_of 0 ixs"
  have "\<forall>e \<in> set ?es. 0 < e_Size e \<and> ?base \<le> e_Offset e"
    using okix by (intro entries_of_bounds) (simp add: records_ok_def)
  then obtain idx0 idx1 where n: "newIndex True True 0 ?base (ix_file idx) = Inr idx0" and h1: "ix_holds ?base idx1 ?es"
    and i: "InitializePosition idx0 = Inr (idx1, if ?es = [] then None else Some ((last ?es) \<lparr>e_LeaderEpoch := 0\<rparr>))"
    using ix_holds_reopen [OF h ne] by blast
  have el: "ensureBlocksLoaded s = Inr s" using s(2) by (simp add: ensureBlocksLoaded_def s_live_def)
  consider (none) "ixs = []" | (short) "ixs \<noteq> []" "\<exists>post. rs = ixs @ post" | (long) tl' where "ixs = rs @ r # tl'"
    using pre by blast
  then show ?thesis
  proof cases
    case none
    let ?s = "s \<lparr>s_Index := Some idx1\<rparr>"
    have "setupIndexKnownEnd C io_ok True True None (ix_file idx) s = Some (Inr ?s)"
      using none n i by (simp add: setupIndexKnownEnd_def el io_ok_def)
    moreover have "raw_open ?s [] ([] @ rs) (take k (frame r))"
      using s h1 none by (simp add: raw_open_def s_live_def isOffloaded_def ends_match_def)
    ultimately show ?thesis using none by (intro exI [of _ ?s] exI [of _ "[]"] exI [of _ rs] exI [of _ k]) simp
  next
    case short
    then obtain post where post: "rs = ixs @ post" by blast
    let ?l = "(last ?es) \<lparr>e_LeaderEpoch := 0\<rparr>" and ?f = "(?es ! 0) \<lparr>e_LeaderEpoch := 0\<rparr>"
    let ?s = "mark_last ?l (s \<lparr>s_Index := Some idx1, s_firstOffset := e_Offset ?f, s_firstWriteTime := e_Timestamp ?f\<rparr>)"
    have e: "?es \<noteq> []" "?es ! 0 = entry_of 0 (hd ixs)" using short(1) by (cases ixs; simp)+
    have rd: "ReadEntryAtFileOffset empty_entry 0 idx1 = Inr ?f"
      using ix_holds_read_file [OF h1, of 0 empty_entry] e(1) short(1) by (simp add: empty_entry_def)
    have "e_Position ?l + e_Size ?l = int (length (frames ixs))"
      using entries_of_last [OF short(1)] last_entry_end [OF short(1)] by (simp add: entry_of_def)
    then have "\<not> indexOvershootsLog ?l (s \<lparr>s_Index := Some idx1\<rparr>)" using s by (simp add: indexOvershootsLog_def post)
    then have "setupIndexKnownEnd C io_ok True True None (ix_file idx) s = Some (Inr ?s)"
      using e(1) n i rd s(1) by (simp add: setupIndexKnownEnd_def el io_ok_def end_marks_def)
    moreover have "raw_open ?s ixs (ixs @ post) (take k (frame r))"
      using s h1 e(2) entries_of_last [OF short(1)] short(1)
      by (simp add: raw_open_def s_live_def isOffloaded_def ends_match_def mark_last_def post entry_of_def)
    ultimately show ?thesis using post by (fastforce simp: mark_last_def)
  next
    case long
    let ?l = "(last ?es) \<lparr>e_LeaderEpoch := 0\<rparr>"
    have ne': "ixs \<noteq> []" using long by simp
    then have ne'': "?es \<noteq> []" by (cases ixs) simp_all
    have "e_Position ?l + e_Size ?l = int (length (frames ixs))"
      using entries_of_last [OF ne'] last_entry_end [OF ne'] by (simp add: entry_of_def)
    then have over: "indexOvershootsLog ?l (s \<lparr>s_Index := Some idx1\<rparr>)"
      using s k by (simp add: indexOvershootsLog_def long)
    obtain idx2 where z: "ix_reset idx1 = Inr idx2" "ix_holds ?base idx2 []" using ix_holds_reset [OF h1] by blast
    let ?s = "s \<lparr>s_Index := Some idx2, s_firstOffset := - 1, s_lastOffset := - 1, s_firstWriteTime := 0, s_lastWriteTime := 0\<rparr>"
    have o: "raw_open ?s [] ([] @ rs) (take k (frame r))"
      using s z(2) by (simp add: raw_open_def s_live_def isOffloaded_def ends_match_def)
    have ok': "records_ok (s_BaseOffset ?s) ([] @ rs)" using ok by simp
    have b0: "\<not> s_BaseOffset ?s \<le> - 1" using ok by (simp add: records_ok_def)
    obtain s0 where r: "reconcileIndexTail C io_ok True True (- 1) ?s = Some (Inr s0)" "raw_open s0 rs rs []"
      "s_BaseOffset s0 = ?base"
      using reconcile_raw [OF o ok' fr k, of C "- 1"] b0 by auto
    have "setupIndexKnownEnd C io_ok True True None (ix_file idx) s = Some (Inr s0)"
      using ne'' n i over z(1) r(1) s(1) by (simp add: setupIndexKnownEnd_def el io_ok_def rebuildOverIndex_def rebuildIndexFromLog_def)
    then show ?thesis using r(2,3) long by (intro exI [of _ s0] exI [of _ rs] exI [of _ "[]"] exI [of _ 0]) simp
  qed
qed

text \<open>The records whose frames lie whole inside the first \<open>n\<close> bytes.\<close>

fun whole :: "nat \<Rightarrow> logrec list \<Rightarrow> logrec list" where
  "whole n [] = []"
| "whole n (r # rs) = (if length (frame r) \<le> n then r # whole (n - length (frame r)) rs else [])"

lemma whole_cut:
  assumes "list_all frame_ok rs"
  shows "\<exists>k r. frame_ok r \<and> k < length (frame r) \<and> take n (frames rs) = frames (whole n rs) @ take k (frame r) \<and>
     (rs = whole n rs \<and> k = 0 \<or> (\<exists>later. rs = whole n rs @ r # later))"
  using assms
proof (induction n rs rule: whole.induct)
  case (1 n)
  show ?case
    by (rule exI [of _ 0], rule exI [of _ "\<lparr>lr_offset = 0, lr_timestamp = 0, lr_epoch = 0, lr_payload = [0]\<rparr>"])
      (simp add: frame_ok_def)
next
  case (2 n r rs)
  show ?case
  proof (cases "length (frame r) \<le> n")
    case True
    then obtain k x where "frame_ok x" "k < length (frame x)"
      "take (n - length (frame r)) (frames rs) = frames (whole (n - length (frame r)) rs) @ take k (frame x)"
      "rs = whole (n - length (frame r)) rs \<and> k = 0 \<or> (\<exists>later. rs = whole (n - length (frame r)) rs @ x # later)"
      using 2 by auto
    moreover have "take n (frames (r # rs)) = frame r @ take (n - length (frame r)) (frames rs)" using True by simp
    ultimately show ?thesis using True by (intro exI [of _ k] exI [of _ x]) auto
  next
    case False
    then show ?thesis using 2(2) by (intro exI [of _ n] exI [of _ r]) auto
  qed
qed

lemma whole_prefix: "\<exists>later. rs = whole n rs @ later"
  by (induction n rs rule: whole.induct) auto

lemma newSegmentWith_raw:
  assumes ok: "records_ok base rs" and idx: "ix_holds base idx (entries_of 0 (take m rs))" and ne: "ix_file idx \<noteq> []"
    and n: "0 < n" "n \<le> length (frames rs)"
  shows "\<exists>s0 pre post r k. newSegmentWith C io_ok True True True table_ok base maxBytes False codec format
       (Some (take n (frames rs))) blocksfile (ix_file idx) = Some (Inr s0) \<and> s_BaseOffset s0 = base \<and>
     whole n rs = pre @ post \<and> frame_ok r \<and> k < length (frame r) \<and> raw_open s0 pre (pre @ post) (take k (frame r)) \<and>
     (if length (take m rs) \<le> length (whole n rs) then take n (frames rs) = frames (whole n rs) @ take k (frame r) else k = 0)"
proof -
  let ?w = "whole n rs" and ?log = "take n (frames rs)"
  have fok: "list_all frame_ok rs" using ok by (simp add: records_ok_def)
  obtain k r where k: "frame_ok r" "k < length (frame r)" "?log = frames ?w @ take k (frame r)"
    and split: "rs = ?w \<and> k = 0 \<or> (\<exists>later. rs = ?w @ r # later)" using whole_cut [OF fok] by blast
  obtain w2 where w2: "rs = ?w @ w2" using split by (metis append_Nil2)
  have okw: "records_ok base ?w" using ok w2 records_ok_prefix by metis
  have okm: "records_ok base (take m rs)" using ok records_ok_prefix [of base "take m rs" "drop m rs"] by simp
  have cover: "(\<exists>post. ?w = take m rs @ post) \<or> (\<exists>tl'. take m rs = ?w @ r # tl')"
  proof (cases "m \<le> length ?w")
    case True
    then have "?w = take m rs @ drop m ?w" by (subst w2) simp
    then show ?thesis by blast
  next
    case False
    from split show ?thesis
    proof
      assume "rs = ?w \<and> k = 0"
      then have "?w = take m rs @ []" using False by simp
      then show ?thesis by blast
    next
      assume "\<exists>later. rs = ?w @ r # later"
      then obtain later where "rs = ?w @ r # later" by blast
      then have "take m rs = ?w @ r # take (m - length ?w - 1) later"
        using False by (metis (no_types, lifting) One_nat_def Suc_diff_Suc diff_diff_left linorder_not_less plus_1_eq_Suc
            add.commute take_Suc_Cons take_all_iff take_append less_imp_le_nat)
      then show ?thesis by blast
    qed
  qed
  obtain x xs where x: "rs = x # xs" using n by (cases rs) auto
  obtain b z where b: "frame x = b # z" "b \<noteq> blockMagic"
    using frame_first_byte [of x] fok records_ok_nonneg [OF ok, of x] x by auto
  obtain z' where z': "?log = b # z'" using n(1) x b(1) by (cases n) auto
  define s where "s = (emptySegment base maxBytes codec)
     \<lparr>s_format := format, s_dirtyData := True, s_dirtyIndex := True, s_backing := ?log, s_blocksFile := blocksfile,
      s_physPosition := int (length ?log), s_blocks := [], s_blockMode := False, s_position := int (length ?log)\<rparr>"
  have new: "newSegmentWith C io_ok True True True table_ok base maxBytes False codec format
       (Some ?log) blocksfile (ix_file idx) = setupIndexKnownEnd C io_ok True True None (ix_file idx) s"
    using initPositions_raw [of _ b z', OF _ b(2)] z'
    by (simp add: newSegmentWith_def s_def emptySegment_def del: take_eq_Nil)
  have s: "\<not> s_blockMode s" "s_live s" "\<not> isOffloaded s" "s_backing s = frames ?w @ take k (frame r)"
      "s_position s = int (length (s_backing s))" "ends_match s []" "s_BaseOffset s = base"
    using k(3) by (simp_all add: s_def emptySegment_def s_live_def isOffloaded_def ends_match_def)
  obtain s0 pre post torn where "setupIndexKnownEnd C io_ok True True None (ix_file idx) s = Some (Inr s0)"
     "raw_open s0 pre (pre @ post) (take torn (frame r))" "torn = (if length (take m rs) \<le> length ?w then k else 0)"
     "pre @ post = ?w" "s_BaseOffset s0 = base"
    using setup_raw [OF _ ne _ _ k(1) cover k(2) s(1-6), of C] idx okw okm s(7) by auto
  then show ?thesis using new k by (intro exI [of _ s0] exI [of _ pre] exI [of _ post] exI [of _ r] exI [of _ torn]) auto
qed

text \<open>
  C5: recovery of a raw segment after a crash.  Cut the log anywhere, inside a header, a payload or between
  frames, and let the index hold the entries of any prefix of the records - fewer than the log has, or more.
  Opening the segment and reconciling its index terminates and succeeds, and the segment then holds exactly the
  records whose frames were written whole: its file is cut to them and its index lists them all.  The committed
  watermark must not lie above them.
\<close>

theorem raw_segment_recovers:
  assumes "records_ok base rs" and "0 < n" and "n \<le> length (frames rs)"
    and "ix_holds base idx (entries_of 0 (take m rs))" and "ix_file idx \<noteq> []"
    and "hw < base \<or> (\<exists>x \<in> set (whole n rs). hw \<le> lr_offset x)"
  shows "\<exists>s0 s. newSegmentWith C io_ok True True True table_ok base maxBytes False codec format
       (Some (take n (frames rs))) blocksfile (ix_file idx) = Some (Inr s0) \<and>
     reconcileIndexTail C io_ok True True hw s0 = Some (Inr s) \<and>
     seg_holds C s (map (\<lambda>r. [r]) (whole n rs)) \<and> s_live s \<and> s_backing s = frames (whole n rs)"
proof -
  obtain s0 pre post r k where s0: "newSegmentWith C io_ok True True True table_ok base maxBytes False codec format
       (Some (take n (frames rs))) blocksfile (ix_file idx) = Some (Inr s0)" "s_BaseOffset s0 = base"
    and w: "whole n rs = pre @ post" and r: "frame_ok r" "k < length (frame r)"
    and op: "raw_open s0 pre (pre @ post) (take k (frame r))"
    using newSegmentWith_raw [OF assms(1,4,5,2,3)] by blast
  obtain later where "rs = whole n rs @ later" using whole_prefix by blast
  then have ok: "records_ok base (pre @ post)" using assms(1) w records_ok_prefix by metis
  have allowed: "\<not> (0 < k \<and> base \<le> hw \<and> (\<forall>x \<in> set (pre @ post). lr_offset x < hw))"
    using assms(6) unfolding w by (meson linorder_not_le)
  obtain s where "reconcileIndexTail C io_ok True True hw s0 = Some (Inr s)" "raw_open s (pre @ post) (pre @ post) []"
    "s_BaseOffset s = base"
    using reconcile_raw [OF op ok [folded s0(2)] r, of C hw] unfolding s0(2) if_not_P [OF allowed] by blast
  then show ?thesis using s0(1) raw_open_holds [of s "pre @ post" C] ok unfolding w
    by (intro exI [of _ s0] exI [of _ s]) (auto simp: raw_open_def)
qed

text \<open>
  C19: a torn tail below the committed watermark, by what the index says.  Cut the log inside a frame, and let every
  record that survived whole lie below the watermark.  If the index names no record past the cut, the segment opens
  with its bytes untouched and the reconcile refuses with an error instead of discarding the tail.  If the index
  is ahead of the log, the tail is gone as soon as the segment is open, before the watermark is looked at, and the
  reconcile then succeeds on what is left.
\<close>

theorem torn_tail_below_watermark:
  assumes "records_ok base rs" and "0 < n" and "n \<le> length (frames rs)"
    and "ix_holds base idx (entries_of 0 (take m rs))" and "ix_file idx \<noteq> []"
    and "take n (frames rs) \<noteq> frames (whole n rs)" and "base \<le> hw" and "\<forall>x \<in> set (whole n rs). lr_offset x < hw"
  shows "\<exists>s0. newSegmentWith C io_ok True True True table_ok base maxBytes False codec format
       (Some (take n (frames rs))) blocksfile (ix_file idx) = Some (Inr s0) \<and>
     (if m \<le> length (whole n rs)
      then s_backing s0 = take n (frames rs) \<and> reconcileIndexTail C io_ok True True hw s0 = Some (Inl ErrOther)
      else s_backing s0 = frames (whole n rs) \<and>
        (\<exists>s. reconcileIndexTail C io_ok True True hw s0 = Some (Inr s) \<and> s_backing s = frames (whole n rs)))"
proof -
  obtain s0 pre post r k where s0: "newSegmentWith C io_ok True True True table_ok base maxBytes False codec format
       (Some (take n (frames rs))) blocksfile (ix_file idx) = Some (Inr s0)" "s_BaseOffset s0 = base"
    and w: "whole n rs = pre @ post" and r: "frame_ok r" "k < length (frame r)"
    and op: "raw_open s0 pre (pre @ post) (take k (frame r))"
    and log: "if length (take m rs) \<le> length (whole n rs) then take n (frames rs) = frames (whole n rs) @ take k (frame r) else k = 0"
    using newSegmentWith_raw [OF assms(1,4,5,2,3)] by metis
  have "list_all frame_ok rs" using assms(1) by (simp add: records_ok_def)
  then obtain x later where later: "rs = whole n rs @ x # later" using whole_cut [of rs n] assms(6) by (metis append_Nil2 take0)
  then have ok: "records_ok (s_BaseOffset s0) (pre @ post)" using assms(1) w s0(2) records_ok_prefix by metis
  have ahead: "length (take m rs) \<le> length (whole n rs) \<longleftrightarrow> m \<le> length (whole n rs)"
    using arg_cong [OF later, of length] by auto
  have "if 0 < k then reconcileIndexTail C io_ok True True hw s0 = Some (Inl ErrOther)
    else \<exists>s. reconcileIndexTail C io_ok True True hw s0 = Some (Inr s) \<and> raw_open s (pre @ post) (pre @ post) []"
    using reconcile_raw [OF op ok r, of C hw] assms(7,8) unfolding s0(2) w by (auto split: if_splits)
  moreover have "0 < k \<longleftrightarrow> m \<le> length (whole n rs)" using log assms(6) unfolding ahead by (cases k) (auto split: if_splits)
  ultimately show ?thesis using s0(1) op log w unfolding ahead by (auto simp: raw_open_def split: if_splits)
qed

lemma sample_index_holds: "ix_holds 100 (index_of 100 (entries_of 0 (take m sample_logrecs)) 40) (entries_of 0 (take m sample_logrecs))"
proof (rule index_of_holds)
  have "list_all (entry_fits 100) (entries_of 0 sample_logrecs)"
    by (simp add: sample_logrecs_def entry_of_def entry_fits_def)
  moreover have "entries_of 0 sample_logrecs = entries_of 0 (take m sample_logrecs) @
      entries_of (int (length (frames (take m sample_logrecs)))) (drop m sample_logrecs)"
    using entries_of_append [of 0 "take m sample_logrecs" "drop m sample_logrecs"] by simp
  ultimately show "list_all (entry_fits 100) (entries_of 0 (take m sample_logrecs))" by simp
qed

theorem raw_segment_recovers_witness:
  "\<exists>s0 s. newSegmentWith raw_codecs io_ok True True True True 100 1000 False None_codec BlockFormatVersion
       (Some (take 50 (frames sample_logrecs))) None (ix_file (index_of 100 (entries_of 0 (take 2 sample_logrecs)) 40)) = Some (Inr s0) \<and>
     reconcileIndexTail raw_codecs io_ok True True 100 s0 = Some (Inr s) \<and>
     seg_holds raw_codecs s [[sample_logrecs ! 0]] \<and> length (s_backing s) = 34"
proof -
  have w: "whole 50 sample_logrecs = [sample_logrecs ! 0]" "50 \<le> length (frames sample_logrecs)"
    "lr_offset (sample_logrecs ! 0) = 100" "length (frame (sample_logrecs ! 0)) = 34"
    by (simp_all add: sample_logrecs_def)
  have ne: "ix_file (index_of 100 (entries_of 0 (take 2 sample_logrecs)) 40) \<noteq> []" by (simp add: index_of_def)
  show ?thesis
    using raw_segment_recovers [of 100 sample_logrecs 50 _ 2 100 raw_codecs True 1000 None_codec BlockFormatVersion None,
        OF sample_logrecs_ok _ w(2) sample_index_holds ne] w by auto
qed

theorem torn_tail_below_watermark_witness:
  "(\<exists>s0. newSegmentWith raw_codecs io_ok True True True True 100 1000 False None_codec BlockFormatVersion
        (Some (take 50 (frames sample_logrecs))) None (ix_file (index_of 100 (entries_of 0 (take 1 sample_logrecs)) 40)) = Some (Inr s0) \<and>
      reconcileIndexTail raw_codecs io_ok True True 103 s0 = Some (Inl ErrOther)) \<and>
   (\<exists>s0. newSegmentWith raw_codecs io_ok True True True True 100 1000 False None_codec BlockFormatVersion
        (Some (take 50 (frames sample_logrecs))) None (ix_file (index_of 100 (entries_of 0 (take 2 sample_logrecs)) 40)) = Some (Inr s0) \<and>
      length (s_backing s0) = 34)"
proof -
  have w: "whole 50 sample_logrecs = [sample_logrecs ! 0]" "50 \<le> length (frames sample_logrecs)"
    "lr_offset (sample_logrecs ! 0) = 100" "length (frame (sample_logrecs ! 0)) = 34"
    by (simp_all add: sample_logrecs_def)
  then have "length (take 50 (frames sample_logrecs)) \<noteq> length (frames (whole 50 sample_logrecs))" by simp
  then have ne: "take 50 (frames sample_logrecs) \<noteq> frames (whole 50 sample_logrecs)" by metis
  have f: "ix_file (index_of 100 (entries_of 0 (take m sample_logrecs)) 40) \<noteq> []" for m by (simp add: index_of_def)
  note t = torn_tail_below_watermark [OF sample_logrecs_ok _ w(2) sample_index_holds f ne, where hw = 103 and C = raw_codecs and
      table_ok = True and maxBytes = 1000 and codec = None_codec and format = BlockFormatVersion and blocksfile = None]
  show ?thesis using t [where m = 1] t [where m = 2] w by (intro conjI) auto
qed

end
