(* ===== verification/Block_Recovery.thy ===== *)
theory Block_Recovery
  imports Segment_Recovery
begin

text \<open>
  Opening a block-compressed segment after a crash: the block walk of \<^verbatim>\<open>scanBlocks\<close> finds the blocks a writer
  appended and stops at a torn one, and \<^verbatim>\<open>reconcileIndexTailBlocks\<close> anchors the blocks the index lacks.
\<close>

section \<open>Scanning what was written\<close>

text \<open>A block is found by the walk at its place in the log.\<close>

definition scans :: "codecs \<Rightarrow> bytes \<Rightarrow> blockRef \<Rightarrow> bool" where
  "scans C log b \<longleftrightarrow> scan_block C log (int (length log)) (physStart b) (logicalStart b) = Inr (Some b)"

lemma scanV3Block_found:
  assumes "scanV3Block C log phys logical sz = Inr (Some b)"
  obtains hdr h raw framing where "\<not> sz - phys < v3_HeaderLen" "file_ReadAt log 76 phys = Inr hdr" "DecodeHeader hdr = Inr h"
    "phys + (v3_HeaderLen + int (unat (h_CompressedLen h))) \<le> sz"
    "file_ReadAt log (nat (v3_HeaderLen + int (unat (h_CompressedLen h)))) phys = Inr raw" "decodeV3Block C raw = Inr framing"
    "b = \<lparr>logicalStart = logical, logicalLen = int (length framing), physStart = phys,
       physLen = v3_HeaderLen + int (unat (h_CompressedLen h)), b_codec = h_Codec h, b_records = int (unat (h_Records h)),
       b_version = v3_Version, b_flags = h_Flags h\<rparr>"
  using assms by (auto simp: scanV3Block_def and_then_Inr_iff Let_def linorder_not_less split: if_splits)

lemma scan_block_found:
  assumes "scan_block C log sz phys logical = Inr (Some b)"
  obtains (v3) hdr where "\<not> sz - phys < blockHeaderLen" "file_ReadAt log 15 phys = Inr hdr"
      "go_index hdr 0 = Inr blockMagic" "go_index hdr 1 = Inr v3_Version" "scanV3Block C log phys logical sz = Inr (Some b)"
    | (v2) hdr m v codec uLen cLen records where "\<not> sz - phys < blockHeaderLen" "file_ReadAt log 15 phys = Inr hdr"
      "go_index hdr 0 = Inr m" "go_index hdr 1 = Inr v" "\<not> (m = blockMagic \<and> v = v3_Version)"
      "parseBlockHeader hdr = Inr (codec, uLen, cLen, records)" "phys + (blockHeaderLen + int (unat cLen)) \<le> sz"
      "b = \<lparr>logicalStart = logical, logicalLen = int (unat uLen), physStart = phys, physLen = blockHeaderLen + int (unat cLen),
         b_codec = codec, b_records = int (unat records), b_version = BlockFormatVersion, b_flags = 0\<rparr>"
proof -
  have n: "\<not> sz - phys < blockHeaderLen" using assms by (auto simp: scan_block_def)
  obtain hdr m v where r: "file_ReadAt log 15 phys = Inr hdr" "go_index hdr 0 = Inr m" "go_index hdr 1 = Inr v"
    using assms n unfolding scan_block_def if_not_P [OF n] and_then_Inr_iff by blast
  show thesis
  proof (cases "m = blockMagic \<and> v = v3_Version")
    case True
    then show ?thesis using assms n r by (intro v3 [of hdr]) (simp_all add: scan_block_def)
  next
    case False
    then obtain codec uLen cLen records where p: "parseBlockHeader hdr = Inr (codec, uLen, cLen, records)"
      using assms n r by (auto simp: scan_block_def and_then_Inr_iff)
    show ?thesis
      using assms n r False p v2 [OF n r False p]
      by (simp add: scan_block_def Let_def linorder_not_less del: of_nat_unat split: if_splits)
  qed
qed

lemma scan_block_extend:
  assumes "scan_block C log sz phys logical = Inr (Some b)" and "sz \<le> sz'"
  shows "scan_block C (log @ x) sz' phys logical = Inr (Some b)"
  using assms(1)
proof (cases rule: scan_block_found)
  case (v3 hdr)
  from v3(5) have "scanV3Block C (log @ x) phys logical sz' = Inr (Some b)"
  proof (cases rule: scanV3Block_found)
    case (1 hdr h raw framing)
    then show ?thesis using assms(2) file_ReadAt_append [OF 1(2), of x] file_ReadAt_append [OF 1(5), of x]
      by (simp add: scanV3Block_def del: of_nat_unat)
  qed
  then show ?thesis using v3 assms(2) file_ReadAt_append [OF v3(2), of x] by (simp add: scan_block_def)
next
  case (v2 hdr m v codec uLen cLen records)
  then show ?thesis using assms(2) file_ReadAt_append [OF v2(2), of x] by (auto simp: scan_block_def simp del: of_nat_unat)
qed

text \<open>Cut short, it is found torn.\<close>

lemma torn_header:
  assumes "file_ReadAt (log @ blk) n (int (length log)) = Inr h" and "n \<le> k"
  shows "file_ReadAt (log @ take k blk) n (int (length log)) = Inr h"
proof (cases "n = 0")
  case False
  then have "n \<le> length blk" using assms(1) by (auto simp: file_ReadAt_def split: if_splits)
  then show ?thesis using assms by (auto simp: file_ReadAt_def sub_def)
qed (use assms in \<open>simp add: file_ReadAt_def\<close>)

lemma scan_block_torn:
  assumes "scan_block C (log @ blk) (int (length (log @ blk))) (int (length log)) logical = Inr (Some b)"
    and "physLen b = int (length blk)" and "k < length blk"
  shows "scan_block C (log @ take k blk) (int (length (log @ take k blk))) (int (length log)) logical = Inr None"
proof (cases "k < 15")
  case True
  then show ?thesis using assms(3) by (simp add: scan_block_def)
next
  case False
  then have k: "15 \<le> k" by simp
  from assms(1) show ?thesis
  proof (cases rule: scan_block_found)
    case (v3 hdr)
    from v3(5) have "scanV3Block C (log @ take k blk) (int (length log)) logical (int (length (log @ take k blk))) = Inr None"
    proof (cases rule: scanV3Block_found)
      case (1 hdr h raw framing)
      then show ?thesis using assms(2,3) torn_header [OF 1(2), of k] by (cases "k < 76") (simp_all add: scanV3Block_def del: of_nat_unat)
    qed
    then show ?thesis using v3 assms(3) k torn_header [OF v3(2), of k] by (simp add: scan_block_def)
  next
    case (v2 hdr m v codec uLen cLen records)
    then show ?thesis using assms(2,3) k torn_header [OF v2(2), of k] by (auto simp: scan_block_def simp del: of_nat_unat)
  qed
qed

lemma tiled_phys_nonneg: "tiled l p bs \<Longrightarrow> 0 \<le> sum_list (map physLen bs)"
  by (induction bs arbitrary: l p) fastforce+

lemma scan_loop_blocks:
  assumes "tiled logical phys bs" and "\<forall>b \<in> set bs. scan_block C log sz (physStart b) (logicalStart b) = Inr (Some b)"
    and "phys + sum_list (map physLen bs) \<le> sz"
    and "phys + sum_list (map physLen bs) = sz \<or>
      scan_block C log sz (phys + sum_list (map physLen bs)) (logical + sum_list (map logicalLen bs)) = Inr None"
  shows "scan_loop C log sz phys logical acc =
     Inr (acc @ bs, phys + sum_list (map physLen bs), logical + sum_list (map logicalLen bs))"
  using assms
proof (induction bs arbitrary: phys logical acc)
  case Nil
  then show ?case by (subst scan_loop.simps) auto
next
  case (Cons b bs)
  have b: "logicalStart b = logical" "physStart b = phys" "15 \<le> physLen b" "tiled (logical + logicalLen b) (phys + physLen b) bs"
    using Cons.prems(1) by simp_all
  have "0 \<le> sum_list (map physLen bs)" using tiled_phys_nonneg [OF b(4)] .
  then have lt: "phys < sz" using Cons.prems(3) b(3) by simp
  have "scan_loop C log sz phys logical acc = scan_loop C log sz (phys + physLen b) (logical + logicalLen b) (acc @ [b])"
    using lt Cons.prems(2) b(1,2) by (subst scan_loop.simps) simp
  also have "\<dots> = Inr ((acc @ [b]) @ bs, (phys + physLen b) + sum_list (map physLen bs),
      (logical + logicalLen b) + sum_list (map logicalLen bs))"
    using Cons.prems b(4) by (intro Cons.IH) (simp_all add: add.assoc)
  finally show ?case by (simp add: add.assoc)
qed

lemma block_payload_valid:
  assumes "block_payload C codec p = (c, pl)" and "codec_Valid codec"
  shows "codec_Valid c \<and> length pl \<le> length p"
  using assms by (auto simp: block_payload_def Let_def codec_Valid_def None_codec_def split: if_splits)

lemma unat_word_of_nat_32: "n < 2 ^ 32 \<Longrightarrow> unat (word_of_nat n :: 32 word) = n"
  by (simp add: unat_of_nat)

lemma scan_new_block:
  assumes "codec_Valid codec" and "length p < 2 ^ 32" and "0 < n" and "n < 2 ^ 32"
  shows "scan_block C (log @ block_bytes C codec p n) (int (length (log @ block_bytes C codec p n))) (int (length log)) l =
     Inr (Some (block_ref C codec p n l (int (length log))))"
proof -
  obtain c pl where pl: "block_payload C codec p = (c, pl)" by (cases "block_payload C codec p")
  let ?h = "encodeBlockHeader c (word_of_nat (length p)) (word_of_nat (length pl)) (word_of_nat n)"
  have v: "codec_Valid c" "length pl < 2 ^ 32" using block_payload_valid [OF pl assms(1)] assms(2) by auto
  have bb: "block_bytes C codec p n = ?h @ pl" by (simp add: block_bytes_def pl)
  have u: "unat (word_of_nat (length p) :: 32 word) = length p" "unat (word_of_nat (length pl) :: 32 word) = length pl"
    "unat (word_of_nat n :: 32 word) = n" using assms v by (simp_all only: unat_word_of_nat_32)
  then have n0: "(word_of_nat n :: 32 word) \<noteq> 0" using assms(3) by auto
  have rd: "file_ReadAt (log @ ?h @ pl) 15 (int (length log)) = Inr ?h"
    by (simp add: file_ReadAt_def sub_def)
  have "parseBlockHeader ?h = Inr (c, word_of_nat (length p), word_of_nat (length pl), word_of_nat n)"
    using parse_encodeBlockHeader [OF v(1) n0, of _ _ "[]"] by simp
  moreover have "go_index ?h 0 = Inr blockMagic" "go_index ?h 1 = Inr BlockFormatVersion"
    by (simp_all add: encodeBlockHeader_def go_index_def)
  ultimately show ?thesis
    using rd u by (simp add: scan_block_def bb block_ref_def pl BlockFormatVersion_def v3_Version_def Let_def del: of_nat_unat)
qed

section \<open>The last frame of a block\<close>

lemma header_entry_frame:
  assumes "frame_ok r"
  shows "header_entry pos (frame r @ z) = Inr (entry_of pos r, int (length (lr_payload r)))"
proof -
  have "i32 (int (length (lr_payload r)) + 32) = int (length (frame r))"
    using assms by (simp add: frame_ok_def i32_id)
  then show ?thesis by (simp add: header_entry_def frame_accessors [OF assms] entry_of_def)
qed

lemma last_frame_loop_finds:
  assumes "list_all frame_ok post"
  shows "\<exists>p. last_frame_loop (frames (pre @ post)) start (int (length (frames pre))) lst =
     Some (Inr (if post = [] then lst else Some (entry_of p (last post))))"
  using assms
proof (induction post arbitrary: pre lst)
  case Nil
  show ?case by (subst last_frame_loop.simps) simp
next
  case (Cons r post)
  have f: "go_from (frames (pre @ r # post)) (int (length (frames pre))) = Inr (frame r @ frames post)"
    by (simp add: go_from_def go_slice_def)
  let ?e = "entry_of (start + int (length (frames pre))) r"
  have h: "header_entry (start + int (length (frames pre))) (frame r @ frames post) = Inr (?e, int (length (lr_payload r)))"
    using Cons.prems by (intro header_entry_frame) simp
  have "last_frame_loop (frames (pre @ r # post)) start (int (length (frames pre))) lst =
      last_frame_loop (frames ((pre @ [r]) @ post)) start (int (length (frames (pre @ [r])))) (Some ?e)"
    by (subst last_frame_loop.simps) (simp add: f [simplified] h)
  moreover obtain p where "last_frame_loop (frames ((pre @ [r]) @ post)) start (int (length (frames (pre @ [r])))) (Some ?e) =
      Some (Inr (if post = [] then Some ?e else Some (entry_of p (last post))))"
    using Cons.IH [of "pre @ [r]" "Some ?e"] Cons.prems by auto
  ultimately show ?case by (cases "post = []") auto
qed

lemma locate_unique:
  assumes "ds1 @ d # ds2 = es1 @ e # es2" and "e \<noteq> []"
    and "length (concat ds1) \<le> length (concat es1)" and "length (concat es1) < length (concat ds1) + length d"
  shows "ds1 = es1 \<and> d = e"
proof -
  consider us where "ds1 = es1 @ us" "us @ d # ds2 = e # es2" | us where "es1 = ds1 @ us" "d # ds2 = us @ e # es2"
    using assms(1) by (auto simp: append_eq_append_conv2)
  then show ?thesis
  proof cases
    case 1
    then show ?thesis using assms(2,3) by (cases us) auto
  next
    case 2
    then show ?thesis using assms(4) by (cases us) auto
  qed
qed

lemma block_at_chunk:
  assumes b: "seg_bytes C s (xs @ c # ys)" "s_blockMode s" and "c \<noteq> []"
  shows "\<exists>blk. findBlock (int (length (frames (concat xs)))) s = Some blk \<and> decodeBlock C s blk = Inr (frames c) \<and>
     logicalStart blk = int (length (frames (concat xs)))"
proof -
  let ?x = "int (length (frames (concat xs)))"
  have t: "tiled 0 0 (s_blocks s)" "list_all2 (decodes_to C s) (s_blocks s) (map frames (xs @ c # ys))"
    using b by (simp_all add: seg_bytes_def)
  have ne: "frames c \<noteq> []" using assms(3) by (cases c) (auto simp: frame_def frame_fields_def)
  have lt: "?x < int (length (concat (map frames (xs @ c # ys))))" using ne by (simp add: concat_map_frames) (simp add: add_pos_nonneg)
  obtain ds1 d ds2 blk where l: "map frames (xs @ c # ys) = ds1 @ d # ds2" "findBlock ?x s = Some blk" "decodes_to C s blk d"
    "logicalStart blk = int (length (concat ds1))" "int (length (concat ds1)) \<le> ?x" "?x < int (length (concat ds1)) + int (length d)"
    by (rule findBlock_locate [OF t _ lt]) simp_all
  have "ds1 = map frames xs \<and> d = frames c"
    by (rule locate_unique [of ds1 d ds2 "map frames xs" "frames c" "map frames ys"])
      (use l ne in \<open>simp_all add: concat_map_frames\<close>)
  then show ?thesis using l by (intro exI [of _ blk]) (simp add: decodes_to_def concat_map_frames)
qed

lemma lastFrameInBlock_finds:
  assumes "seg_bytes C s (xs @ c # ys)" "s_blockMode s" and "c \<noteq> []" and "list_all frame_ok (concat (xs @ c # ys))"
  shows "\<exists>p. lastFrameInBlock C (int (length (frames (concat xs)))) s = Some (Inr (entry_of p (last c)))"
proof -
  let ?x = "int (length (frames (concat xs)))"
  obtain p where "last_frame_loop (frames ([] @ c)) ?x (int (length (frames []))) None = Some (Inr (Some (entry_of p (last c))))"
    using last_frame_loop_finds [of c "[]" ?x None] assms(3,4) by auto
  then show ?thesis using block_at_chunk [OF assms(1-3)] by (auto simp: lastFrameInBlock_def)
qed

section \<open>Anchoring the blocks the index lacks\<close>

text \<open>A block segment being opened: its bytes hold \<open>cs\<close>, its index and marks cover the chunks \<open>ds\<close>.\<close>

definition blk_open :: "codecs \<Rightarrow> segment \<Rightarrow> chunks \<Rightarrow> chunks \<Rightarrow> bool" where
  "blk_open C s ds cs \<longleftrightarrow> s_blockMode s \<and> s_live s \<and> seg_bytes C s cs \<and> ends_match s (concat ds) \<and>
     (\<exists>idx. s_Index s = Some idx \<and> ix_holds (s_BaseOffset s) idx (anchors 0 ds))"

definition same_log :: "segment \<Rightarrow> segment \<Rightarrow> bool" where
  "same_log s s' \<longleftrightarrow> s_BaseOffset s' = s_BaseOffset s \<and> s_backing s' = s_backing s \<and> s_blocks s' = s_blocks s"

lemma decodes_to_backing: "s_backing s' = s_backing s \<Longrightarrow> decodes_to C s' = decodes_to C s"
  by (simp add: fun_eq_iff decodes_to_def decodeBlock_def)

lemma seg_bytes_cong:
  assumes "s_backing s' = s_backing s" and "s_position s' = s_position s" and "s_blockMode s' = s_blockMode s"
    and "s_blocks s' = s_blocks s" and "s_physPosition s' = s_physPosition s" and "s_blocksPending s' = s_blocksPending s"
  shows "seg_bytes C s' cs = seg_bytes C s cs"
  using assms by (simp add: seg_bytes_def decodes_to_backing [OF assms(1)])

lemma tiled_append: "tiled l p (xs @ ys) \<Longrightarrow> tiled (l + sum_list (map logicalLen xs)) (p + sum_list (map physLen xs)) ys"
  by (induction xs arbitrary: l p) (simp, fastforce simp: add.assoc)

text \<open>The start of the \<open>k\<close>-th block is where the frames before it end.\<close>

lemma tiled_at_chunk:
  assumes "tiled 0 0 bs" and "list_all2 (decodes_to C s) bs (map frames cs)" and "k \<le> length cs"
  shows "\<exists>p. tiled (int (length (frames (concat (take k cs))))) p (drop k bs)"
proof -
  have "list_all2 (decodes_to C s) (take k bs) (map frames (take k cs))"
    using list_all2_takeI [OF assms(2), of k] by (simp add: take_map)
  then have "sum_list (map logicalLen (take k bs)) = int (length (frames (concat (take k cs))))"
    using decodes_to_logical by (fastforce simp: concat_map_frames)
  then show ?thesis using tiled_append [of 0 0 "take k bs" "drop k bs"] assms(1) by auto
qed

definition first_off :: "logrec list \<Rightarrow> int" where
  "first_off rs = (if rs = [] then - 1 else lr_offset (hd rs))"

definition first_ts :: "logrec list \<Rightarrow> int" where
  "first_ts rs = (if rs = [] then 0 else lr_timestamp (hd rs))"

lemma first_append: "rs \<noteq> [] \<Longrightarrow> first_off (rs @ zs) = first_off rs \<and> first_ts (rs @ zs) = first_ts rs"
  by (simp add: first_off_def first_ts_def)

lemma blocks_loop_anchors:
  assumes "s_Index s = Some idx" and "ix_holds base idx (anchors 0 ds)" and "list_all2 (decodes_to C s) bs (map frames es)"
    and "tiled (int (length (frames (concat ds)))) p bs" and "records_ok base (concat (ds @ es))" and "[] \<notin> set (ds @ es)"
    and "s_firstOffset s = first_off (concat ds)" and "s_firstWriteTime s = first_ts (concat ds)"
  shows "\<exists>idx'. blocks_loop C io_ok bs s = Inr (s \<lparr>s_Index := Some idx', s_firstOffset := first_off (concat (ds @ es)),
       s_firstWriteTime := first_ts (concat (ds @ es))\<rparr>) \<and> ix_holds base idx' (anchors 0 (ds @ es))"
  using assms
proof (induction es arbitrary: s idx ds bs p)
  case Nil
  then have "s \<lparr>s_Index := Some idx, s_firstOffset := first_off (concat ds), s_firstWriteTime := first_ts (concat ds)\<rparr> = s" by simp
  then show ?case using Nil by (intro exI [of _ idx]) simp
next
  case (Cons c es)
  then obtain b bs' where bs: "bs = b # bs'" "decodes_to C s b (frames c)" "list_all2 (decodes_to C s) bs' (map frames es)"
    by (auto simp: list_all2_Cons2)
  have st: "logicalStart b = int (length (frames (concat ds)))" "logicalLen b = int (length (frames c))"
    "tiled (int (length (frames (concat (ds @ [c]))))) (p + physLen b) bs'"
    using Cons.prems(4) bs by (auto simp: decodes_to_def add.commute add.left_commute)
  obtain r c' where c: "c = r # c'" using Cons.prems(6) by (cases c) auto
  let ?e = "entry_of (int (length (frames (concat ds)))) r"
  have ok: "records_ok base (concat ds @ r # c' @ concat es)" using Cons.prems(5) c by simp
  then have r: "frame_ok r" by (simp add: records_ok_def)
  obtain idx1 where i: "index_one io_ok ?e s = Inr (s \<lparr>s_Index := Some idx1\<rparr>)"
    and h: "ix_holds base idx1 (anchors 0 ds @ [?e])"
    using index_one_holds [OF Cons.prems(1,2) entry_of_fits [OF ok]] by blast
  let ?s = "s \<lparr>s_Index := Some idx1, s_firstOffset := first_off (concat (ds @ [c])), s_firstWriteTime := first_ts (concat (ds @ [c]))\<rparr>"
  have dne: "concat ds \<noteq> [] \<longleftrightarrow> ds \<noteq> []" using Cons.prems(6) by (cases ds) auto
  have "mark_first ?e (s \<lparr>s_Index := Some idx1\<rparr>) = ?s"
  proof (cases "ds = []")
    case True
    then show ?thesis using Cons.prems(7) by (simp add: mark_first_def first_off_def first_ts_def c entry_of_def)
  next
    case False
    then have "hd (concat ds) \<in> set (concat ds)" using dne by (intro hd_in_set) simp
    then have "0 \<le> lr_offset (hd (concat ds))" by (intro records_ok_nonneg [OF ok]) (metis Un_iff set_append)
    then have "0 \<le> first_off (concat ds)" using False dne by (simp add: first_off_def)
    moreover have "first_off (concat (ds @ [c])) = s_firstOffset s" "first_ts (concat (ds @ [c])) = s_firstWriteTime s"
      using Cons.prems(7,8) False dne first_append [of "concat ds" c] by simp_all
    ultimately show ?thesis using Cons.prems(7) by (simp add: mark_first_def)
  qed
  moreover have "decodeBlock C s b = Inr (frame r @ frames c')" using bs(2) c by (simp add: decodes_to_def)
  ultimately have step: "blocks_loop C io_ok bs s = blocks_loop C io_ok bs' ?s"
    using header_entry_frame [OF r, of _ "frames c'"] i st(1) by (simp add: bs(1))
  have h1: "ix_holds base idx1 (anchors 0 (ds @ [c]))" using h by (simp add: anchors_append c)
  have "\<exists>idx'. blocks_loop C io_ok bs' ?s = Inr (?s \<lparr>s_Index := Some idx', s_firstOffset := first_off (concat ((ds @ [c]) @ es)),
       s_firstWriteTime := first_ts (concat ((ds @ [c]) @ es))\<rparr>) \<and> ix_holds base idx' (anchors 0 ((ds @ [c]) @ es))"
    by (rule Cons.IH [OF _ h1 _ st(3)])
      (use Cons.prems(5,6) bs(3) decodes_to_backing [of ?s s C] in simp_all)
  then show ?case unfolding step by simp
qed

lemma blk_open_holds:
  assumes "blk_open C s cs cs" and "records_ok (s_BaseOffset s) (concat cs)" and "[] \<notin> set cs"
  shows "seg_holds C s cs"
  using assms by (simp add: blk_open_def seg_holds_def)

lemma last_block_start:
  assumes "tiled 0 0 bs" and "list_all2 (decodes_to C s) bs (map frames cs)" and "cs \<noteq> []"
  shows "logicalStart (last bs) = int (length (frames (concat (butlast cs))))"
proof -
  have len: "length bs = length cs" using list_all2_lengthD [OF assms(2)] by simp
  obtain p where "tiled (int (length (frames (concat (take (length cs - 1) cs))))) p (drop (length cs - 1) bs)"
    using tiled_at_chunk [OF assms(1,2), of "length cs - 1"] by auto
  moreover have "drop (length cs - 1) bs = [last bs]"
    using len assms(3) by (metis append_butlast_last_id append_eq_conv_conj length_0_conv length_butlast)
  ultimately show ?thesis by (simp add: butlast_conv_take)
qed

lemma reconcile_blocks:
  assumes o: "blk_open C s ds (ds @ es)" and ok: "records_ok (s_BaseOffset s) (concat (ds @ es))" and ne: "[] \<notin> set (ds @ es)"
  shows "\<exists>s'. reconcileIndexTail C io_ok True True hw s = Some (Inr s') \<and> blk_open C s' (ds @ es) (ds @ es) \<and>
     same_log s s'"
proof -
  let ?cs = "ds @ es" and ?k = "length ds"
  obtain idx where idx: "s_Index s = Some idx" "ix_holds (s_BaseOffset s) idx (anchors 0 ds)" and bm: "s_blockMode s"
    and sb: "seg_bytes C s ?cs" and ends: "ends_match s (concat ds)" and live: "s_live s" using o by (auto simp: blk_open_def)
  have t: "tiled 0 0 (s_blocks s)" "list_all2 (decodes_to C s) (s_blocks s) (map frames ?cs)"
    using sb bm by (simp_all add: seg_bytes_def)
  have len: "length (s_blocks s) = length ?cs" using list_all2_lengthD [OF t(2)] by simp
  have cnt: "nat (CountEntries idx) = ?k" using ix_holds_count [OF idx(2)] by simp
  have "\<exists>s1. reconcileIndexTailBlocks C io_ok idx s = Some (Inr s1) \<and> blk_open C s1 ?cs ?cs \<and> same_log s s1"
  proof (cases "es = []")
    case True
    then show ?thesis using o len by (simp add: reconcileIndexTailBlocks_def cnt same_log_def)
  next
    case False
    obtain p where "tiled (int (length (frames (concat (take ?k ?cs))))) p (drop ?k (s_blocks s))"
      using tiled_at_chunk [OF t, of ?k] by auto
    moreover have l2: "list_all2 (decodes_to C s) (drop ?k (s_blocks s)) (map frames es)"
      using list_all2_dropI [OF t(2), of ?k] by (simp add: drop_map)
    moreover have "s_firstOffset s = first_off (concat ds)" "s_firstWriteTime s = first_ts (concat ds)"
      using ends by (simp_all add: ends_match_def first_off_def first_ts_def)
    ultimately obtain idx' where bl: "blocks_loop C io_ok (drop ?k (s_blocks s)) s =
        Inr (s \<lparr>s_Index := Some idx', s_firstOffset := first_off (concat ?cs), s_firstWriteTime := first_ts (concat ?cs)\<rparr>)"
      and h: "ix_holds (s_BaseOffset s) idx' (anchors 0 ?cs)"
      using blocks_loop_anchors [OF idx l2 _ ok ne] by auto
    let ?s1 = "s \<lparr>s_Index := Some idx', s_firstOffset := first_off (concat ?cs), s_firstWriteTime := first_ts (concat ?cs)\<rparr>"
    have cs: "?cs = butlast ?cs @ [last ?cs]" "last ?cs \<noteq> []"
      using False ne by (metis append_butlast_last_id append_is_Nil_conv last_in_set)+
    have sb1: "seg_bytes C ?s1 (butlast ?cs @ last ?cs # [])" using sb seg_bytes_cong [of ?s1 s C ?cs] cs(1) by simp
    have "list_all frame_ok (concat (butlast ?cs @ [last ?cs]))" using ok cs(1) by (simp add: records_ok_def)
    then obtain q where lf: "lastFrameInBlock C (int (length (frames (concat (butlast ?cs))))) ?s1 = Some (Inr (entry_of q (last (last ?cs))))"
      using lastFrameInBlock_finds [OF sb1 _ cs(2)] bm by auto
    have "reconcileIndexTailBlocks C io_ok idx s = Some (Inr (mark_last (entry_of q (last (last ?cs))) ?s1))"
      using len False bl lf last_block_start [OF t] by (simp add: reconcileIndexTailBlocks_def cnt)
    moreover have "concat ?cs \<noteq> []" "last (concat ?cs) = last (last ?cs)"
      using cs by (metis concat_append concat.simps append_Nil2 append_is_Nil_conv last_append)+
    then have "ends_match (mark_last (entry_of q (last (last ?cs))) ?s1) (concat ?cs)"
      by (simp only: ends_match_def mark_last_def first_off_def first_ts_def entry_of_def) simp
    moreover have "seg_bytes C (mark_last (entry_of q (last (last ?cs))) ?s1) ?cs"
      using sb by (subst seg_bytes_cong [of _ s]) (simp_all add: mark_last_def)
    ultimately show ?thesis
      using h live bm by (auto simp: blk_open_def mark_last_def s_live_def same_log_def)
  qed
  then obtain s1 where s1: "reconcileIndexTailBlocks C io_ok idx s = Some (Inr s1)" "blk_open C s1 ?cs ?cs" "same_log s s1"
    by blast
  let ?s = "if map_option CountEntries (s_Index s1) = Some (CountEntries idx) then s1 \<lparr>s_dirtyIndex := False\<rparr> else s1"
  have "seg_bytes C (s1 \<lparr>s_dirtyIndex := False\<rparr>) ?cs = seg_bytes C s1 ?cs" by (rule seg_bytes_cong) simp_all
  then have "blk_open C ?s ?cs ?cs" using s1(2) by (auto simp: blk_open_def ends_match_def s_live_def)
  then show ?thesis using s1 bm by (intro exI [of _ ?s]) (simp add: reconcileIndexTail_def idx same_log_def)
qed

section \<open>Opening a block segment\<close>

lemma anchors_last:
  assumes "ds \<noteq> []"
  shows "last (anchors 0 ds) = entry_of (int (length (frames (concat (butlast ds))))) (hd (last ds))"
proof -
  have "anchors 0 (butlast ds @ [last ds]) = anchors 0 ds" using assms by simp
  then show ?thesis by (metis anchors.simps(1,2) anchors_append add_0 last_snoc)
qed

lemma reopen_anchors:
  assumes "ix_holds base idx (anchors 0 ds)" and "ix_file idx \<noteq> []" and "records_ok base (concat ds)" and "[] \<notin> set ds"
  shows "\<exists>idx0 idx1. newIndex True True 0 base (ix_file idx) = Inr idx0 \<and> ix_holds base idx1 (anchors 0 ds) \<and>
     InitializePosition idx0 = Inr (idx1, if ds = [] then None else Some ((last (anchors 0 ds)) \<lparr>e_LeaderEpoch := 0\<rparr>))"
proof -
  have "\<forall>e \<in> set (anchors 0 ds). 0 < e_Size e \<and> base \<le> e_Offset e"
    using anchors_member [OF _ assms(4)] assms(3) by (fastforce simp: records_ok_def entry_of_def)
  moreover have "anchors 0 ds = [] \<longleftrightarrow> ds = []" by (cases ds) simp_all
  ultimately show ?thesis using ix_holds_reopen [OF assms(1,2)] by simp
qed

lemma setup_blocks_short:
  assumes n: "newIndex True True 0 (s_BaseOffset s) f = Inr idx0" and h1: "ix_holds (s_BaseOffset s) idx1 (anchors 0 ds)"
    and i: "InitializePosition idx0 = Inr (idx1, Some ((last (anchors 0 ds)) \<lparr>e_LeaderEpoch := 0\<rparr>))"
    and ok: "records_ok (s_BaseOffset s) (concat (ds @ es))" "[] \<notin> set ds" "ds \<noteq> []"
    and s: "s_blockMode s" "s_live s" "seg_bytes C s (ds @ es)"
  shows "\<exists>s0. setupIndexKnownEnd C io_ok True True None f s = Some (Inr s0) \<and> blk_open C s0 ds (ds @ es) \<and>
     same_log s s0"
proof -
  let ?es = "anchors 0 ds"
  have el: "ensureBlocksLoaded s = Inr s" using s(2) by (simp add: ensureBlocksLoaded_def s_live_def)
  have "?es ! 0 = entry_of 0 (hd (hd ds))" using ok(3) by (cases ds) simp_all
  moreover have "last ds \<noteq> []" "hd ds \<noteq> []" using ok(2,3) by (metis last_in_set, metis hd_in_set)
  ultimately have ne: "?es ! 0 = entry_of 0 (hd (hd ds))" "last ds \<noteq> []" "hd ds \<noteq> []" by simp_all
  have split: "ds @ es = butlast ds @ last ds # es" "butlast ds @ [last ds] = ds" using ok(3) by simp_all
  let ?f = "(?es ! 0) \<lparr>e_LeaderEpoch := 0\<rparr>" and ?l = "(last ?es) \<lparr>e_LeaderEpoch := 0\<rparr>"
  let ?s = "s \<lparr>s_Index := Some idx1, s_firstOffset := e_Offset ?f, s_firstWriteTime := e_Timestamp ?f\<rparr>"
  have lpos: "e_Position ?l = int (length (frames (concat (butlast ds))))"
    using anchors_last [OF ok(3)] by (simp add: entry_of_def)
  obtain j where "length (frames (last ds)) = Suc j" using ne(2) by (cases "last ds") (auto simp: frame_def frame_fields_def)
  moreover have "s_position s = int (length (frames (concat (butlast ds @ last ds # es))))"
    using s(3) unfolding split(1) by (simp add: seg_bytes_def)
  ultimately have over: "\<not> indexOvershootsLog ?l (s \<lparr>s_Index := Some idx1\<rparr>)"
    using s(1) lpos by (simp add: indexOvershootsLog_def)
  have rd: "ReadEntryAtFileOffset empty_entry 0 idx1 = Inr ?f"
    using ix_holds_read_file [OF h1, of 0 empty_entry] ok(3) by (simp add: empty_entry_def)
  have "seg_bytes C ?s (ds @ es)" using s(3) by (subst seg_bytes_cong [of _ s]) simp_all
  moreover have "list_all frame_ok (concat (butlast ds @ last ds # es))"
    using ok(1) unfolding split(1) by (simp add: records_ok_def)
  ultimately obtain p where lf: "lastFrameInBlock C (e_Position ?l) ?s = Some (Inr (entry_of p (last (last ds))))"
    using lastFrameInBlock_finds [of C ?s "butlast ds" "last ds" es, OF _ _ ne(2)] s(1) lpos split(1) by auto
  let ?s1 = "mark_last (entry_of p (last (last ds))) ?s"
  have "setupIndexKnownEnd C io_ok True True None f s = Some (Inr ?s1)"
    using over rd lf n i s(1) by (simp add: setupIndexKnownEnd_def el io_ok_def end_marks_def)
  moreover have "hd (concat ds) = hd (hd ds)" "concat ds \<noteq> []" "last (concat ds) = last (last ds)"
    using ne(3) ok(3) hd_concat by (blast, force, metis split(2) concat_append concat.simps append_Nil2 last_append ne(2))
  then have "ends_match ?s1 (concat ds)" by (simp only: ends_match_def mark_last_def) (simp add: ne(1) entry_of_def)
  moreover have "seg_bytes C ?s1 (ds @ es)" using s(3) by (subst seg_bytes_cong [of _ s]) (simp_all add: mark_last_def)
  ultimately show ?thesis using s(1,2) h1 by (intro exI [of _ ?s1]) (simp add: blk_open_def mark_last_def s_live_def same_log_def)
qed

lemma setup_blocks:
  assumes h: "ix_holds (s_BaseOffset s) idx (anchors 0 ds)" and nf: "ix_file idx \<noteq> []"
    and ok: "records_ok (s_BaseOffset s) (concat cs)" "[] \<notin> set cs" and okd: "records_ok (s_BaseOffset s) (concat ds)" "[] \<notin> set ds"
    and s: "s_blockMode s" "s_live s" "seg_bytes C s cs" "ends_match s []"
    and pre: "(\<exists>es. cs = ds @ es) \<or> (\<exists>c tl'. ds = cs @ c # tl') \<and> s_droppedTornTail s"
  shows "\<exists>s0 ds' es'. setupIndexKnownEnd C io_ok True True None (ix_file idx) s = Some (Inr s0) \<and>
     blk_open C s0 ds' (ds' @ es') \<and> ds' @ es' = cs \<and> same_log s s0"
proof -
  let ?base = "s_BaseOffset s" and ?es = "anchors 0 ds"
  obtain idx0 idx1 where n: "newIndex True True 0 ?base (ix_file idx) = Inr idx0" and h1: "ix_holds ?base idx1 ?es"
    and i: "InitializePosition idx0 = Inr (idx1, if ds = [] then None else Some ((last ?es) \<lparr>e_LeaderEpoch := 0\<rparr>))"
    using reopen_anchors [OF h nf okd] by blast
  have el: "ensureBlocksLoaded s = Inr s" using s(2) by (simp add: ensureBlocksLoaded_def s_live_def)
  consider (none) es where "ds = []" "cs = ds @ es" | (short) es where "ds \<noteq> []" "cs = ds @ es"
    | (long) c tl' where "ds = cs @ c # tl'" "s_droppedTornTail s" using pre by blast
  then show ?thesis
  proof cases
    case none
    let ?s = "s \<lparr>s_Index := Some idx1\<rparr>"
    have "setupIndexKnownEnd C io_ok True True None (ix_file idx) s = Some (Inr ?s)"
      using none n i by (simp add: setupIndexKnownEnd_def el io_ok_def)
    moreover have "blk_open C ?s [] ([] @ cs)"
      using s h1 none seg_bytes_cong [of ?s s C cs] by (simp add: blk_open_def s_live_def ends_match_def)
    ultimately show ?thesis by (intro exI [of _ ?s] exI [of _ "[]"] exI [of _ cs]) (simp add: same_log_def)
  next
    case (short es)
    then show ?thesis using setup_blocks_short [OF n h1 _ _ okd(2) short(1) s(1,2), of es C] i ok(1) s(3) short(2) by auto
  next
    case (long c tl')
    have ne: "ds \<noteq> []" using long(1) by simp
    let ?l = "(last ?es) \<lparr>e_LeaderEpoch := 0\<rparr>"
    have "butlast ds = cs @ butlast (c # tl')" using long(1) by (simp add: butlast_append)
    then have "indexOvershootsLog ?l (s \<lparr>s_Index := Some idx1\<rparr>)"
      using s(1,3) long(1) anchors_last [of ds] by (simp add: indexOvershootsLog_def seg_bytes_def entry_of_def)
    moreover obtain idx2 where z: "ix_reset idx1 = Inr idx2" "ix_holds ?base idx2 []" using ix_holds_reset [OF h1] by blast
    let ?s = "s \<lparr>s_Index := Some idx2, s_firstOffset := - 1, s_lastOffset := - 1, s_firstWriteTime := 0, s_lastWriteTime := 0\<rparr>"
    have "blk_open C ?s [] ([] @ cs)"
      using s z(2) seg_bytes_cong [of ?s s C cs] by (simp add: blk_open_def s_live_def ends_match_def)
    then obtain s0 where r: "reconcileIndexTail C io_ok True True (- 1) ?s = Some (Inr s0)" "blk_open C s0 cs cs" "same_log ?s s0"
      using reconcile_blocks [of C ?s "[]" cs "- 1"] ok by auto
    ultimately have "setupIndexKnownEnd C io_ok True True None (ix_file idx) s = Some (Inr s0)"
      using ne n i z(1) long(2) by (simp add: setupIndexKnownEnd_def el io_ok_def rebuildOverIndex_def rebuildIndexFromLog_def)
    then show ?thesis using r by (intro exI [of _ s0] exI [of _ cs] exI [of _ "[]"]) (simp add: same_log_def)
  qed
qed

text \<open>A block segment whose blocks a walk of its log finds.\<close>

definition blk_holds :: "codecs \<Rightarrow> segment \<Rightarrow> chunks \<Rightarrow> bool" where
  "blk_holds C s cs \<longleftrightarrow> seg_holds C s cs \<and> s_blockMode s \<and> list_all (scans C (s_backing s)) (s_blocks s)"

lemma scans_extend: "scans C log b \<Longrightarrow> scan_block C (log @ x) (int (length (log @ x))) (physStart b) (logicalStart b) = Inr (Some b)"
  unfolding scans_def by (erule scan_block_extend) simp

lemma scan_block_magic:
  assumes "scan_block C log sz 0 l = Inr (Some b)"
  shows "\<exists>z. log = blockMagic # z"
proof -
  have magic: "go_index hdr 0 = Inr blockMagic" if "parseBlockHeader hdr = Inr x" for hdr x
    using that by (auto simp: parseBlockHeader_def and_then_Inr_iff split: if_splits)
  obtain hdr where "file_ReadAt log 15 0 = Inr hdr" "go_index hdr 0 = Inr blockMagic"
    using assms magic by (cases rule: scan_block_found) blast+
  then show ?thesis by (cases log) (auto simp: file_ReadAt_def sub_def go_index_def split: if_splits)
qed

text \<open>The walk over a log cut inside the block that follows \<open>log\<close>, or at its end.\<close>

lemma initPositions_blocks:
  assumes t: "tiled 0 0 bs" "list_all (scans C log) bs" "sum_list (map physLen bs) = int (length log)"
    and blk: "scan_block C (log @ blk) (int (length (log @ blk))) (int (length log)) (sum_list (map logicalLen bs)) = Inr (Some b)"
      "physLen b = int (length blk)" "k < length blk"
    and s: "s_backing s = log @ take k blk" "s_backing s \<noteq> []" "\<not> isOffloaded s" "\<not> s_droppedTornTail s"
      "loadLocalBlockTable (s_blocksFile s) (int (length (s_backing s))) = None"
  shows "initPositions C True True True s = Inr (s \<lparr>s_physPosition := int (length log), s_blocks := bs, s_blockMode := True,
     s_backing := log, s_droppedTornTail := (0 < k), s_position := sum_list (map logicalLen bs), s_blocksWalked := int (length bs)\<rparr>)"
proof -
  let ?log = "log @ take k blk" and ?sz = "int (length (log @ take k blk))" and ?l = "sum_list (map logicalLen bs)"
  have sz: "?sz = int (length log) + int k" using blk(3) by simp
  have found: "\<forall>b \<in> set bs. scan_block C ?log ?sz (physStart b) (logicalStart b) = Inr (Some b)"
    using t(2) scans_extend [of C log _ "take k blk"] by (simp only: list_all_iff) blast
  have torn: "scan_block C ?log ?sz (int (length log)) ?l = Inr None" by (rule scan_block_torn [OF blk])
  have loop: "scan_loop C ?log ?sz 0 0 [] = Inr (bs, int (length log), ?l)"
    using scan_loop_blocks [OF t(1) found, of "[]"] t(3) torn sz by simp
  have "\<exists>z. log @ blk = blockMagic # z"
  proof (cases bs)
    case Nil
    then show ?thesis using t(3) blk(1) scan_block_magic [of C "log @ blk"] by auto
  next
    case (Cons b' bs')
    then have "scan_block C log (int (length log)) 0 0 = Inr (Some b')" using t(1,2) by (auto simp: scans_def)
    then obtain z where "log = blockMagic # z" using scan_block_magic by blast
    then show ?thesis by simp
  qed
  then obtain z where "log @ take k blk = blockMagic # z"
    using s(1,2) by (metis append_Cons append_self_conv2 append_take_drop_id append.assoc list.sel(1) neq_Nil_conv)
  then have magic: "file_ReadAt ?log 1 0 = Inr [blockMagic]" "?log \<noteq> []" by (simp_all add: file_ReadAt_def sub_def)
  have "file_truncate (int (length log)) ?log = log" by (rule cut_torn)
  then show ?thesis
    using magic loop s sz by (cases "k = 0") (simp_all add: initPositions_def scanBlocks_def discardTornTail_def isOffloaded_def Let_def)
qed

lemma length_le_frames: "length rs \<le> length (frames rs)"
  by (induction rs) simp_all

lemma WriteMessageSet_blk_holds:
  assumes "blk_holds C s cs" and "\<not> s_closed s" and "ns \<noteq> []" and ok: "records_ok (s_BaseOffset s) (concat cs @ ns)"
    and C: "codecs_ok C" "codec_Valid (s_codec s)"
  shows "\<exists>s' blk b. WriteMessageSet C io_ok (frames ns) (entries_of (s_position s) ns) s = Inr (s', None) \<and>
     blk_holds C s' (cs @ [ns]) \<and> same_shape s s' \<and> s_backing s' = s_backing s @ blk \<and> physLen b = int (length blk) \<and>
     scan_block C (s_backing s @ blk) (int (length (s_backing s @ blk))) (int (length (s_backing s))) (s_position s) = Inr (Some b)"
proof -
  let ?blk = "block_bytes C (s_codec s) (frames ns) (length ns)"
  let ?b = "block_ref C (s_codec s) (frames ns) (length ns) (s_position s) (s_physPosition s)"
  have s: "seg_holds C s cs" "s_blockMode s" "list_all (scans C (s_backing s)) (s_blocks s)"
    using assms(1) by (simp_all add: blk_holds_def)
  obtain s' where w: "WriteMessageSet C io_ok (frames ns) (entries_of (s_position s) ns) s = Inr (s', None)"
    "seg_holds C s' (cs @ [ns])" "same_shape s s'" "s_backing s' = s_backing s @ ?blk" "s_blocks s' = s_blocks s @ [?b]"
    using WriteMessageSet_blocks [OF s(1) assms(2) s(2) assms(3) ok C] by blast
  have phys: "s_physPosition s = int (length (s_backing s))" using s(1,2) by (simp add: seg_holds_def seg_bytes_def)
  have "length (frames ns) < 2 ^ 31" "length ns \<le> length (frames ns)"
    using ok length_le_frames by (simp_all add: records_ok_def)
  then have new: "scan_block C (s_backing s @ ?blk) (int (length (s_backing s @ ?blk))) (int (length (s_backing s))) (s_position s) =
      Inr (Some ?b)"
    unfolding phys using assms(3) by (intro scan_new_block [OF C(2)]) simp_all
  moreover have "physStart ?b = int (length (s_backing s))" "logicalStart ?b = s_position s" "physLen ?b = int (length ?blk)"
    by (simp_all add: block_ref_def phys)
  moreover have "list_all (scans C (s_backing s @ ?blk)) (s_blocks s)"
    using s(3) scans_extend [of C "s_backing s" _ ?blk] by (simp add: list_all_iff scans_def)
  ultimately have "list_all (scans C (s_backing s')) (s_blocks s')" by (simp add: w(4,5)) (simp add: scans_def)
  then have "blk_holds C s' (cs @ [ns])" using w s(2) by (simp add: blk_holds_def same_shape_def)
  then show ?thesis using w new \<open>physLen ?b = int (length ?blk)\<close> by blast
qed

lemma newSegmentWith_walk:
  assumes h: "blk_holds C s cs"
    and blk: "scan_block C (s_backing s @ blk) (int (length (s_backing s @ blk))) (int (length (s_backing s))) (s_position s) = Inr (Some b)"
      "physLen b = int (length blk)" "k < length blk" "s_backing s @ take k blk \<noteq> []"
    and tbl: "loadLocalBlockTable blocksfile (int (length (s_backing s @ take k blk))) = None"
  shows "\<exists>t. (\<forall>f. newSegmentWith C io_ok True True True table_ok (s_BaseOffset s) maxBytes False codec format
       (Some (s_backing s @ take k blk)) blocksfile f = setupIndexKnownEnd C io_ok True True None f t) \<and>
     s_BaseOffset t = s_BaseOffset s \<and> s_blockMode t \<and> s_live t \<and> ends_match t [] \<and> s_droppedTornTail t = (0 < k) \<and>
     same_log s t \<and> seg_bytes C t cs"
proof -
  let ?log = "s_backing s"
  have s: "seg_holds C s cs" "s_blockMode s" "list_all (scans C ?log) (s_blocks s)" using h by (simp_all add: blk_holds_def)
  have sb: "seg_bytes C s cs" "tiled 0 0 (s_blocks s)" "sum_list (map physLen (s_blocks s)) = int (length ?log)"
    "list_all2 (decodes_to C s) (s_blocks s) (map frames cs)" "s_position s = int (length (frames (concat cs)))"
    "s_physPosition s = int (length ?log)" "\<not> s_blocksPending s"
    using s(1,2) by (simp_all add: seg_holds_def seg_bytes_def)
  have l: "sum_list (map logicalLen (s_blocks s)) = s_position s"
    using decodes_to_logical [OF sb(4)] sb(5) by (simp add: concat_map_frames)
  define e where "e = (emptySegment (s_BaseOffset s) maxBytes codec) \<lparr>s_format := format, s_dirtyData := True, s_dirtyIndex := True,
     s_backing := ?log @ take k blk, s_blocksFile := blocksfile\<rparr>"
  define i where "i = e \<lparr>s_physPosition := int (length ?log), s_blocks := s_blocks s, s_blockMode := True, s_backing := ?log,
     s_droppedTornTail := (0 < k), s_position := s_position s, s_blocksWalked := int (length (s_blocks s))\<rparr>"
  have e: "s_backing e = ?log @ take k blk" "\<not> isOffloaded e" "\<not> s_droppedTornTail e" "s_blocksFile e = blocksfile"
    by (simp_all add: e_def emptySegment_def isOffloaded_def)
  have init: "initPositions C True True True e = Inr i"
    using initPositions_blocks [OF sb(2) s(3) sb(3) blk(1) [folded l] blk(2,3) e(1) _ e(2,3)] l blk(4) tbl e(1,4)
    by (simp add: i_def del: append_is_Nil_conv)
  define t where "t = (if s_blocksWalked i > 0 \<and> table_ok then i \<lparr>s_blocksFile := Some (encodeBlockTable (s_blocks i))\<rparr> else i)"
  have "newSegmentWith C io_ok True True True table_ok (s_BaseOffset s) maxBytes False codec format
       (Some (?log @ take k blk)) blocksfile f = setupIndexKnownEnd C io_ok True True None f t" for f
    using init by (simp add: newSegmentWith_def e_def t_def)
  moreover have "seg_bytes C t cs"
    using sb(1) by (subst seg_bytes_cong [of _ s]) (simp_all add: t_def i_def e_def emptySegment_def s(2) sb(6,7))
  ultimately show ?thesis
    by (intro exI [of _ t]) (simp add: t_def i_def e_def emptySegment_def s_live_def ends_match_def same_log_def)
qed

lemma newSegmentWith_blocks:
  assumes h: "blk_holds C s cs"
    and blk: "scan_block C (s_backing s @ blk) (int (length (s_backing s @ blk))) (int (length (s_backing s))) (s_position s) = Inr (Some b)"
      "physLen b = int (length blk)" "k < length blk" "s_backing s @ take k blk \<noteq> []"
    and idx: "ix_holds (s_BaseOffset s) idx (anchors 0 ds)" "ix_file idx \<noteq> []"
    and okd: "records_ok (s_BaseOffset s) (concat ds)" "[] \<notin> set ds"
    and pre: "(\<exists>es. cs = ds @ es) \<or> (\<exists>c tl'. ds = cs @ c # tl') \<and> 0 < k"
    and tbl: "loadLocalBlockTable blocksfile (int (length (s_backing s @ take k blk))) = None"
  shows "\<exists>s0 ds' es'. newSegmentWith C io_ok True True True table_ok (s_BaseOffset s) maxBytes False codec format
       (Some (s_backing s @ take k blk)) blocksfile (ix_file idx) = Some (Inr s0) \<and>
     blk_open C s0 ds' (ds' @ es') \<and> ds' @ es' = cs \<and> same_log s s0"
proof -
  obtain t where new: "\<forall>f. newSegmentWith C io_ok True True True table_ok (s_BaseOffset s) maxBytes False codec format
       (Some (s_backing s @ take k blk)) blocksfile f = setupIndexKnownEnd C io_ok True True None f t"
    and t: "s_BaseOffset t = s_BaseOffset s" "s_blockMode t" "s_live t" "ends_match t []" "s_droppedTornTail t = (0 < k)"
      "same_log s t" "seg_bytes C t cs"
    using newSegmentWith_walk [OF h blk tbl] by blast
  have okc: "records_ok (s_BaseOffset s) (concat cs)" "[] \<notin> set cs" using h by (simp_all add: blk_holds_def seg_holds_def)
  show ?thesis
    using setup_blocks [of t idx ds cs C, unfolded t(1,5), OF idx okc okd t(2,3,7,4) pre] t(6) new by (auto simp: same_log_def)
qed

lemma blk_holds_fit: "blk_holds C s cs \<Longrightarrow> records_ok (s_BaseOffset s) (concat cs) \<and> [] \<notin> set cs"
  by (simp add: blk_holds_def seg_holds_def)

section \<open>Properties\<close>

text \<open>
  C4: recovery of a block-compressed segment after a crash.  Let a write be cut off after any number of its
  bytes, and let the index hold the anchors of any prefix of the blocks, the unfinished one included if bytes of it
  were written.  Opening the segment and reconciling its index terminates and succeeds: the segment holds
  exactly what it held before that write, its file is cut back to it, and its index anchors every block.
\<close>

theorem block_segment_recovers:
  assumes "blk_holds C s cs" and "\<not> s_closed s" and "ns \<noteq> []" and "records_ok (s_BaseOffset s) (concat cs @ ns)"
    and "codecs_ok C" and "codec_Valid (s_codec s)"
    and "WriteMessageSet C io_ok (frames ns) (entries_of (s_position s) ns) s = Inr (s', None)"
    and "length (s_backing s) \<le> n" and "n < length (s_backing s')" and "0 < n"
    and "ix_holds (s_BaseOffset s) idx (anchors 0 (take m (cs @ [ns])))" and "ix_file idx \<noteq> []"
    and "m \<le> length cs \<or> length (s_backing s) < n" and "loadLocalBlockTable blocksfile (int n) = None"
  shows "\<exists>s0 s1. newSegmentWith C io_ok True True True table_ok (s_BaseOffset s) maxBytes False codec format
       (Some (take n (s_backing s'))) blocksfile (ix_file idx) = Some (Inr s0) \<and>
     reconcileIndexTail C io_ok True True hw s0 = Some (Inr s1) \<and>
     blk_holds C s1 cs \<and> s_live s1 \<and> s_backing s1 = s_backing s"
proof -
  let ?log = "s_backing s" and ?ds = "take m (cs @ [ns])"
  obtain blk b where w: "s_backing s' = ?log @ blk" "physLen b = int (length blk)"
    "scan_block C (?log @ blk) (int (length (?log @ blk))) (int (length ?log)) (s_position s) = Inr (Some b)"
    using WriteMessageSet_blk_holds [OF assms(1-6)] assms(7) by auto
  define k where "k = n - length ?log"
  have k: "take n (s_backing s') = ?log @ take k blk" "k < length blk" "length (?log @ take k blk) = n" "?log @ take k blk \<noteq> []"
    using assms(8-10) w(1) by (auto simp: k_def)
  have "concat ?ds @ concat (drop m (cs @ [ns])) = concat cs @ ns"
    by (metis append_take_drop_id concat_append concat.simps append_Nil2)
  then have okd: "records_ok (s_BaseOffset s) (concat ?ds)" "[] \<notin> set ?ds"
    using records_ok_prefix assms(3,4) blk_holds_fit [OF assms(1)] by (metis, auto dest: in_set_takeD)
  have pre: "(\<exists>es. cs = ?ds @ es) \<or> (\<exists>c tl'. ?ds = cs @ c # tl') \<and> 0 < k"
  proof (cases "m \<le> length cs")
    case True
    then have "cs = ?ds @ drop m cs" by simp
    then show ?thesis by blast
  next
    case False
    then show ?thesis using assms(13) by (auto simp: k_def)
  qed
  obtain s0 ds' es' where o: "newSegmentWith C io_ok True True True table_ok (s_BaseOffset s) maxBytes False codec format
       (Some (take n (s_backing s'))) blocksfile (ix_file idx) = Some (Inr s0)" "blk_open C s0 ds' (ds' @ es')" "ds' @ es' = cs"
      "same_log s s0"
    using newSegmentWith_blocks [OF assms(1) w(3,2) k(2,4) assms(11,12) okd pre] assms(14) unfolding k(1) k(3) by blast
  obtain s1 where r: "reconcileIndexTail C io_ok True True hw s0 = Some (Inr s1)" "blk_open C s1 cs cs" "same_log s0 s1"
    using reconcile_blocks [OF o(2)] o(3,4) blk_holds_fit [OF assms(1)] by (auto simp: same_log_def)
  have "same_log s s1" using o(4) r(3) by (simp add: same_log_def)
  moreover have "blk_holds C s1 cs"
    using blk_open_holds [OF r(2)] r(2) blk_holds_fit [OF assms(1)] assms(1) \<open>same_log s s1\<close>
    by (simp add: blk_holds_def same_log_def blk_open_def)
  ultimately show ?thesis using o(1) r(1,2) by (auto simp: blk_open_def same_log_def)
qed

section \<open>An index that knows more blocks than the log\<close>

lemma tiled_logical_nonneg: "tiled l p bs \<Longrightarrow> 0 \<le> sum_list (map logicalLen bs)"
  by (induction bs arbitrary: l p) fastforce+

lemma findBlock_past:
  assumes "tiled 0 0 (s_blocks s)" and "sum_list (map logicalLen (s_blocks s)) \<le> x"
  shows "findBlock x s = None"
proof -
  have "logicalStart (s_blocks s ! i) + logicalLen (s_blocks s ! i) \<le> x" if i: "i < length (s_blocks s)" for i
  proof -
    have "tiled 0 0 (take i (s_blocks s) @ s_blocks s ! i # drop (Suc i) (s_blocks s))" using assms(1) i by (simp add: id_take_nth_drop [symmetric])
    then have "tiled (sum_list (map logicalLen (take i (s_blocks s)))) (sum_list (map physLen (take i (s_blocks s))))
        (s_blocks s ! i # drop (Suc i) (s_blocks s))" using tiled_append [of 0 0] by fastforce
    moreover have "0 \<le> sum_list (map logicalLen (drop (Suc i) (s_blocks s)))"
      using calculation tiled_logical_nonneg by auto
    moreover have "sum_list (map logicalLen (s_blocks s)) = sum_list (map logicalLen (take i (s_blocks s))) +
        logicalLen (s_blocks s ! i) + sum_list (map logicalLen (drop (Suc i) (s_blocks s)))"
      by (subst id_take_nth_drop [OF i]) simp
    ultimately show ?thesis using assms(2) by simp
  qed
  then have "sort_search (length (s_blocks s)) (\<lambda>i. logicalStart (s_blocks s ! i) + logicalLen (s_blocks s ! i) > x) = length (s_blocks s)"
    by (intro gosort.search_eqI) (meson le_less_trans linorder_not_less order_refl | simp add: linorder_not_less)+
  then show ?thesis by (simp add: findBlock_def)
qed

lemma frameOffsetAt_chunk:
  assumes "seg_bytes C s (xs @ c # ys)" "s_blockMode s" and "c \<noteq> []" and "list_all frame_ok c"
  shows "frameOffsetAt C s (int (length (frames (concat xs)))) = Some (lr_offset (hd c))"
proof -
  obtain r c' where c: "c = r # c'" "frame_ok r" using assms(3,4) by (cases c) auto
  have "sub (frames c) 0 32 = sub (frame r) 0 32" by (simp add: c(1) sub_append_left)
  then show ?thesis using block_at_chunk [OF assms(1-3)] header_fields(1) [OF c(2)] assms(2) c(1)
    by (auto simp: frameOffsetAt_def Let_def)
qed

lemma describes_longer:
  assumes h: "ix_holds (s_BaseOffset s) idx (anchors 0 (cs @ later))" and s: "seg_bytes C s cs" "s_blockMode s" "cs \<noteq> []"
    and ok: "list_all frame_ok (concat (cs @ later))" "[] \<notin> set (cs @ later)" and j: "j \<le> length later"
  shows "describes_loop C s idx (length cs + j)"
  using j
proof (induction j)
  case 0
  let ?p = "int (length (frames (concat (butlast cs))))" and ?c = "last cs"
  have sp: "cs = butlast cs @ [?c]" and cne: "?c \<noteq> []" using s(3) ok(2) by (simp, metis Un_iff last_in_set set_append)
  then obtain r c' where c: "?c = r # c'" by (cases ?c) auto
  have fok: "list_all frame_ok ?c" using ok(1) sp by (metis concat_append concat.simps append_Nil2 list_all_append)
  obtain n where n: "length cs = Suc n" using s(3) by (cases cs) auto
  have nth: "anchors 0 (cs @ later) ! n = entry_of ?p r"
    using anchors_nth [of n "cs @ later" 0] n c last_conv_nth [OF s(3)] by (simp add: nth_append butlast_conv_take)
  have "ReadEntryAtFileOffset empty_entry (int n * 20) idx = Inr ((entry_of ?p r) \<lparr>e_LeaderEpoch := 0\<rparr>)"
    using ix_holds_read_file [OF h, of n empty_entry] n nth by (simp add: empty_entry_def)
  moreover have "s_position s = int (length (frames (concat (butlast cs @ [?c]))))" using s(1) sp by (simp add: seg_bytes_def)
  then have "\<not> ?p + int (length (frame r)) > s_position s" using c by simp
  moreover have "frameOffsetAt C s ?p = Some (lr_offset r)"
    using frameOffsetAt_chunk [of C s "butlast cs" ?c "[]", OF _ s(2) cne fok] s(1) sp c by simp
  ultimately show ?case by (simp add: n entry_of_def)
next
  case (Suc j)
  have nth: "anchors 0 (cs @ later) ! (length cs + j) =
      entry_of (int (length (frames (concat cs))) + int (length (frames (concat (take j later))))) (hd (later ! j))"
    using anchors_nth [of "length cs + j" "cs @ later" 0] Suc.prems by (simp add: nth_append)
  have "ReadEntryAtFileOffset empty_entry (int (length cs + j) * 20) idx = Inr ((anchors 0 (cs @ later) ! (length cs + j)) \<lparr>e_LeaderEpoch := 0\<rparr>)"
    using ix_holds_read_file [OF h, of "length cs + j" empty_entry] Suc.prems by (simp add: empty_entry_def)
  moreover have "s_position s = int (length (frames (concat cs)))" using s(1) by (simp add: seg_bytes_def)
  ultimately show ?case using Suc by (simp add: nth entry_of_def)
qed

lemma blk_backing_nonempty:
  assumes "blk_holds C s cs" and "cs \<noteq> []"
  shows "s_backing s \<noteq> []"
proof -
  have t: "tiled 0 0 (s_blocks s)" "list_all2 (decodes_to C s) (s_blocks s) (map frames cs)"
    "sum_list (map physLen (s_blocks s)) = int (length (s_backing s))"
    using assms(1) by (simp_all add: blk_holds_def seg_holds_def seg_bytes_def)
  then obtain b bs where "s_blocks s = b # bs" using assms(2) by (cases "s_blocks s") auto
  then have "0 < int (length (s_backing s))" using t(1,3) tiled_phys_nonneg [of "logicalLen b" "physLen b" bs] by auto
  then show ?thesis by auto
qed

text \<open>
  C27: a block segment whose log ends at a block boundary before the last block its index anchors cannot be opened.
  The index still describes the blocks that are there, so it is kept and not rebuilt; the last anchor then points past
  the log, and opening fails with the corrupt-index error.
\<close>

theorem block_index_ahead_refused:
  assumes "blk_holds C s cs" and "cs \<noteq> []" and "ix_holds (s_BaseOffset s) idx (anchors 0 (cs @ later))" and "later \<noteq> []"
    and "ix_file idx \<noteq> []" and "records_ok (s_BaseOffset s) (concat (cs @ later))" and "[] \<notin> set later"
    and "loadLocalBlockTable blocksfile (int (length (s_backing s))) = None"
  shows "newSegmentWith C io_ok True True True table_ok (s_BaseOffset s) maxBytes False codec format
     (Some (s_backing s)) blocksfile (ix_file idx) = Some (Inl ErrIndexCorrupt)"
proof -
  let ?cs = "cs @ later" and ?es = "anchors 0 (cs @ later)"
  have c: "seg_holds C s cs" "list_all frame_ok (concat ?cs)" "[] \<notin> set ?cs"
    using assms(1,6,7) blk_holds_fit [OF assms(1)] by (auto simp: blk_holds_def records_ok_def)
  let ?blk = "block_bytes C None_codec [0] 1"
  have "codec_Valid None_codec" by (simp add: codec_Valid_def None_codec_def)
  then have sc: "scan_block C (s_backing s @ ?blk) (int (length (s_backing s @ ?blk))) (int (length (s_backing s))) (s_position s) =
      Inr (Some (block_ref C None_codec [0] 1 (s_position s) (int (length (s_backing s)))))"
    by (rule scan_new_block) simp_all
  have ref: "physLen (block_ref C None_codec [0] 1 (s_position s) (int (length (s_backing s)))) = int (length ?blk)" "0 < length ?blk"
    by (simp_all add: block_ref_def block_bytes_def encodeBlockHeader_def split: prod.split)
  have "s_backing s \<noteq> []" using assms(1,2) by (rule blk_backing_nonempty)
  then obtain t where new: "newSegmentWith C io_ok True True True table_ok (s_BaseOffset s) maxBytes False codec format
       (Some (s_backing s)) blocksfile (ix_file idx) = setupIndexKnownEnd C io_ok True True None (ix_file idx) t"
    and t: "s_BaseOffset t = s_BaseOffset s" "s_blockMode t" "s_live t" "\<not> s_droppedTornTail t" "seg_bytes C t cs"
    using newSegmentWith_walk [OF assms(1) sc ref, of blocksfile table_ok maxBytes codec format] assms(8) by auto
  have el: "ensureBlocksLoaded t = Inr t" using t(3) by (simp add: ensureBlocksLoaded_def s_live_def)
  obtain idx0 idx1 where n: "newIndex True True 0 (s_BaseOffset s) (ix_file idx) = Inr idx0" and h1: "ix_holds (s_BaseOffset t) idx1 ?es"
    and i: "InitializePosition idx0 = Inr (idx1, Some ((last ?es) \<lparr>e_LeaderEpoch := 0\<rparr>))"
    using reopen_anchors [OF assms(3,5,6) c(3)] assms(2) t(1) by auto
  have bl: "butlast ?cs = cs @ butlast later" "?cs \<noteq> []" using assms(2,4) by (simp_all add: butlast_append)
  have pos: "s_position t = int (length (frames (concat cs)))" "tiled 0 0 (s_blocks t)"
    "sum_list (map logicalLen (s_blocks t)) = s_position t"
    using t(2,5) decodes_to_logical by (fastforce simp: seg_bytes_def concat_map_frames)+
  let ?l = "(last ?es) \<lparr>e_LeaderEpoch := 0\<rparr>"
  have past: "s_position t \<le> e_Position ?l" using anchors_last [OF bl(2)] bl(1) pos(1) by (simp add: entry_of_def)
  let ?t = "t \<lparr>s_Index := Some idx1\<rparr>"
  have "seg_bytes C ?t cs" using t(5) by (subst seg_bytes_cong [of _ t]) simp_all
  then have "describes_loop C ?t idx1 (length cs + length later)"
    using h1 t(2) assms(2) c(2,3) by (intro describes_longer [of ?t idx1 cs later]) simp_all
  then have keep: "\<not> rebuildOverIndex C idx1 ?t"
    using t(2,4) ix_holds_count [OF h1] by (simp add: rebuildOverIndex_def indexDescribesLog_def nat_add_distrib)
  obtain e0 where rd: "ReadEntryAtFileOffset empty_entry 0 idx1 = Inr e0"
    using ix_holds_read_file [OF h1, of 0 empty_entry] assms(2) by auto
  have "lastFrameInBlock C (e_Position ?l) s1 = Some (Inl ErrIndexCorrupt)" if "s_blocks s1 = s_blocks t" for s1
    using findBlock_past [of s1 "e_Position ?l"] past pos that by (simp add: lastFrameInBlock_def)
  then show ?thesis using keep rd n i t(1,2) unfolding new
    by (simp add: setupIndexKnownEnd_def el io_ok_def end_marks_def)
qed

section \<open>A sample\<close>

definition sample_next :: "logrec list" where
  "sample_next = [\<lparr>lr_offset = 110, lr_timestamp = 12, lr_epoch = 2, lr_payload = [5]\<rparr>]"

lemma sample_blk_holds:
  "blk_holds raw_codecs (sample_segment True) [sample_logrecs]" "length (s_backing (sample_segment True)) = 82"
  "s_BaseOffset (sample_segment True) = 100" "codec_Valid (s_codec (sample_segment True))" "\<not> s_closed (sample_segment True)"
proof -
  let ?f = "fresh_segment True"
  have f: "blk_holds raw_codecs ?f []" using fresh_segment_holds
    by (simp add: blk_holds_def) (simp add: fresh_segment_def emptySegment_def)
  have cd: "codec_Valid (s_codec ?f)" "\<not> s_closed ?f" "s_BaseOffset ?f = 100" "s_blockMode ?f" "s_backing ?f = []" "s_position ?f = 0"
    by (simp_all add: fresh_segment_def emptySegment_def codec_Valid_def Snappy_def Zstd_def)
  have ne: "sample_logrecs \<noteq> []" and len: "length (frames sample_logrecs) = 67" by (simp_all add: sample_logrecs_def)
  have ok: "records_ok (s_BaseOffset ?f) (concat [] @ sample_logrecs)" using sample_logrecs_ok cd(3) by simp
  obtain s' where w: "WriteMessageSet raw_codecs io_ok (frames sample_logrecs) (entries_of (s_position ?f) sample_logrecs) ?f = Inr (s', None)"
    "same_shape ?f s'" "s_backing s' = s_backing ?f @ block_bytes raw_codecs (s_codec ?f) (frames sample_logrecs) (length sample_logrecs)"
    using WriteMessageSet_blocks [OF _ cd(2,4) ne ok sample_ok(1) cd(1)] f by (auto simp: blk_holds_def)
  have s': "sample_segment True = s'" using w(1) cd(6) by (simp add: sample_segment_def)
  show "blk_holds raw_codecs (sample_segment True) [sample_logrecs]"
    using WriteMessageSet_blk_holds [OF f cd(2) ne ok sample_ok(1) cd(1)] w(1) s' by auto
  show "length (s_backing (sample_segment True)) = 82"
    using w(3) len by (simp add: s' cd(5) block_bytes_def block_payload_def)
  show "s_BaseOffset (sample_segment True) = 100" "codec_Valid (s_codec (sample_segment True))" "\<not> s_closed (sample_segment True)"
    using w(2) cd unfolding s' by (simp_all add: same_shape_def)
qed

lemma sample_next_ok:
  "records_ok 100 (concat [sample_logrecs] @ sample_next)" "list_all (entry_fits 100) (anchors 0 ([sample_logrecs] @ [sample_next]))"
  by (simp_all add: sample_logrecs_def sample_next_def records_ok_def frame_ok_def entry_of_def entry_fits_def)

theorem block_segment_recovers_witness:
  "\<exists>s' s0 s1. WriteMessageSet raw_codecs io_ok (frames sample_next) (entries_of (s_position (sample_segment True)) sample_next)
       (sample_segment True) = Inr (s', None) \<and>
     newSegmentWith raw_codecs io_ok True True True True 100 1000 False Snappy BlockFormatVersion
       (Some (take 100 (s_backing s'))) None (ix_file (index_of 100 (anchors 0 [sample_logrecs, sample_next]) 40)) = Some (Inr s0) \<and>
     reconcileIndexTail raw_codecs io_ok True True 103 s0 = Some (Inr s1) \<and> blk_holds raw_codecs s1 [sample_logrecs]"
proof -
  let ?s = "sample_segment True" and ?i = "index_of 100 (anchors 0 [sample_logrecs, sample_next]) 40"
  have ne: "sample_next \<noteq> []" and len: "length (frames sample_next) = 33" by (simp_all add: sample_next_def)
  have ok: "records_ok (s_BaseOffset ?s) (concat [sample_logrecs] @ sample_next)" using sample_next_ok(1) sample_blk_holds(3) by simp
  obtain s' where w: "WriteMessageSet raw_codecs io_ok (frames sample_next) (entries_of (s_position ?s) sample_next) ?s = Inr (s', None)"
    "s_backing s' = s_backing ?s @ block_bytes raw_codecs (s_codec ?s) (frames sample_next) (length sample_next)"
    using WriteMessageSet_blocks [OF _ sample_blk_holds(5) _ ne ok sample_ok(1) sample_blk_holds(4)] sample_blk_holds(1)
    by (auto simp: blk_holds_def)
  have n: "length (s_backing ?s) \<le> 100" "100 < length (s_backing s')" "length (s_backing ?s) < 100"
    using w(2) len by (simp_all add: sample_blk_holds(2) block_bytes_def block_payload_def)
  have i: "ix_holds (s_BaseOffset ?s) ?i (anchors 0 (take 2 ([sample_logrecs] @ [sample_next])))" "ix_file ?i \<noteq> []"
    using index_of_holds [OF sample_next_ok(2), of 40] sample_blk_holds(3) by (simp_all add: index_of_def)
  have l: "loadLocalBlockTable None (int 100) = None" by (simp add: loadLocalBlockTable_def)
  show ?thesis
    using block_segment_recovers [OF sample_blk_holds(1,5) ne ok sample_ok(1) sample_blk_holds(4) w(1) n(1,2) _ i _ l] n(3) w(1)
      sample_blk_holds(3) by fastforce
qed

theorem block_index_ahead_refused_witness:
  "newSegmentWith raw_codecs io_ok True True True True 100 1000 False Snappy BlockFormatVersion
     (Some (s_backing (sample_segment True))) None (ix_file (index_of 100 (anchors 0 [sample_logrecs, sample_next]) 40)) =
   Some (Inl ErrIndexCorrupt)"
proof -
  let ?s = "sample_segment True" and ?i = "index_of 100 (anchors 0 [sample_logrecs, sample_next]) 40"
  have i: "ix_holds (s_BaseOffset ?s) ?i (anchors 0 ([sample_logrecs] @ [sample_next]))" "ix_file ?i \<noteq> []"
    using index_of_holds [OF sample_next_ok(2), of 40] sample_blk_holds(3) by (simp_all add: index_of_def)
  have "records_ok (s_BaseOffset ?s) (concat ([sample_logrecs] @ [sample_next]))" "[] \<notin> set [sample_next]"
    using sample_next_ok(1) sample_blk_holds(3) by (simp_all add: sample_next_def)
  then show ?thesis
    using block_index_ahead_refused [OF sample_blk_holds(1) _ i(1) _ i(2)] sample_blk_holds(3)
    by (simp add: loadLocalBlockTable_def)
qed

end
