(* ===== verification/Delete_Cleaner.thy ===== *)
theory Delete_Cleaner
  imports Segment
begin

text \<open>
  \<^verbatim>\<open>delete_cleaner.go\<close>, \<^verbatim>\<open>tier.go\<close> and the \<^verbatim>\<open>Bound\<close> of \<^verbatim>\<open>clean.go\<close>: retention by age, messages and bytes, for the
  local segments and for each tier.

  A segment is deleted by \<^verbatim>\<open>deleteSegment\<close>; here that is a function \<open>del\<close> which answers with the error, if any.
  \<open>now\<close> is the clock \<^verbatim>\<open>computeTTL\<close> reads.  An offloaded segment is one with a tier (\<open>s_tier\<close>).
\<close>

section \<open>Bounds and tiers\<close>

text \<open>A \<^verbatim>\<open>Bound\<close>: an offset, if one was supplied.\<close>

record Bound =
  bound_off :: int
  bound_set :: bool

definition At :: "int \<Rightarrow> Bound" where
  "At off = \<lparr>bound_off = off, bound_set = True\<rparr>"

definition bound_Get :: "Bound \<Rightarrow> int \<times> bool" where
  "bound_Get b = (bound_off b, bound_set b)"

definition bound_Or :: "int \<Rightarrow> Bound \<Rightarrow> int" where
  "bound_Or fallback b = (if bound_set b then bound_off b else fallback)"

record Tier =
  t_Name :: bytes
  t_Store :: bool
  t_MaxBytes :: int
  t_MaxMessages :: int
  t_MaxAge :: int
  t_ReadOnly :: bool

fun validate_loop :: "bytes list \<Rightarrow> Tier list \<Rightarrow> err option" where
  "validate_loop seen [] = None"
| "validate_loop seen (t # ts) =
     (if t_Name t = [] then Some ErrInvalidOptions
      else if t_Name t \<in> set seen then Some ErrInvalidOptions
      else if \<not> t_Store t then Some ErrInvalidOptions
      else if t_MaxBytes t < 0 \<or> t_MaxMessages t < 0 \<or> t_MaxAge t < 0 then Some ErrInvalidOptions
      else validate_loop (t_Name t # seen) ts)"

definition validateTiers :: "Tier list \<Rightarrow> err option" where
  "validateTiers tiers = validate_loop [] tiers"

text \<open>\<^verbatim>\<open>tierByName\<close> of the log and \<^verbatim>\<open>tier\<close> of the cleaner are the same walk.\<close>

fun tierByName :: "bytes \<Rightarrow> Tier list \<Rightarrow> Tier result" where
  "tierByName name [] = Inl ErrOther"
| "tierByName name (t # ts) = (if t_Name t = name then Inr t else tierByName name ts)"

definition primaryTier :: "Tier list \<Rightarrow> Tier option" where
  "primaryTier tiers = (case tiers of [] \<Rightarrow> None | t # _ \<Rightarrow> Some t)"

section \<open>Deleting a prefix\<close>

type_synonym deletion = "segment \<Rightarrow> err option"

fun delete_loop :: "deletion \<Rightarrow> segment list \<Rightarrow> segment list \<Rightarrow> segment list \<times> err option" where
  "delete_loop del [] keep = (keep, None)"
| "delete_loop del (s # ss) keep =
     (case del s of Some e \<Rightarrow> (s # ss @ keep, Some e) | None \<Rightarrow> delete_loop del ss keep)"

definition dropOldestPrefix :: "deletion \<Rightarrow> segment list \<Rightarrow> int \<Rightarrow> int \<Rightarrow> (segment list \<times> err option) result" where
  "dropOldestPrefix del segments idx maxDrop =
     (let idx = (if idx > maxDrop then maxDrop else idx) in
      and_then (go_slice segments 0 idx) (\<lambda>dropped.
      and_then (go_from segments idx) (\<lambda>keep. Inr (delete_loop del dropped keep))))"

text \<open>The walk of \<^verbatim>\<open>deletablePrefix\<close> from the second segment on.\<close>

fun deletable_loop :: "int \<Rightarrow> int \<Rightarrow> int \<Rightarrow> segment list \<Rightarrow> int" where
  "deletable_loop f n i [] = n"
| "deletable_loop f n i (s # ss) = (if s_BaseOffset s > f then n else deletable_loop f i (i + 1) ss)"

definition deletablePrefix :: "segment list \<Rightarrow> Bound \<Rightarrow> int" where
  "deletablePrefix segments floor =
     (let (f, ok) = bound_Get floor in
      if \<not> ok then int (length segments) else deletable_loop f 0 1 (drop 1 segments))"

section \<open>Limits\<close>

record deleteCleaner =
  dc_Bytes :: int
  dc_Messages :: int
  dc_Age :: int
  dc_Tiers :: "Tier list"

definition computeTTL :: "int \<Rightarrow> int \<Rightarrow> int" where
  "computeTTL now age = now - age"

definition noRetentionLimits :: "deleteCleaner \<Rightarrow> bool" where
  "noRetentionLimits c \<longleftrightarrow> dc_Bytes c \<le> 0 \<and> dc_Messages c \<le> 0 \<and> dc_Age c \<le> 0"

definition noTierLimits :: "deleteCleaner \<Rightarrow> bool" where
  "noTierLimits c \<longleftrightarrow> list_all (\<lambda>t. \<not> (t_MaxBytes t \<noteq> 0 \<or> t_MaxMessages t \<noteq> 0 \<or> t_MaxAge t \<noteq> 0)) (dc_Tiers c)"

abbreviation (input) keepActiveSegment :: int where "keepActiveSegment \<equiv> 1"
abbreviation (input) keepNoSegment :: int where "keepNoSegment \<equiv> 0"

text \<open>
  The walk of \<^verbatim>\<open>applyTotalLimit\<close> from the newest segment back: \<open>n\<close> segments are still to be seen.  The value is
  the number of segments to drop, or \<open>None\<close>.
\<close>

fun total_loop :: "(segment \<Rightarrow> int) \<Rightarrow> int \<Rightarrow> int \<Rightarrow> segment list \<Rightarrow> int \<Rightarrow> nat \<Rightarrow> int option" where
  "total_loop meas limit keepNewest segments tot 0 = None"
| "total_loop meas limit keepNewest segments tot (Suc i) =
     (let tot = tot + meas (segments ! i) in
      if tot > limit \<and> int i < int (length segments) - keepNewest then Some (int i + 1)
      else total_loop meas limit keepNewest segments tot i)"

definition applyTotalLimit ::
  "deletion \<Rightarrow> segment list \<Rightarrow> int \<Rightarrow> (segment \<Rightarrow> int) \<Rightarrow> int \<Rightarrow> int \<Rightarrow> (segment list \<times> err option) result" where
  "applyTotalLimit del segments limit meas keepNewest maxDrop =
     (case total_loop meas limit keepNewest segments 0 (length segments) of
        Some idx \<Rightarrow> dropOldestPrefix del segments idx maxDrop
      | None \<Rightarrow> Inr (segments, None))"

fun age_loop :: "int \<Rightarrow> int \<Rightarrow> int \<Rightarrow> segment list \<Rightarrow> int" where
  "age_loop ttl n i [] = 0"
| "age_loop ttl n i (s # ss) = (if i = n - 1 \<or> s_lastWriteTime s \<ge> ttl then i else age_loop ttl n (i + 1) ss)"

definition applyAgeLimit :: "deletion \<Rightarrow> int \<Rightarrow> int \<Rightarrow> segment list \<Rightarrow> int \<Rightarrow> (segment list \<times> err option) result" where
  "applyAgeLimit del now age segments maxDrop =
     (if length segments \<le> 1 then Inr (segments, None)
      else dropOldestPrefix del segments (age_loop (computeTTL now age) (int (length segments)) 0 segments) maxDrop)"

text \<open>One limit after another; an error ends the pass with the segments that survived.\<close>

definition limit_then ::
  "bool \<Rightarrow> (segment list \<Rightarrow> (segment list \<times> err option) result) \<Rightarrow>
   (segment list \<Rightarrow> (segment list \<times> err option) result) \<Rightarrow> segment list \<Rightarrow> (segment list \<times> err option) result" where
  "limit_then on f g segments =
     (if \<not> on then g segments
      else and_then (f segments) (\<lambda>(segments, e). case e of Some e \<Rightarrow> Inr (segments, Some e) | None \<Rightarrow> g segments))"

definition cleanLocal :: "deletion \<Rightarrow> int \<Rightarrow> deleteCleaner \<Rightarrow> segment list \<Rightarrow> Bound \<Rightarrow> (segment list \<times> err option) result" where
  "cleanLocal del now c segments floor =
     limit_then (dc_Age c > 0) (\<lambda>s. applyAgeLimit del now (dc_Age c) s (deletablePrefix s floor))
       (limit_then (dc_Messages c > 0)
          (\<lambda>s. applyTotalLimit del s (dc_Messages c) messageCountLocked keepActiveSegment (deletablePrefix s floor))
          (limit_then (dc_Bytes c > 0)
             (\<lambda>s. applyTotalLimit del s (dc_Bytes c) PhysicalSize keepActiveSegment (deletablePrefix s floor))
             (\<lambda>s. Inr (s, None)))) segments"

section \<open>Tiers\<close>

record tierRun =
  tr_tier :: "bytes option"
  tr_segments :: "segment list"

fun runs_loop :: "tierRun list \<Rightarrow> segment list \<Rightarrow> tierRun list" where
  "runs_loop runs [] = runs"
| "runs_loop runs (s # ss) =
     (if runs \<noteq> [] \<and> tr_tier (last runs) = s_tier s
      then runs_loop (butlast runs @ [(last runs) \<lparr>tr_segments := tr_segments (last runs) @ [s]\<rparr>]) ss
      else runs_loop (runs @ [\<lparr>tr_tier = s_tier s, tr_segments = [s]\<rparr>]) ss)"

definition tierRuns :: "segment list \<Rightarrow> tierRun list" where
  "tierRuns segments = runs_loop [] segments"

definition flattenRuns :: "tierRun list \<Rightarrow> segment list" where
  "flattenRuns runs = concat (map tr_segments runs)"

text \<open>The prefix of segments written before the tier's age cutoff.\<close>

definition dead_prefix :: "int \<Rightarrow> segment list \<Rightarrow> int" where
  "dead_prefix ttl segments = int (length (takeWhile (\<lambda>s. \<not> s_lastWriteTime s \<ge> ttl) segments))"

definition cleanTier :: "deletion \<Rightarrow> int \<Rightarrow> segment list \<Rightarrow> Tier \<Rightarrow> int \<Rightarrow> (segment list \<times> err option) result" where
  "cleanTier del now segments tier maxTierDrop =
     and_then (if t_MaxAge tier > 0
               then dropOldestPrefix del segments (dead_prefix (computeTTL now (t_MaxAge tier)) segments) maxTierDrop
               else Inr (segments, None)) (\<lambda>(segments1, e).
     case e of Some e \<Rightarrow> Inr (segments1, Some e) | None \<Rightarrow>
       let maxTierDrop1 = maxTierDrop - (int (length segments) - int (length segments1)) in
       and_then (if t_MaxMessages tier > 0
                 then applyTotalLimit del segments1 (t_MaxMessages tier) messageCountLocked keepNoSegment maxTierDrop1
                 else Inr (segments1, None)) (\<lambda>(segments2, e).
       case e of Some e \<Rightarrow> Inr (segments2, Some e) | None \<Rightarrow>
         let maxTierDrop2 = maxTierDrop1 - (int (length segments1) - int (length segments2)) in
         if t_MaxBytes tier > 0
         then applyTotalLimit del segments2 (t_MaxBytes tier) PhysicalSize keepNoSegment maxTierDrop2
         else Inr (segments2, None)))"

text \<open>\<open>skip\<close> holds the tiers this log may not write to.\<close>

fun tiers_loop ::
  "deletion \<Rightarrow> int \<Rightarrow> Tier list \<Rightarrow> bytes list \<Rightarrow> tierRun list \<Rightarrow> int \<Rightarrow> bool \<Rightarrow> segment list \<Rightarrow> (segment list \<times> err option) result" where
  "tiers_loop del now tiers skip [] maxDrop blocked kept = Inr (kept, None)"
| "tiers_loop del now tiers skip (r # rs) maxDrop blocked kept =
     (let name = (case tr_tier r of None \<Rightarrow> [] | Some n \<Rightarrow> n) in
      if blocked \<or> name \<in> set skip then tiers_loop del now tiers skip rs maxDrop True (kept @ tr_segments r)
      else (case tierByName name tiers of
          Inl e \<Rightarrow> Inr (kept @ flattenRuns (r # rs), Some e)
        | Inr tier \<Rightarrow>
            and_then (cleanTier del now (tr_segments r) tier maxDrop) (\<lambda>(survivors, e).
              let kept = kept @ survivors;
                  maxDrop = maxDrop - (int (length (tr_segments r)) - int (length survivors)) in
              case e of
                Some e \<Rightarrow> Inr (kept @ flattenRuns rs, Some e)
              | None \<Rightarrow> tiers_loop del now tiers skip rs maxDrop (survivors \<noteq> []) kept)))"

definition cleanTiers :: "deletion \<Rightarrow> int \<Rightarrow> deleteCleaner \<Rightarrow> segment list \<Rightarrow> bytes list \<Rightarrow> int \<Rightarrow> (segment list \<times> err option) result" where
  "cleanTiers del now c segments skip maxDrop = tiers_loop del now (dc_Tiers c) skip (tierRuns segments) maxDrop False []"

fun splitOffloadedPrefix :: "segment list \<Rightarrow> segment list \<times> segment list" where
  "splitOffloadedPrefix [] = ([], [])"
| "splitOffloadedPrefix (s # ss) =
     (if \<not> isOffloaded s then ([], s # ss)
      else let (tiered, loc) = splitOffloadedPrefix ss in (s # tiered, loc))"

definition joinTiers :: "segment list \<Rightarrow> segment list \<Rightarrow> segment list" where
  "joinTiers tiered loc = tiered @ loc"

definition dc_Clean :: "deletion \<Rightarrow> int \<Rightarrow> deleteCleaner \<Rightarrow> segment list \<Rightarrow> bytes list \<Rightarrow> Bound \<Rightarrow> (segment list \<times> err option) result" where
  "dc_Clean del now c segments skip floor =
     (if segments = [] \<or> (noRetentionLimits c \<and> noTierLimits c) then Inr (segments, None)
      else let (tiered, loc) = splitOffloadedPrefix segments in
        and_then (if tiered \<noteq> [] \<and> \<not> noTierLimits c
                  then cleanTiers del now c tiered skip (min (deletablePrefix segments floor) (int (length tiered)))
                  else Inr (tiered, None)) (\<lambda>(tiered, e).
        case e of
          Some e \<Rightarrow> Inr (joinTiers tiered loc, Some e)
        | None \<Rightarrow>
            if noRetentionLimits c then Inr (joinTiers tiered loc, None)
            else and_then (cleanLocal del now c loc floor) (\<lambda>(loc, e). Inr (joinTiers tiered loc, e))))"

section \<open>What a limit leaves\<close>

text \<open>A pass over \<open>segs\<close> leaves a suffix, having dropped at most \<open>n\<close> segments.\<close>

definition drops :: "int \<Rightarrow> segment list \<Rightarrow> (segment list \<times> err option) result \<Rightarrow> bool" where
  "drops n segs r \<longleftrightarrow> (\<exists>i e. r = Inr (drop i segs, e) \<and> int i \<le> n \<and> i \<le> length segs)"

lemma drops_none: "0 \<le> n \<Longrightarrow> drops n segs (Inr (segs, e))"
  unfolding drops_def by (rule exI [of _ 0]) simp

lemma drops_mono: "drops n segs r \<Longrightarrow> n \<le> m \<Longrightarrow> drops m segs r"
  unfolding drops_def by fastforce

lemma delete_loop_suffix: "\<exists>i e. delete_loop del dropped keep = (drop i (dropped @ keep), e) \<and> i \<le> length dropped"
proof (induction dropped)
  case (Cons s ss)
  show ?case
  proof (cases "del s")
    case None
    obtain i e where "delete_loop del ss keep = (drop i (ss @ keep), e)" "i \<le> length ss" using Cons by blast
    then show ?thesis using None by (intro exI [of _ "Suc i"] exI [of _ e]) simp
  next
    case (Some e)
    then show ?thesis by (auto intro!: exI [of _ 0])
  qed
qed (auto intro: exI [of _ 0])

lemma dropOldestPrefix_drops:
  assumes "0 \<le> idx" and "0 \<le> maxDrop" and "idx \<le> int (length segs)"
  shows "drops (min idx maxDrop) segs (dropOldestPrefix del segs idx maxDrop)"
proof -
  define k where "k = nat (min idx maxDrop)"
  have k: "(if idx > maxDrop then maxDrop else idx) = int k" "k \<le> length segs" using assms by (auto simp: k_def)
  have "dropOldestPrefix del segs idx maxDrop = Inr (delete_loop del (take k segs) (drop k segs))"
    using k by (simp add: dropOldestPrefix_def Let_def go_slice_def go_from_def)
  moreover obtain i e where "delete_loop del (take k segs) (drop k segs) = (drop i segs, e)" "i \<le> k"
    using delete_loop_suffix [of del "take k segs" "drop k segs"] k(2) by auto
  ultimately show ?thesis using k assms unfolding drops_def by (intro exI [of _ i] exI [of _ e]) (auto simp: k_def)
qed

lemma total_loop_bounds:
  assumes "total_loop meas limit keep segs tot n = Some idx" and "n \<le> length segs"
  shows "0 < idx \<and> idx \<le> int n \<and> idx \<le> int (length segs) - keep"
  using assms
proof (induction n arbitrary: tot)
  case (Suc n)
  let ?t = "tot + meas (segs ! n)"
  show ?case
  proof (cases "?t > limit \<and> int n < int (length segs) - keep")
    case True
    then show ?thesis using Suc.prems by simp
  next
    case False
    then have "total_loop meas limit keep segs ?t n = Some idx" using Suc.prems(1) by (auto simp: Let_def split: if_splits)
    from Suc.IH [OF this] show ?thesis using Suc.prems(2) by simp
  qed
qed simp

lemma applyTotalLimit_drops:
  assumes "0 \<le> maxDrop" and "0 \<le> keep"
  shows "drops (min maxDrop (if segs = [] then 0 else int (length segs) - min keep (int (length segs))))  segs
     (applyTotalLimit del segs limit meas keep maxDrop)"
proof (cases "total_loop meas limit keep segs 0 (length segs)")
  case None
  then show ?thesis using assms by (simp add: applyTotalLimit_def drops_none)
next
  case (Some idx)
  have b: "0 < idx" "idx \<le> int (length segs) - keep" "idx \<le> int (length segs)" using total_loop_bounds [OF Some] by auto
  have "drops (min idx maxDrop) segs (dropOldestPrefix del segs idx maxDrop)"
    using b assms by (intro dropOldestPrefix_drops) simp_all
  then show ?thesis using Some b by (auto simp: applyTotalLimit_def elim!: drops_mono)
qed

lemma age_loop_bounds:
  "n = i + int (length segs) \<Longrightarrow> segs \<noteq> [] \<Longrightarrow> i \<le> age_loop ttl n i segs \<and> age_loop ttl n i segs < n"
proof (induction segs arbitrary: i)
  case (Cons s ss)
  then show ?case by (cases "ss = []") (auto simp: add.commute)
qed simp

lemma applyAgeLimit_drops:
  assumes "0 \<le> maxDrop"
  shows "drops (min maxDrop (if segs = [] then 0 else int (length segs) - 1)) segs (applyAgeLimit del now age segs maxDrop)"
proof (cases "length segs \<le> 1")
  case True
  then show ?thesis using assms by (cases segs) (simp_all add: applyAgeLimit_def drops_none)
next
  case False
  let ?i = "age_loop (computeTTL now age) (int (length segs)) 0 segs"
  have b: "0 \<le> ?i" "?i < int (length segs)" using age_loop_bounds [of "int (length segs)" 0 segs] False by (cases "segs = []"; simp)+
  then have "drops (min ?i maxDrop) segs (dropOldestPrefix del segs ?i maxDrop)"
    using assms by (intro dropOldestPrefix_drops) simp_all
  then show ?thesis using False b by (auto simp: applyAgeLimit_def elim!: drops_mono)
qed

section \<open>The floor\<close>

text \<open>The first \<open>n\<close> segments lie below the floor: the segment after each of them starts at or below it.\<close>

definition below :: "Bound \<Rightarrow> segment list \<Rightarrow> nat \<Rightarrow> bool" where
  "below floor segs n \<longleftrightarrow>
     (bound_set floor \<longrightarrow> (\<forall>p < n. Suc p < length segs \<and> s_BaseOffset (segs ! Suc p) \<le> bound_off floor))"

lemma deletable_loop_below:
  assumes "n = int k" and "i = n + 1" and "int (length pre) = i"
    and "\<forall>p < k. s_BaseOffset (pre ! Suc p) \<le> f"
  shows "\<exists>m. deletable_loop f n i rest = int m \<and> m < length (pre @ rest) \<and>
     (\<forall>p < m. s_BaseOffset ((pre @ rest) ! Suc p) \<le> f)"
  using assms
proof (induction rest arbitrary: n i k pre)
  case Nil
  then show ?case by (intro exI [of _ k]) auto
next
  case (Cons s ss)
  show ?case
  proof (cases "s_BaseOffset s > f")
    case True
    then show ?thesis using Cons.prems by (intro exI [of _ k]) (auto simp: nth_append)
  next
    case False
    have lp: "length pre = Suc k" using Cons.prems(1-3) by simp
    have "\<forall>p < Suc k. s_BaseOffset ((pre @ [s]) ! Suc p) \<le> f"
      using Cons.prems(4) False lp by (auto simp: nth_append less_Suc_eq)
    then have "\<exists>m. deletable_loop f i (i + 1) ss = int m \<and> m < length ((pre @ [s]) @ ss) \<and>
       (\<forall>p < m. s_BaseOffset (((pre @ [s]) @ ss) ! Suc p) \<le> f)"
      using Cons.prems by (intro Cons.IH [of i "Suc k" "i + 1" "pre @ [s]"]) simp_all
    then show ?thesis using False by simp
  qed
qed

lemma deletablePrefix_below:
  "\<exists>m. deletablePrefix segs floor = int m \<and> m \<le> length segs \<and> below floor segs m"
proof (cases segs)
  case Nil
  then show ?thesis by (cases "bound_set floor") (auto simp: deletablePrefix_def bound_Get_def below_def intro: exI [of _ 0])
next
  case (Cons s ss)
  show ?thesis
  proof (cases "bound_set floor")
    case True
    obtain m where "deletable_loop (bound_off floor) 0 1 ss = int m" "m < length ([s] @ ss)"
      "\<forall>p < m. s_BaseOffset (([s] @ ss) ! Suc p) \<le> bound_off floor"
      using deletable_loop_below [of 0 0 1 "[s]" "bound_off floor" ss] by auto
    then show ?thesis using True Cons
      by (intro exI [of _ m]) (auto simp: deletablePrefix_def bound_Get_def below_def)
  qed (simp add: deletablePrefix_def bound_Get_def below_def)
qed

lemma below_none: "below floor segs 0"
  by (simp add: below_def)

lemma below_mono: "below floor segs n \<Longrightarrow> m \<le> n \<Longrightarrow> below floor segs m"
  by (auto simp: below_def)

lemma below_drop: "below floor segs i \<Longrightarrow> below floor (drop i segs) j \<Longrightarrow> i \<le> length segs \<Longrightarrow> below floor segs (i + j)"
proof -
  assume b: "below floor segs i" "below floor (drop i segs) j" "i \<le> length segs"
  have "Suc p < length segs \<and> s_BaseOffset (segs ! Suc p) \<le> bound_off floor" if "bound_set floor" "p < i + j" for p
  proof (cases "p < i")
    case True
    then show ?thesis using b(1) that by (simp add: below_def)
  next
    case False
    then show ?thesis using b(2,3) that by (auto simp: below_def dest!: spec [of _ "p - i"])
  qed
  then show ?thesis by (simp add: below_def)
qed

section \<open>The local segments\<close>

text \<open>What local retention leaves: a suffix that keeps the newest segment and everything at or above the floor.\<close>

definition keeps :: "Bound \<Rightarrow> segment list \<Rightarrow> (segment list \<times> err option) result \<Rightarrow> bool" where
  "keeps floor segs r \<longleftrightarrow> (\<exists>i e. r = Inr (drop i segs, e) \<and> below floor segs i \<and> (segs \<noteq> [] \<longrightarrow> i < length segs) \<and> (segs = [] \<longrightarrow> i = 0))"

lemma drops_keeps:
  assumes "drops (min (deletablePrefix segs floor) (if segs = [] then 0 else int (length segs) - 1)) segs r"
  shows "keeps floor segs r"
proof -
  obtain m where m: "deletablePrefix segs floor = int m" "below floor segs m" using deletablePrefix_below by blast
  obtain i e where i: "r = Inr (drop i segs, e)" "int i \<le> int m" "int i \<le> (if segs = [] then 0 else int (length segs) - 1)"
    using assms m(1) unfolding drops_def by auto
  have "below floor segs i" using below_mono [OF m(2)] i(2) by simp
  then show ?thesis using i(1,3) unfolding keeps_def by (intro exI [of _ i] exI [of _ e]) (auto split: if_splits)
qed

lemma keeps_then:
  assumes "\<And>s. keeps floor s (f s)" and "\<And>s. keeps floor s (g s)"
  shows "keeps floor segs (limit_then on f g segs)"
proof (cases on)
  case True
  obtain i e where i: "f segs = Inr (drop i segs, e)" "below floor segs i" "segs \<noteq> [] \<longrightarrow> i < length segs" "segs = [] \<longrightarrow> i = 0"
    using assms(1) unfolding keeps_def by blast
  show ?thesis
  proof (cases e)
    case None
    obtain j e' where j: "g (drop i segs) = Inr (drop j (drop i segs), e')" "below floor (drop i segs) j"
      "drop i segs \<noteq> [] \<longrightarrow> j < length (drop i segs)" "drop i segs = [] \<longrightarrow> j = 0"
      using assms(2) unfolding keeps_def by blast
    have "below floor segs (i + j)" using i j below_drop by (cases "segs = []") auto
    then show ?thesis using True None i j unfolding keeps_def
      by (intro exI [of _ "i + j"] exI [of _ e']) (auto simp: limit_then_def add.commute)
  next
    case (Some x)
    then show ?thesis using True i unfolding keeps_def by (intro exI [of _ i] exI [of _ e]) (auto simp: limit_then_def)
  qed
qed (use assms in \<open>simp add: limit_then_def\<close>)

lemma cleanLocal_keeps: "keeps floor segs (cleanLocal del now c segs floor)"
proof -
  have nn: "0 \<le> deletablePrefix s floor" for s using deletablePrefix_below [of s floor] by auto
  have one: "(if s = [] then 0 else int (length s) - min 1 (int (length s))) = (if s = [] then 0 else int (length s) - 1)"
    for s :: "segment list" by (cases s) simp_all
  have age: "keeps floor s (applyAgeLimit del now a s (deletablePrefix s floor))" for a s
    by (rule drops_keeps [OF applyAgeLimit_drops [OF nn]])
  have tot: "keeps floor s (applyTotalLimit del s l m 1 (deletablePrefix s floor))" for l m s
    by (rule drops_keeps) (use applyTotalLimit_drops [of "deletablePrefix s floor" 1 s del l m] nn [of s] one [of s] in simp)
  have idle: "keeps floor s (Inr (s, None))" for s
    unfolding keeps_def by (rule exI [of _ 0]) (simp add: below_def)
  show ?thesis unfolding cleanLocal_def by (intro keeps_then age tot idle)
qed

section \<open>The tiered segments\<close>

lemma drops_drop:
  assumes "i \<le> length segs" and "drops (n - int i) (drop i segs) r"
  shows "drops n segs r"
proof -
  obtain j e where "r = Inr (drop j (drop i segs), e)" "int j \<le> n - int i" "j \<le> length (drop i segs)"
    using assms(2) unfolding drops_def by blast
  then show ?thesis using assms(1) unfolding drops_def by (intro exI [of _ "j + i"] exI [of _ e]) simp
qed

lemma cleanTier_drops:
  assumes "0 \<le> maxDrop"
  shows "drops maxDrop segs (cleanTier del now segs tier maxDrop)"
proof -
  let ?n = "dead_prefix (computeTTL now (t_MaxAge tier)) segs"
  have n: "0 \<le> ?n" "?n \<le> int (length segs)" by (simp_all add: dead_prefix_def length_takeWhile_le)
  have tot: "drops m s (applyTotalLimit del s l f 0 m)" if "0 \<le> m" for m s l f
    using applyTotalLimit_drops [OF that, of 0 s del l f] by (auto elim: drops_mono)
  have "drops maxDrop segs (if t_MaxAge tier > 0 then dropOldestPrefix del segs ?n maxDrop else Inr (segs, None))"
    using drops_mono [OF dropOldestPrefix_drops [OF n(1) assms n(2), of del]] drops_none [OF assms] by simp
  then obtain i e where i: "(if t_MaxAge tier > 0 then dropOldestPrefix del segs ?n maxDrop else Inr (segs, None)) = Inr (drop i segs, e)"
    "int i \<le> maxDrop" "i \<le> length segs" unfolding drops_def by blast
  show ?thesis
  proof (cases e)
    case (Some x)
    then show ?thesis using i unfolding drops_def by (intro exI [of _ i] exI [of _ e]) (simp add: cleanTier_def)
  next
    case None
    let ?s = "drop i segs" and ?m = "maxDrop - int i"
    have "drops ?m ?s (if t_MaxMessages tier > 0 then applyTotalLimit del ?s (t_MaxMessages tier) messageCountLocked 0 ?m
        else Inr (?s, None))" using tot [of ?m ?s] i(2) by (simp add: drops_none)
    then obtain j e' where j: "(if t_MaxMessages tier > 0 then applyTotalLimit del ?s (t_MaxMessages tier) messageCountLocked 0 ?m
        else Inr (?s, None)) = Inr (drop j ?s, e')" "int j \<le> ?m" "j \<le> length ?s" unfolding drops_def by blast
    have "drops ?m ?s (case e' of Some e \<Rightarrow> Inr (drop j ?s, Some e) | None \<Rightarrow>
        if t_MaxBytes tier > 0 then applyTotalLimit del (drop j ?s) (t_MaxBytes tier) PhysicalSize 0 (?m - int j) else Inr (drop j ?s, None))"
    proof (rule drops_drop [OF j(3)], cases e')
      case None
      then show "drops (?m - int j) (drop j ?s) (case e' of Some e \<Rightarrow> Inr (drop j ?s, Some e) | None \<Rightarrow>
        if t_MaxBytes tier > 0 then applyTotalLimit del (drop j ?s) (t_MaxBytes tier) PhysicalSize 0 (?m - int j) else Inr (drop j ?s, None))"
        using tot [of "?m - int j" "drop j ?s"] j(2) by (simp add: drops_none)
    qed (use j(2) in \<open>simp add: drops_none\<close>)
    moreover have len: "int (length segs) - int (length ?s) = int i" "int (length ?s) - int (length (drop j ?s)) = int j"
      using i(3) j(3) by (simp_all add: of_nat_diff)
    have "cleanTier del now segs tier maxDrop = (case e' of Some e \<Rightarrow> Inr (drop j ?s, Some e) | None \<Rightarrow>
        if t_MaxBytes tier > 0 then applyTotalLimit del (drop j ?s) (t_MaxBytes tier) PhysicalSize 0 (?m - int j) else Inr (drop j ?s, None))"
      by (simp only: cleanTier_def i(1) j(1) None and_then.simps prod.case option.case Let_def len)
    ultimately have "drops ?m ?s (cleanTier del now segs tier maxDrop)" by simp
    then show ?thesis by (rule drops_drop [OF i(3)])
  qed
qed

lemma tiers_loop_blocked: "tiers_loop del now tiers skip rs m True kept = Inr (kept @ flattenRuns rs, None)"
  by (induction rs arbitrary: kept) (simp_all add: flattenRuns_def Let_def)

lemma tiers_loop_drops:
  "0 \<le> m \<Longrightarrow> drops m (flattenRuns rs) (tiers_loop del now tiers skip rs m False [])"
proof (induction rs arbitrary: m)
  case Nil
  then show ?case by (simp add: drops_none flattenRuns_def)
next
  case (Cons r rs)
  let ?segs = "tr_segments r" and ?name = "case tr_tier r of None \<Rightarrow> [] | Some n \<Rightarrow> n"
  have fl: "flattenRuns (r # rs) = ?segs @ flattenRuns rs" by (simp add: flattenRuns_def)
  show ?case
  proof (cases "?name \<in> set skip")
    case True
    then show ?thesis using Cons.prems by (simp add: tiers_loop_blocked fl [symmetric] drops_none Let_def)
  next
    case notskip: False
    show ?thesis
    proof (cases "tierByName ?name tiers")
      case (Inl e)
      then show ?thesis using Cons.prems notskip by (simp add: drops_none Let_def)
    next
      case (Inr tier)
      obtain i e where i: "cleanTier del now ?segs tier m = Inr (drop i ?segs, e)" "int i \<le> m" "i \<le> length ?segs"
        using cleanTier_drops [OF Cons.prems, of ?segs] unfolding drops_def by blast
      have n: "int (length ?segs) - int (length (drop i ?segs)) = int i" using i(3) by (simp add: of_nat_diff)
      have "drops (m - int i) (drop i ?segs @ flattenRuns rs)
        (case e of Some e \<Rightarrow> Inr (drop i ?segs @ flattenRuns rs, Some e)
         | None \<Rightarrow> tiers_loop del now tiers skip rs (m - int i) (drop i ?segs \<noteq> []) (drop i ?segs))"
        using i(2) Cons.IH [of "m - int i"]
        by (cases e; cases "drop i ?segs = []") (auto simp: drops_none tiers_loop_blocked)
      then have "drops m (?segs @ flattenRuns rs) (case e of Some e \<Rightarrow> Inr (drop i ?segs @ flattenRuns rs, Some e)
         | None \<Rightarrow> tiers_loop del now tiers skip rs (m - int i) (drop i ?segs \<noteq> []) (drop i ?segs))"
        using i(3) by (intro drops_drop [of i "?segs @ flattenRuns rs"]) simp_all
      then show ?thesis using notskip Inr i(1) n by (simp add: fl Let_def del: drop_eq_Nil)
    qed
  qed
qed

lemma runs_loop_flatten: "flattenRuns (runs_loop runs segs) = flattenRuns runs @ segs"
proof (induction segs arbitrary: runs)
  case (Cons s ss)
  have "flattenRuns (butlast runs @ [(last runs) \<lparr>tr_segments := tr_segments (last runs) @ [s]\<rparr>]) = flattenRuns runs @ [s]"
    if "runs \<noteq> []"
    using that by (induction runs) (auto simp: flattenRuns_def)
  then show ?case using Cons by (auto simp: flattenRuns_def)
qed simp

lemma cleanTiers_drops: "0 \<le> m \<Longrightarrow> drops m segs (cleanTiers del now c segs skip m)"
  using tiers_loop_drops [of m "tierRuns segs"] runs_loop_flatten [of "[]" segs]
  by (simp add: cleanTiers_def tierRuns_def flattenRuns_def)

lemma splitOffloadedPrefix_append: "splitOffloadedPrefix segs = (tiered, loc) \<Longrightarrow> segs = tiered @ loc"
  by (induction segs arbitrary: tiered) (auto split: if_splits prod.splits)

section \<open>Properties\<close>

text \<open>
  C16: retention never tears the log.  Whatever the limits, the tiers, the read-only tiers and the deletions that
  fail, the pass returns without panicking and leaves a suffix of the tiered segments followed by a suffix of the
  local ones; no deleted segment holds a record at or above the retention floor (the segment after it starts at
  or below the floor), and the newest local segment always survives.
\<close>

theorem retention_keeps_suffixes:
  assumes "splitOffloadedPrefix segments = (tiered, loc)"
  shows "\<exists>i j e. dc_Clean del now c segments skip floor = Inr (drop i tiered @ drop j loc, e) \<and>
     i \<le> length tiered \<and> below floor segments i \<and> below floor loc j \<and> (loc \<noteq> [] \<longrightarrow> j < length loc)"
proof -
  have segs: "segments = tiered @ loc" using splitOffloadedPrefix_append [OF assms] .
  obtain m where m: "deletablePrefix segments floor = int m" "below floor segments m" using deletablePrefix_below by blast
  obtain j e' where loc: "cleanLocal del now c loc floor = Inr (drop j loc, e')" "below floor loc j" "loc \<noteq> [] \<longrightarrow> j < length loc"
    using cleanLocal_keeps unfolding keeps_def by blast
  have "drops (int m) tiered (if tiered \<noteq> [] \<and> \<not> noTierLimits c then cleanTiers del now c tiered skip (min (int m) (int (length tiered)))
      else Inr (tiered, None))"
    using drops_mono [OF cleanTiers_drops [of "min (int m) (int (length tiered))" tiered del now c skip]] by (simp add: drops_none)
  then obtain i e where i: "(if tiered \<noteq> [] \<and> \<not> noTierLimits c then cleanTiers del now c tiered skip (min (int m) (int (length tiered)))
      else Inr (tiered, None)) = Inr (drop i tiered, e)" "i \<le> m" "i \<le> length tiered" unfolding drops_def by auto
  have b: "below floor segments i" using below_mono [OF m(2) i(2)] .
  show ?thesis
  proof (cases "segments = [] \<or> (noRetentionLimits c \<and> noTierLimits c)")
    case True
    then show ?thesis using segs by (intro exI [of _ 0] exI [of _ None]) (auto simp: dc_Clean_def below_def)
  next
    case False
    have clean: "dc_Clean del now c segments skip floor = (case e of Some x \<Rightarrow> Inr (drop i tiered @ loc, Some x)
        | None \<Rightarrow> if noRetentionLimits c then Inr (drop i tiered @ loc, None) else Inr (drop i tiered @ drop j loc, e'))"
      by (simp only: dc_Clean_def False if_False assms prod.case Let_def m(1) i(1) and_then.simps joinTiers_def loc(1))
    show ?thesis
    proof (cases "e = None \<and> \<not> noRetentionLimits c")
      case True
      then show ?thesis using clean i(3) loc(2,3) b by (intro exI conjI) auto
    next
      case False
      then have "dc_Clean del now c segments skip floor = Inr (drop i tiered @ drop 0 loc, e)"
        using clean by (cases e) auto
      moreover have "loc \<noteq> [] \<longrightarrow> 0 < length loc" by simp
      ultimately show ?thesis using i(3) b below_none by blast
    qed
  qed
qed

definition no_bound :: Bound where
  "no_bound = \<lparr>bound_off = 0, bound_set = False\<rparr>"

definition sample_log :: "segment list" where
  "sample_log =
     [(emptySegment 0 100 None_codec) \<lparr>s_tier := Some [1], s_position := 50\<rparr>,
      (emptySegment 10 100 None_codec) \<lparr>s_position := 50\<rparr>,
      (emptySegment 20 100 None_codec) \<lparr>s_position := 60\<rparr>]"

definition sample_cleaner :: deleteCleaner where
  "sample_cleaner = \<lparr>dc_Bytes = 80, dc_Messages = 0, dc_Age = 0, dc_Tiers = []\<rparr>"

lemma sample_log_split:
  "splitOffloadedPrefix sample_log = ([sample_log ! 0], [sample_log ! 1, sample_log ! 2])"
  by (simp add: sample_log_def emptySegment_def isOffloaded_def)

theorem retention_keeps_suffixes_witness:
  "\<exists>i j e. dc_Clean (\<lambda>_. Some IOError) 0 sample_cleaner sample_log [] (At 15) =
       Inr (drop i [sample_log ! 0] @ drop j [sample_log ! 1, sample_log ! 2], e) \<and> j < 2"
  using retention_keeps_suffixes [OF sample_log_split, of "\<lambda>_. Some IOError" 0 sample_cleaner "[]" "At 15"] by fastforce

lemma total_loop_stops:
  assumes "n \<le> length segs"
  shows "case total_loop meas limit keep segs (sum_list (map meas (drop n segs))) n of
      Some idx \<Rightarrow> 0 < idx \<and> idx \<le> int n \<and> limit < sum_list (map meas (drop (nat idx - 1) segs)) \<and>
        (\<forall>q. nat idx \<le> q \<and> q < n \<longrightarrow> sum_list (map meas (drop q segs)) \<le> limit \<or> int (length segs) - keep \<le> int q)
    | None \<Rightarrow> \<forall>q < n. sum_list (map meas (drop q segs)) \<le> limit \<or> int (length segs) - keep \<le> int q"
  using assms
proof (induction n)
  case (Suc n)
  let ?t = "sum_list (map meas (drop n segs))"
  have t: "sum_list (map meas (drop (Suc n) segs)) + meas (segs ! n) = ?t"
    using Suc.prems Cons_nth_drop_Suc [of n segs] by (metis Suc_le_lessD add.commute list.simps(9) sum_list.Cons)
  show ?case
  proof (cases "?t > limit \<and> int n < int (length segs) - keep")
    case True
    then show ?thesis by (simp add: t Let_def nat_add_distrib)
  next
    case False
    then have "total_loop meas limit keep segs (sum_list (map meas (drop (Suc n) segs))) (Suc n) = total_loop meas limit keep segs ?t n"
      by (auto simp: t Let_def)
    then show ?thesis using Suc False by (auto simp: less_Suc_eq split: option.splits)
  qed
qed simp

text \<open>
  A total limit keeps the longest suffix that fits.  When no deletion fails and no floor intervenes, the
  survivors' total is within the limit, or only the segments that may not be dropped are left; and had one more
  segment been kept, the total would have exceeded the limit.
\<close>

theorem total_limit_keeps_longest:
  assumes "0 \<le> limit" and "0 \<le> keep"
  shows "\<exists>i. applyTotalLimit (\<lambda>_. None) segs limit meas keep (int (length segs)) = Inr (drop i segs, None) \<and> i \<le> length segs \<and>
     (sum_list (map meas (drop i segs)) \<le> limit \<or> int (length (drop i segs)) \<le> keep) \<and>
     (0 < i \<longrightarrow> limit < sum_list (map meas (drop (i - 1) segs)))"
proof -
  have del: "delete_loop (\<lambda>_. None) dropped kept = (kept, None)" for dropped kept by (induction dropped) simp_all
  let ?r = "total_loop meas limit keep segs 0 (length segs)"
  show ?thesis
  proof (cases ?r)
    case None
    then have "sum_list (map meas segs) \<le> limit \<or> int (length segs) \<le> keep"
      using total_loop_stops [of "length segs" segs meas limit keep] assms(1) by (cases segs) (auto dest: spec [of _ 0])
    then show ?thesis using None by (intro exI [of _ 0]) (simp add: applyTotalLimit_def)
  next
    case (Some idx)
    define i where "i = nat idx"
    have i: "idx = int i" "0 < i" "i \<le> length segs" "limit < sum_list (map meas (drop (i - 1) segs))"
      and le: "i < length segs \<longrightarrow> sum_list (map meas (drop i segs)) \<le> limit \<or> int (length segs) - keep \<le> int i"
      using total_loop_stops [of "length segs" segs meas limit keep] Some by (auto simp: i_def)
    have "sum_list (map meas (drop i segs)) \<le> limit \<or> int (length (drop i segs)) \<le> keep"
      using le i(3) assms(1) by (cases "i = length segs") (auto simp: of_nat_diff)
    moreover have "applyTotalLimit (\<lambda>_. None) segs limit meas keep (int (length segs)) = Inr (drop i segs, None)"
      using Some i(1,3) by (simp add: applyTotalLimit_def dropOldestPrefix_def go_slice_def go_from_def del)
    ultimately show ?thesis using i by blast
  qed
qed

theorem total_limit_keeps_longest_witness:
  "\<exists>i. applyTotalLimit (\<lambda>_. None) sample_log 80 PhysicalSize 1 3 = Inr (drop i sample_log, None) \<and> i = 2"
proof -
  have l: "length sample_log = 3" "map PhysicalSize sample_log = [50, 50, 60]"
    by (simp_all add: sample_log_def PhysicalSize_def emptySegment_def)
  obtain i where i: "applyTotalLimit (\<lambda>_. None) sample_log 80 PhysicalSize 1 3 = Inr (drop i sample_log, None)" "i \<le> 3"
    "sum_list (drop i [50, 50, 60 :: int]) \<le> 80 \<or> 3 - i \<le> Suc 0" "0 < i \<longrightarrow> 80 < sum_list (drop (i - 1) [50, 50, 60 :: int])"
    using total_limit_keeps_longest [of 80 1 sample_log PhysicalSize] by (auto simp: l drop_map [symmetric])
  have "i = 2" using i(2-4) by (auto simp: le_Suc_eq numeral_3_eq_3)
  with i(1) show ?thesis by blast
qed

text \<open>
  Local retention deletes local segments whatever the tiers still hold.  With tiered segments that no tier limit
  touches and two local segments over the byte limit, the older local segment is deleted while the older tiered
  ones stay, so its records are missing from the middle of the log.
\<close>

theorem local_retention_leaves_hole:
  assumes "splitOffloadedPrefix segments = (tiered, [a, b])" and "noTierLimits c" and "dc_Age c = 0" and "dc_Messages c = 0"
    and "0 < dc_Bytes c" and "dc_Bytes c < PhysicalSize a + PhysicalSize b"
  shows "dc_Clean (\<lambda>_. None) now c segments skip no_bound = Inr (tiered @ [b], None)"
proof -
  have ne: "segments \<noteq> []" using splitOffloadedPrefix_append [OF assms(1)] by simp
  have "\<not> noRetentionLimits c" using assms(5) by (simp add: noRetentionLimits_def)
  then show ?thesis using assms ne
    by (simp add: dc_Clean_def cleanLocal_def limit_then_def applyTotalLimit_def deletablePrefix_def bound_Get_def no_bound_def
        dropOldestPrefix_def go_slice_def go_from_def joinTiers_def numeral_2_eq_2 Let_def)
qed

theorem local_retention_leaves_hole_witness:
  "dc_Clean (\<lambda>_. None) 0 sample_cleaner sample_log [] no_bound = Inr ([sample_log ! 0, sample_log ! 2], None)"
  using local_retention_leaves_hole [OF sample_log_split, of sample_cleaner 0 "[]"]
  by (simp add: sample_cleaner_def noTierLimits_def sample_log_def PhysicalSize_def emptySegment_def)

end
