(* ===== verification/Commit_Log.thy ===== *)
theory Commit_Log
  imports Leader_Epoch Segment_Recovery
begin

text \<open>
  \<^verbatim>\<open>commitlog.go\<close> and the segment lookups of \<^verbatim>\<open>util.go\<close>: the log as a list of segments whose last one is
  active.  Appends, rolls, reads by offset and by time, the high watermark and the readers waiting on it.

  The log's locks make each operation one critical section, so an operation is a function on the log.  What the
  operating system answers is a \<open>disk\<close>; \<open>l_dir\<close> names the log files in the directory by base offset.  A segment
  pointer's replacement (\<^verbatim>\<open>current\<close>) is itself, since no cleaning pass is in flight, unless the segment has left
  the log.
\<close>

section \<open>State\<close>

record commitLog =
  l_segments :: "segment list"
  l_hw :: int
  l_hwWaiters :: "nat list"
  l_signals :: "(nat \<times> bool) list"
  l_readonly :: bool
  l_deleted :: bool
  l_closed :: bool
  l_segmentsClosed :: bool
  l_epochs :: leaderEpochCache
  l_dir :: "int list"
  l_MaxSegmentBytes :: int
  l_MaxSegmentAge :: int
  l_Compression :: Codec
  l_BlockFormat :: byte

record disk =
  dk_io :: io
  dk_size :: bool
  dk_cut :: bool
  dk_sync :: bool
  dk_table :: bool
  dk_shrink :: bool
  dk_index :: bytes
  dk_epochs :: write_outcome

definition disk_ok :: disk where
  "disk_ok = \<lparr>dk_io = io_ok, dk_size = True, dk_cut = True, dk_sync = True, dk_table = True, dk_shrink = True,
     dk_index = [], dk_epochs = Written\<rparr>"

definition activeSegment :: "commitLog \<Rightarrow> segment" where
  "activeSegment l = last (l_segments l)"

definition set_active :: "segment \<Rightarrow> commitLog \<Rightarrow> commitLog" where
  "set_active s l = l \<lparr>l_segments := butlast (l_segments l) @ [s]\<rparr>"

definition NewestOffset :: "commitLog \<Rightarrow> int" where
  "NewestOffset l = NextOffset (activeSegment l) - 1"

definition current :: "segment \<Rightarrow> segment option" where
  "current s = (if s_left s then None else Some s)"

section \<open>Finding a segment\<close>

fun find_loop :: "int \<Rightarrow> segment list \<Rightarrow> nat \<Rightarrow> segment option \<times> nat" where
  "find_loop offset [] idx = (None, idx)"
| "find_loop offset (s # ss) idx =
     (case current s of
        None \<Rightarrow> find_loop offset ss (idx + 1)
      | Some seg \<Rightarrow> if NextOffset seg \<le> offset then find_loop offset ss (idx + 1) else (Some seg, idx))"

definition findSegment :: "segment list \<Rightarrow> int \<Rightarrow> segment option \<times> nat" where
  "findSegment segments offset =
     (let idx = sort_search (length segments) (\<lambda>i. NextOffset (segments ! i) > offset) in
      find_loop offset (drop idx segments) idx)"

definition findSegmentContains :: "segment list \<Rightarrow> int \<Rightarrow> (segment \<times> bool) option" where
  "findSegmentContains segments offset =
     (case findSegment segments offset of
        (None, _) \<Rightarrow> None
      | (Some seg, _) \<Rightarrow> Some (seg, s_BaseOffset seg \<le> offset))"

definition findSegmentIndexByTimestamp :: "segment list \<Rightarrow> int \<Rightarrow> nat" where
  "findSegmentIndexByTimestamp segments timestamp =
     sort_search (length segments) (\<lambda>i. let s = segments ! i in
       if s_firstOffset s \<ge> 0 then s_firstWriteTime s > timestamp else True)"

section \<open>The high watermark and its waiters\<close>

text \<open>A waiter is a reader; \<open>l_signals\<close> lists what was sent to the readers' channels, in order.\<close>

definition notify :: "bool \<Rightarrow> commitLog \<Rightarrow> commitLog" where
  "notify v l = l \<lparr>l_signals := l_signals l @ map (\<lambda>r. (r, v)) (l_hwWaiters l), l_hwWaiters := []\<rparr>"

definition notifyHWChange :: "commitLog \<Rightarrow> commitLog" where
  "notifyHWChange l = notify False l"

definition notifyReadonly :: "commitLog \<Rightarrow> commitLog" where
  "notifyReadonly l = (if l_hw l < NewestOffset l then l else notify True l)"

definition SetHighWatermark :: "int \<Rightarrow> commitLog \<Rightarrow> commitLog" where
  "SetHighWatermark hw l = (if hw > l_hw l then notifyHWChange (l \<lparr>l_hw := hw\<rparr>) else l)"

definition OverrideHighWatermark :: "int \<Rightarrow> commitLog \<Rightarrow> commitLog" where
  "OverrideHighWatermark hw l = notifyHWChange (l \<lparr>l_hw := hw\<rparr>)"

definition waitForHW :: "nat \<Rightarrow> int \<Rightarrow> commitLog \<Rightarrow> commitLog" where
  "waitForHW r hw l =
     (if l_hw l \<noteq> hw then l \<lparr>l_signals := l_signals l @ [(r, False)]\<rparr>
      else if l_hw l \<ge> NewestOffset l \<and> l_readonly l then l \<lparr>l_signals := l_signals l @ [(r, True)]\<rparr>
      else l \<lparr>l_hwWaiters := List.insert r (l_hwWaiters l)\<rparr>)"

definition removeHWWaiter :: "nat \<Rightarrow> commitLog \<Rightarrow> commitLog" where
  "removeHWWaiter r l = l \<lparr>l_hwWaiters := remove1 r (l_hwWaiters l)\<rparr>"

definition SetReadonly :: "bool \<Rightarrow> commitLog \<Rightarrow> commitLog" where
  "SetReadonly readonly l =
     (let l = l \<lparr>l_readonly := readonly\<rparr> in if readonly then notifyReadonly l else l)"

section \<open>Rolling\<close>

text \<open>
  \<^verbatim>\<open>split\<close>.  Creating the segment leaves its log file behind even when a later step fails.  The compare-and-swap of
  the active segment cannot fail, since every caller holds the append lock.
\<close>

definition log_split :: "codecs \<Rightarrow> disk \<Rightarrow> commitLog \<Rightarrow> (commitLog \<times> err option) option" where
  "log_split C d l =
     (let offset = NewestOffset l + 1; exists = offset \<in> set (l_dir l) in
      case newSegmentWith C (dk_io d) (dk_size d) (dk_cut d) (dk_sync d) (dk_table d) offset (l_MaxSegmentBytes l) True
             (l_Compression l) (l_BlockFormat l) (if exists then Some [] else None) None (dk_index d) of
        None \<Rightarrow> None
      | Some (Inl e) \<Rightarrow> Some (if exists then l else l \<lparr>l_dir := offset # l_dir l\<rparr>, Some e)
      | Some (Inr s) \<Rightarrow>
          if l_segmentsClosed l then Some (l, Some ErrCommitLogClosed)
          else Some (l \<lparr>l_dir := offset # l_dir l, l_segments := l_segments l @ [s]\<rparr>, None))"

text \<open>The seal of the segment that was active before the roll.\<close>

definition seal_previous :: "disk \<Rightarrow> commitLog \<Rightarrow> commitLog" where
  "seal_previous d l =
     (let ss = l_segments l; n = length ss in
      if n < 2 then l else l \<lparr>l_segments := ss [n - 2 := seal (dk_shrink d) (dk_sync d) (dk_table d) (ss ! (n - 2))]\<rparr>)"

partial_function (option) checkAndPerformSplit ::
  "codecs \<Rightarrow> disk \<Rightarrow> int \<Rightarrow> commitLog \<Rightarrow> (commitLog \<times> bool result) option" where
  "checkAndPerformSplit C d now l =
     (if \<not> CheckSplit now (l_MaxSegmentAge l) (activeSegment l) then Some (l, Inr False)
      else (case log_split C d l of
          None \<Rightarrow> None
        | Some (l', Some e) \<Rightarrow> if e = ErrSegmentExists then checkAndPerformSplit C d now l' else Some (l', Inl e)
        | Some (l', None) \<Rightarrow> Some (seal_previous d l', Inr True)))"

section \<open>Appending\<close>

text \<open>The epochs of the written entries; \<open>prev\<close> is the offset before the next entry's.\<close>

fun epoch_loop ::
  "write_outcome \<Rightarrow> 64 word \<Rightarrow> int \<Rightarrow> entry list \<Rightarrow> leaderEpochCache \<Rightarrow> leaderEpochCache \<times> err option" where
  "epoch_loop w lst prev [] c = (c, None)"
| "epoch_loop w lst prev (e # es) c =
     (if e_LeaderEpoch e > lst then
        (case assign w (e_LeaderEpoch e) prev c of
           (c, Some er) \<Rightarrow> (c, Some er)
         | (c, None) \<Rightarrow> epoch_loop w (e_LeaderEpoch e) (e_Offset e) es c)
      else epoch_loop w lst (e_Offset e) es c)"

definition appendWith ::
  "disk \<Rightarrow> entry list \<Rightarrow> (segment \<Rightarrow> (segment \<times> err option) result) \<Rightarrow> commitLog \<Rightarrow> commitLog \<times> int list result" where
  "appendWith d entries write l =
     (let segment = activeSegment l; tailBeforeBatch = NextOffset segment - 1 in
      case write segment of
        Inl e \<Rightarrow> (l, Inl e)
      | Inr (s, Some e) \<Rightarrow> (set_active s l, Inl e)
      | Inr (s, None) \<Rightarrow>
          let l = set_active s l;
              (c, e) = epoch_loop (dk_epochs d) (LastLeaderEpoch (l_epochs l)) tailBeforeBatch entries (l_epochs l);
              l = l \<lparr>l_epochs := c\<rparr> in
          (case e of
             Some e \<Rightarrow> (l, Inl e)
           | None \<Rightarrow>
               (if entries \<noteq> [] \<and> l_hw l \<ge> e_Offset (hd entries) then notifyHWChange l else l,
                Inr (map e_Offset entries))))"

definition log_append :: "codecs \<Rightarrow> disk \<Rightarrow> bytes \<Rightarrow> entry list \<Rightarrow> commitLog \<Rightarrow> commitLog \<times> int list result" where
  "log_append C d ms entries l = appendWith d entries (WriteMessageSet C (dk_io d) ms entries) l"

definition stamp :: "int \<Rightarrow> Message \<Rightarrow> Message" where
  "stamp now m = (if Timestamp m = 0 then m \<lparr>Timestamp := now\<rparr> else m)"

definition Append :: "codecs \<Rightarrow> disk \<Rightarrow> int \<Rightarrow> Message list \<Rightarrow> commitLog \<Rightarrow> (commitLog \<times> int list result) option" where
  "Append C d now msgs l =
     (if l_readonly l then Some (l, Inl ErrCommitLogReadonly)
      else let msgs = map (stamp now) msgs in
        (case checkAndPerformSplit C d now l of
           None \<Rightarrow> None
         | Some (l, Inl e) \<Rightarrow> Some (l, Inl e)
         | Some (l, Inr _) \<Rightarrow>
             let segment = activeSegment l in
             (case newMessageSetFromProto (NextOffset segment) (s_position segment) msgs of
                Inl e \<Rightarrow> Some (l, Inl e)
              | Inr (ms, entries) \<Rightarrow> Some (log_append C d ms entries l))))"

text \<open>\<^verbatim>\<open>checkAppendedSet\<close>: whole frames only, ascending from above the log's newest offset.\<close>

definition checkAppendedSet :: "int \<Rightarrow> entry list \<Rightarrow> int \<Rightarrow> err option" where
  "checkAppendedSet tail entries setLen =
     (if entries = [] then Some ErrMessageSetRefused
      else if e_Offset (hd entries) \<le> tail then Some ErrMessageSetRefused
      else if list_ex (\<lambda>i. e_Offset (entries ! i) \<le> e_Offset (entries ! (i - 1))) [1..<length entries]
      then Some ErrMessageSetRefused
      else let lst = last entries in
        if e_Position lst + e_Size lst - e_Position (hd entries) \<noteq> setLen then Some ErrMessageSetRefused else None)"

definition AppendMessageSet :: "codecs \<Rightarrow> disk \<Rightarrow> int \<Rightarrow> bytes \<Rightarrow> commitLog \<Rightarrow> (commitLog \<times> int list result) option" where
  "AppendMessageSet C d now ms l =
     (case checkAndPerformSplit C d now l of
        None \<Rightarrow> None
      | Some (l, Inl e) \<Rightarrow> Some (l, Inl e)
      | Some (l, Inr _) \<Rightarrow>
          let segment = activeSegment l in
          (case entriesForMessageSet (s_position segment) ms of
             Inl e \<Rightarrow> Some (l, Inl e)
           | Inr entries \<Rightarrow>
               (case checkAppendedSet (NextOffset segment - 1) entries (int (length ms)) of
                  Some e \<Rightarrow> Some (l, Inl e)
                | None \<Rightarrow> Some (log_append C d ms entries l))))"

text \<open>A new leader's epoch starts after the newest record.\<close>

definition NewLeaderEpoch :: "write_outcome \<Rightarrow> 64 word \<Rightarrow> commitLog \<Rightarrow> commitLog \<times> err option" where
  "NewLeaderEpoch w epoch l =
     (case assign w epoch (NewestOffset l) (l_epochs l) of (c, e) \<Rightarrow> (l \<lparr>l_epochs := c\<rparr>, e))"

definition log_LastOffsetForLeaderEpoch :: "64 word option \<Rightarrow> commitLog \<Rightarrow> int result" where
  "log_LastOffsetForLeaderEpoch epoch l =
     (case epoch of
        None \<Rightarrow> Inl ErrUnknownLeaderEpoch
      | Some e \<Rightarrow>
          (case LastOffsetForLeaderEpoch e (l_epochs l) of
             (offset, found) \<Rightarrow> Inr (if found then offset else NextOffset (activeSegment l) - 1)))"

section \<open>Reading\<close>

definition segmentSwapped :: "err \<Rightarrow> bool" where
  "segmentSwapped e \<longleftrightarrow> e = ErrSegmentClosed \<or> e = ErrSegmentReplaced"

lemma Scan_advances:
  assumes "Scan C s pos = Inr (m, e, pos')"
  shows "pos < pos' \<and> pos' \<le> s_position s"
proof -
  have "ensureBlocksLoaded t = Inr t' \<Longrightarrow> s_position t' = s_position t" for t t'
    by (auto simp: ensureBlocksLoaded_def and_then_Inr_iff split: if_splits)
  then show ?thesis using assms
    by (auto simp: Scan_def scanReadAt_def and_then_Inr_iff header_entry_def split: if_splits prod.splits)
qed

text \<open>The loop of \<^verbatim>\<open>readMessageSetFrom\<close>: the bytes collected, and the error that ended it, if one did.\<close>

function read_frames :: "codecs \<Rightarrow> segment \<Rightarrow> int \<Rightarrow> bytes \<Rightarrow> int \<Rightarrow> bytes \<times> err option" where
  "read_frames C s maxBytes out pos =
     (case Scan C s pos of
        Inl e \<Rightarrow> (out, Some e)
      | Inr (ms, _, pos') \<Rightarrow>
          if out \<noteq> [] \<and> int (length out) + int (length ms) > maxBytes then (out, None)
          else if int (length (out @ ms)) \<ge> maxBytes then (out @ ms, None)
          else read_frames C s maxBytes (out @ ms) pos')"
  by pat_completeness auto
termination
  by (relation "measure (\<lambda>(_, s, _, _, pos). nat (s_position s - pos))")
     (auto dest!: Scan_advances)

declare read_frames.simps [simp del]

definition readMessageSetFrom :: "codecs \<Rightarrow> segment \<Rightarrow> bool \<Rightarrow> int \<Rightarrow> int \<Rightarrow> bytes result option" where
  "readMessageSetFrom C seg contains offset maxBytes =
     (case (if contains then map_option (map_sum id e_Position) (findEntry C offset seg) else Some (Inr 0)) of
        None \<Rightarrow> None
      | Some (Inl e) \<Rightarrow> Some (Inl e)
      | Some (Inr start) \<Rightarrow>
          Some (case read_frames C seg maxBytes [] start of
             (out, None) \<Rightarrow> Inr out
           | (out, Some e) \<Rightarrow>
               if e = GoPanic then Inl GoPanic
               else if segmentSwapped e \<and> out = [] then Inl e
               else if e \<noteq> EOF \<and> out = [] then Inl ErrSegmentUnreadable
               else Inr out))"

definition readMessageSetOnce :: "codecs \<Rightarrow> int \<Rightarrow> int \<Rightarrow> commitLog \<Rightarrow> bytes result option" where
  "readMessageSetOnce C offset maxBytes l =
     (case findSegmentContains (l_segments l) offset of
        None \<Rightarrow> Some (Inl ErrSegmentNotFound)
      | Some (seg, contains) \<Rightarrow> readMessageSetFrom C seg contains offset maxBytes)"

abbreviation (input) readerResolveAttempts :: nat where "readerResolveAttempts \<equiv> 8"

text \<open>\<^verbatim>\<open>readResolving\<close>: \<open>seen i\<close> is the log as the \<open>i\<close>-th attempt finds it.\<close>

fun readResolving :: "(nat \<Rightarrow> commitLog) \<Rightarrow> (commitLog \<Rightarrow> 'a result option) \<Rightarrow> nat \<Rightarrow> nat \<Rightarrow> 'a result option" where
  "readResolving seen attempt i 0 = Some (Inl ErrOther)"
| "readResolving seen attempt i (Suc n) =
     (case attempt (seen i) of
        Some (Inl e) \<Rightarrow>
          if e = GoPanic then Some (Inl GoPanic)
          else if l_deleted (seen i) then Some (Inl ErrCommitLogDeleted)
          else if l_closed (seen i) then Some (Inl ErrCommitLogClosed)
          else if \<not> segmentSwapped e \<or> n = 0 then Some (Inl e)
          else readResolving seen attempt (i + 1) n
      | r \<Rightarrow> r)"

definition ReadMessageSet :: "codecs \<Rightarrow> int \<Rightarrow> int \<Rightarrow> (nat \<Rightarrow> commitLog) \<Rightarrow> bytes result option" where
  "ReadMessageSet C offset maxBytes seen =
     (if maxBytes \<le> 0 then Some (Inl ErrInvalidOptions)
      else readResolving seen (readMessageSetOnce C offset maxBytes) 0 readerResolveAttempts)"

definition OldestOffset :: "commitLog \<Rightarrow> int" where
  "OldestOffset l =
     (case List.find (\<lambda>s. current s \<noteq> None) (l_segments l) of
        Some s \<Rightarrow> s_firstOffset s
      | None \<Rightarrow> s_firstOffset (last (l_segments l)))"

definition LocalBytes :: "commitLog \<Rightarrow> int" where
  "LocalBytes l = sum_list (map PhysicalSize (filter (\<lambda>s. current s \<noteq> None \<and> \<not> isOffloaded s) (l_segments l)))"

section \<open>Reading by time\<close>

text \<open>With no pass in flight a retry meets the same segment, so one attempt decides.\<close>

definition findEntryByTimestampResolving :: "codecs \<Rightarrow> segment \<Rightarrow> int \<Rightarrow> entry result option" where
  "findEntryByTimestampResolving C s timestamp =
     (case current s of
        None \<Rightarrow> Some (Inl ErrEntryNotFound)
      | Some seg \<Rightarrow> findEntryByTimestamp C timestamp seg)"

text \<open>The step back over segments whose last record is not older, and the walk forward.\<close>

fun step_back :: "segment list \<Rightarrow> int \<Rightarrow> nat \<Rightarrow> nat" where
  "step_back segments timestamp 0 = 0"
| "step_back segments timestamp (Suc at) =
     (if s_lastWriteTime (segments ! at) \<ge> timestamp then step_back segments timestamp at else Suc at)"

fun earliest_loop :: "codecs \<Rightarrow> commitLog \<Rightarrow> int \<Rightarrow> segment list \<Rightarrow> int result option" where
  "earliest_loop C l timestamp [] = Some (Inr (NextOffset (last (l_segments l))))"
| "earliest_loop C l timestamp (s # ss) =
     (case findEntryByTimestampResolving C s timestamp of
        None \<Rightarrow> None
      | Some (Inr e) \<Rightarrow> Some (Inr (e_Offset e))
      | Some (Inl e) \<Rightarrow>
          if e = GoPanic then Some (Inl GoPanic)
          else if e \<noteq> ErrEntryNotFound then
            Some (Inl (if l_deleted l then ErrCommitLogDeleted else if l_closed l then ErrCommitLogClosed else e))
          else earliest_loop C l timestamp ss)"

definition EarliestOffsetAfterTimestamp :: "codecs \<Rightarrow> int \<Rightarrow> commitLog \<Rightarrow> int result option" where
  "EarliestOffsetAfterTimestamp C timestamp l =
     (let idx = findSegmentIndexByTimestamp (l_segments l) timestamp;
          at = step_back (l_segments l) timestamp (idx - 1) in
      earliest_loop C l timestamp (drop at (l_segments l)))"

definition LatestOffsetBeforeTimestamp :: "codecs \<Rightarrow> int \<Rightarrow> commitLog \<Rightarrow> int result option" where
  "LatestOffsetBeforeTimestamp C timestamp l =
     (if timestamp < s_firstWriteTime (hd (l_segments l)) then Some (Inl ErrTimestampBeforeLog)
      else if timestamp = 2 ^ 63 - 1 then Some (Inr (s_lastOffset (last (l_segments l))))
      else (case EarliestOffsetAfterTimestamp C (timestamp + 1) l of
          Some (Inr after) \<Rightarrow> Some (Inr (after - 1))
        | r \<Rightarrow> r))"

end
