(* ===== verification/Log_Holds.thy ===== *)
theory Log_Holds
  imports Commit_Log Block_Recovery
begin

text \<open>
  What a log holds: its segments hold runs of records that follow each other by offset.  Appends extend the run,
  rolls keep it, and reads return stretches of it.
\<close>

section \<open>The records of a log\<close>

definition seg_ok :: "codecs \<Rightarrow> segment \<Rightarrow> chunks \<Rightarrow> bool" where
  "seg_ok C s cs \<longleftrightarrow> seg_holds C s cs \<and> s_live s \<and> codec_Valid (s_codec s) \<and> 0 < s_maxBytes s"

definition log_ok :: "codecs \<Rightarrow> commitLog \<Rightarrow> chunks list \<Rightarrow> bool" where
  "log_ok C l css \<longleftrightarrow> l_segments l \<noteq> [] \<and> list_all2 (seg_ok C) (l_segments l) css \<and>
     sorted_wrt (\<lambda>s t. NextOffset s \<le> s_BaseOffset t) (l_segments l) \<and>
     (\<forall>s \<in> set (butlast (l_segments l)). \<not> IsEmpty s) \<and> \<not> l_segmentsClosed l \<and>
     (\<forall>b \<in> set (l_dir l). b \<le> s_BaseOffset (activeSegment l)) \<and> codec_Valid (l_Compression l) \<and> 0 < l_MaxSegmentBytes l"

definition log_recs :: "chunks list \<Rightarrow> logrec list" where
  "log_recs css = concat (map concat css)"

lemma log_recs_simps [simp]:
  "log_recs [] = []" "log_recs (cs # css) = concat cs @ log_recs css" "log_recs (css @ dss) = log_recs css @ log_recs dss"
  by (simp_all add: log_recs_def)

lemma last_nonneg: "records_ok base rs \<Longrightarrow> rs \<noteq> [] \<Longrightarrow> 0 \<le> lr_offset (last rs) \<and> 0 \<le> lr_offset (hd rs)"
  using records_ok_nonneg [of base rs] by simp

lemma NextOffset_ends:
  "ends_match s rs \<Longrightarrow> records_ok (s_BaseOffset s) rs \<Longrightarrow>
     NextOffset s = (if rs = [] then s_BaseOffset s else lr_offset (last rs) + 1)"
  using last_nonneg [of "s_BaseOffset s" rs] by (cases "rs = []") (simp_all add: NextOffset_def ends_match_def)

lemma NextOffset_holds:
  "seg_holds C s cs \<Longrightarrow> NextOffset s = (if concat cs = [] then s_BaseOffset s else lr_offset (last (concat cs)) + 1)"
  unfolding seg_holds_def by (blast intro: NextOffset_ends)

lemma NextOffset_last: "seg_holds C s cs \<Longrightarrow> concat cs \<noteq> [] \<Longrightarrow> NextOffset s = lr_offset (last (concat cs)) + 1"
  by (simp only: NextOffset_holds if_False)

lemma IsEmpty_holds: "seg_holds C s cs \<Longrightarrow> IsEmpty s \<longleftrightarrow> concat cs = []"
proof -
  have "ends_match s rs \<Longrightarrow> records_ok (s_BaseOffset s) rs \<Longrightarrow> IsEmpty s \<longleftrightarrow> rs = []" for rs
    using last_nonneg [of "s_BaseOffset s" rs] by (cases "rs = []") (simp_all add: IsEmpty_def ends_match_def)
  then show "seg_holds C s cs \<Longrightarrow> IsEmpty s \<longleftrightarrow> concat cs = []" unfolding seg_holds_def by blast
qed

lemma records_below_next:
  assumes "ends_match s rs" and ok: "records_ok (s_BaseOffset s) rs" and r: "r \<in> set rs"
  shows "s_BaseOffset s \<le> lr_offset r \<and> lr_offset r < NextOffset s"
proof -
  obtain pre post where rs: "rs = pre @ r # post" using r by (meson split_list)
  have "lr_offset r \<le> lr_offset (last rs)"
    using sorted_offsets [OF ok] unfolding rs by (cases "post = []") (simp_all add: sorted_wrt_append less_imp_le)
  moreover have "rs \<noteq> []" using rs by simp
  ultimately show ?thesis using NextOffset_ends [OF assms(1,2)] ok r by (simp add: records_ok_def)
qed

lemma holds_bounds:
  assumes "seg_holds C s cs"
  shows "r \<in> set (concat cs) \<Longrightarrow> s_BaseOffset s \<le> lr_offset r \<and> lr_offset r < NextOffset s"
    and "s_BaseOffset s \<le> NextOffset s" and "0 \<le> s_BaseOffset s"
proof -
  define rs where "rs = concat cs"
  have h: "ends_match s rs" "records_ok (s_BaseOffset s) rs" using assms by (simp_all add: seg_holds_def rs_def)
  then show "r \<in> set (concat cs) \<Longrightarrow> s_BaseOffset s \<le> lr_offset r \<and> lr_offset r < NextOffset s"
    using records_below_next by (simp only: rs_def)
  show "0 \<le> s_BaseOffset s" using h(2) by (simp add: records_ok_def)
  show "s_BaseOffset s \<le> NextOffset s"
    using NextOffset_ends [OF h] records_below_next [OF h, of "last rs"] by (cases "rs = []") auto
qed

section \<open>Finding a segment\<close>

lemma find_loop_live:
  assumes "list_all (\<lambda>s. \<not> s_left s) ss"
  shows "find_loop offset ss idx =
     (case dropWhile (\<lambda>s. NextOffset s \<le> offset) ss of
        [] \<Rightarrow> (None, idx + length ss)
      | s # _ \<Rightarrow> (Some s, idx + length (takeWhile (\<lambda>s. NextOffset s \<le> offset) ss)))"
  using assms by (induction ss arbitrary: idx) (auto simp: current_def simp del: dropWhile_eq_Nil_conv split: list.split)

definition ascending :: "segment list \<Rightarrow> bool" where
  "ascending ss \<longleftrightarrow> sorted_wrt (\<lambda>s t. NextOffset s \<le> NextOffset t) ss"

lemma findSegment_first:
  assumes "list_all (\<lambda>s. \<not> s_left s) ss" and "ascending ss"
  shows "findSegment ss offset =
     (case dropWhile (\<lambda>s. NextOffset s \<le> offset) ss of
        [] \<Rightarrow> (None, length ss)
      | s # _ \<Rightarrow> (Some s, length (takeWhile (\<lambda>s. NextOffset s \<le> offset) ss)))"
proof -
  let ?P = "\<lambda>s. NextOffset s > offset" and ?tw = "takeWhile (\<lambda>s. NextOffset s \<le> offset) ss"
  have np: "(\<lambda>s. \<not> ?P s) = (\<lambda>s. NextOffset s \<le> offset)" by (auto simp: fun_eq_iff)
  have m: "?P (ss ! i) \<Longrightarrow> ?P (ss ! j)" if "i \<le> j" "j < length ss" for i j
  proof (cases "i = j")
    case False
    then have "NextOffset (ss ! i) \<le> NextOffset (ss ! j)"
      using assms(2) that sorted_wrt_nth_less [of _ ss i j] by (simp add: ascending_def)
    then show "?P (ss ! i) \<Longrightarrow> ?P (ss ! j)" by linarith
  qed simp
  have s: "sort_search (length ss) (\<lambda>i. ?P (ss ! i)) = length ?tw"
    using gosort.search_list_first [of ss ?P] m unfolding np by blast
  define dw where "dw = dropWhile (\<lambda>s. NextOffset s \<le> offset) ss"
  have d: "drop (length ?tw) ss = dw" by (simp add: dw_def dropWhile_eq_drop)
  have "list_all (\<lambda>s. \<not> s_left s) dw" using assms(1) by (auto simp: dw_def list_all_iff dest: set_dropWhileD)
  moreover have "dropWhile (\<lambda>s. NextOffset s \<le> offset) dw = dw" by (simp add: dw_def)
  moreover have "length ?tw + length dw = length ss" by (metis dw_def length_append takeWhile_dropWhile_id)
  moreover have "\<not> NextOffset (hd dw) \<le> offset" if "dw \<noteq> []" using hd_dropWhile that unfolding dw_def by metis
  ultimately show ?thesis
    using find_loop_live [of dw offset "length ?tw"] unfolding findSegment_def s Let_def d dw_def [symmetric]
    by (cases dw) auto
qed

section \<open>Reading\<close>

text \<open>A read that starts at a frame takes whole frames up to the byte limit, and at least one.\<close>

lemma read_frames_walk:
  assumes "open_holds C s (pre @ post)" and "list_all frame_ok post" and "\<not> s_blocksPending s"
    and "int (length out) < mx"
  shows "\<exists>n e. read_frames C s mx out (int (length (frames pre))) = (out @ frames (take n post), e) \<and>
     n \<le> length post \<and> (e = None \<or> e = Some EOF) \<and> (out = [] \<and> post \<noteq> [] \<longrightarrow> 0 < n) \<and>
     (int (length (out @ frames (take n post))) \<le> mx \<or> out = [] \<and> n = 1) \<and>
     (n = length post \<or> mx < int (length (out @ frames (take (Suc n) post))))"
  using assms
proof (induction post arbitrary: pre out)
  case Nil
  then have "Scan C s (int (length (frames pre))) = Inl EOF" using Scan_end [of C s pre] by simp
  then show ?case using Nil.prems(4) by (intro exI [of _ 0] exI [of _ "Some EOF"]) (simp add: read_frames.simps)
next
  case (Cons r post)
  let ?p = "int (length (frames pre))" and ?q = "int (length (frames (pre @ [r])))"
  have sc: "Scan C s ?p = Inr (frame r, entry_of ?p r, ?q)"
    using Scan_at [of C s pre r post] Cons.prems by simp
  have len: "frame r \<noteq> []" by (simp add: frame_def frame_fields_def)
  show ?case
  proof (cases "out \<noteq> [] \<and> int (length out) + int (length (frame r)) > mx")
    case True
    then have "read_frames C s mx out ?p = (out, None)" by (simp add: read_frames.simps [of C s mx out ?p] sc)
    then show ?thesis using True Cons.prems(4) by (intro exI [of _ 0] exI [of _ None]) simp
  next
    case False
    show ?thesis
    proof (cases "int (length (out @ frame r)) \<ge> mx")
      case big: True
      have "read_frames C s mx out ?p = (out @ frame r, None)"
        unfolding read_frames.simps [of C s mx out ?p] sc sum.case prod.case if_not_P [OF False] if_P [OF big] ..
      moreover have "post = [] \<or> mx < int (length (out @ frames (take (Suc 1) (r # post))))"
        using big by (cases post) (auto simp: frame_def frame_fields_def)
      moreover have "int (length (out @ frames (take 1 (r # post)))) \<le> mx \<or> out = []" using False by auto
      ultimately show ?thesis by (intro exI [of _ 1] exI [of _ None]) auto
    next
      case small: False
      have "read_frames C s mx out ?p = read_frames C s mx (out @ frame r) ?q"
        unfolding read_frames.simps [of C s mx out ?p] sc sum.case prod.case if_not_P [OF False] if_not_P [OF small] ..
      moreover obtain n e where "read_frames C s mx (out @ frame r) ?q = ((out @ frame r) @ frames (take n post), e)"
        "n \<le> length post" "e = None \<or> e = Some EOF"
        "int (length ((out @ frame r) @ frames (take n post))) \<le> mx \<or> out @ frame r = [] \<and> n = 1"
        "n = length post \<or> mx < int (length ((out @ frame r) @ frames (take (Suc n) post)))"
        using Cons.IH [of "pre @ [r]" "out @ frame r"] Cons.prems small by auto
      moreover have "out @ frame r \<noteq> []" using len by auto
      ultimately show ?thesis by (intro exI [of _ "Suc n"] exI [of _ e]) auto
    qed
  qed
qed

lemma readMessageSetFrom_start:
  assumes h: "seg_holds C s cs" and live: "s_live s" and mx: "0 < mx" and rs: "concat cs = pre @ r # post"
    and at: "if contains then (\<forall>x \<in> set pre. lr_offset x < offset) \<and> offset \<le> lr_offset r else pre = []"
  shows "\<exists>n. readMessageSetFrom C s contains offset mx = Some (Inr (frames (take n (r # post)))) \<and> 0 < n \<and> n \<le> length (r # post) \<and>
     (int (length (frames (take n (r # post)))) \<le> mx \<or> n = 1) \<and>
     (n = length (r # post) \<or> mx < int (length (frames (take (Suc n) (r # post)))))"
proof -
  have ok: "records_ok (s_BaseOffset s) (pre @ r # post)" using h rs by (simp add: seg_holds_def)
  have op: "open_holds C s (pre @ r # post)" "\<not> s_blocksPending s" "list_all frame_ok (r # post)"
    using h live rs ok by (auto simp: open_holds_def seg_holds_def s_live_def records_ok_def)
  have "takeWhile (\<lambda>x. \<not> offset \<le> lr_offset x) (pre @ r # post) = pre \<and>
      dropWhile (\<lambda>x. \<not> offset \<le> lr_offset x) (pre @ r # post) = r # post" if contains
    using at that takeWhile_prefix_false [of pre "\<lambda>x. offset \<le> lr_offset x" "r # post"] by (simp add: not_le)
  then have "(if contains then map_option (map_sum id e_Position) (findEntry C offset s) else Some (Inr 0)) =
      Some (Inr (int (length (frames pre))))"
    using at findEntry_first [OF h live, of offset] rs by (auto simp: first_entry_def entry_of_def)
  moreover obtain n e where "read_frames C s mx [] (int (length (frames pre))) = (frames (take n (r # post)), e)"
    and n: "n \<le> length (r # post)" "e = None \<or> e = Some EOF" "0 < n"
      "int (length (frames (take n (r # post)))) \<le> mx \<or> n = 1"
      "n = length (r # post) \<or> mx < int (length (frames (take (Suc n) (r # post))))"
    using read_frames_walk [OF op(1,3,2), of "[]" mx] mx by auto
  ultimately have "readMessageSetFrom C s contains offset mx = Some (Inr (frames (take n (r # post))))"
    unfolding readMessageSetFrom_def by (auto simp: segmentSwapped_def simp del: take_Suc_Cons)
  then show ?thesis using n by blast
qed

section \<open>Reading from the log\<close>

lemma log_ok_ascending:
  assumes "log_ok C l css"
  shows "ascending (l_segments l)" and "list_all (\<lambda>s. \<not> s_left s) (l_segments l)"
proof -
  have h: "list_all2 (seg_ok C) (l_segments l) css" and s: "sorted_wrt (\<lambda>s t. NextOffset s \<le> s_BaseOffset t) (l_segments l)"
    using assms by (simp_all add: log_ok_def)
  have "\<forall>s \<in> set (l_segments l). \<not> s_left s \<and> s_BaseOffset s \<le> NextOffset s"
    using h holds_bounds(2) by (fastforce simp: list_all2_conv_all_nth in_set_conv_nth seg_ok_def s_live_def)
  then show "list_all (\<lambda>s. \<not> s_left s) (l_segments l)" "ascending (l_segments l)"
    using s by (auto simp: list_all_iff ascending_def intro: sorted_wrt_mono_rel [rotated] order_trans)
qed

text \<open>The segment that holds the first record at or after an offset, and what comes before it.\<close>

lemma log_split_at:
  assumes ok: "log_ok C l css" and r: "r \<in> set (log_recs css)" "offset \<le> lr_offset r"
  obtains s cs dss ess where "findSegment (l_segments l) offset = (Some s, length dss)" and "css = dss @ cs # ess" and "seg_ok C s cs"
    and "\<forall>x \<in> set (log_recs dss). lr_offset x < offset" and "offset < NextOffset s" and "concat cs \<noteq> []"
proof -
  let ?P = "\<lambda>s. NextOffset s \<le> offset"
  define A B where "A = takeWhile ?P (l_segments l)" and "B = dropWhile ?P (l_segments l)"
  have segs: "l_segments l = A @ B" by (simp add: A_def B_def)
  have h: "list_all2 (seg_ok C) (A @ B) css" using ok segs by (simp add: log_ok_def)
  then obtain dss ess where c: "css = dss @ ess" "list_all2 (seg_ok C) A dss" "list_all2 (seg_ok C) B ess" "length A = length dss"
    by (auto simp: list_all2_append1)
  have below: "lr_offset x < offset" if x: "x \<in> set (log_recs dss)" for x
  proof -
    obtain ds where "ds \<in> set dss" "x \<in> set (concat ds)" using x by (auto simp: log_recs_def)
    then obtain i where i: "i < length dss" "x \<in> set (concat (dss ! i))" by (metis in_set_conv_nth)
    then have "seg_holds C (A ! i) (dss ! i)" "NextOffset (A ! i) \<le> offset"
      using c(2,4) set_takeWhileD [of "A ! i" ?P "l_segments l"] by (auto simp: list_all2_conv_all_nth seg_ok_def A_def)
    then show ?thesis using holds_bounds(1) [OF _ i(2)] by fastforce
  qed
  have rB: "r \<in> set (log_recs ess)" using r below c(1) by fastforce
  then obtain s B' cs ess' where B: "B = s # B'" "ess = cs # ess'" "seg_ok C s cs"
    using c(3) by (cases B; cases ess) auto
  have nx: "offset < NextOffset s" using B(1) hd_dropWhile [of ?P "l_segments l"] unfolding B_def [symmetric] by simp
  have "concat cs \<noteq> []"
  proof
    assume e: "concat cs = []"
    then have "IsEmpty s" using B(3) IsEmpty_holds by (auto simp: seg_ok_def)
    then have "B' = []" using ok segs B(1) by (auto simp: log_ok_def butlast_append split: if_splits)
    then show False using rB e B(2) c(3) B(1) by simp
  qed
  moreover have "findSegment (l_segments l) offset = (Some s, length dss)"
    using findSegment_first [OF log_ok_ascending(2,1) [OF ok], of offset] B(1) c(4)
    by (simp add: A_def [symmetric] B_def [symmetric])
  ultimately show thesis using that B c(1) below nx by blast
qed

lemma readMessageSetOnce_log:
  assumes ok: "log_ok C l css" and r: "r \<in> set (log_recs css)" "offset \<le> lr_offset r" and mx: "0 < mx"
  shows "\<exists>n. readMessageSetOnce C offset mx l =
       Some (Inr (frames (take n (dropWhile (\<lambda>x. lr_offset x < offset) (log_recs css))))) \<and> 0 < n \<and>
     (int (length (frames (take n (dropWhile (\<lambda>x. lr_offset x < offset) (log_recs css))))) \<le> mx \<or> n = 1)"
proof -
  obtain s cs dss ess where f: "findSegment (l_segments l) offset = (Some s, length dss)" and c: "css = dss @ cs # ess" "seg_ok C s cs"
    and below: "\<forall>x \<in> set (log_recs dss). lr_offset x < offset" and nx: "offset < NextOffset s" and ne: "concat cs \<noteq> []"
    by (rule log_split_at [OF ok r])
  have h: "seg_holds C s cs" "s_live s" using c(2) by (simp_all add: seg_ok_def)
  let ?P = "\<lambda>x. lr_offset x < offset"
  have "\<not> ?P (last (concat cs))" using NextOffset_last [OF h(1) ne] nx by linarith
  then have "dropWhile ?P (concat cs) \<noteq> []" using last_in_set [OF ne] unfolding dropWhile_eq_Nil_conv by blast
  then obtain r post where d: "dropWhile ?P (concat cs) = r # post" by (cases "dropWhile ?P (concat cs)") auto
  define pre where "pre = takeWhile ?P (concat cs)"
  have rs: "concat cs = pre @ r # post" unfolding pre_def d [symmetric] by (rule takeWhile_dropWhile_id [symmetric])
  have at: "if s_BaseOffset s \<le> offset then (\<forall>x \<in> set pre. ?P x) \<and> offset \<le> lr_offset r else pre = []"
  proof -
    have "\<forall>x \<in> set pre. ?P x" unfolding pre_def by (blast dest: set_takeWhileD)
    moreover have "\<not> ?P r" using d by (simp add: dropWhile_eq_Cons_conv)
    moreover have "pre = []" if "\<not> s_BaseOffset s \<le> offset"
    proof (cases pre)
      case (Cons x xs)
      then have "x \<in> set (concat cs)" "?P x" using rs \<open>\<forall>x \<in> set pre. ?P x\<close> by simp_all
      then show ?thesis using holds_bounds(1) [OF h(1)] that by fastforce
    qed simp
    ultimately show ?thesis by simp
  qed
  obtain n where n: "readMessageSetFrom C s (s_BaseOffset s \<le> offset) offset mx = Some (Inr (frames (take n (r # post))))" "0 < n"
    "n \<le> length (r # post)" "int (length (frames (take n (r # post)))) \<le> mx \<or> n = 1"
    using readMessageSetFrom_start [OF h mx rs at] by (elim exE conjE)
  have "dropWhile ?P (log_recs css) = (r # post) @ log_recs ess"
  proof -
    have "log_recs css = log_recs dss @ concat cs @ log_recs ess" using c(1) by simp
    also have "dropWhile ?P \<dots> = dropWhile ?P (concat cs @ log_recs ess)" using below by (intro dropWhile_append2) blast
    also have "\<dots> = dropWhile ?P (concat cs) @ log_recs ess"
      using \<open>\<not> ?P (last (concat cs))\<close> last_in_set [OF ne] by (intro dropWhile_append1)
    finally show ?thesis by (simp only: d)
  qed
  then have "take n (dropWhile ?P (log_recs css)) = take n (r # post)" using n(3) by (simp only: take_append) (simp del: take_Suc_Cons)
  then show ?thesis using n f by (intro exI [of _ n]) (simp add: readMessageSetOnce_def findSegmentContains_def)
qed

section \<open>A new segment\<close>

lemma fresh_index:
  assumes "newIndex trunc_ok map_ok 0 base [] = Inr idx0"
  shows "\<exists>idx1. InitializePosition idx0 = Inr (idx1, None) \<and> ix_holds base idx1 []"
proof -
  let ?z = "index_of base [] 10485760"
  have f: "ix_file ?z = replicate 10485760 0" by (simp add: index_of_def entries_bytes_def)
  have n: "newIndex True True 0 base (ix_file ?z) = Inr idx0"
    using assms unfolding f by (auto simp: newIndex_def mmapFile_def file_truncate_def roundDown_def Let_def split: if_splits)
  have "ix_holds base ?z []" by (rule index_of_holds) simp
  moreover have "ix_file ?z \<noteq> []" unfolding f by simp
  ultimately show ?thesis using ix_holds_reopen [of base ?z "[]"] n by auto
qed

text \<open>A segment file that did not exist opens empty, or not at all.\<close>

lemma newSegmentWith_fresh:
  assumes "0 \<le> base"
  shows "\<exists>r. newSegmentWith C w size_ok cut_ok sync_ok table_ok base mx True codec format None None [] = Some r \<and>
     (case r of Inl e \<Rightarrow> e \<noteq> ErrSegmentExists \<and> \<not> (size_ok \<and> io_trunc w \<and> io_map w)
      | Inr s \<Rightarrow> seg_holds C s [] \<and> s_live s \<and> s_BaseOffset s = base \<and> s_codec s = codec \<and> s_maxBytes s = mx \<and>
         s_blockMode s = (codec \<noteq> None_codec \<or> format = v3_Version))"
proof -
  define s where "s = (emptySegment base mx codec) \<lparr>s_format := format, s_dirtyData := True, s_dirtyIndex := True,
      s_physPosition := 0, s_blockMode := (codec \<noteq> None_codec \<or> format = v3_Version)\<rparr>"
  have p: "newSegmentWith C w size_ok cut_ok sync_ok table_ok base mx True codec format None None [] =
      (if size_ok then setupIndexKnownEnd C w cut_ok sync_ok None [] s else Some (Inl IOError))"
    by (simp add: newSegmentWith_def initPositions_def s_def emptySegment_def Let_def)
  have el: "ensureBlocksLoaded s = Inr s" "s_BaseOffset s = base" by (simp_all add: ensureBlocksLoaded_def s_def emptySegment_def)
  show ?thesis
  proof (cases "newIndex (io_trunc w) (io_map w) 0 base []")
    case (Inl e)
    then have "e = IOError" "\<not> (io_trunc w \<and> io_map w)"
      by (auto simp: newIndex_def mmapFile_def Let_def file_truncate_def roundDown_def split: if_splits)
    then show ?thesis using p el Inl by (auto simp: setupIndexKnownEnd_def)
  next
    case (Inr idx0)
    then obtain idx1 where i: "InitializePosition idx0 = Inr (idx1, None)" "ix_holds base idx1 []" using fresh_index by blast
    have "setupIndexKnownEnd C w cut_ok sync_ok None [] s = Some (Inr (s \<lparr>s_Index := Some idx1\<rparr>))"
      using Inr i(1) el by (simp add: setupIndexKnownEnd_def)
    moreover have "seg_holds C (s \<lparr>s_Index := Some idx1\<rparr>) []" using i(2) assms
      by (simp add: seg_holds_def s_def emptySegment_def records_ok_def ends_match_def seg_bytes_def)
    ultimately show ?thesis using p el by (auto simp: s_def emptySegment_def s_live_def)
  qed
qed

lemma newSegmentWith_fresh_ok:
  assumes "0 \<le> base"
  shows "\<exists>s. newSegmentWith C io_ok True cut_ok sync_ok table_ok base mx True codec format None None [] = Some (Inr s) \<and>
     seg_holds C s [] \<and> s_live s \<and> s_BaseOffset s = base \<and> s_codec s = codec \<and> s_maxBytes s = mx \<and>
     s_blockMode s = (codec \<noteq> None_codec \<or> format = v3_Version)"
proof -
  obtain r where r: "newSegmentWith C io_ok True cut_ok sync_ok table_ok base mx True codec format None None [] = Some r"
    "case r of Inl e \<Rightarrow> e \<noteq> ErrSegmentExists \<and> \<not> (True \<and> io_trunc io_ok \<and> io_map io_ok)
      | Inr s \<Rightarrow> seg_holds C s [] \<and> s_live s \<and> s_BaseOffset s = base \<and> s_codec s = codec \<and> s_maxBytes s = mx \<and>
          s_blockMode s = (codec \<noteq> None_codec \<or> format = v3_Version)"
    using newSegmentWith_fresh [OF assms] by blast
  have "io_trunc io_ok" "io_map io_ok" by (simp_all add: io_ok_def)
  then show ?thesis using r by (cases r) auto
qed

section \<open>Sealing and rolling\<close>

lemma ix_shrink_holds: "ix_holds base idx es \<Longrightarrow> ix_holds base (fst (ix_shrink ok idx)) es"
  by (auto simp: ix_holds_def ix_shrink_def ix_healthy_def ix_inv_def ix_clean_def mmap_len_def file_truncate_def)

lemma seal_holds:
  assumes "seg_holds C s cs"
  shows "seg_holds C (seal a b c s) cs" and "NextOffset (seal a b c s) = NextOffset s" and "s_BaseOffset (seal a b c s) = s_BaseOffset s"
    and "IsEmpty (seal a b c s) = IsEmpty s" and "s_live (seal a b c s) = s_live s" and "s_codec (seal a b c s) = s_codec s"
    and "s_maxBytes (seal a b c s) = s_maxBytes s"
proof -
  obtain idx where idx: "s_Index s = Some idx" "ix_holds (s_BaseOffset s) idx (anchors 0 cs)" using assms by (auto simp: seg_holds_def)
  define idx' where "idx' = (if ix_closed idx then idx else fst (ix_shrink a idx))"
  have h': "ix_holds (s_BaseOffset s) idx' (anchors 0 cs)" using idx(2) ix_shrink_holds by (simp add: idx'_def)
  define d where "d = (if ix_Sync b idx' = None then False else s_dirtyIndex s)"
  define f where "f = (if s_blockMode s \<and> s_blocks s \<noteq> [] \<and> c then Some (encodeBlockTable (s_blocks s)) else s_blocksFile s)"
  have s': "seal a b c s = s \<or>
      seal a b c s = s \<lparr>s_sealed := True, s_Index := Some idx', s_dirtyIndex := d, s_blocksFile := f\<rparr>"
    using idx(1) by (cases s) (simp add: seal_def Let_def idx'_def d_def f_def)
  then show "NextOffset (seal a b c s) = NextOffset s" "s_BaseOffset (seal a b c s) = s_BaseOffset s"
    "IsEmpty (seal a b c s) = IsEmpty s" "s_live (seal a b c s) = s_live s" "s_codec (seal a b c s) = s_codec s"
    "s_maxBytes (seal a b c s) = s_maxBytes s"
    by (auto simp: NextOffset_def IsEmpty_def s_live_def)
  have "seg_bytes C (s \<lparr>s_sealed := True, s_Index := Some idx', s_dirtyIndex := d, s_blocksFile := f\<rparr>) cs = seg_bytes C s cs"
    by (rule seg_bytes_cong) simp_all
  then show "seg_holds C (seal a b c s) cs" using s' assms h'
    by (elim disjE) (simp_all add: seg_holds_def ends_match_def)
qed

text \<open>The active segment, seen apart from the others.\<close>

lemma log_ok_active:
  assumes "log_ok C l css"
  obtains ss s dss cs where "l_segments l = ss @ [s]" and "activeSegment l = s" and "css = dss @ [cs]"
    and "list_all2 (seg_ok C) ss dss" and "seg_ok C s cs" and "sorted_wrt (\<lambda>s t. NextOffset s \<le> s_BaseOffset t) ss"
    and "\<forall>t \<in> set ss. NextOffset t \<le> s_BaseOffset s \<and> \<not> IsEmpty t"
proof -
  obtain ss s where ss: "l_segments l = ss @ [s]" using assms by (cases "l_segments l" rule: rev_cases) (simp_all add: log_ok_def)
  then obtain dss cs where "css = dss @ [cs]" "list_all2 (seg_ok C) ss dss" "seg_ok C s cs"
    using assms by (auto simp: log_ok_def list_all2_append1 list_all2_Cons1)
  moreover have "sorted_wrt (\<lambda>s t. NextOffset s \<le> s_BaseOffset t) ss" "\<forall>t \<in> set ss. NextOffset t \<le> s_BaseOffset s \<and> \<not> IsEmpty t"
    using assms ss by (simp_all add: log_ok_def sorted_wrt_append)
  ultimately show thesis using that ss by (simp add: activeSegment_def)
qed

lemma CheckSplit_nonempty:
  assumes "seg_ok C s cs" and "CheckSplit now age s"
  shows "concat cs \<noteq> []"
proof
  assume e: "concat cs = []"
  have h: "seg_holds C s cs" "0 < s_maxBytes s" using assms(1) by (simp_all add: seg_ok_def)
  then have "cs = []" using e by (cases cs) (auto simp: seg_holds_def)
  then have "s_position s = 0" "s_firstWriteTime s = 0" "s_blockMode s \<longrightarrow> s_blocks s = []"
    using h(1) by (auto simp: seg_holds_def seg_bytes_def ends_match_def)
  then show False using assms(2) h(2) by (auto simp: CheckSplit_def split: if_splits)
qed

text \<open>A roll keeps every record and leaves an empty active segment at the next offset.\<close>

definition rolled :: "commitLog \<Rightarrow> commitLog \<Rightarrow> bool" where
  "rolled l l' \<longleftrightarrow> l' = l \<lparr>l_segments := l_segments l', l_dir := l_dir l'\<rparr>"

lemma roll_ok:
  assumes ok: "log_ok C l css" and split: "CheckSplit now (l_MaxSegmentAge l) (activeSegment l)"
  shows "\<exists>l'. checkAndPerformSplit C disk_ok now l = Some (l', Inr True) \<and> log_ok C l' (css @ [[]]) \<and> rolled l l' \<and>
     s_BaseOffset (activeSegment l') = NewestOffset l + 1"
proof -
  obtain ss s dss cs where l: "l_segments l = ss @ [s]" "activeSegment l = s" "css = dss @ [cs]" "list_all2 (seg_ok C) ss dss"
    "seg_ok C s cs" "sorted_wrt (\<lambda>s t. NextOffset s \<le> s_BaseOffset t) ss" "\<forall>t \<in> set ss. NextOffset t \<le> s_BaseOffset s \<and> \<not> IsEmpty t"
    by (rule log_ok_active [OF ok])
  have h: "seg_holds C s cs" using l(5) by (simp add: seg_ok_def)
  have ne: "concat cs \<noteq> []" using CheckSplit_nonempty [OF l(5)] split l(2) by simp
  have nx: "s_BaseOffset s < NextOffset s" "0 \<le> NextOffset s"
    using holds_bounds(1) [OF h last_in_set [OF ne]] NextOffset_last [OF h ne] holds_bounds(3) [OF h] by linarith+
  have off: "NewestOffset l + 1 = NextOffset s" using l(2) by (simp add: NewestOffset_def)
  have new: "NextOffset s \<notin> set (l_dir l)" using ok l(2) nx(1) by (force simp: log_ok_def)
  obtain t where t: "newSegmentWith C io_ok True True True True (NextOffset s) (l_MaxSegmentBytes l) True (l_Compression l)
      (l_BlockFormat l) None None [] = Some (Inr t)" "seg_holds C t []" "s_live t" "s_BaseOffset t = NextOffset s"
      "s_codec t = l_Compression l" "s_maxBytes t = l_MaxSegmentBytes l"
    using newSegmentWith_fresh_ok [OF nx(2)] by blast
  define s' where "s' = seal True True True s"
  define l' where "l' = l \<lparr>l_dir := NextOffset s # l_dir l, l_segments := ss @ [s', t]\<rparr>"
  note seal = seal_holds [OF h, of True True True, folded s'_def]
  have "log_split C disk_ok l = Some (l \<lparr>l_dir := NextOffset s # l_dir l, l_segments := l_segments l @ [t]\<rparr>, None)"
    using t(1) new ok by (simp add: log_split_def off disk_ok_def log_ok_def)
  moreover have "seal_previous disk_ok (l \<lparr>l_dir := NextOffset s # l_dir l, l_segments := l_segments l @ [t]\<rparr>) = l'"
    by (simp add: seal_previous_def l'_def l(1) s'_def disk_ok_def nth_append list_update_append)
  ultimately have "checkAndPerformSplit C disk_ok now l = Some (l', Inr True)"
    using split by (simp add: checkAndPerformSplit.simps)
  moreover have "log_ok C l' (css @ [[]])"
  proof -
    have "\<not> IsEmpty s'" using IsEmpty_holds [OF h] ne seal(4) by simp
    moreover have "NextOffset u \<le> NextOffset s" if "u \<in> set ss" for u using that l(7) nx(1) by fastforce
    moreover have "seg_ok C s' cs" "seg_ok C t []" using l(5) seal t ok by (simp_all add: seg_ok_def log_ok_def)
    moreover from this l(4) have "list_all2 (seg_ok C) (ss @ [s', t]) (dss @ [cs, []])" by (intro list_all2_appendI) simp_all
    moreover have "\<forall>b \<in> set (l_dir l). b \<le> NextOffset s" using ok l(2) nx(1) by (fastforce simp: log_ok_def)
    ultimately show ?thesis
      using ok l(3,4,6,7) seal(2,3) t(4) nx(1) unfolding log_ok_def l'_def activeSegment_def
      by (simp add: list_all2_append sorted_wrt_append butlast_append)
  qed
  ultimately show ?thesis using t(4) off by (intro exI [of _ l']) (simp add: l'_def activeSegment_def rolled_def)
qed

lemma checkAndPerformSplit_ok:
  assumes "log_ok C l css"
  obtains l' css' b where "checkAndPerformSplit C disk_ok now l = Some (l', Inr b)" and "log_ok C l' css'" and "rolled l l'"
    and "log_recs css' = log_recs css" and "NewestOffset l' = NewestOffset l"
    and "l' = l \<and> css' = css \<or> last css' = [] \<and> s_BaseOffset (activeSegment l') = NewestOffset l + 1"
proof (cases "CheckSplit now (l_MaxSegmentAge l) (activeSegment l)")
  case True
  then obtain l' where l': "checkAndPerformSplit C disk_ok now l = Some (l', Inr True)" "log_ok C l' (css @ [[]])" "rolled l l'"
     "s_BaseOffset (activeSegment l') = NewestOffset l + 1" using roll_ok [OF assms] by blast
  moreover have "NewestOffset l' = NewestOffset l"
  proof (rule log_ok_active [OF l'(2)])
    fix ss s dss cs assume "activeSegment l' = s" "css @ [[]] = dss @ [cs]" "seg_ok C s cs"
    then show ?thesis using l'(4) NextOffset_holds [of C s cs] by (simp add: NewestOffset_def seg_ok_def)
  qed
  ultimately show thesis using that [of l' True "css @ [[]]"] by simp
next
  case False
  then have "checkAndPerformSplit C disk_ok now l = Some (l, Inr False)" by (simp add: checkAndPerformSplit.simps)
  then show thesis using that [of l False css] assms by (simp add: rolled_def)
qed

section \<open>Appending\<close>

lemma epoch_loop_ok: "\<exists>c'. epoch_loop Written lst prev es c = (c', None)"
proof (induction es arbitrary: lst prev c)
  case (Cons e es)
  have "\<exists>c'. assign Written epoch off c = (c', None)" for epoch off by (simp add: assign_def flush_def Let_def)
  then obtain c' where "assign Written (e_LeaderEpoch e) prev c = (c', None)" by blast
  then show ?case using Cons.IH by simp
qed simp

text \<open>An append adds its records to the active segment and may wake the waiters; nothing else changes.\<close>

definition appended :: "commitLog \<Rightarrow> commitLog \<Rightarrow> bool" where
  "appended l l' \<longleftrightarrow> l_hw l' = l_hw l \<and> l_readonly l' = l_readonly l \<and> l_MaxSegmentBytes l' = l_MaxSegmentBytes l \<and>
     l_MaxSegmentAge l' = l_MaxSegmentAge l \<and> l_Compression l' = l_Compression l \<and> l_BlockFormat l' = l_BlockFormat l \<and>
     l_deleted l' = l_deleted l \<and> l_closed l' = l_closed l"

lemma appendWith_ok:
  assumes w: "write (activeSegment l) = Inr (s, None)"
  shows "\<exists>l'. appendWith disk_ok entries write l = (l', Inr (map e_Offset entries)) \<and> appended l l' \<and>
     l_segments l' = butlast (l_segments l) @ [s] \<and> l_dir l' = l_dir l \<and> l_segmentsClosed l' = l_segmentsClosed l \<and>
     l_epochs l' = fst (epoch_loop Written (LastLeaderEpoch (l_epochs l)) (NewestOffset l) entries (l_epochs l))"
proof -
  obtain c where "epoch_loop Written (LastLeaderEpoch (l_epochs l)) (NextOffset (activeSegment l) - 1) entries (l_epochs l) = (c, None)"
    using epoch_loop_ok by blast
  then show ?thesis using w
    by (simp add: NewestOffset_def appendWith_def Let_def disk_ok_def set_active_def notifyHWChange_def notify_def appended_def)
qed

text \<open>The epochs an append notes are those of its records, from where the log stood.\<close>

definition epochs_noted :: "logrec list \<Rightarrow> commitLog \<Rightarrow> commitLog \<Rightarrow> bool" where
  "epochs_noted ns l l' \<longleftrightarrow>
     l_epochs l' = fst (epoch_loop Written (LastLeaderEpoch (l_epochs l)) (NewestOffset l) (entries_of 0 ns) (l_epochs l))"

lemma epoch_loop_position: "epoch_loop w lst prev (entries_of pos ns) c = epoch_loop w lst prev (entries_of pos' ns) c"
  by (induction ns arbitrary: lst prev pos pos' c) (simp_all add: entry_of_def split: prod.split option.split)

lemma rolled_epochs_noted: "rolled l l1 \<Longrightarrow> NewestOffset l1 = NewestOffset l \<Longrightarrow> epochs_noted ns l1 l' \<Longrightarrow> epochs_noted ns l l'"
proof -
  assume r: "rolled l l1" and n: "NewestOffset l1 = NewestOffset l" and e: "epochs_noted ns l1 l'"
  obtain x y where "l1 = l \<lparr>l_segments := x, l_dir := y\<rparr>" using r unfolding rolled_def by blast
  then have "l_epochs l1 = l_epochs l" by simp
  then show ?thesis using e n by (simp add: epochs_noted_def)
qed

lemma appendWith_extends:
  assumes ok: "log_ok C l css" and ns: "ns \<noteq> []" and w: "write (activeSegment l) = Inr (s', None)"
    and h: "seg_holds C s' cs'" "concat cs' = concat (last css) @ ns" "same_shape (activeSegment l) s'"
  shows "\<exists>l' css'. appendWith disk_ok (entries_of pos ns) write l = (l', Inr (map lr_offset ns)) \<and>
     log_ok C l' css' \<and> log_recs css' = log_recs css @ ns \<and> appended l l' \<and> NewestOffset l' = lr_offset (last ns) \<and>
     s_BaseOffset (activeSegment l') = s_BaseOffset (activeSegment l) \<and> epochs_noted ns l l'"
proof -
  obtain ss s dss cs where l: "l_segments l = ss @ [s]" "activeSegment l = s" "css = dss @ [cs]" "list_all2 (seg_ok C) ss dss"
    "seg_ok C s cs" "sorted_wrt (\<lambda>s t. NextOffset s \<le> s_BaseOffset t) ss" "\<forall>t \<in> set ss. NextOffset t \<le> s_BaseOffset s \<and> \<not> IsEmpty t"
    by (rule log_ok_active [OF ok])
  have seg': "seg_ok C s' cs'" "s_BaseOffset s' = s_BaseOffset s" using l(2,5) h(1,3) by (auto simp: seg_ok_def same_shape_def s_live_def)
  obtain l' where l': "appendWith disk_ok (entries_of pos ns) write l = (l', Inr (map lr_offset ns))"
    "appended l l'" "l_segments l' = ss @ [s']" "l_dir l' = l_dir l" "l_segmentsClosed l' = l_segmentsClosed l"
    "l_epochs l' = fst (epoch_loop Written (LastLeaderEpoch (l_epochs l)) (NewestOffset l) (entries_of pos ns) (l_epochs l))"
    using appendWith_ok [of "write" l s' "entries_of pos ns"] w l(1) by (auto simp: map_offset_entries_of)
  have "epochs_noted ns l l'" using l'(6) epoch_loop_position [of _ _ _ pos ns _ 0] by (simp add: epochs_noted_def)
  moreover have "log_ok C l' (dss @ [cs'])"
  proof -
    have "list_all2 (seg_ok C) (ss @ [s']) (dss @ [cs'])" using l(4) seg'(1) by (intro list_all2_appendI) simp_all
    then show ?thesis using ok l(1,2,6,7) l' seg'(2) by (simp add: log_ok_def appended_def activeSegment_def sorted_wrt_append)
  qed
  moreover have "log_recs (dss @ [cs']) = log_recs css @ ns" using l(3) h(2) by simp
  moreover have "NewestOffset l' = lr_offset (last ns)"
  proof -
    have "concat cs' \<noteq> []" "last (concat cs') = last ns" unfolding h(2) using ns by simp_all
    then show ?thesis using NextOffset_last [OF h(1)] l'(3) by (simp only: NewestOffset_def activeSegment_def last_snoc) simp
  qed
  moreover have "s_BaseOffset (activeSegment l') = s_BaseOffset (activeSegment l)" using l'(3) l(2) seg'(2) by (simp add: activeSegment_def)
  ultimately show ?thesis using l'(1,2) by blast
qed

lemma active_seg_ok: "log_ok C l css \<Longrightarrow> seg_ok C (activeSegment l) (last css)"
  by (erule log_ok_active) simp

lemma log_append_ok:
  assumes ok: "log_ok C l css" and C: "codecs_ok C" and ns: "ns \<noteq> []"
    and fit: "records_ok (s_BaseOffset (activeSegment l)) (concat (last css) @ ns)"
  shows "\<exists>l' css'. log_append C disk_ok (frames ns) (entries_of (s_position (activeSegment l)) ns) l = (l', Inr (map lr_offset ns)) \<and>
     log_ok C l' css' \<and> log_recs css' = log_recs css @ ns \<and> appended l l' \<and> NewestOffset l' = lr_offset (last ns) \<and>
     s_BaseOffset (activeSegment l') = s_BaseOffset (activeSegment l) \<and> epochs_noted ns l l'"
proof -
  let ?s = "activeSegment l"
  have s: "seg_holds C ?s (last css)" "\<not> s_closed ?s" "codec_Valid (s_codec ?s)"
    using active_seg_ok [OF ok] by (simp_all add: seg_ok_def s_live_def)
  obtain s' cs' where "WriteMessageSet C (dk_io disk_ok) (frames ns) (entries_of (s_position ?s) ns) ?s = Inr (s', None)"
    "seg_holds C s' cs'" "concat cs' = concat (last css) @ ns" "same_shape ?s s'"
    using WriteMessageSet_holds [OF s(1) _ ns _ C s(3)] s(2) fit by (auto simp: disk_ok_def)
  then show ?thesis unfolding log_append_def
    using appendWith_extends [OF ok ns, of "WriteMessageSet C (dk_io disk_ok) (frames ns) (entries_of (s_position ?s) ns)"] by blast
qed

text \<open>Records that fit the active segment also fit the segment a roll would put them in.\<close>

lemma records_ok_rebase:
  assumes "records_ok base (rs @ ns)" and "base \<le> b" and "\<forall>r \<in> set ns. b \<le> lr_offset r"
  shows "records_ok b ns"
  using assms by (force simp: records_ok_def sorted_wrt_append)

lemma active_base: "log_ok C l css \<Longrightarrow> s_BaseOffset (activeSegment l) \<le> NewestOffset l + 1"
proof (erule log_ok_active)
  fix ss s dss cs assume "activeSegment l = s" "seg_ok C s cs"
  then show ?thesis using holds_bounds(2) [of C s cs] by (simp add: NewestOffset_def seg_ok_def)
qed

lemma roll_fits:
  assumes "log_ok C l css" and fit: "records_ok (s_BaseOffset (activeSegment l)) (concat (last css) @ ns)"
    and above: "\<forall>r \<in> set ns. NewestOffset l < lr_offset r"
    and roll: "l' = l \<and> css' = css \<or> last css' = [] \<and> s_BaseOffset (activeSegment l') = NewestOffset l + 1"
  shows "records_ok (s_BaseOffset (activeSegment l')) (concat (last css') @ ns)"
  using roll
proof
  assume new: "last css' = [] \<and> s_BaseOffset (activeSegment l') = NewestOffset l + 1"
  have "s_BaseOffset (activeSegment l) \<le> NewestOffset l + 1" by (rule active_base [OF assms(1)])
  then have "records_ok (NewestOffset l + 1) ns" using records_ok_rebase [OF fit] above by force
  then show ?thesis using new by simp
qed (use fit in simp)

lemma encodable_stamp: "encodable (Headers (stamp now m)) (stamp now m) \<longleftrightarrow> encodable (Headers m) m"
  by (simp add: stamp_def encodable_def)

lemma records_of_above: "\<forall>r \<in> set (records_of off ms). off \<le> lr_offset r"
  by (induction ms arbitrary: off) (force simp: record_of_def)+

lemma rolled_appended: "rolled l l1 \<Longrightarrow> appended l1 l' \<Longrightarrow> appended l l'"
proof -
  assume r: "rolled l l1" and a: "appended l1 l'"
  obtain x y where "l1 = l \<lparr>l_segments := x, l_dir := y\<rparr>" using r unfolding rolled_def by blast
  then show ?thesis using a by (simp add: appended_def)
qed

lemma Append_ok:
  assumes ok: "log_ok C l css" and C: "codecs_ok C" and rw: "\<not> l_readonly l" and ne: "msgs \<noteq> []"
    and enc: "list_all (\<lambda>m. encodable (Headers m) m) msgs"
    and fit: "records_ok (s_BaseOffset (activeSegment l)) (concat (last css) @ records_of (NewestOffset l + 1) (map (stamp now) msgs))"
  shows "\<exists>l' css'. Append C disk_ok now msgs l = Some (l', Inr (map (\<lambda>i. NewestOffset l + 1 + int i) [0..<length msgs])) \<and>
     log_ok C l' css' \<and> log_recs css' = log_recs css @ records_of (NewestOffset l + 1) (map (stamp now) msgs) \<and> appended l l' \<and>
     epochs_noted (records_of (NewestOffset l + 1) (map (stamp now) msgs)) l l'"
proof -
  let ?ms = "map (stamp now) msgs" let ?ns = "records_of (NewestOffset l + 1) ?ms"
  have enc': "list_all (\<lambda>m. encodable (Headers m) m) ?ms"
    using enc by (simp add: list_all_iff encodable_stamp)
  have ne': "?ns \<noteq> []" using ne by (cases msgs) simp_all
  have offs: "map lr_offset ?ns = map (\<lambda>i. NewestOffset l + 1 + int i) [0..<length msgs]" by (simp add: map_offset_records_of)
  have above: "\<forall>r \<in> set ?ns. NewestOffset l < lr_offset r" using records_of_above [of "NewestOffset l + 1" ?ms] by force
  obtain l1 css1 b where s: "checkAndPerformSplit C disk_ok now l = Some (l1, Inr b)" "log_ok C l1 css1" "rolled l l1"
    "log_recs css1 = log_recs css" "NewestOffset l1 = NewestOffset l"
    "l1 = l \<and> css1 = css \<or> last css1 = [] \<and> s_BaseOffset (activeSegment l1) = NewestOffset l + 1"
    by (rule checkAndPerformSplit_ok [OF ok])
  have fit1: "records_ok (s_BaseOffset (activeSegment l1)) (concat (last css1) @ ?ns)" by (rule roll_fits [OF ok fit above s(6)])
  then have "list_all frame_ok ?ns" by (simp add: records_ok_def)
  then have "newMessageSetFromProto (NextOffset (activeSegment l1)) (s_position (activeSegment l1)) ?ms =
      Inr (frames ?ns, entries_of (s_position (activeSegment l1)) ?ns)"
    using write_records_frames [of ?ms 0 "NewestOffset l + 1" "s_position (activeSegment l1)" "[]" "[]"] enc' s(5)
    by (simp add: newMessageSetFromProto_def NewestOffset_def)
  moreover obtain l' css' where "log_append C disk_ok (frames ?ns) (entries_of (s_position (activeSegment l1)) ?ns) l1 = (l', Inr (map lr_offset ?ns))"
    "log_ok C l' css'" "log_recs css' = log_recs css1 @ ?ns" "appended l1 l'" "epochs_noted ?ns l1 l'"
    using log_append_ok [OF s(2) C ne' fit1] by blast
  moreover have "appended l l'" "epochs_noted ?ns l l'"
    using rolled_appended [OF s(3) \<open>appended l1 l'\<close>] rolled_epochs_noted [OF s(3,5) \<open>epochs_noted ?ns l1 l'\<close>] .
  ultimately show ?thesis using s(1,4) rw offs by (intro exI [of _ l'] exI [of _ css']) (simp add: Append_def Let_def)
qed

text \<open>A set of whole frames ascending from above the newest offset passes the check.\<close>

lemma entries_of_end:
  "rs \<noteq> [] \<Longrightarrow> e_Position (last (entries_of pos rs)) + e_Size (last (entries_of pos rs)) = pos + int (length (frames rs))"
  using entries_of_append [of pos "butlast rs" "[last rs]"] last_entry_end [of rs] by (simp add: entry_of_def)

lemma checkAppendedSet_ok:
  assumes "sorted_wrt (<) (map lr_offset ns)" and "ns \<noteq> []" and "tail < lr_offset (hd ns)"
  shows "checkAppendedSet tail (entries_of pos ns) (int (length (frames ns))) = None"
proof -
  let ?es = "entries_of pos ns"
  have offs: "map e_Offset ?es = map lr_offset ns" by (rule map_offset_entries_of)
  have ne: "?es \<noteq> []" "e_Offset (hd ?es) = lr_offset (hd ns)" "e_Position (hd ?es) = pos"
    using assms(2) by (cases ns; simp add: entry_of_def)+
  have "e_Offset (?es ! (i - 1)) < e_Offset (?es ! i)" if "0 < i" "i < length ?es" for i
  proof -
    have "map lr_offset ns ! (i - 1) < map lr_offset ns ! i" using sorted_wrt_nth_less [OF assms(1), of "i - 1" i] that by simp
    then show ?thesis unfolding offs [symmetric] using that by simp
  qed
  then have "\<not> list_ex (\<lambda>i. e_Offset (?es ! i) \<le> e_Offset (?es ! (i - 1))) [1..<length ?es]"
    by (auto simp: list_ex_iff not_le Suc_le_eq)
  then show ?thesis using ne assms(2,3) entries_of_end [of ns pos] by (simp add: checkAppendedSet_def Let_def)
qed

lemma AppendMessageSet_ok:
  assumes ok: "log_ok C l css" and C: "codecs_ok C" and ne: "ns \<noteq> []" and hd: "NewestOffset l < lr_offset (hd ns)"
    and fit: "records_ok (s_BaseOffset (activeSegment l)) (concat (last css) @ ns)"
  shows "\<exists>l' css'. AppendMessageSet C disk_ok now (frames ns) l = Some (l', Inr (map lr_offset ns)) \<and>
     log_ok C l' css' \<and> log_recs css' = log_recs css @ ns \<and> appended l l' \<and> NewestOffset l' = lr_offset (last ns) \<and>
     s_BaseOffset (activeSegment l) \<le> s_BaseOffset (activeSegment l') \<and> epochs_noted ns l l'"
proof -
  have srt: "sorted_wrt (<) (map lr_offset ns)" "list_all frame_ok ns" using fit by (simp_all add: records_ok_def sorted_wrt_append)
  have above: "\<forall>r \<in> set ns. NewestOffset l < lr_offset r" using srt(1) hd ne by (cases ns) auto
  obtain l1 css1 b where s: "checkAndPerformSplit C disk_ok now l = Some (l1, Inr b)" "log_ok C l1 css1" "rolled l l1"
    "log_recs css1 = log_recs css" "NewestOffset l1 = NewestOffset l"
    "l1 = l \<and> css1 = css \<or> last css1 = [] \<and> s_BaseOffset (activeSegment l1) = NewestOffset l + 1"
    by (rule checkAndPerformSplit_ok [OF ok])
  have fit1: "records_ok (s_BaseOffset (activeSegment l1)) (concat (last css1) @ ns)" by (rule roll_fits [OF ok fit above s(6)])
  obtain l' css' where a: "log_append C disk_ok (frames ns) (entries_of (s_position (activeSegment l1)) ns) l1 = (l', Inr (map lr_offset ns))"
    "log_ok C l' css'" "log_recs css' = log_recs css1 @ ns" "appended l1 l'" "NewestOffset l' = lr_offset (last ns)"
    "s_BaseOffset (activeSegment l') = s_BaseOffset (activeSegment l1)" "epochs_noted ns l1 l'"
    using log_append_ok [OF s(2) C ne fit1] by blast
  have "checkAppendedSet (NextOffset (activeSegment l1) - 1) (entries_of (s_position (activeSegment l1)) ns) (int (length (frames ns))) = None"
    using checkAppendedSet_ok [OF srt(1) ne, of "NewestOffset l"] hd s(5) by (simp add: NewestOffset_def)
  then have "AppendMessageSet C disk_ok now (frames ns) l = Some (l', Inr (map lr_offset ns))"
    using s(1) a(1) entriesForMessageSet_frames [OF srt(2)] by (simp add: AppendMessageSet_def)
  moreover have "s_BaseOffset (activeSegment l) \<le> s_BaseOffset (activeSegment l')" using s(6) active_base [OF ok] a(6) by auto
  ultimately show ?thesis using a s(4) rolled_appended [OF s(3) a(4)] rolled_epochs_noted [OF s(3,5) a(7)] by (intro exI [of _ l'] exI [of _ css']) simp
qed

section \<open>Order\<close>

lemma log_recs_sorted:
  assumes "list_all2 (seg_ok C) ss css" and "sorted_wrt (\<lambda>s t. NextOffset s \<le> s_BaseOffset t) ss"
  shows "sorted_wrt (\<lambda>x y. lr_offset x < lr_offset y) (log_recs css)"
  using assms
proof (induction ss css rule: list_all2_induct)
  case (Cons s ss cs css)
  have h: "seg_holds C s cs" using Cons.hyps(1) by (simp add: seg_ok_def)
  have "lr_offset x < lr_offset y" if x: "x \<in> set (concat cs)" and y: "y \<in> set (log_recs css)" for x y
  proof -
    obtain ds where "ds \<in> set css" "y \<in> set (concat ds)" using y by (auto simp: log_recs_def)
    then obtain t where "t \<in> set ss" "seg_holds C t ds" "y \<in> set (concat ds)"
      using Cons.hyps(2) by (metis (no_types, lifting) in_set_conv_nth list_all2_conv_all_nth seg_ok_def)
    then show ?thesis using holds_bounds(1) [OF h x] holds_bounds(1) [of C t ds y] Cons.prems by fastforce
  qed
  moreover have "sorted_wrt (\<lambda>x y. lr_offset x < lr_offset y) (concat cs)" using h sorted_offsets by (auto simp: seg_holds_def)
  ultimately show ?case using Cons by (simp add: sorted_wrt_append)
qed simp

lemma log_recs_below:
  assumes "log_ok C l css" and "r \<in> set (log_recs css)"
  shows "lr_offset r \<le> NewestOffset l"
proof (rule log_ok_active [OF assms(1)])
  fix ss s dss cs
  assume l: "activeSegment l = s" "css = dss @ [cs]" "list_all2 (seg_ok C) ss dss" "seg_ok C s cs"
    "\<forall>t \<in> set ss. NextOffset t \<le> s_BaseOffset s \<and> \<not> IsEmpty t"
  have h: "seg_holds C s cs" using l(4) by (simp add: seg_ok_def)
  consider "r \<in> set (concat cs)" | ds where "ds \<in> set dss" "r \<in> set (concat ds)" using assms(2) l(2) by (auto simp: log_recs_def)
  then show ?thesis
  proof cases
    case 2
    then obtain t where "t \<in> set ss" "seg_holds C t ds"
      using l(3) by (metis (no_types, lifting) in_set_conv_nth list_all2_conv_all_nth seg_ok_def)
    then show ?thesis using holds_bounds(1) [of C t ds r] 2(2) l(1,5) holds_bounds(2) [OF h] by (fastforce simp: NewestOffset_def)
  qed (use holds_bounds(1) [OF h, of r] l(1) in \<open>simp add: NewestOffset_def\<close>)
qed

end
