(* ===== verification/Log_Replication.thy ===== *)
theory Log_Replication
  imports Log_Holds
begin

text \<open>
  The commit log as an interface: a sequence of records that appends extend and reads return runs of.  The client
  is replication, which \<^verbatim>\<open>ReadMessageSet\<close> and \<^verbatim>\<open>AppendMessageSet\<close> are for: a follower reads from just above
  its newest offset and appends the bytes it gets.
\<close>

section \<open>The interface\<close>

text \<open>
  \<open>holds l rs\<close>: the log holds the records \<open>rs\<close>; \<open>room l rs\<close>: it could, as far as segment positions and relative
  offsets go.
\<close>

locale record_log =
  fixes holds :: "'l \<Rightarrow> logrec list \<Rightarrow> bool"
    and room :: "'l \<Rightarrow> logrec list \<Rightarrow> bool"
    and newest :: "'l \<Rightarrow> int"
    and accept :: "bytes \<Rightarrow> 'l \<Rightarrow> ('l \<times> int list result) option"
    and read :: "int \<Rightarrow> 'l \<Rightarrow> bytes result option"
  assumes ascending: "holds l rs \<Longrightarrow> sorted_wrt (\<lambda>x y. lr_offset x < lr_offset y) rs"
    and below_newest: "holds l rs \<Longrightarrow> r \<in> set rs \<Longrightarrow> lr_offset r \<le> newest l"
    and accept_law: "holds l rs \<Longrightarrow> room l (rs @ ns @ zs) \<Longrightarrow> ns \<noteq> [] \<Longrightarrow> newest l < lr_offset (hd ns) \<Longrightarrow>
      \<exists>l'. accept (frames ns) l = Some (l', Inr (map lr_offset ns)) \<and> holds l' (rs @ ns) \<and>
        newest l' = lr_offset (last ns) \<and> room l' (rs @ ns @ zs)"
    and read_law: "holds l rs \<Longrightarrow> r \<in> set rs \<Longrightarrow> off \<le> lr_offset r \<Longrightarrow>
      \<exists>n > 0. read off l = Some (Inr (frames (take n (dropWhile (\<lambda>x. lr_offset x < off) rs))))"

text \<open>One round of a follower, and rounds until its newest offset is the leader's.\<close>

definition copy_round ::
  "('l \<Rightarrow> int) \<Rightarrow> (bytes \<Rightarrow> 'l \<Rightarrow> ('l \<times> int list result) option) \<Rightarrow> (int \<Rightarrow> 'l \<Rightarrow> bytes result option) \<Rightarrow> 'l \<Rightarrow> 'l \<Rightarrow> 'l option" where
  "copy_round newest accept read leader follower =
     (case read (newest follower + 1) leader of
        Some (Inr ms) \<Rightarrow> (case accept ms follower of Some (f, Inr _) \<Rightarrow> Some f | _ \<Rightarrow> None)
      | _ \<Rightarrow> None)"

fun catch_up ::
  "('l \<Rightarrow> int) \<Rightarrow> (bytes \<Rightarrow> 'l \<Rightarrow> ('l \<times> int list result) option) \<Rightarrow> (int \<Rightarrow> 'l \<Rightarrow> bytes result option) \<Rightarrow> nat \<Rightarrow> 'l \<Rightarrow> 'l \<Rightarrow> 'l option" where
  "catch_up newest accept read 0 leader follower = (if newest follower \<ge> newest leader then Some follower else None)"
| "catch_up newest accept read (Suc k) leader follower =
     (if newest follower \<ge> newest leader then Some follower
      else (case copy_round newest accept read leader follower of
          None \<Rightarrow> None
        | Some f \<Rightarrow> catch_up newest accept read k leader f))"

context record_log
begin

lemma split_at_newest:
  assumes "holds l (ps @ qs)" and "\<forall>r \<in> set ps. lr_offset r \<le> b" and "\<forall>r \<in> set qs. b < lr_offset r"
  shows "dropWhile (\<lambda>x. lr_offset x < b + 1) (ps @ qs) = qs"
proof -
  have "dropWhile (\<lambda>x. lr_offset x < b + 1) (ps @ qs) = dropWhile (\<lambda>x. lr_offset x < b + 1) qs"
    using assms(2) by (intro dropWhile_append2) fastforce
  then show ?thesis using assms(3) by (cases qs) fastforce+
qed

lemma copy_round_advances:
  assumes ldr: "holds leader (ps @ qs)" and fol: "holds follower ps" and room: "room follower (ps @ qs)"
    and qs: "qs \<noteq> []" "\<forall>r \<in> set qs. newest follower < lr_offset r"
  shows "\<exists>n f. 0 < n \<and> copy_round newest accept read leader follower = Some f \<and> holds f (ps @ take n qs) \<and>
     room f (ps @ qs) \<and> (\<forall>r \<in> set (drop n qs). newest f < lr_offset r) \<and> newest f = lr_offset (last (take n qs))"
proof -
  have below: "\<forall>r \<in> set ps. lr_offset r \<le> newest follower" using below_newest [OF fol] by blast
  have hd: "hd qs \<in> set (ps @ qs)" "newest follower + 1 \<le> lr_offset (hd qs)" using qs by (auto simp: add1_zle_eq)
  obtain n where n: "n > 0" "read (newest follower + 1) leader = Some (Inr (frames (take n qs)))"
    using read_law [OF ldr hd] split_at_newest [OF ldr below qs(2)] by auto
  have t: "take n qs \<noteq> []" "hd (take n qs) = hd qs" using qs(1) n(1) by (cases qs; cases n; simp)+
  obtain f where f: "accept (frames (take n qs)) follower = Some (f, Inr (map lr_offset (take n qs)))" "holds f (ps @ take n qs)"
    "newest f = lr_offset (last (take n qs))" "room f (ps @ take n qs @ drop n qs)"
    using accept_law [OF fol, of "take n qs" "drop n qs"] room t hd(2) by auto
  have "sorted_wrt (\<lambda>x y. lr_offset x < lr_offset y) (take n qs @ drop n qs)"
    using ascending [OF ldr] by (simp add: sorted_wrt_append)
  then have "\<forall>r \<in> set (drop n qs). newest f < lr_offset r" using f(3) last_in_set [OF t(1)] by (simp only: sorted_wrt_append) blast
  then show ?thesis using n f by (auto simp: copy_round_def)
qed

lemma catch_up_converges:
  assumes "holds leader (ps @ qs)" and "holds follower ps" and "room follower (ps @ qs)"
    and "\<forall>r \<in> set qs. newest follower < lr_offset r" and "ps @ qs \<noteq> []" and "newest leader = lr_offset (last (ps @ qs))"
    and "length qs \<le> k" and "qs = [] \<longrightarrow> newest leader \<le> newest follower"
  shows "\<exists>f. catch_up newest accept read k leader follower = Some f \<and> holds f (ps @ qs)"
  using assms
proof (induction k arbitrary: follower ps qs)
  case (Suc k)
  show ?case
  proof (cases "qs = []")
    case False
    then obtain n f where n: "0 < n" "copy_round newest accept read leader follower = Some f" "holds f (ps @ take n qs)"
      "room f (ps @ qs)" "\<forall>r \<in> set (drop n qs). newest f < lr_offset r" "newest f = lr_offset (last (take n qs))"
      using copy_round_advances [OF Suc.prems(1-3)] Suc.prems(4) by blast
    have lt: "newest follower < newest leader" using Suc.prems(4,6) False by simp
    have "\<exists>f'. catch_up newest accept read k leader f = Some f' \<and> holds f' ((ps @ take n qs) @ drop n qs)"
    proof (rule Suc.IH)
      show "drop n qs = [] \<longrightarrow> newest leader \<le> newest f" using n(6) Suc.prems(6) False by (auto simp: take_all)
    qed (use Suc.prems n in \<open>auto simp: False\<close>)
    then show ?thesis using n(2) lt by auto
  qed (use Suc.prems in auto)
qed auto

end

section \<open>The commit log provides it\<close>

definition log_holds :: "codecs \<Rightarrow> commitLog \<Rightarrow> logrec list \<Rightarrow> bool" where
  "log_holds C l rs \<longleftrightarrow> codecs_ok C \<and> (\<exists>css. log_ok C l css \<and> log_recs css = rs)"

definition log_room :: "commitLog \<Rightarrow> logrec list \<Rightarrow> bool" where
  "log_room l rs \<longleftrightarrow> (\<exists>b \<le> s_BaseOffset (activeSegment l). records_ok b rs)"

lemma room_fits:
  assumes ok: "log_ok C l css" and room: "log_room l (log_recs css @ ns @ zs)" and hd: "ns \<noteq> []" "NewestOffset l < lr_offset (hd ns)"
  shows "records_ok (s_BaseOffset (activeSegment l)) (concat (last css) @ ns)"
proof (rule log_ok_active [OF ok])
  fix ss s dss cs assume l: "activeSegment l = s" "css = dss @ [cs]" "seg_ok C s cs"
  obtain b where b: "b \<le> s_BaseOffset s" "records_ok b (log_recs dss @ (concat cs @ ns) @ zs)"
    using room l by (auto simp: log_room_def)
  have mid: "records_ok b (log_recs dss @ concat cs @ ns)" using records_ok_prefix [of b "log_recs dss @ concat cs @ ns" zs] b(2) by simp
  have "sorted_wrt (<) (map lr_offset ns)" using mid by (simp add: records_ok_def sorted_wrt_append)
  then have "\<forall>r \<in> set ns. NewestOffset l < lr_offset r" using hd by (cases ns) auto
  then have "\<forall>r \<in> set ns. s_BaseOffset s \<le> lr_offset r" using active_base [OF ok] l(1) by fastforce
  moreover have "\<forall>r \<in> set (concat cs). s_BaseOffset s \<le> lr_offset r" using l(3) holds_bounds(1) [of C s cs] by (auto simp: seg_ok_def)
  ultimately have "records_ok (s_BaseOffset s) (concat cs @ ns)" using records_ok_rebase [OF mid b(1)] by (simp only: set_append) blast
  then show ?thesis using l by simp
qed

lemma ReadMessageSet_run:
  assumes "log_ok C (seen 0) css" and "r \<in> set (log_recs css)" and "offset \<le> lr_offset r" and "0 < mx"
  shows "\<exists>n. ReadMessageSet C offset mx seen =
       Some (Inr (frames (take n (dropWhile (\<lambda>x. lr_offset x < offset) (log_recs css))))) \<and> 0 < n \<and>
     (int (length (frames (take n (dropWhile (\<lambda>x. lr_offset x < offset) (log_recs css))))) \<le> mx \<or> n = 1)"
  using readMessageSetOnce_log [OF assms] assms(4) by (auto simp: ReadMessageSet_def numeral_eq_Suc)

interpretation clog: record_log "log_holds C" log_room NewestOffset "AppendMessageSet C disk_ok now"
    "\<lambda>off l. ReadMessageSet C off (1 + int mx) (\<lambda>_. l)"
proof
  fix l rs assume "log_holds C l rs"
  then obtain css where h: "codecs_ok C" "log_ok C l css" "log_recs css = rs" by (auto simp: log_holds_def)
  show "sorted_wrt (\<lambda>x y. lr_offset x < lr_offset y) rs"
    using log_recs_sorted [of C "l_segments l" css] h(2,3) by (simp add: log_ok_def)
  show "r \<in> set rs \<Longrightarrow> lr_offset r \<le> NewestOffset l" for r using log_recs_below [OF h(2)] h(3) by blast
  show "\<exists>l'. AppendMessageSet C disk_ok now (frames ns) l = Some (l', Inr (map lr_offset ns)) \<and> log_holds C l' (rs @ ns) \<and>
      NewestOffset l' = lr_offset (last ns) \<and> log_room l' (rs @ ns @ zs)"
    if a: "log_room l (rs @ ns @ zs)" "ns \<noteq> []" "NewestOffset l < lr_offset (hd ns)" for ns zs
  proof -
    obtain l' css' where l': "AppendMessageSet C disk_ok now (frames ns) l = Some (l', Inr (map lr_offset ns))" "log_ok C l' css'"
      "log_recs css' = rs @ ns" "NewestOffset l' = lr_offset (last ns)" "s_BaseOffset (activeSegment l) \<le> s_BaseOffset (activeSegment l')"
      using AppendMessageSet_ok [OF h(2,1) a(2,3) room_fits [OF h(2) _ a(2,3)]] a(1) h(3) by blast
    then show ?thesis using h(1) a(1) by (auto simp: log_holds_def log_room_def intro: order_trans)
  qed
  show "\<exists>n > 0. ReadMessageSet C off (1 + int mx) (\<lambda>_. l) = Some (Inr (frames (take n (dropWhile (\<lambda>x. lr_offset x < off) rs))))"
    if "r \<in> set rs" "off \<le> lr_offset r" for r off
    using ReadMessageSet_run [of C "\<lambda>_. l" css r off "1 + int mx"] h(2,3) that by auto
qed

section \<open>A log of one segment\<close>

definition log_of :: "segment \<Rightarrow> commitLog" where
  "log_of s = \<lparr>l_segments = [s], l_hw = - 1, l_hwWaiters = [], l_signals = [], l_readonly = False, l_deleted = False,
     l_closed = False, l_segmentsClosed = False, l_epochs = \<lparr>epochOffsets = [], persistent = True, checkpointFile = None\<rparr>,
     l_dir = [s_BaseOffset s], l_MaxSegmentBytes = 1000, l_MaxSegmentAge = 0, l_Compression = Snappy,
     l_BlockFormat = BlockFormatVersion\<rparr>"

lemma log_of_ok: "seg_ok C s cs \<Longrightarrow> log_ok C (log_of s) [cs]"
  by (simp add: log_ok_def log_of_def activeSegment_def codec_Valid_def Snappy_def Zstd_def)

lemma fresh_seg_ok: "seg_ok C (fresh_segment b) []"
  using fresh_segment_holds by (simp add: seg_ok_def) (simp add: fresh_segment_def emptySegment_def s_live_def codec_Valid_def Snappy_def Zstd_def)

lemma sample_seg_ok: "\<exists>cs. seg_ok raw_codecs (sample_segment b) cs \<and> concat cs = sample_logrecs"
proof -
  obtain cs where "seg_holds raw_codecs (sample_segment b) cs" "concat cs = sample_logrecs" "same_shape (fresh_segment b) (sample_segment b)"
    using sample_segment_holds by blast
  moreover have "codec_Valid (s_codec (fresh_segment b))" "0 < s_maxBytes (fresh_segment b)" using fresh_seg_ok by (auto simp: seg_ok_def)
  ultimately show ?thesis using sample_segment_live(1) by (auto simp: seg_ok_def same_shape_def)
qed

lemma fresh_log_newest: "NewestOffset (log_of (fresh_segment b)) = 99" "s_BaseOffset (activeSegment (log_of (fresh_segment b))) = 100"
  by (simp_all add: NewestOffset_def activeSegment_def log_of_def NextOffset_def fresh_segment_def emptySegment_def)

lemma sample_log_newest: "NewestOffset (log_of (sample_segment b)) = 103"
proof -
  obtain cs where "seg_ok raw_codecs (sample_segment b) cs" "concat cs = sample_logrecs" using sample_seg_ok by blast
  moreover have "sample_logrecs \<noteq> []" "lr_offset (last sample_logrecs) = 103" by (simp_all add: sample_logrecs_def)
  ultimately show ?thesis using NextOffset_last [of raw_codecs "sample_segment b" cs]
    by (simp add: NewestOffset_def activeSegment_def log_of_def seg_ok_def)
qed

section \<open>Properties\<close>

text \<open>
  C1: an append extends the log by exactly its messages.  On a log that holds some records and is not read-only, an
  append of encodable messages succeeds whether or not it rolls the active segment first; it returns consecutive
  offsets from the one after the newest, and the log then holds its old records followed by the new ones, stamped
  with the time if they carried none.
\<close>

theorem Append_extends_log:
  assumes "log_ok C l css" and "codecs_ok C" and "\<not> l_readonly l" and "msgs \<noteq> []"
    and "list_all (\<lambda>m. encodable (Headers m) m) msgs"
    and "records_ok (s_BaseOffset (activeSegment l)) (concat (last css) @ records_of (NewestOffset l + 1) (map (stamp now) msgs))"
  shows "\<exists>l' css'. Append C disk_ok now msgs l = Some (l', Inr (map (\<lambda>i. NewestOffset l + 1 + int i) [0..<length msgs])) \<and>
     log_ok C l' css' \<and> log_recs css' = log_recs css @ records_of (NewestOffset l + 1) (map (stamp now) msgs)"
  using Append_ok [OF assms] by blast

theorem Append_extends_log_witness:
  "\<exists>l' css'. Append raw_codecs disk_ok 3 [sample, sample] (log_of (fresh_segment True)) = Some (l', Inr [100, 101]) \<and>
     log_ok raw_codecs l' css' \<and> log_recs css' = [record_of 100 sample, record_of 101 sample]"
proof -
  let ?l = "log_of (fresh_segment True)"
  have m: "map (stamp 3) [sample, sample] = [sample, sample]" by (simp add: stamp_def sample_def)
  have p: "length (lr_payload (record_of off sample)) < 68" for off
    by (simp add: record_of_def bytes_simps wire_body_def sample_def wire_def)
  have "length (frames [record_of 100 sample, record_of 101 sample]) < 200" using p [of 100] p [of 101] by simp
  then have "records_ok 100 [record_of 100 sample, record_of 101 sample]"
    using sample_frame_ok [of 100] sample_frame_ok [of 101] by (simp add: records_ok_def record_of_def del: frames_simps)
  then show ?thesis
    using Append_extends_log [OF log_of_ok [OF fresh_seg_ok] sample_ok(1), of True "[sample, sample]" 3] m sample_encodable
    by (simp add: fresh_log_newest log_of_def [of "fresh_segment True", THEN arg_cong [of _ _ l_readonly]])
qed

text \<open>
  C2: a read returns whole records from the first one at or after the offset, and always makes progress: at least
  one record, and no more bytes than asked for unless that one record alone is larger.  It holds at a segment
  boundary, in a gap of the offsets and for raw and compressed segments alike.
\<close>

theorem ReadMessageSet_returns_run:
  assumes "log_ok C (seen 0) css" and "r \<in> set (log_recs css)" and "offset \<le> lr_offset r" and "0 < mx"
  shows "\<exists>n. ReadMessageSet C offset mx seen =
       Some (Inr (frames (take n (dropWhile (\<lambda>x. lr_offset x < offset) (log_recs css))))) \<and> 0 < n \<and>
     (int (length (frames (take n (dropWhile (\<lambda>x. lr_offset x < offset) (log_recs css))))) \<le> mx \<or> n = 1)"
  using assms by (rule ReadMessageSet_run)

theorem ReadMessageSet_returns_run_witness:
  "ReadMessageSet raw_codecs 101 10 (\<lambda>_. log_of (sample_segment True)) = Some (Inr (frame (sample_logrecs ! 1)))"
proof -
  obtain cs where cs: "seg_ok raw_codecs (sample_segment True) cs" "concat cs = sample_logrecs" using sample_seg_ok by blast
  have d: "dropWhile (\<lambda>x. lr_offset x < 101) sample_logrecs = [sample_logrecs ! 1]" by (simp add: sample_logrecs_def)
  have r: "sample_logrecs ! 1 \<in> set sample_logrecs" "101 \<le> lr_offset (sample_logrecs ! 1)" by (simp_all add: sample_logrecs_def)
  show ?thesis
    using ReadMessageSet_returns_run [of raw_codecs "\<lambda>_. log_of (sample_segment True)" "[cs]" "sample_logrecs ! 1" 101 10]
      log_of_ok [OF cs(1)] cs(2) r d by auto
qed

text \<open>
  C3: replication converges.  A follower that holds a prefix of the leader's records and keeps appending what it reads
  from just above its own newest offset reaches the leader's records, in at most as many rounds as it lacks
  records, whatever the read size and however the two logs are segmented and compressed.
\<close>

theorem replica_catches_up:
  assumes "codecs_ok C" and "log_ok C leader css" and "log_ok C follower dss" and "log_recs css = log_recs dss @ qs"
    and "log_recs css \<noteq> []" and "NewestOffset leader = lr_offset (last (log_recs css))"
    and "\<forall>r \<in> set qs. NewestOffset follower < lr_offset r"
    and "b \<le> s_BaseOffset (activeSegment follower)" and "records_ok b (log_recs css)" and "length qs \<le> k"
  shows "\<exists>f ess. catch_up NewestOffset (AppendMessageSet C disk_ok now) (\<lambda>off l. ReadMessageSet C off (1 + int mx) (\<lambda>_. l)) k leader follower
     = Some f \<and> log_ok C f ess \<and> log_recs ess = log_recs css"
proof -
  have "log_holds C leader (log_recs dss @ qs)" "log_holds C follower (log_recs dss)" using assms(1-4) by (auto simp: log_holds_def)
  moreover have "log_room follower (log_recs dss @ qs)" using assms(4,8,9) by (auto simp: log_room_def)
  moreover have "qs = [] \<longrightarrow> NewestOffset leader \<le> NewestOffset follower"
    using log_recs_below [OF assms(3), of "last (log_recs css)"] assms(4-6) by auto
  ultimately show ?thesis
    using clog.catch_up_converges [of C leader "log_recs dss" qs follower k now mx] assms(4-7,10) by (auto simp: log_holds_def)
qed

theorem replica_catches_up_witness:
  "\<exists>f ess. catch_up NewestOffset (AppendMessageSet raw_codecs disk_ok 0)
       (\<lambda>off l. ReadMessageSet raw_codecs off (1 + int 0) (\<lambda>_. l)) 2 (log_of (sample_segment True)) (log_of (fresh_segment False)) = Some f \<and>
     log_ok raw_codecs f ess \<and> log_recs ess = sample_logrecs"
proof -
  obtain cs where cs: "seg_ok raw_codecs (sample_segment True) cs" "concat cs = sample_logrecs" using sample_seg_ok by blast
  have s: "sample_logrecs \<noteq> []" "lr_offset (last sample_logrecs) = 103" "length sample_logrecs \<le> 2"
    "\<forall>r \<in> set sample_logrecs. 99 < lr_offset r" by (simp_all add: sample_logrecs_def)
  show ?thesis
    using replica_catches_up [OF sample_ok(1) log_of_ok [OF cs(1)] log_of_ok [OF fresh_seg_ok [of raw_codecs False]],
        where qs = sample_logrecs and b = 100 and k = 2 and now = 0 and mx = 0]
      cs(2) s sample_logrecs_ok by (simp add: fresh_log_newest sample_log_newest)
qed

end
