(* ===== verification/Log_Time.thy ===== *)
theory Log_Time
  imports Log_Replication
begin

text \<open>
  The lookups by timestamp, \<^verbatim>\<open>EarliestOffsetAfterTimestamp\<close> and \<^verbatim>\<open>LatestOffsetBeforeTimestamp\<close>, on a log whose
  records carry ascending timestamps.  Runs of equal timestamps may cross segment boundaries.
\<close>

section \<open>The walk forward\<close>

definition answer :: "commitLog \<Rightarrow> logrec list \<Rightarrow> int" where
  "answer l rs = (case rs of [] \<Rightarrow> NextOffset (last (l_segments l)) | r # _ \<Rightarrow> lr_offset r)"

lemma dropWhile_app: "dropWhile P (xs @ ys) = (case dropWhile P xs of [] \<Rightarrow> dropWhile P ys | z # zs \<Rightarrow> z # zs @ ys)"
  by (induction xs) auto

lemma earliest_loop_finds:
  assumes "list_all2 (seg_ok C) ss css" and "sorted (map lr_timestamp (log_recs css))"
  shows "earliest_loop C l ts ss = Some (Inr (answer l (dropWhile (\<lambda>r. lr_timestamp r < ts) (log_recs css))))"
  using assms
proof (induction ss css rule: list_all2_induct)
  case (Cons s ss cs css)
  have h: "seg_holds C s cs" "s_live s" using Cons.hyps(1) by (simp_all add: seg_ok_def)
  have srt: "sorted (map lr_timestamp (concat cs))" "sorted (map lr_timestamp (log_recs css))"
    using Cons.prems by (simp_all add: sorted_append)
  let ?P = "\<lambda>r. lr_timestamp r < ts"
  have f: "findEntryByTimestampResolving C s ts = Some (first_entry (s_blockMode s) (\<lambda>r. ts \<le> lr_timestamp r) (concat cs))"
    using findEntryByTimestamp_first [OF h srt(1)] h(2) by (simp add: findEntryByTimestampResolving_def current_def s_live_def)
  have nP: "(\<lambda>r. \<not> ts \<le> lr_timestamp r) = ?P" by (simp add: fun_eq_iff not_le)
  have d: "dropWhile ?P (log_recs (cs # css)) =
      (case dropWhile ?P (concat cs) of [] \<Rightarrow> dropWhile ?P (log_recs css) | z # zs \<Rightarrow> z # zs @ log_recs css)"
    by (simp only: log_recs_simps dropWhile_app)
  show ?case
  proof (cases "dropWhile ?P (concat cs)")
    case Nil
    then have "findEntryByTimestampResolving C s ts = Some (Inl ErrEntryNotFound)" using f unfolding first_entry_def nP by (simp only: list.case)
    moreover have "dropWhile ?P (log_recs (cs # css)) = dropWhile ?P (log_recs css)" using d Nil by (simp only: list.case)
    ultimately show ?thesis using Cons.IH [OF srt(2)] by simp
  next
    case r: (Cons r rs)
    then obtain e where "findEntryByTimestampResolving C s ts = Some (Inr e)" "e_Offset e = lr_offset r"
      using f unfolding first_entry_def nP by (simp only: list.case) (simp add: entry_of_def)
    moreover have "dropWhile ?P (log_recs (cs # css)) = r # rs @ log_recs css" using d r by (simp only: list.case)
    ultimately show ?thesis by (simp add: answer_def)
  qed
qed (simp add: answer_def)

section \<open>The step back\<close>

lemma step_back_stops:
  "step_back ss ts k \<le> k \<and> (0 < step_back ss ts k \<longrightarrow> s_lastWriteTime (ss ! (step_back ss ts k - 1)) < ts)"
  by (induction k) auto

lemma sorted_le_last: "sorted (map f rs) \<Longrightarrow> r \<in> set rs \<Longrightarrow> f r \<le> f (last rs)"
  by (induction rs) (auto simp: last_in_set)

lemma before_start:
  assumes h: "list_all2 (seg_ok C) ss css" and ne: "\<forall>s \<in> set (butlast ss). \<not> IsEmpty s"
    and srt: "sorted (map lr_timestamp (log_recs css))" and k: "k < length ss"
    and lw: "0 < k \<longrightarrow> s_lastWriteTime (ss ! (k - 1)) < ts"
  shows "\<forall>r \<in> set (log_recs (take k css)). lr_timestamp r < ts"
proof (cases k)
  case (Suc j)
  have len: "length css = length ss" using h by (simp add: list_all2_lengthD)
  have s: "seg_holds C (ss ! j) (css ! j)" using h k Suc by (simp add: list_all2_conv_all_nth seg_ok_def)
  have "ss ! j \<in> set (butlast ss)" using k Suc by (metis Suc_less_eq butlast_conv_take in_set_conv_nth length_butlast less_Suc_eq
      nth_butlast Suc_pred less_diff_conv add.commute plus_1_eq_Suc)
  then have c: "concat (css ! j) \<noteq> []" using ne IsEmpty_holds [OF s] by blast
  have "ends_match (ss ! j) (concat (css ! j))" using s by (simp add: seg_holds_def)
  then have l: "lr_timestamp (last (concat (css ! j))) < ts"
    using lw Suc c by (simp only: ends_match_def if_False) simp
  have t: "log_recs (take k css) = log_recs (take j css) @ concat (css ! j)"
    using k Suc len by (simp add: take_Suc_conv_app_nth)
  have "log_recs css = log_recs (take k css) @ log_recs (drop k css)" by (metis append_take_drop_id log_recs_simps(3))
  then have srt': "sorted (map lr_timestamp (log_recs (take k css)))" using srt by (simp add: sorted_append)
  define rs where "rs = log_recs (take k css)"
  have "rs \<noteq> []" "last rs = last (concat (css ! j))" using t c by (auto simp: rs_def)
  moreover have "\<forall>r \<in> set rs. lr_timestamp r \<le> lr_timestamp (last rs)" using sorted_le_last srt' by (auto simp: rs_def)
  ultimately show ?thesis using l by (fastforce simp: rs_def)
qed simp

lemma EarliestOffset_ok:
  assumes ok: "log_ok C l css" and srt: "sorted (map lr_timestamp (log_recs css))"
  shows "EarliestOffsetAfterTimestamp C ts l = Some (Inr (answer l (dropWhile (\<lambda>r. lr_timestamp r < ts) (log_recs css))))"
proof -
  let ?ss = "l_segments l"
  define idx where "idx = findSegmentIndexByTimestamp ?ss ts"
  define k where "k = step_back ?ss ts (idx - 1)"
  have h: "list_all2 (seg_ok C) ?ss css" and ne: "?ss \<noteq> []" "\<forall>s \<in> set (butlast ?ss). \<not> IsEmpty s" using ok by (simp_all add: log_ok_def)
  have "idx \<le> length ?ss" unfolding idx_def findSegmentIndexByTimestamp_def by (rule gosort.search_le)
  then have k: "k < length ?ss" "0 < k \<longrightarrow> s_lastWriteTime (?ss ! (k - 1)) < ts"
    using step_back_stops [of ?ss ts "idx - 1"] ne(1) by (cases ?ss; force simp: k_def)+
  have b: "\<forall>r \<in> set (log_recs (take k css)). lr_timestamp r < ts" by (rule before_start [OF h ne(2) srt k])
  have split: "log_recs css = log_recs (take k css) @ log_recs (drop k css)" by (metis append_take_drop_id log_recs_simps(3))
  then have d: "dropWhile (\<lambda>r. lr_timestamp r < ts) (log_recs css) = dropWhile (\<lambda>r. lr_timestamp r < ts) (log_recs (drop k css))"
    using b by (simp add: dropWhile_append2)
  have "list_all2 (seg_ok C) (drop k ?ss) (drop k css)" using h by (rule list_all2_dropI)
  moreover have "sorted (map lr_timestamp (log_recs (drop k css)))" using srt split by (simp add: sorted_append)
  ultimately show ?thesis
    unfolding EarliestOffsetAfterTimestamp_def Let_def idx_def [symmetric] k_def [symmetric] d by (rule earliest_loop_finds)
qed

lemma answer_newest: "answer l rs = (case rs of [] \<Rightarrow> NewestOffset l + 1 | r # _ \<Rightarrow> lr_offset r)"
  by (simp add: answer_def NewestOffset_def activeSegment_def split: list.split)

section \<open>Properties\<close>

text \<open>
  C20: \<^verbatim>\<open>EarliestOffsetAfterTimestamp\<close> answers with the first record of the whole log at or after the time, even when a run
  of equal timestamps crosses segment boundaries or the time falls between two segments, and with the next
  offset to be assigned when there is none.
\<close>

theorem EarliestOffset_is_first:
  assumes "log_ok C l css" and "sorted (map lr_timestamp (log_recs css))"
  shows "EarliestOffsetAfterTimestamp C ts l =
     Some (Inr (case dropWhile (\<lambda>r. lr_timestamp r < ts) (log_recs css) of [] \<Rightarrow> NewestOffset l + 1 | r # _ \<Rightarrow> lr_offset r))"
  using EarliestOffset_ok [OF assms] by (simp add: answer_newest)

theorem EarliestOffset_is_first_witness:
  "EarliestOffsetAfterTimestamp raw_codecs 8 (log_of (sample_segment True)) = Some (Inr 103) \<and>
   EarliestOffsetAfterTimestamp raw_codecs 10 (log_of (sample_segment True)) = Some (Inr 104)"
proof -
  obtain cs where cs: "seg_ok raw_codecs (sample_segment True) cs" "concat cs = sample_logrecs" using sample_seg_ok by blast
  have "sorted (map lr_timestamp sample_logrecs)" "dropWhile (\<lambda>r. lr_timestamp r < 8) sample_logrecs = [sample_logrecs ! 1]"
    "dropWhile (\<lambda>r. lr_timestamp r < 10) sample_logrecs = []" "lr_offset (sample_logrecs ! 1) = 103" by (simp_all add: sample_logrecs_def)
  then show ?thesis
    using EarliestOffset_is_first [OF log_of_ok [OF cs(1)], of 8] EarliestOffset_is_first [OF log_of_ok [OF cs(1)], of 10] cs(2)
      sample_log_newest [of True] by (simp del: dropWhile_eq_Nil_conv)
qed

lemma first_write_time:
  assumes "log_ok C l css" and "last css = []" and "log_recs css \<noteq> []"
  shows "\<exists>r \<in> set (log_recs css). s_firstWriteTime (hd (l_segments l)) = lr_timestamp r"
proof (rule log_ok_active [OF assms(1)])
  fix ss s dss cs
  assume l: "l_segments l = ss @ [s]" "css = dss @ [cs]" "list_all2 (seg_ok C) ss dss"
    "\<forall>t \<in> set ss. NextOffset t \<le> s_BaseOffset s \<and> \<not> IsEmpty t"
  then have "dss \<noteq> []" using assms(2,3) by auto
  then obtain t ss' ds dss' where c: "ss = t # ss'" "dss = ds # dss'" using l(3) by (cases ss; cases dss) auto
  then have h: "seg_holds C t ds" "\<not> IsEmpty t" using l by (simp_all add: seg_ok_def)
  then have ne: "concat ds \<noteq> []" using IsEmpty_holds [OF h(1)] by simp
  have "ends_match t (concat ds)" using h(1) by (simp add: seg_holds_def)
  then have "s_firstWriteTime t = lr_timestamp (hd (concat ds))" using ne by (simp only: ends_match_def if_False)
  then show ?thesis using hd_in_set [OF ne] c l by (intro bexI [of _ "hd (concat ds)"]) simp_all
qed

text \<open>
  The latest offset before the end of time is lost by a roll.  On a log whose active segment is still empty,
  \<^verbatim>\<open>LatestOffsetBeforeTimestamp\<close> at the largest time answers -1, as if the log held nothing, while one tick earlier
  it answers with the newest offset.
\<close>

theorem latest_at_max_time_lost:
  assumes "log_ok C l css" and "last css = []" and "log_recs css \<noteq> []" and "sorted (map lr_timestamp (log_recs css))"
    and "\<forall>r \<in> set (log_recs css). lr_timestamp r < 2 ^ 63 - 1"
  shows "LatestOffsetBeforeTimestamp C (2 ^ 63 - 1) l = Some (Inr (- 1)) \<and>
     LatestOffsetBeforeTimestamp C (2 ^ 63 - 2) l = Some (Inr (NewestOffset l))"
proof -
  obtain r where r: "r \<in> set (log_recs css)" "s_firstWriteTime (hd (l_segments l)) = lr_timestamp r"
    using first_write_time [OF assms(1-3)] by blast
  have fw: "s_firstWriteTime (hd (l_segments l)) \<le> 2 ^ 63 - 2" using r assms(5) by fastforce
  have "s_lastOffset (last (l_segments l)) = - 1"
  proof (rule log_ok_active [OF assms(1)])
    fix ss s dss cs assume "l_segments l = ss @ [s]" "css = dss @ [cs]" "seg_ok C s cs"
    then show ?thesis using assms(2) by (simp add: seg_ok_def seg_holds_def ends_match_def)
  qed
  moreover have "dropWhile (\<lambda>r. lr_timestamp r < 2 ^ 63 - 1) (log_recs css) = []" using assms(5) unfolding dropWhile_eq_Nil_conv .
  ultimately show ?thesis using fw EarliestOffset_ok [OF assms(1,4), of "2 ^ 63 - 1"]
    by (simp add: LatestOffsetBeforeTimestamp_def answer_newest del: dropWhile_eq_Nil_conv)
qed

definition next_segment :: segment where
  "next_segment = (emptySegment 104 1000 Snappy) \<lparr>s_Index := Some (index_of 104 [] 40)\<rparr>"

definition rolled_log :: commitLog where
  "rolled_log = (log_of (sample_segment True)) \<lparr>l_segments := [sample_segment True, next_segment]\<rparr>"

lemma next_segment_ok: "seg_ok C next_segment []" "NextOffset next_segment = 104" "s_BaseOffset next_segment = 104"
proof -
  have "ix_holds 104 (index_of 104 [] 40) []" by (rule index_of_holds) simp
  then show "seg_ok C next_segment []"
    by (simp add: seg_ok_def seg_holds_def next_segment_def emptySegment_def records_ok_def ends_match_def seg_bytes_def s_live_def
        codec_Valid_def Snappy_def Zstd_def)
qed (simp_all add: next_segment_def emptySegment_def NextOffset_def)

lemma rolled_log_ok: "\<exists>cs. log_ok raw_codecs rolled_log [cs, []] \<and> concat cs = sample_logrecs"
proof -
  obtain cs where cs: "seg_ok raw_codecs (sample_segment True) cs" "concat cs = sample_logrecs" using sample_seg_ok by blast
  have "NextOffset (sample_segment True) = 104" using sample_log_newest [of True] by (simp add: NewestOffset_def activeSegment_def log_of_def)
  moreover have "\<not> IsEmpty (sample_segment True)" using IsEmpty_holds [of raw_codecs "sample_segment True" cs] cs
    by (simp add: seg_ok_def sample_logrecs_def)
  moreover have "s_BaseOffset (sample_segment True) \<le> 104" using holds_bounds(2) [of raw_codecs "sample_segment True" cs] cs(1) calculation(1)
    by (simp add: seg_ok_def)
  ultimately have "log_ok raw_codecs rolled_log [cs, []]" using log_of_ok [OF cs(1)] cs(1) next_segment_ok
    by (simp add: rolled_log_def log_ok_def activeSegment_def log_of_def)
  then show ?thesis using cs(2) by blast
qed

theorem latest_at_max_time_lost_witness:
  "LatestOffsetBeforeTimestamp raw_codecs (2 ^ 63 - 1) rolled_log = Some (Inr (- 1)) \<and>
   LatestOffsetBeforeTimestamp raw_codecs (2 ^ 63 - 2) rolled_log = Some (Inr 103)"
proof -
  obtain cs where "log_ok raw_codecs rolled_log [cs, []]" "concat cs = sample_logrecs" using rolled_log_ok by blast
  moreover have "sample_logrecs \<noteq> []" "sorted (map lr_timestamp sample_logrecs)" "\<forall>r \<in> set sample_logrecs. lr_timestamp r < 2 ^ 63 - 1"
    by (simp_all add: sample_logrecs_def)
  moreover have "NewestOffset rolled_log = 103" by (simp add: NewestOffset_def activeSegment_def rolled_log_def next_segment_ok)
  ultimately show ?thesis using latest_at_max_time_lost [of raw_codecs rolled_log "[cs, []]"] by simp
qed

end
