(* ===== verification/Key_Digest.thy ===== *)
theory Key_Digest
  imports Log_Holds Varint "HOL-Library.List_Lexorder"
begin

text \<open>
  \<^verbatim>\<open>keydigest.go\<close>: the sidecar that summarises a sealed segment for compaction, its encoding, the load of a persisted
  one and the iterator over its keyed section.

  The decoder's sticky error makes every later read a zero and the load answer nil, so the model stops at the
  error.  A freshly built digest keeps its keyed section in memory; a loaded one keeps the file from where the
  section starts, and the iterator reads as many entries as the digest counts.
\<close>

section \<open>Data\<close>

definition digestMagic :: "32 word" where "digestMagic = 0x434C4B44"
definition digestVersion :: byte where "digestVersion = 2"
definition digestFlagTombstone :: byte where "digestFlagTombstone = 1"
definition digestFlagHasHeaders :: byte where "digestFlagHasHeaders = 2"

record digestRec =
  dr_offset :: int
  dr_flags :: byte
  dr_ts :: int

record keyDigest =
  d_base :: int
  d_logSize :: int
  d_baseTs :: int
  d_stripVerifiedBelow :: int
  d_stripHdrs :: "bytes list"
  d_keyed :: bytes
  d_nKeys :: nat
  d_unkeyed :: "digestRec list"
  d_control :: "int list"

definition stripStampCovers :: "keyDigest \<Rightarrow> int \<Rightarrow> bytes list \<Rightarrow> bool" where
  "stripStampCovers d boundary hdrs \<longleftrightarrow> \<not> d_stripVerifiedBelow d < boundary \<and> d_stripHdrs d = hdrs"

section \<open>Encoding\<close>

definition u64 :: "int \<Rightarrow> nat" where
  "u64 x = nat (x mod 2 ^ 64)"

definition w_rec :: "int \<Rightarrow> int \<Rightarrow> digestRec \<Rightarrow> bytes" where
  "w_rec base baseTs r = uvarint (u64 (dr_offset r - base)) @ [dr_flags r] @ varint (i64 (dr_ts r - baseTs))"

definition w_i64 :: "int \<Rightarrow> bytes" where
  "w_i64 v = be64 (word_of_int v)"

definition w_string :: "bytes \<Rightarrow> bytes" where
  "w_string h = uvarint (length h) @ h"

definition digest_body :: "keyDigest \<Rightarrow> bytes" where
  "digest_body d =
     be32 digestMagic @ [digestVersion] @ w_i64 (d_base d) @ w_i64 (d_logSize d) @ w_i64 (d_baseTs d) @
     w_i64 (d_stripVerifiedBelow d) @ uvarint (length (d_stripHdrs d)) @ concat (map w_string (d_stripHdrs d)) @
     uvarint (d_nKeys d) @ uvarint (length (d_keyed d)) @ d_keyed d @
     uvarint (length (d_unkeyed d)) @ concat (map (w_rec (d_base d) (d_baseTs d)) (d_unkeyed d)) @
     uvarint (length (d_control d)) @ concat (map (\<lambda>off. uvarint (u64 (off - d_base d))) (d_control d))"

definition encodeKeyDigest :: "keyDigest \<Rightarrow> bytes" where
  "encodeKeyDigest d = digest_body d @ be32 (crc32 IEEE (digest_body d))"

section \<open>Building\<close>

text \<open>Every frame of a segment, and the error that ended the scan.\<close>

function scan_all :: "codecs \<Rightarrow> segment \<Rightarrow> int \<Rightarrow> bytes list \<times> err" where
  "scan_all C s pos =
     (case Scan C s pos of
        Inl e \<Rightarrow> ([], e)
      | Inr (ms, _, pos') \<Rightarrow> (let (rest, e) = scan_all C s pos' in (ms # rest, e)))"
  by pat_completeness auto
termination
  by (relation "measure (\<lambda>(_, s, pos). nat (s_position s - pos))") (auto dest!: Scan_advances)

declare scan_all.simps [simp del]

fun add_key :: "bytes \<Rightarrow> digestRec \<Rightarrow> (bytes \<times> digestRec list) list \<Rightarrow> (bytes \<times> digestRec list) list" where
  "add_key k r [] = [(k, [r])]"
| "add_key k r ((k', rs) # xs) = (if k' = k then (k', rs @ [r]) # xs else (k', rs) # add_key k r xs)"

type_synonym digest_acc = "int list \<times> digestRec list \<times> (bytes \<times> digestRec list) list"

definition build_one :: "bytes \<Rightarrow> digest_acc \<Rightarrow> digest_acc result" where
  "build_one ms acc =
     (case acc of (control, unkeyed, byKey) \<Rightarrow>
      and_then (ms_Offset ms) (\<lambda>offset. and_then (ms_Message ms) (\<lambda>msg. and_then (sm_Attributes msg) (\<lambda>attrs.
      if attrs AND AttrControl \<noteq> 0 then Inr (control @ [offset], unkeyed, byKey)
      else
        and_then (ms_Timestamp ms) (\<lambda>ts. and_then (sm_Headers msg) (\<lambda>headers. and_then (sm_Key msg) (\<lambda>key.
        let r = \<lparr>dr_offset = offset,
                 dr_flags = (if attrs AND AttrTombstone \<noteq> 0 then digestFlagTombstone else 0) OR
                            (if headers \<noteq> [] then digestFlagHasHeaders else 0), dr_ts = ts\<rparr> in
        case key of
          None \<Rightarrow> Inr (control, unkeyed @ [r], byKey)
        | Some k \<Rightarrow> Inr (control, unkeyed, add_key k r byKey))))))))"

definition w_entry :: "int \<Rightarrow> int \<Rightarrow> bytes \<times> digestRec list \<Rightarrow> bytes" where
  "w_entry base baseTs e =
     (case e of (k, rs) \<Rightarrow> uvarint (length k) @ k @ uvarint (length rs) @ concat (map (w_rec base baseTs) rs))"

definition buildKeyDigest :: "codecs \<Rightarrow> segment \<Rightarrow> keyDigest result" where
  "buildKeyDigest C s =
     (case scan_all C s 0 of (mss, e) \<Rightarrow>
      and_then (fold_result build_one mss ([], [], [])) (\<lambda>(control, unkeyed, byKey).
        if e = GoPanic then Inl GoPanic
        else if e \<noteq> EOF then Inl ErrSegmentUnreadable
        else let keys = sort_key fst byKey in
          Inr \<lparr>d_base = s_BaseOffset s, d_logSize = s_position s, d_baseTs = s_firstWriteTime s,
               d_stripVerifiedBelow = - 1, d_stripHdrs = [],
               d_keyed = concat (map (w_entry (s_BaseOffset s) (s_firstWriteTime s)) keys), d_nKeys = length keys,
               d_unkeyed = unkeyed, d_control = control\<rparr>))"

section \<open>Decoding\<close>

definition dd_uvarint :: "bytes \<Rightarrow> nat \<Rightarrow> (nat \<times> nat) result" where
  "dd_uvarint data pos =
     (case Uvarint (drop pos data) of None \<Rightarrow> Inl ErrIndexCorrupt | Some (v, n) \<Rightarrow> Inr (v, pos + n))"

definition dd_varint :: "bytes \<Rightarrow> nat \<Rightarrow> (int \<times> nat) result" where
  "dd_varint data pos =
     (case Varint (drop pos data) of None \<Rightarrow> Inl ErrIndexCorrupt | Some (v, n) \<Rightarrow> Inr (v, pos + n))"

definition dd_bytes :: "int \<Rightarrow> bytes \<Rightarrow> nat \<Rightarrow> (bytes \<times> nat) result" where
  "dd_bytes n data pos =
     (let end = i64 (int pos + n) in
      if end > int (length data) then Inl ErrIndexCorrupt
      else and_then (go_slice data (int pos) end) (\<lambda>b. Inr (b, nat end)))"

definition dd_u32 :: "bytes \<Rightarrow> nat \<Rightarrow> (32 word \<times> nat) result" where
  "dd_u32 data pos = and_then (dd_bytes 4 data pos) (\<lambda>(b, pos). and_then (uint32_of b) (\<lambda>v. Inr (v, pos)))"

definition dd_i64 :: "bytes \<Rightarrow> nat \<Rightarrow> (int \<times> nat) result" where
  "dd_i64 data pos = and_then (dd_bytes 8 data pos) (\<lambda>(b, pos). and_then (uint64_of b) (\<lambda>v. Inr (sint v, pos)))"

definition dd_byte :: "bytes \<Rightarrow> nat \<Rightarrow> (byte \<times> nat) result" where
  "dd_byte data pos = and_then (dd_bytes 1 data pos) (\<lambda>(b, pos). and_then (go_index b 0) (\<lambda>v. Inr (v, pos)))"

fun dd_strings :: "nat \<Rightarrow> bytes \<Rightarrow> nat \<Rightarrow> (bytes list \<times> nat) result" where
  "dd_strings 0 data pos = Inr ([], pos)"
| "dd_strings (Suc n) data pos =
     and_then (dd_uvarint data pos) (\<lambda>(hl, pos). and_then (dd_bytes (i64 (int hl)) data pos) (\<lambda>(h, pos).
     and_then (dd_strings n data pos) (\<lambda>(hs, pos). Inr (h # hs, pos))))"

fun dd_recs :: "int \<Rightarrow> int \<Rightarrow> nat \<Rightarrow> bytes \<Rightarrow> nat \<Rightarrow> (digestRec list \<times> nat) result" where
  "dd_recs base baseTs 0 data pos = Inr ([], pos)"
| "dd_recs base baseTs (Suc n) data pos =
     and_then (dd_uvarint data pos) (\<lambda>(off, pos). and_then (dd_byte data pos) (\<lambda>(flags, pos).
     and_then (dd_varint data pos) (\<lambda>(ts, pos). and_then (dd_recs base baseTs n data pos) (\<lambda>(rs, pos).
       Inr (\<lparr>dr_offset = i64 (i64 (int off) + base), dr_flags = flags, dr_ts = i64 (ts + baseTs)\<rparr> # rs, pos)))))"

fun dd_offsets :: "int \<Rightarrow> nat \<Rightarrow> bytes \<Rightarrow> nat \<Rightarrow> (int list \<times> nat) result" where
  "dd_offsets base 0 data pos = Inr ([], pos)"
| "dd_offsets base (Suc n) data pos =
     and_then (dd_uvarint data pos) (\<lambda>(off, pos). and_then (dd_offsets base n data pos) (\<lambda>(os, pos).
       Inr (i64 (i64 (int off) + base) # os, pos)))"

text \<open>\<open>file\<close> is the whole sidecar, \<open>body\<close> what its checksum covers.\<close>

definition parse_lists :: "int \<Rightarrow> int \<Rightarrow> int \<Rightarrow> int \<Rightarrow> bytes \<Rightarrow> bytes \<Rightarrow> nat \<Rightarrow> keyDigest option result" where
  "parse_lists base logSize baseTs verified file body p =
     and_then (dd_uvarint body p) (\<lambda>(nHdrs, p). if nHdrs > 64 then Inr None else
     and_then (dd_strings nHdrs body p) (\<lambda>(hdrs, p). and_then (dd_uvarint body p) (\<lambda>(nKeys, p).
     and_then (dd_uvarint body p) (\<lambda>(keyedLen, p). if keyedLen > length body then Inr None else
       let keyedOff = p in
     and_then (dd_bytes (int keyedLen) body p) (\<lambda>(_, p).
     and_then (dd_uvarint body p) (\<lambda>(nUnkeyed, p). if nUnkeyed > length body then Inr None else
     and_then (dd_recs base baseTs nUnkeyed body p) (\<lambda>(unkeyed, p).
     and_then (dd_uvarint body p) (\<lambda>(nControl, p). if nControl > length body then Inr None else
     and_then (dd_offsets base nControl body p) (\<lambda>(control, p).
       Inr (Some \<lparr>d_base = base, d_logSize = logSize, d_baseTs = baseTs, d_stripVerifiedBelow = verified,
                  d_stripHdrs = hdrs, d_keyed = drop keyedOff file, d_nKeys = nKeys, d_unkeyed = unkeyed,
                  d_control = control\<rparr>))))))))))"

definition parse_digest :: "int \<Rightarrow> int \<Rightarrow> bytes \<Rightarrow> bytes \<Rightarrow> keyDigest option result" where
  "parse_digest BaseOffset position file body =
     and_then (dd_u32 body 0) (\<lambda>(magic, p). if magic \<noteq> digestMagic then Inr None else
     and_then (dd_byte body p) (\<lambda>(version, p). if version \<noteq> digestVersion then Inr None else
     and_then (dd_i64 body p) (\<lambda>(base, p). and_then (dd_i64 body p) (\<lambda>(logSize, p).
     and_then (dd_i64 body p) (\<lambda>(baseTs, p). and_then (dd_i64 body p) (\<lambda>(verified, p).
       if base \<noteq> BaseOffset \<or> logSize \<noteq> position then Inr None
       else parse_lists base logSize baseTs verified file body p))))))"

text \<open>\<^verbatim>\<open>loadKeyDigest\<close> of the sidecar's bytes, if the file could be read, for a segment's base and size.\<close>

definition loadKeyDigest :: "int \<Rightarrow> int \<Rightarrow> bytes option \<Rightarrow> keyDigest option result" where
  "loadKeyDigest BaseOffset position data =
     (case data of
        None \<Rightarrow> Inr None
      | Some data \<Rightarrow>
          if length data < 41 then Inr None
          else let body = take (length data - 4) data; crcBytes = drop (length data - 4) data in
            and_then (uint32_of crcBytes) (\<lambda>crc.
            if crc32 IEEE body \<noteq> crc then Inr None
            else case parse_digest BaseOffset position data body of
              Inl e \<Rightarrow> if e = GoPanic then Inl GoPanic else Inr None
            | Inr d \<Rightarrow> Inr d))"

section \<open>Iterating the keyed section\<close>

record digestIter =
  it_r :: bytes
  it_base :: int
  it_bTs :: int
  it_rem :: nat
  it_key :: bytes
  it_recs :: "digestRec list"

definition newDigestIter :: "keyDigest \<Rightarrow> digestIter" where
  "newDigestIter d = \<lparr>it_r = d_keyed d, it_base = d_base d, it_bTs = d_baseTs d, it_rem = d_nKeys d, it_key = [], it_recs = []\<rparr>"

definition it_uvarint :: "bytes \<Rightarrow> (nat \<times> bytes) result" where
  "it_uvarint r = (case Uvarint r of None \<Rightarrow> Inl EOF | Some (v, n) \<Rightarrow> Inr (v, drop n r))"

definition it_varint :: "bytes \<Rightarrow> (int \<times> bytes) result" where
  "it_varint r = (case Varint r of None \<Rightarrow> Inl EOF | Some (v, n) \<Rightarrow> Inr (v, drop n r))"

definition it_readByte :: "bytes \<Rightarrow> (byte \<times> bytes) result" where
  "it_readByte r = (case r of [] \<Rightarrow> Inl EOF | b # r \<Rightarrow> Inr (b, r))"

definition it_readKey :: "nat \<Rightarrow> bytes \<Rightarrow> (bytes \<times> bytes) result" where
  "it_readKey n r = (if length r < n then Inl EOF else Inr (take n r, drop n r))"

fun it_read_recs :: "int \<Rightarrow> int \<Rightarrow> nat \<Rightarrow> bytes \<Rightarrow> (digestRec list \<times> bytes) result" where
  "it_read_recs base bTs 0 r = Inr ([], r)"
| "it_read_recs base bTs (Suc n) r =
     and_then (it_uvarint r) (\<lambda>(off, r). and_then (it_readByte r) (\<lambda>(flags, r).
     and_then (it_varint r) (\<lambda>(ts, r). and_then (it_read_recs base bTs n r) (\<lambda>(rs, r).
       Inr (\<lparr>dr_offset = i64 (i64 (int off) + base), dr_flags = flags, dr_ts = i64 (ts + bTs)\<rparr> # rs, r)))))"

text \<open>\<^verbatim>\<open>next\<close>: the iterator at its next entry, or none left, or the error.\<close>

definition it_next :: "digestIter \<Rightarrow> digestIter option result" where
  "it_next it =
     (if it_rem it = 0 then Inr None
      else
        and_then (it_uvarint (it_r it)) (\<lambda>(klen, r). if klen > 2 ^ 24 then Inl ErrIndexCorrupt else
        and_then (it_readKey klen r) (\<lambda>(key, r). and_then (it_uvarint r) (\<lambda>(n, r).
        and_then (it_read_recs (it_base it) (it_bTs it) n r) (\<lambda>(recs, r).
          Inr (Some (it \<lparr>it_r := r, it_rem := it_rem it - 1, it_key := key, it_recs := recs\<rparr>)))))))"

section \<open>What the decoders read back\<close>

lemma i64_add: "i64 (i64 a + b) = i64 (a + b)"
proof -
  have "take_bit 64 (signed_take_bit 63 a :: int) = take_bit 64 a" by (simp add: take_bit_signed_take_bit)
  then have "take_bit 64 (signed_take_bit 63 a + b) = take_bit 64 (a + b)" by (metis take_bit_add)
  then show ?thesis unfolding i64_def by (simp add: signed_take_bit_eq_iff_take_bit_eq)
qed

lemma i64_u64: "i64 (int (u64 a)) = i64 a"
proof -
  have "int (u64 a) = take_bit 64 a" by (simp add: u64_def take_bit_eq_mod)
  then show ?thesis unfolding i64_def by (simp add: signed_take_bit_take_bit)
qed

lemma delta_back:
  "in_i64 x \<Longrightarrow> i64 (i64 (int (u64 (x - b))) + b) = x" "in_i64 x \<Longrightarrow> i64 (i64 (x - b) + b) = x"
  by (simp_all add: i64_u64 i64_add i64_id)

lemma u64_bound: "u64 a < 2 ^ 64"
  by (simp add: u64_def nat_less_iff)

text \<open>What is left of the data at a position.\<close>

definition left :: "bytes \<Rightarrow> nat \<Rightarrow> bytes \<Rightarrow> bool" where
  "left data pos rest \<longleftrightarrow> pos \<le> length data \<and> drop pos data = rest \<and> length data < 2 ^ 63"

lemma left_step: "left data pos (a @ rest) \<Longrightarrow> left data (pos + length a) rest"
proof -
  assume a: "left data pos (a @ rest)"
  then have d: "drop pos data = a @ rest" by (simp add: left_def)
  then have "length (drop pos data) = length a + length rest" by simp
  moreover have "drop (length a) (drop pos data) = rest" unfolding d by simp
  then have "drop (pos + length a) data = rest" by (simp add: add.commute)
  ultimately show ?thesis using a by (auto simp: left_def)
qed

lemma dd_uvarint_left:
  assumes "left data pos (uvarint v @ rest)" and "v < 2 ^ 64"
  shows "\<exists>p. dd_uvarint data pos = Inr (v, p) \<and> left data p rest"
  using assms left_step [OF assms(1)] by (auto simp: dd_uvarint_def left_def Uvarint_uvarint)

lemma dd_varint_left:
  assumes "left data pos (varint v @ rest)" and "in_i64 v"
  shows "\<exists>p. dd_varint data pos = Inr (v, p) \<and> left data p rest"
  using assms left_step [OF assms(1)] by (auto simp: dd_varint_def left_def Varint_varint)

lemma dd_bytes_left:
  assumes "left data pos (b @ rest)" and "int (length b) = n"
  shows "\<exists>p. dd_bytes n data pos = Inr (b, p) \<and> left data p rest"
proof -
  have l: "length data - pos = length b + length rest" using assms(1) by (metis left_def length_append length_drop)
  then have le: "pos + length b \<le> length data" "length data < 2 ^ 63" using assms(1) by (auto simp: left_def)
  then have e: "i64 (int pos + n) = int (pos + length b)" using assms(2) by (subst i64_id) auto
  have "go_slice data (int pos) (int (pos + length b)) = Inr b"
    using assms(1) le by (simp add: go_slice_def left_def)
  then show ?thesis using left_step [OF assms(1)] le unfolding dd_bytes_def Let_def e by (simp add: nat_int_add)
qed

lemma dd_fixed_left:
  "left data pos (be32 w @ rest) \<Longrightarrow> \<exists>p. dd_u32 data pos = Inr (w, p) \<and> left data p rest"
  "left data pos (w_i64 x @ rest) \<Longrightarrow> in_i64 x \<Longrightarrow> \<exists>p. dd_i64 data pos = Inr (x, p) \<and> left data p rest"
  "left data pos (c # rest) \<Longrightarrow> \<exists>p. dd_byte data pos = Inr (c, p) \<and> left data p rest"
proof -
  assume "left data pos (be32 w @ rest)"
  then obtain p where "dd_bytes 4 data pos = Inr (be32 w, p)" "left data p rest"
    using dd_bytes_left [of data pos "be32 w" rest 4] by auto
  then show "\<exists>p. dd_u32 data pos = Inr (w, p) \<and> left data p rest" by (simp add: dd_u32_def)
next
  assume x: "left data pos (w_i64 x @ rest)" "in_i64 x"
  then obtain p where "dd_bytes 8 data pos = Inr (w_i64 x, p)" "left data p rest"
    using dd_bytes_left [OF x(1), of 8] by (auto simp: w_i64_def)
  moreover have "sint (word_of_int x :: 64 word) = x" using x(2) by (simp add: sint_word_of_int_64 i64_id)
  ultimately show "\<exists>p. dd_i64 data pos = Inr (x, p) \<and> left data p rest" by (simp add: dd_i64_def w_i64_def)
next
  assume "left data pos (c # rest)"
  then obtain p where "dd_bytes 1 data pos = Inr ([c], p)" "left data p rest"
    using dd_bytes_left [of data pos "[c]" rest 1] by auto
  then show "\<exists>p. dd_byte data pos = Inr (c, p) \<and> left data p rest" by (simp add: dd_byte_def go_index_def)
qed

lemma left_length:
  assumes "left data pos (a @ rest)"
  shows "length a < 2 ^ 63 \<and> length a \<le> length data"
proof -
  have "pos + length a \<le> length data" "length data < 2 ^ 63" using left_step [OF assms] by (simp_all add: left_def)
  then show ?thesis by linarith
qed

lemma dd_strings_left:
  assumes "left data pos (concat (map w_string hs) @ rest)"
  shows "\<exists>p. dd_strings (length hs) data pos = Inr (hs, p) \<and> left data p rest"
  using assms
proof (induction hs arbitrary: pos)
  case (Cons h hs)
  then have a: "left data pos (uvarint (length h) @ h @ concat (map w_string hs) @ rest)" by (simp add: w_string_def [of h])
  have h: "length h < 2 ^ 63" using left_length [OF left_step [OF a]] by simp
  obtain p where p: "dd_uvarint data pos = Inr (length h, p)" "left data p (h @ concat (map w_string hs) @ rest)"
    using dd_uvarint_left [OF a] h by auto
  have i: "i64 (int (length h)) = int (length h)" using h by (intro i64_id) auto
  obtain q where "dd_bytes (int (length h)) data p = Inr (h, q)" "left data q (concat (map w_string hs) @ rest)"
    using dd_bytes_left [OF p(2)] by blast
  then show ?case using Cons.IH [of q] p(1) i by auto
qed simp

definition rec_fits :: "digestRec \<Rightarrow> bool" where
  "rec_fits r \<longleftrightarrow> in_i64 (dr_offset r) \<and> in_i64 (dr_ts r)"

lemma dd_recs_left:
  assumes "left data pos (concat (map (w_rec base baseTs) rs) @ rest)" and "list_all rec_fits rs"
  shows "\<exists>p. dd_recs base baseTs (length rs) data pos = Inr (rs, p) \<and> left data p rest"
  using assms
proof (induction rs arbitrary: pos)
  case (Cons r rs)
  let ?rest = "concat (map (w_rec base baseTs) rs) @ rest"
  have "left data pos (uvarint (u64 (dr_offset r - base)) @ (dr_flags r # varint (i64 (dr_ts r - baseTs)) @ ?rest))"
    using Cons.prems(1) by (simp add: w_rec_def [of base baseTs r])
  from dd_uvarint_left [OF this u64_bound]
  obtain p where p: "dd_uvarint data pos = Inr (u64 (dr_offset r - base), p)"
    "left data p (dr_flags r # varint (i64 (dr_ts r - baseTs)) @ ?rest)" by blast
  obtain q where q: "dd_byte data p = Inr (dr_flags r, q)" "left data q (varint (i64 (dr_ts r - baseTs)) @ ?rest)"
    using dd_fixed_left(3) [OF p(2)] by blast
  obtain t where t: "dd_varint data q = Inr (i64 (dr_ts r - baseTs), t)" "left data t ?rest"
    using dd_varint_left [OF q(2) i64_range] by blast
  show ?case using Cons.IH [OF t(2)] Cons.prems(2) p(1) q(1) t(1) by (auto simp: rec_fits_def delta_back)
qed simp

lemma dd_offsets_left:
  assumes "left data pos (concat (map (\<lambda>off. uvarint (u64 (off - base))) os) @ rest)" and "list_all in_i64 os"
  shows "\<exists>p. dd_offsets base (length os) data pos = Inr (os, p) \<and> left data p rest"
  using assms
proof (induction os arbitrary: pos)
  case (Cons off os)
  let ?rest = "concat (map (\<lambda>off. uvarint (u64 (off - base))) os) @ rest"
  have "left data pos (uvarint (u64 (off - base)) @ ?rest)" using Cons.prems(1) by simp
  from dd_uvarint_left [OF this u64_bound]
  obtain p where "dd_uvarint data pos = Inr (u64 (off - base), p)" "left data p ?rest" by blast
  then show ?case using Cons.IH [of p] Cons.prems(2) by (auto simp: delta_back)
qed simp

section \<open>The sidecar round trip\<close>

definition digest_fits :: "keyDigest \<Rightarrow> bool" where
  "digest_fits d \<longleftrightarrow> in_i64 (d_base d) \<and> in_i64 (d_logSize d) \<and> in_i64 (d_baseTs d) \<and> in_i64 (d_stripVerifiedBelow d) \<and>
     length (d_stripHdrs d) \<le> 64 \<and> d_nKeys d < 2 ^ 64 \<and> list_all rec_fits (d_unkeyed d) \<and> list_all in_i64 (d_control d) \<and>
     length (digest_body d) + 4 < 2 ^ 63"

lemma concat_at_least: "(\<And>x. f x \<noteq> []) \<Longrightarrow> length xs \<le> length (concat (map f xs))"
proof (induction xs)
  case (Cons x xs)
  then have "1 \<le> length (f x)" "length xs \<le> length (concat (map f xs))" by (simp_all add: Suc_le_eq)
  then have "1 + length xs \<le> length (f x) + length (concat (map f xs))" by (rule add_mono)
  then show ?case by simp
qed simp

definition digest_lists :: "keyDigest \<Rightarrow> bytes" where
  "digest_lists d = uvarint (length (d_stripHdrs d)) @ concat (map w_string (d_stripHdrs d)) @
     uvarint (d_nKeys d) @ uvarint (length (d_keyed d)) @ d_keyed d @
     uvarint (length (d_unkeyed d)) @ concat (map (w_rec (d_base d) (d_baseTs d)) (d_unkeyed d)) @
     uvarint (length (d_control d)) @ concat (map (\<lambda>off. uvarint (u64 (off - d_base d))) (d_control d))"

lemma parse_lists_left:
  assumes fits: "digest_fits d" and b: "left b p (digest_lists d)"
  shows "\<exists>tail. parse_lists (d_base d) (d_logSize d) (d_baseTs d) (d_stripVerifiedBelow d) (b @ crc) b p =
     Inr (Some (d \<lparr>d_keyed := d_keyed d @ tail\<rparr>))"
proof -
  let ?ctl = "concat (map (\<lambda>off. uvarint (u64 (off - d_base d))) (d_control d))"
  let ?unk = "concat (map (w_rec (d_base d) (d_baseTs d)) (d_unkeyed d))"
  let ?t1 = "uvarint (length (d_control d)) @ ?ctl"
  let ?t2 = "uvarint (length (d_unkeyed d)) @ ?unk @ ?t1"
  let ?t3 = "uvarint (d_nKeys d) @ uvarint (length (d_keyed d)) @ d_keyed d @ ?t2"
  note f = fits [unfolded digest_fits_def]
  have "left b p (uvarint (length (d_stripHdrs d)) @ concat (map w_string (d_stripHdrs d)) @ ?t3)"
    using b by (simp add: digest_lists_def)
  then obtain p6 where p6: "dd_uvarint b p = Inr (length (d_stripHdrs d), p6)" "left b p6 (concat (map w_string (d_stripHdrs d)) @ ?t3)"
    using dd_uvarint_left [of b p "length (d_stripHdrs d)"] f by auto
  obtain p7 where p7: "dd_strings (length (d_stripHdrs d)) b p6 = Inr (d_stripHdrs d, p7)" "left b p7 ?t3"
    using dd_strings_left [OF p6(2)] by blast
  obtain p8 where p8: "dd_uvarint b p7 = Inr (d_nKeys d, p8)" "left b p8 (uvarint (length (d_keyed d)) @ d_keyed d @ ?t2)"
    using dd_uvarint_left [OF p7(2)] f by blast
  have k: "length (d_keyed d) < 2 ^ 63" "length (d_keyed d) \<le> length b" using left_length [OF left_step [OF p8(2)]] by auto
  obtain p9 where p9: "dd_uvarint b p8 = Inr (length (d_keyed d), p9)" "left b p9 (d_keyed d @ ?t2)"
    using dd_uvarint_left [OF p8(2)] k by auto
  obtain p10 where p10: "dd_bytes (int (length (d_keyed d))) b p9 = Inr (d_keyed d, p10)" "left b p10 ?t2"
    using dd_bytes_left [OF p9(2)] by blast
  have u: "length (d_unkeyed d) < 2 ^ 64" "length (d_unkeyed d) \<le> length b"
    using left_length [OF left_step [OF p10(2)]] concat_at_least [of "w_rec (d_base d) (d_baseTs d)" "d_unkeyed d"]
    by (auto simp: w_rec_def [abs_def])
  obtain p11 where p11: "dd_uvarint b p10 = Inr (length (d_unkeyed d), p11)" "left b p11 (?unk @ ?t1)"
    using dd_uvarint_left [OF p10(2) u(1)] by blast
  obtain p12 where p12: "dd_recs (d_base d) (d_baseTs d) (length (d_unkeyed d)) b p11 = Inr (d_unkeyed d, p12)" "left b p12 ?t1"
    using dd_recs_left [OF p11(2)] f by blast
  have c: "length (d_control d) < 2 ^ 64" "length (d_control d) \<le> length b"
    using left_length [of b _ ?ctl "[]"] left_step [OF p12(2)] concat_at_least [of "\<lambda>off. uvarint (u64 (off - d_base d))" "d_control d"]
    by fastforce+
  obtain p13 where p13: "dd_uvarint b p12 = Inr (length (d_control d), p13)" "left b p13 (?ctl @ [])"
    using dd_uvarint_left [OF p12(2) c(1)] by auto
  obtain p14 where p14: "dd_offsets (d_base d) (length (d_control d)) b p13 = Inr (d_control d, p14)"
    using dd_offsets_left [OF p13(2)] f by blast
  have "drop p9 (b @ crc) = d_keyed d @ ?t2 @ crc" using p9(2) by (simp add: left_def)
  then show ?thesis using k u c f
    by (intro exI [of _ "?t2 @ crc"]) (simp add: parse_lists_def p6 p7 p8 p9 p10 p11 p12 p13 p14 not_less)
qed

lemma parse_digest_body:
  assumes fits: "digest_fits d"
  shows "\<exists>tail. parse_digest (d_base d) (d_logSize d) (digest_body d @ crc) (digest_body d) =
     Inr (Some (d \<lparr>d_keyed := d_keyed d @ tail\<rparr>))"
proof -
  let ?b = "digest_body d"
  let ?t = "digest_lists d"
  note f = fits [unfolded digest_fits_def]
  have b: "left ?b 0 (be32 digestMagic @ digestVersion # w_i64 (d_base d) @ w_i64 (d_logSize d) @ w_i64 (d_baseTs d) @
      w_i64 (d_stripVerifiedBelow d) @ ?t)"
    using f by (simp add: left_def digest_body_def [of d] digest_lists_def)
  obtain p0 where p0: "dd_u32 ?b 0 = Inr (digestMagic, p0)" "left ?b p0 (digestVersion # w_i64 (d_base d) @ w_i64 (d_logSize d) @
      w_i64 (d_baseTs d) @ w_i64 (d_stripVerifiedBelow d) @ ?t)"
    using dd_fixed_left(1) [OF b] by blast
  obtain p1 where p1: "dd_byte ?b p0 = Inr (digestVersion, p1)" "left ?b p1 (w_i64 (d_base d) @ w_i64 (d_logSize d) @
      w_i64 (d_baseTs d) @ w_i64 (d_stripVerifiedBelow d) @ ?t)"
    using dd_fixed_left(3) [OF p0(2)] by blast
  obtain p2 where p2: "dd_i64 ?b p1 = Inr (d_base d, p2)"
    "left ?b p2 (w_i64 (d_logSize d) @ w_i64 (d_baseTs d) @ w_i64 (d_stripVerifiedBelow d) @ ?t)"
    using dd_fixed_left(2) [OF p1(2)] f by blast
  obtain p3 where p3: "dd_i64 ?b p2 = Inr (d_logSize d, p3)" "left ?b p3 (w_i64 (d_baseTs d) @ w_i64 (d_stripVerifiedBelow d) @ ?t)"
    using dd_fixed_left(2) [OF p2(2)] f by blast
  obtain p4 where p4: "dd_i64 ?b p3 = Inr (d_baseTs d, p4)" "left ?b p4 (w_i64 (d_stripVerifiedBelow d) @ ?t)"
    using dd_fixed_left(2) [OF p3(2)] f by blast
  obtain p5 where p5: "dd_i64 ?b p4 = Inr (d_stripVerifiedBelow d, p5)" "left ?b p5 ?t"
    using dd_fixed_left(2) [OF p4(2)] f by blast
  show ?thesis using parse_lists_left [OF fits p5(2), of crc]
    by (simp add: parse_digest_def p0(1) p1(1) p2(1) p3(1) p4(1) p5(1))
qed

lemma loadKeyDigest_encode:
  assumes "digest_fits d"
  shows "\<exists>tail. loadKeyDigest (d_base d) (d_logSize d) (Some (encodeKeyDigest d)) = Inr (Some (d \<lparr>d_keyed := d_keyed d @ tail\<rparr>))"
proof -
  let ?b = "digest_body d"
  have "37 \<le> length ?b" by (simp add: digest_body_def w_i64_def)
  then show ?thesis
    using parse_digest_body [OF assms, of "be32 (crc32 IEEE ?b)"]
    by (auto simp: loadKeyDigest_def encodeKeyDigest_def Let_def)
qed

text \<open>A digest that loads is of the segment as it is: same base, same size.\<close>

lemma loadKeyDigest_fresh:
  assumes "loadKeyDigest b p data = Inr (Some d)"
  shows "d_base d = b \<and> d_logSize d = p"
proof -
  have l: "parse_lists base logSize t v data body q = Inr (Some d) \<Longrightarrow> d_base d = base \<and> d_logSize d = logSize"
    for base logSize t v data body q
    by (auto simp: parse_lists_def and_then_Inr_iff Let_def split: if_splits)
  obtain data body where "parse_digest b p data body = Inr (Some d)"
    using assms by (auto simp: loadKeyDigest_def Let_def and_then_Inr_iff split: option.splits if_splits sum.splits)
  then show ?thesis by (auto simp: parse_digest_def and_then_Inr_iff split: if_splits dest: l)
qed

section \<open>What an iterator yields\<close>

definition key_fits :: "bytes \<times> digestRec list \<Rightarrow> bool" where
  "key_fits e \<longleftrightarrow> length (fst e) \<le> 2 ^ 24 \<and> length (snd e) < 2 ^ 64 \<and> list_all rec_fits (snd e)"

lemma it_read_recs_back:
  assumes "list_all rec_fits rs"
  shows "it_read_recs base bTs (length rs) (concat (map (w_rec base bTs) rs) @ rest) = Inr (rs, rest)"
  using assms
  by (induction rs) (auto simp: w_rec_def it_uvarint_def it_varint_def it_readByte_def Uvarint_uvarint [OF u64_bound]
      Varint_varint [OF i64_range] rec_fits_def delta_back)

text \<open>The entries an iterator has still to yield.\<close>

definition it_holds :: "digestIter \<Rightarrow> (bytes \<times> digestRec list) list \<Rightarrow> bool" where
  "it_holds it es \<longleftrightarrow> list_all key_fits es \<and> it_rem it = length es \<and>
     (\<exists>rest. it_r it = concat (map (w_entry (it_base it) (it_bTs it)) es) @ rest)"

lemma it_next_holds:
  assumes "it_holds it (e # es)"
  shows "\<exists>it'. it_next it = Inr (Some it') \<and> it_holds it' es \<and> it_key it' = fst e \<and> it_recs it' = snd e"
proof -
  obtain k rs where e: "e = (k, rs)" by (cases e)
  obtain rest where r: "it_r it = w_entry (it_base it) (it_bTs it) e @ concat (map (w_entry (it_base it) (it_bTs it)) es) @ rest"
    using assms by (auto simp: it_holds_def)
  have k: "\<not> length k > 2 ^ 24" "length k < 2 ^ 64" "length rs < 2 ^ 64" "list_all rec_fits rs"
    using assms by (auto simp: it_holds_def key_fits_def e)
  let ?it = "it \<lparr>it_r := concat (map (w_entry (it_base it) (it_bTs it)) es) @ rest, it_rem := length es,
      it_key := k, it_recs := rs\<rparr>"
  have "it_rem it = Suc (length es)" using assms by (simp add: it_holds_def)
  then have "it_next it = Inr (Some ?it)" using k
    by (simp add: it_next_def r w_entry_def [of _ _ "(k, rs)"] e it_uvarint_def Uvarint_uvarint it_readKey_def it_read_recs_back)
  moreover have "it_holds ?it es" using assms by (auto simp: it_holds_def)
  ultimately show ?thesis by (intro exI [of _ ?it]) (simp add: e)
qed

lemma it_next_done: "it_holds it [] \<Longrightarrow> it_next it = Inr None"
  by (simp add: it_holds_def it_next_def)

fun it_drain :: "nat \<Rightarrow> digestIter \<Rightarrow> (bytes \<times> digestRec list) list result" where
  "it_drain 0 it = Inr []"
| "it_drain (Suc n) it =
     and_then (it_next it) (\<lambda>next. case next of
       None \<Rightarrow> Inr []
     | Some it \<Rightarrow> and_then (it_drain n it) (\<lambda>es. Inr ((it_key it, it_recs it) # es)))"

lemma it_drain_holds: "it_holds it es \<Longrightarrow> it_drain (Suc (length es)) it = Inr es"
proof (induction es arbitrary: it)
  case Nil
  then show ?case by (simp add: it_next_done)
next
  case (Cons e es)
  obtain it' where "it_next it = Inr (Some it')" "it_holds it' es" "it_key it' = fst e" "it_recs it' = snd e"
    using it_next_holds [OF Cons.prems] by blast
  then show ?case using Cons.IH by (simp del: it_drain.simps add: it_drain.simps(2) [of "Suc (length es)" it])
qed

section \<open>What a digest says of a segment's records\<close>

text \<open>What the accessors read in a record's payload; on a readable record none of them panics.\<close>

definition readable :: "logrec \<Rightarrow> bool" where
  "readable r \<longleftrightarrow> (\<exists>a k h. sm_Attributes (lr_payload r) = Inr a \<and> sm_Key (lr_payload r) = Inr k \<and> sm_Headers (lr_payload r) = Inr h)"

definition or_else :: "'a \<Rightarrow> 'a result \<Rightarrow> 'a" where
  "or_else d r = (case r of Inl _ \<Rightarrow> d | Inr x \<Rightarrow> x)"

definition attrs :: "logrec \<Rightarrow> byte" where "attrs r = or_else 0 (sm_Attributes (lr_payload r))"
definition rec_key :: "logrec \<Rightarrow> bytes option" where "rec_key r = or_else None (sm_Key (lr_payload r))"
definition rec_headers :: "logrec \<Rightarrow> header_map" where "rec_headers r = or_else [] (sm_Headers (lr_payload r))"
definition is_control :: "logrec \<Rightarrow> bool" where "is_control r \<longleftrightarrow> attrs r AND AttrControl \<noteq> 0"
definition is_tombstone :: "logrec \<Rightarrow> bool" where "is_tombstone r \<longleftrightarrow> attrs r AND AttrTombstone \<noteq> 0"

lemma readable_fields:
  assumes "readable r"
  shows "sm_Attributes (lr_payload r) = Inr (attrs r)" "sm_Key (lr_payload r) = Inr (rec_key r)" "sm_Headers (lr_payload r) = Inr (rec_headers r)"
  using assms by (auto simp: readable_def attrs_def rec_key_def rec_headers_def or_else_def)

definition drec :: "logrec \<Rightarrow> digestRec" where
  "drec r = \<lparr>dr_offset = lr_offset r,
     dr_flags = (if is_tombstone r then digestFlagTombstone else 0) OR (if rec_headers r \<noteq> [] then digestFlagHasHeaders else 0),
     dr_ts = lr_timestamp r\<rparr>"

definition keyed :: "bytes \<Rightarrow> logrec \<Rightarrow> bool" where
  "keyed k r \<longleftrightarrow> \<not> is_control r \<and> rec_key r = Some k"

definition key_recs :: "logrec list \<Rightarrow> bytes \<Rightarrow> digestRec list option" where
  "key_recs rs k = (let xs = filter (keyed k) rs in if xs = [] then None else Some (map drec xs))"

definition by_key :: "logrec list \<Rightarrow> (bytes \<times> digestRec list) list \<Rightarrow> (bytes \<times> digestRec list) list" where
  "by_key = fold (\<lambda>r bk. if is_control r then bk else case rec_key r of None \<Rightarrow> bk | Some k \<Rightarrow> add_key k (drec r) bk)"

lemma scan_all_frames:
  assumes "open_holds C s (pre @ post)" and "list_all frame_ok post" and "\<not> s_blocksPending s"
  shows "scan_all C s (int (length (frames pre))) = (map frame post, EOF)"
  using assms
proof (induction post arbitrary: pre)
  case Nil
  then show ?case using Scan_end [of C s pre] by (simp add: scan_all.simps)
next
  case (Cons r post)
  have "Scan C s (int (length (frames pre))) = Inr (frame r, entry_of (int (length (frames pre))) r, int (length (frames (pre @ [r]))))"
    using Cons.prems by (intro Scan_at [of C s pre r post]) simp_all
  moreover have "scan_all C s (int (length (frames (pre @ [r])))) = (map frame post, EOF)"
    using Cons.prems by (intro Cons.IH) simp_all
  ultimately show ?case by (simp add: scan_all.simps [of C s "int (length (frames pre))"])
qed

lemma build_one_frame:
  assumes "frame_ok r" and "readable r"
  shows "build_one (frame r) (c, u, bk) =
     Inr (if is_control r then (c @ [lr_offset r], u, bk)
          else case rec_key r of None \<Rightarrow> (c, u @ [drec r], bk) | Some k \<Rightarrow> (c, u, add_key k (drec r) bk))"
  using frame_accessors [OF assms(1), of "[]"] readable_fields [OF assms(2)]
  by (cases "rec_key r") (simp_all add: build_one_def is_control_def is_tombstone_def drec_def)

lemma build_frames:
  assumes "list_all frame_ok rs" and "list_all readable rs"
  shows "fold_result build_one (map frame rs) (c, u, bk) =
     Inr (c @ map lr_offset (filter is_control rs),
          u @ map drec (filter (\<lambda>r. \<not> is_control r \<and> rec_key r = None) rs), by_key rs bk)"
  using assms
  by (induction rs arbitrary: c u bk) (simp_all add: build_one_frame by_key_def split: option.split)

lemma add_key_map_of: "map_of (add_key k r xs) = (map_of xs) (k \<mapsto> (case map_of xs k of None \<Rightarrow> [r] | Some rs \<Rightarrow> rs @ [r]))"
  by (induction xs) (auto simp: fun_eq_iff)

lemma add_key_keys: "set (map fst (add_key k r xs)) = insert k (set (map fst xs))" "distinct (map fst xs) \<Longrightarrow> distinct (map fst (add_key k r xs))"
proof (induction xs)
  case (Cons x xs)
  { case 1 then show ?case by (cases x) (auto simp: Cons.IH(1) simp del: set_map) }
  { case 2 then show ?case using Cons.IH by (cases x) auto }
qed simp_all

lemma by_key_snoc:
  "by_key (rs @ [r]) bk = (if is_control r then by_key rs bk else case rec_key r of None \<Rightarrow> by_key rs bk | Some k \<Rightarrow> add_key k (drec r) (by_key rs bk))"
  by (simp add: by_key_def split: option.split)

lemma key_recs_snoc:
  "key_recs (rs @ [r]) =
     (if is_control r then key_recs rs
      else case rec_key r of
        None \<Rightarrow> key_recs rs
      | Some k \<Rightarrow> (key_recs rs) (k \<mapsto> (case key_recs rs k of None \<Rightarrow> [drec r] | Some ds \<Rightarrow> ds @ [drec r])))"
  by (auto simp: key_recs_def keyed_def Let_def fun_eq_iff split: option.splits)

lemma by_key_keys: "distinct (map fst (by_key rs [])) \<and> map_of (by_key rs []) = key_recs rs"
proof (induction rs rule: rev_induct)
  case Nil
  then show ?case by (simp add: by_key_def key_recs_def fun_eq_iff)
next
  case (snoc r rs)
  then show ?case
    by (cases "rec_key r") (simp_all add: by_key_snoc key_recs_snoc add_key_keys(2) add_key_map_of fun_eq_iff del: map_of_eq_Some_iff)
qed

text \<open>The sorted keyed section, and its description of a list of records.\<close>

definition key_entries :: "logrec list \<Rightarrow> (bytes \<times> digestRec list) list" where
  "key_entries rs = sort_key fst (by_key rs [])"

lemma key_entries_keys:
  "sorted_wrt (<) (map fst (key_entries rs))" "map_of (key_entries rs) = key_recs rs"
proof -
  have d: "distinct (map fst (key_entries rs))"
    unfolding key_entries_def distinct_map using by_key_keys [of rs]
    by (simp add: distinct_map)
  then show "sorted_wrt (<) (map fst (key_entries rs))" by (simp add: strict_sorted_iff key_entries_def)
  show "map_of (key_entries rs) = key_recs rs"
    using by_key_keys [of rs] d map_of_inject_set [of "key_entries rs" "by_key rs []"] by (simp add: key_entries_def)
qed

definition digest_of :: "segment \<Rightarrow> logrec list \<Rightarrow> keyDigest" where
  "digest_of s rs =
     \<lparr>d_base = s_BaseOffset s, d_logSize = s_position s, d_baseTs = s_firstWriteTime s, d_stripVerifiedBelow = - 1,
      d_stripHdrs = [],
      d_keyed = concat (map (w_entry (s_BaseOffset s) (s_firstWriteTime s)) (key_entries rs)),
      d_nKeys = length (key_entries rs), d_unkeyed = map drec (filter (\<lambda>r. \<not> is_control r \<and> rec_key r = None) rs),
      d_control = map lr_offset (filter is_control rs)\<rparr>"

lemma seg_open: "seg_holds C s cs \<Longrightarrow> s_live s \<Longrightarrow> open_holds C s (concat cs) \<and> list_all frame_ok (concat cs) \<and> \<not> s_blocksPending s"
  by (auto simp: seg_holds_def open_holds_def s_live_def records_ok_def list_all_iff)

lemma buildKeyDigest_holds:
  assumes "seg_holds C s cs" and "s_live s" and "list_all readable (concat cs)"
  shows "buildKeyDigest C s = Inr (digest_of s (concat cs))"
proof -
  note o = seg_open [OF assms(1,2)]
  have "scan_all C s 0 = (map frame (concat cs), EOF)"
    using scan_all_frames [of C s "[]" "concat cs"] o by simp
  then show ?thesis using build_frames [of "concat cs" "[]" "[]" "[]"] o assms(3)
    by (simp add: buildKeyDigest_def digest_of_def key_entries_def)
qed

lemma key_entries_fit:
  assumes "list_all frame_ok rs" and "\<forall>r \<in> set rs. \<forall>k. rec_key r = Some k \<longrightarrow> length k \<le> 2 ^ 24" and "length rs < 2 ^ 64"
  shows "list_all key_fits (key_entries rs)"
  unfolding list_all_iff
proof
  fix e assume e: "e \<in> set (key_entries rs)"
  obtain k ds where k: "e = (k, ds)" by (cases e)
  have "distinct (map fst (key_entries rs))" using key_entries_keys(1) strict_sorted_iff by blast
  then have "key_recs rs k = Some ds" using e k key_entries_keys(2) by (metis map_of_is_SomeI)
  then have d: "ds = map drec (filter (keyed k) rs)" "filter (keyed k) rs \<noteq> []" by (auto simp: key_recs_def Let_def split: if_splits)
  then obtain r where "r \<in> set rs" "keyed k r" by (metis filter_empty_conv)
  then have "length k \<le> 2 ^ 24" using assms(2) by (auto simp: keyed_def)
  moreover have "length ds < 2 ^ 64" using d(1) le_less_trans [OF length_filter_le assms(3)] by simp
  moreover have "list_all rec_fits ds" using assms(1) d(1) by (auto simp: list_all_iff rec_fits_def drec_def frame_ok_def)
  ultimately show "key_fits e" by (simp add: key_fits_def k)
qed

lemma newDigestIter_holds:
  assumes "list_all key_fits (key_entries rs)" and "d_keyed d = d_keyed (digest_of s rs) @ tail"
    and "d_base d = s_BaseOffset s" "d_baseTs d = s_firstWriteTime s" "d_nKeys d = length (key_entries rs)"
  shows "it_holds (newDigestIter d) (key_entries rs)"
  using assms by (auto simp: it_holds_def newDigestIter_def digest_of_def)

section \<open>Digests of a segment fit their encoding\<close>

lemma concat_at_most: "(\<And>x. x \<in> set xs \<Longrightarrow> length (f x) \<le> b) \<Longrightarrow> length (concat (map f xs)) \<le> b * length xs"
proof (induction xs)
  case (Cons x xs)
  then have "length (f x) \<le> b" "length (concat (map f xs)) \<le> b * length xs" by simp_all
  then show ?case by simp
qed simp

lemma uvarint_loop_length: "uvarint_loop i x bs = Some (v, n) \<Longrightarrow> i \<le> 10 \<Longrightarrow> n \<le> 10"
  by (induction i x bs rule: uvarint_loop.induct) (auto split: if_splits)

lemma uvarint_length: "x < 2 ^ 64 \<Longrightarrow> length (uvarint x) \<le> 10"
  using uvarint_loop_length [of 0 0 "uvarint x" x "length (uvarint x)"] Uvarint_uvarint [of x "[]"] by (simp add: Uvarint_def)

lemma w_rec_length: "length (w_rec b t r) \<le> 21"
proof -
  have "length (varint (i64 (dr_ts r - t))) \<le> 10" unfolding varint_def by (rule uvarint_length [OF zigzag_bound [OF i64_range]])
  then show ?thesis using uvarint_length [OF u64_bound, of "dr_offset r - b"] by (simp add: w_rec_def)
qed

lemma add_key_length: "length (add_key k r xs) \<le> Suc (length xs)"
  by (induction xs) auto

lemma by_key_length: "length (by_key rs xs) \<le> length rs + length xs"
proof (induction rs arbitrary: xs rule: rev_induct)
  case (snoc r rs)
  show ?case using snoc.IH [of xs] add_key_length [of "the (rec_key r)" "drec r" "by_key rs xs"]
    by (cases "rec_key r") (auto simp: by_key_snoc)
qed (simp add: by_key_def)

lemma frames_many: "32 * length rs \<le> length (frames rs)"
  by (induction rs) auto

lemma w_entry_length:
  assumes "list_all key_fits (key_entries rs)" and "length rs < 2 ^ 26" and "e \<in> set (key_entries rs)"
  shows "length (w_entry b t e) \<le> 2 ^ 24 + 20 + 21 * 2 ^ 26"
proof -
  obtain k ds where k: "e = (k, ds)" by (cases e)
  have "key_recs rs k = Some ds" using key_entries_keys assms(3) k strict_sorted_iff by (metis map_of_is_SomeI)
  then have "length ds \<le> length rs" by (auto simp: key_recs_def Let_def split: if_splits)
  then have "length ds < 2 ^ 26" using assms(2) by linarith
  moreover have "length k \<le> 2 ^ 24" using assms(1,3) k by (auto simp: list_all_iff key_fits_def)
  moreover have "length (concat (map (w_rec b t) ds)) \<le> 21 * length ds" by (rule concat_at_most [OF w_rec_length])
  moreover have "length (uvarint (length k)) \<le> 10" "length (uvarint (length ds)) \<le> 10" using calculation by (auto intro!: uvarint_length)
  ultimately show ?thesis by (simp add: w_entry_def k)
qed

lemma digest_of_fits:
  assumes "seg_holds C s cs" and "in_i64 (s_BaseOffset s)" and "\<forall>r \<in> set (concat cs). \<forall>k. rec_key r = Some k \<longrightarrow> length k \<le> 2 ^ 24"
  shows "digest_fits (digest_of s (concat cs))" and "list_all key_fits (key_entries (concat cs))"
proof -
  define rs where "rs = concat cs"
  have ok: "records_ok (s_BaseOffset s) rs" "ends_match s rs" "s_position s = int (length (frames rs))"
    using assms(1) by (auto simp: seg_holds_def seg_bytes_def rs_def)
  then have fr: "list_all frame_ok rs" "int (length (frames rs)) < 2 ^ 31" by (simp_all add: records_ok_def)
  then have n: "length rs < 2 ^ 26" using frames_many [of rs] by simp
  show kf: "list_all key_fits (key_entries (concat cs))"
    unfolding rs_def [symmetric] using fr(1) assms(3) n by (intro key_entries_fit) (simp_all add: rs_def)
  let ?d = "digest_of s rs"
  have ne: "length (key_entries rs) \<le> length rs" using by_key_length [of rs "[]"] by (simp add: key_entries_def)
  have "length (d_keyed ?d) \<le> (2 ^ 24 + 20 + 21 * 2 ^ 26) * length (key_entries rs)"
    unfolding digest_of_def keyDigest.simps by (rule concat_at_most [OF w_entry_length [OF kf [folded rs_def] n]])
  also have "\<dots> \<le> (2 ^ 24 + 20 + 21 * 2 ^ 26) * 2 ^ 26" using ne n by (intro mult_le_mono2) linarith
  finally have dk: "length (d_keyed ?d) \<le> 2 ^ 57" by simp
  have du: "length (concat (map (w_rec b t) (d_unkeyed ?d))) \<le> 21 * length rs" "length (d_unkeyed ?d) \<le> length rs" for b t
  proof -
    show l: "length (d_unkeyed ?d) \<le> length rs" by (simp add: digest_of_def)
    have "length (concat (map (w_rec b t) (d_unkeyed ?d))) \<le> 21 * length (d_unkeyed ?d)" by (rule concat_at_most [OF w_rec_length])
    then show "length (concat (map (w_rec b t) (d_unkeyed ?d))) \<le> 21 * length rs" using l by linarith
  qed
  have dc: "length (concat (map (\<lambda>off. uvarint (u64 (off - b))) (d_control ?d))) \<le> 10 * length rs" "length (d_control ?d) \<le> length rs" for b
  proof -
    show l: "length (d_control ?d) \<le> length rs" by (simp add: digest_of_def)
    have "length (concat (map (\<lambda>off. uvarint (u64 (off - b))) (d_control ?d))) \<le> 10 * length (d_control ?d)"
      by (rule concat_at_most [OF uvarint_length [OF u64_bound]])
    then show "length (concat (map (\<lambda>off. uvarint (u64 (off - b))) (d_control ?d))) \<le> 10 * length rs" using l by linarith
  qed
  have small: "length (uvarint x) \<le> 10" if "x \<le> 2 ^ 57" for x using that by (intro uvarint_length) simp
  have h: "d_stripHdrs ?d = []" "d_nKeys ?d = length (key_entries rs)" by (simp_all add: digest_of_def)
  have n57: "length rs \<le> 2 ^ 57" using n by simp
  have "length (digest_body ?d) = 37 + length (uvarint 0) + length (uvarint (length (key_entries rs))) +
      length (uvarint (length (d_keyed ?d))) + length (d_keyed ?d) + length (uvarint (length (d_unkeyed ?d))) +
      length (concat (map (w_rec (d_base ?d) (d_baseTs ?d)) (d_unkeyed ?d))) + length (uvarint (length (d_control ?d))) +
      length (concat (map (\<lambda>off. uvarint (u64 (off - d_base ?d))) (d_control ?d)))"
    by (simp add: digest_body_def w_i64_def h)
  also have "\<dots> \<le> 37 + 10 + 10 + 10 + 2 ^ 57 + 10 + 21 * length rs + 10 + 10 * length rs"
    using dk du(2) dc(2) ne n57 by (intro add_mono order_refl du(1) dc(1) small) linarith+
  also have "\<dots> < 2 ^ 63 - 4" using n by simp
  finally have "length (digest_body ?d) + 4 < 2 ^ 63" by simp
  moreover have "in_i64 (s_firstWriteTime s)" "list_all rec_fits (d_unkeyed ?d)" "list_all in_i64 (d_control ?d)"
    using ok(2) fr(1) by (auto simp: ends_match_def list_all_iff frame_ok_def digest_of_def rec_fits_def drec_def)
  moreover have "d_nKeys ?d < 2 ^ 64" using ne n by (simp add: digest_of_def)
  ultimately show "digest_fits (digest_of s (concat cs))"
    using assms(2) ok(3) fr(2) unfolding rs_def [symmetric] by (simp add: digest_fits_def) (simp add: digest_of_def)
qed

text \<open>A digest that describes a list of records, as the built and the loaded digest of a segment do.\<close>

definition digest_says :: "keyDigest \<Rightarrow> logrec list \<Rightarrow> bool" where
  "digest_says d rs \<longleftrightarrow> it_holds (newDigestIter d) (key_entries rs) \<and> d_control d = map lr_offset (filter is_control rs) \<and>
     d_unkeyed d = map drec (filter (\<lambda>r. \<not> is_control r \<and> rec_key r = None) rs)"

definition stamped :: "int \<Rightarrow> bytes list \<Rightarrow> keyDigest \<Rightarrow> keyDigest" where
  "stamped v hdrs d = d \<lparr>d_stripVerifiedBelow := v, d_stripHdrs := hdrs\<rparr>"

lemma digest_of_says:
  assumes "seg_holds C s cs" and "in_i64 (s_BaseOffset s)" and "\<forall>r \<in> set (concat cs). \<forall>k. rec_key r = Some k \<longrightarrow> length k \<le> 2 ^ 24"
  shows "digest_says (digest_of s (concat cs)) (concat cs)"
  using newDigestIter_holds [OF digest_of_fits(2) [OF assms], of "digest_of s (concat cs)" s "[]"]
  by (simp add: digest_says_def) (simp add: digest_of_def)

text \<open>The sidecar of a segment, with whatever strip stamp a pass put on it, reads back as a digest of its records.\<close>

lemma load_stamped:
  assumes "seg_holds C s cs" and "in_i64 (s_BaseOffset s)" and "\<forall>r \<in> set (concat cs). \<forall>k. rec_key r = Some k \<longrightarrow> length k \<le> 2 ^ 24"
    and "digest_fits (stamped v hdrs (digest_of s (concat cs)))"
  shows "\<exists>d. loadKeyDigest (s_BaseOffset s) (s_position s) (Some (encodeKeyDigest (stamped v hdrs (digest_of s (concat cs))))) = Inr (Some d) \<and>
     digest_says d (concat cs) \<and> d_stripVerifiedBelow d = v \<and> d_stripHdrs d = hdrs \<and> d_nKeys d = length (key_entries (concat cs))"
proof -
  let ?rs = "concat cs"
  let ?d = "stamped v hdrs (digest_of s ?rs)"
  obtain tail where l: "loadKeyDigest (d_base ?d) (d_logSize ?d) (Some (encodeKeyDigest ?d)) = Inr (Some (?d \<lparr>d_keyed := d_keyed ?d @ tail\<rparr>))"
    using loadKeyDigest_encode [OF assms(4)] by blast
  let ?d' = "?d \<lparr>d_keyed := d_keyed ?d @ tail\<rparr>"
  have "it_holds (newDigestIter ?d') (key_entries ?rs)"
    by (rule newDigestIter_holds [OF digest_of_fits(2) [OF assms(1-3)], of _ s tail]) (simp_all add: digest_of_def stamped_def)
  then show ?thesis using l by (intro exI [of _ ?d']) (simp add: digest_says_def stamped_def digest_of_def)
qed

section \<open>Samples\<close>

definition seg_at :: "int \<Rightarrow> bool \<Rightarrow> logrec list \<Rightarrow> segment" where
  "seg_at base blockMode rs =
     (let s = (emptySegment base 1000 Snappy) \<lparr>s_blockMode := blockMode, s_Index := Some (index_of base [] 40)\<rparr> in
      case WriteMessageSet raw_codecs io_ok (frames rs) (entries_of 0 rs) s of Inr (s, _) \<Rightarrow> s | Inl _ \<Rightarrow> s)"

lemma seg_at_ok:
  assumes "records_ok base rs" and "rs \<noteq> []"
  shows "\<exists>cs. seg_ok raw_codecs (seg_at base b rs) cs \<and> concat cs = rs \<and> s_BaseOffset (seg_at base b rs) = base"
proof -
  let ?s = "(emptySegment base 1000 Snappy) \<lparr>s_blockMode := b, s_Index := Some (index_of base [] 40)\<rparr>"
  have "ix_holds base (index_of base [] 40) []" by (rule index_of_holds) simp
  then have h: "seg_holds raw_codecs ?s []"
    using assms(1) by (simp add: seg_holds_def emptySegment_def records_ok_def ends_match_def seg_bytes_def)
  have "\<exists>s' cs'. WriteMessageSet raw_codecs io_ok (frames rs) (entries_of (s_position ?s) rs) ?s = Inr (s', None) \<and>
     seg_holds raw_codecs s' cs' \<and> concat cs' = concat [] @ rs \<and> same_shape ?s s'"
    using assms by (intro WriteMessageSet_holds [OF h]) (simp_all add: emptySegment_def sample_ok codec_Valid_def Snappy_def Zstd_def)
  then obtain s' cs' where w: "WriteMessageSet raw_codecs io_ok (frames rs) (entries_of 0 rs) ?s = Inr (s', None)"
    "seg_holds raw_codecs s' cs'" "concat cs' = rs" "same_shape ?s s'" by (auto simp: emptySegment_def)
  then have "seg_at base b rs = s'" by (simp add: seg_at_def)
  moreover have "seg_ok raw_codecs s' cs' \<and> s_BaseOffset s' = base"
    using w by (simp add: seg_ok_def same_shape_def emptySegment_def s_live_def codec_Valid_def Snappy_def Zstd_def)
  ultimately show ?thesis using w(3) by blast
qed

definition a_note :: "byte \<Rightarrow> bytes option \<Rightarrow> header_map \<Rightarrow> int \<Rightarrow> int \<Rightarrow> logrec" where
  "a_note a k hs ts off = record_of off \<lparr>Crc = 0, MagicByte = 2, Attributes = a, Key = k, Value = Some [1],
     Headers = map (apsnd Some) hs, Timestamp = ts, LeaderEpoch = 1\<rparr>"

lemma a_note_fields:
  assumes "distinct (map fst hs)" and "length hs < 65536" and "list_all (\<lambda>h. length (fst h) < 65536) hs"
    and "length (lr_payload (a_note a k hs ts off)) < 2 ^ 31"
  shows "readable (a_note a k hs ts off)" "attrs (a_note a k hs ts off) = a" "rec_key (a_note a k hs ts off) = k"
    "rec_headers (a_note a k hs ts off) = hs" "lr_offset (a_note a k hs ts off) = off" "lr_timestamp (a_note a k hs ts off) = ts"
proof -
  have l: "length (wire (map (apsnd Some) hs) \<lparr>Crc = 0, MagicByte = 2, Attributes = a, Key = k, Value = Some [1],
     Headers = map (apsnd Some) hs, Timestamp = ts, LeaderEpoch = 1\<rparr>) < 2 ^ 31"
    using assms(4) by (simp add: a_note_def record_of_def)
  show "readable (a_note a k hs ts off)" "attrs (a_note a k hs ts off) = a" "rec_key (a_note a k hs ts off) = k"
    "rec_headers (a_note a k hs ts off) = hs"
    using wire_read_back(2,3,5) [OF refl assms(1-3) l]
    by (simp_all add: readable_def attrs_def rec_key_def rec_headers_def or_else_def a_note_def record_of_def)
  show "lr_offset (a_note a k hs ts off) = off" "lr_timestamp (a_note a k hs ts off) = ts" by (simp_all add: a_note_def record_of_def)
qed

lemma a_note_small:
  assumes "k \<in> {None, Some [107], Some [108]}" and "hs \<in> {[], [([104], [1])]}" and "in_i64 ts" and "in_i64 off"
  shows "frame_ok (a_note a k hs ts off)" "readable (a_note a k hs ts off)" "attrs (a_note a k hs ts off) = a"
    "rec_key (a_note a k hs ts off) = k" "rec_headers (a_note a k hs ts off) = hs" "lr_offset (a_note a k hs ts off) = off"
    "lr_timestamp (a_note a k hs ts off) = ts"
proof -
  have l: "length (lr_payload (a_note a k hs ts off)) < 100" "0 < length (lr_payload (a_note a k hs ts off))"
    using assms by (auto simp: a_note_def record_of_def bytes_simps wire_body_def wire_def)
  then show "frame_ok (a_note a k hs ts off)" using assms by (simp add: frame_ok_def a_note_def record_of_def)
  have l': "length (lr_payload (a_note a k hs ts off)) < 2 ^ 31" "list_all (\<lambda>h. length (fst h) < 65536) hs"
    "distinct (map fst hs)" "length hs < 65536" using l assms(2) by auto
  show "readable (a_note a k hs ts off)" "attrs (a_note a k hs ts off) = a"
    "rec_key (a_note a k hs ts off) = k" "rec_headers (a_note a k hs ts off) = hs" "lr_offset (a_note a k hs ts off) = off"
    "lr_timestamp (a_note a k hs ts off) = ts"
    using a_note_fields [OF l'(3,4,2,1)] by simp_all
qed

lemma a_note_length:
  "length (lr_payload (a_note a None [] ts off)) = 17" "length (lr_payload (a_note a (Some [c]) [] ts off)) = 18"
  "length (lr_payload (a_note a (Some [c]) [([104], [1])] ts off)) = 26"
  by (simp_all add: a_note_def record_of_def bytes_simps wire_body_def wire_def)

section \<open>Properties\<close>

text \<open>
  C15: the digest of a segment, built, written to its sidecar and loaded again, says exactly what the
  segment's records say: the control records' offsets, the unkeyed records, and, drained through the
  iterator in strictly ascending key order, for every key all of its records in log order with their
  offsets, tombstone and header flags and timestamps.
\<close>

theorem digest_round_trip:
  assumes "seg_holds C s cs" and "s_live s" and "list_all readable (concat cs)"
    and "in_i64 (s_BaseOffset s)"
    and "\<forall>r \<in> set (concat cs). \<forall>k. rec_key r = Some k \<longrightarrow> length k \<le> 2 ^ 24"
  shows "\<exists>d d' es. buildKeyDigest C s = Inr d \<and>
     loadKeyDigest (s_BaseOffset s) (s_position s) (Some (encodeKeyDigest d)) = Inr (Some d') \<and>
     d_control d' = map lr_offset (filter is_control (concat cs)) \<and>
     d_unkeyed d' = map drec (filter (\<lambda>r. \<not> is_control r \<and> rec_key r = None) (concat cs)) \<and>
     it_drain (Suc (d_nKeys d')) (newDigestIter d') = Inr es \<and>
     sorted_wrt (<) (map fst es) \<and> map_of es = key_recs (concat cs)"
proof -
  let ?rs = "concat cs"
  have "stamped (- 1) [] (digest_of s ?rs) = digest_of s ?rs" by (simp add: stamped_def digest_of_def)
  then obtain d' where d': "loadKeyDigest (s_BaseOffset s) (s_position s) (Some (encodeKeyDigest (digest_of s ?rs))) = Inr (Some d')"
    "digest_says d' ?rs" "d_nKeys d' = length (key_entries ?rs)"
    using load_stamped [OF assms(1,4,5), of "- 1" "[]"] digest_of_fits(1) [OF assms(1,4,5)] by auto
  then have "it_drain (Suc (d_nKeys d')) (newDigestIter d') = Inr (key_entries ?rs)"
    using it_drain_holds [of "newDigestIter d'" "key_entries ?rs"] by (simp add: digest_says_def)
  then show ?thesis
    using d' key_entries_keys [of ?rs] buildKeyDigest_holds [OF assms(1-3)]
    by (intro exI [of _ "digest_of s ?rs"] exI [of _ d'] exI [of _ "key_entries ?rs"]) (simp add: digest_says_def)
qed

definition sample_notes :: "logrec list" where
  "sample_notes = [a_note 0 (Some [108]) [] 5 100, a_note 1 None [] 6 101, a_note 2 (Some [107]) [([104], [1])] 7 102,
     a_note 0 None [] 8 103, a_note 0 (Some [108]) [] 9 104]"

lemma sample_notes_ok: "records_ok 100 sample_notes" "list_all readable sample_notes"
    "\<forall>r \<in> set sample_notes. \<forall>k. rec_key r = Some k \<longrightarrow> length k \<le> 2 ^ 24"
  by (simp_all add: sample_notes_def records_ok_def a_note_small a_note_length)

theorem digest_round_trip_witness:
  "\<exists>d d' es. buildKeyDigest raw_codecs (seg_at 100 True sample_notes) = Inr d \<and>
     loadKeyDigest 100 (s_position (seg_at 100 True sample_notes)) (Some (encodeKeyDigest d)) = Inr (Some d') \<and>
     d_control d' = [101] \<and> map dr_offset (d_unkeyed d') = [103] \<and>
     it_drain (Suc (d_nKeys d')) (newDigestIter d') = Inr es \<and>
     map_option (map dr_offset) (map_of es [108]) = Some [100, 104]"
proof -
  let ?s = "seg_at 100 True sample_notes"
  obtain cs where cs: "seg_ok raw_codecs ?s cs" "concat cs = sample_notes" "s_BaseOffset ?s = 100"
    using seg_at_ok [OF sample_notes_ok(1), of True] by (auto simp: sample_notes_def)
  obtain d d' es where d: "buildKeyDigest raw_codecs ?s = Inr d" "loadKeyDigest 100 (s_position ?s) (Some (encodeKeyDigest d)) = Inr (Some d')"
    "d_control d' = map lr_offset (filter is_control sample_notes)"
    "d_unkeyed d' = map drec (filter (\<lambda>r. \<not> is_control r \<and> rec_key r = None) sample_notes)"
    "it_drain (Suc (d_nKeys d')) (newDigestIter d') = Inr es" "map_of es = key_recs sample_notes"
    using digest_round_trip [of raw_codecs ?s cs] cs sample_notes_ok by (auto simp: seg_ok_def)
  moreover have "map lr_offset (filter is_control sample_notes) = [101]"
    "map dr_offset (map drec (filter (\<lambda>r. \<not> is_control r \<and> rec_key r = None) sample_notes)) = [103]"
    "map_option (map dr_offset) (key_recs sample_notes [108]) = Some [100, 104]"
    by (simp_all add: sample_notes_def a_note_small is_control_def AttrControl_def key_recs_def keyed_def drec_def)
  ultimately show ?thesis by (intro exI [of _ d] exI [of _ d'] exI [of _ es]) simp
qed

end
