(* ===== verification/Compact_Cleaner.thy ===== *)
theory Compact_Cleaner
  imports Key_Digest Delete_Cleaner
begin

text \<open>
  \<^verbatim>\<open>compact_cleaner.go\<close>: which records of a log a compaction pass removes.  The digests of the segments
  are merged key by key into a drop set per segment; \<^verbatim>\<open>classify\<close> then decides each record of a rewrite and
  \<^verbatim>\<open>canSkip\<close> decides which segments need none.

  Offsets are below \<open>2 ^ 63\<close> and non-negative, so that their differences do not wrap.  A nil \<^verbatim>\<open>Aborted\<close> is \<open>None\<close>;
  the clock is an argument.
\<close>

section \<open>The specification of a pass\<close>

record CleanSpec =
  cs_Ceiling :: Bound
  cs_ceiling :: int
  cs_stripOnly :: bool
  cs_StripBelow :: int
  cs_StripHeaders :: "bytes list"
  cs_StripUncompacted :: bool
  cs_Aborted :: "(int \<Rightarrow> bool) option"
  cs_TombstoneGCBelow :: int
  cs_TombstoneRetention :: int
  cs_maxRewrites :: int
  cs_RewriteBudget :: int
  cs_TierBudgets :: "(bytes \<times> int) list"
  cs_JoinBelow :: int
  cs_TierJoinBelow :: "(bytes \<times> int) list"
  cs_TierPlacement :: "(int \<times> bytes) list"
  cs_skipTiers :: "bytes list"
  cs_TierWriter :: bytes
  cs_RetentionFloor :: Bound

definition aborted :: "CleanSpec \<Rightarrow> int \<Rightarrow> bool" where
  "aborted spec off = (case cs_Aborted spec of None \<Rightarrow> False | Some f \<Rightarrow> f off)"

definition stripActive :: "CleanSpec \<Rightarrow> bool" where
  "stripActive spec \<longleftrightarrow> cs_StripBelow spec > 0 \<and> cs_StripHeaders spec \<noteq> []"

section \<open>Drop sets\<close>

record dropSet =
  ds_base :: int
  ds_bits :: "64 word list"
  ds_count :: int

definition newDropSet :: "int \<Rightarrow> int \<Rightarrow> dropSet" where
  "newDropSet base next =
     (let n = next - base; n = (if n < 0 then 0 else n) in
      \<lparr>ds_base = base, ds_bits = replicate (nat ((n + 63) div 64)) 0, ds_count = 0\<rparr>)"

definition dropSet_set :: "int \<Rightarrow> dropSet \<Rightarrow> dropSet" where
  "dropSet_set off d =
     (let i = off - ds_base d in
      if i < 0 \<or> i \<ge> int (length (ds_bits d)) * 64 then d
      else let w = nat (i div 64); b = nat (i mod 64) in
        if ds_bits d ! w AND push_bit b 1 = 0
        then d \<lparr>ds_bits := (ds_bits d) [w := ds_bits d ! w OR push_bit b 1], ds_count := ds_count d + 1\<rparr>
        else d)"

definition dropSet_get :: "dropSet option \<Rightarrow> int \<Rightarrow> bool" where
  "dropSet_get d off =
     (case d of
        None \<Rightarrow> False
      | Some d \<Rightarrow>
          let i = off - ds_base d in
          if i < 0 \<or> i \<ge> int (length (ds_bits d)) * 64 then False
          else ds_bits d ! nat (i div 64) AND push_bit (nat (i mod 64)) 1 \<noteq> 0)"

section \<open>Merging the digests\<close>

record mergeResult =
  drops :: "dropSet option list"
  abortedKeyed :: "bool list"
  stripKeyed :: "bool list"
  gcSegs :: "bool list"

text \<open>A segment's \<^verbatim>\<open>BaseOffset\<close> and \<^verbatim>\<open>NextOffset()\<close>, which bound its drop set.\<close>

type_synonym bounds = "(int \<times> int) list"

definition drop_off :: "bounds \<Rightarrow> nat \<Rightarrow> int \<Rightarrow> mergeResult \<Rightarrow> mergeResult" where
  "drop_off bs i off res =
     (let d = (case drops res ! i of None \<Rightarrow> newDropSet (fst (bs ! i)) (snd (bs ! i)) | Some d \<Rightarrow> d) in
      res \<lparr>drops := (drops res) [i := Some (dropSet_set off d)]\<rparr>)"

fun start_iters :: "keyDigest list \<Rightarrow> digestIter option list result" where
  "start_iters [] = Inr []"
| "start_iters (d # ds) =
     and_then (it_next (newDigestIter d)) (\<lambda>it. and_then (start_iters ds) (\<lambda>its. Inr (it # its)))"

fun min_key :: "digestIter option list \<Rightarrow> bytes option \<Rightarrow> bytes option" where
  "min_key [] m = m"
| "min_key (None # its) m = min_key its m"
| "min_key (Some it # its) m =
     min_key its (case m of None \<Rightarrow> Some (it_key it) | Some k \<Rightarrow> if it_key it < k then Some (it_key it) else Some k)"

text \<open>What one key has collected: its records at or below the ceiling, and the latest of them.\<close>

record keyState =
  ks_res :: mergeResult
  ks_part :: "(nat \<times> digestRec) list"
  ks_latestOff :: int
  ks_latestIdx :: nat
  ks_latestRec :: digestRec

definition new_key :: "mergeResult \<Rightarrow> keyState" where
  "new_key res = \<lparr>ks_res = res, ks_part = [], ks_latestOff = - 1, ks_latestIdx = 0,
     ks_latestRec = \<lparr>dr_offset = 0, dr_flags = 0, dr_ts = 0\<rparr>\<rparr>"

definition take_rec :: "CleanSpec \<Rightarrow> nat \<Rightarrow> digestRec \<Rightarrow> keyState \<Rightarrow> keyState" where
  "take_rec spec i r st =
     (let st = (if stripActive spec \<and> dr_offset r < cs_StripBelow spec \<and> dr_flags r AND digestFlagHasHeaders \<noteq> 0
                then st \<lparr>ks_res := (ks_res st) \<lparr>stripKeyed := (stripKeyed (ks_res st)) [i := True]\<rparr>\<rparr> else st) in
      if dr_offset r > cs_ceiling spec then st
      else if aborted spec (dr_offset r) then
        (if dr_offset r < cs_ceiling spec
         then st \<lparr>ks_res := (ks_res st) \<lparr>abortedKeyed := (abortedKeyed (ks_res st)) [i := True]\<rparr>\<rparr> else st)
      else
        let st = st \<lparr>ks_part := ks_part st @ [(i, r)]\<rparr> in
        if dr_offset r > ks_latestOff st
        then st \<lparr>ks_latestOff := dr_offset r, ks_latestIdx := i, ks_latestRec := r\<rparr> else st)"

fun take_key :: "CleanSpec \<Rightarrow> bytes \<Rightarrow> nat \<Rightarrow> digestIter option list \<Rightarrow> keyState \<Rightarrow> (digestIter option list \<times> keyState) result" where
  "take_key spec k i [] st = Inr ([], st)"
| "take_key spec k i (None # its) st = and_then (take_key spec k (i + 1) its st) (\<lambda>(its, st). Inr (None # its, st))"
| "take_key spec k i (Some it # its) st =
     (if it_key it \<noteq> k then and_then (take_key spec k (i + 1) its st) (\<lambda>(its, st). Inr (Some it # its, st))
      else and_then (it_next it) (\<lambda>next.
        and_then (take_key spec k (i + 1) its (fold (take_rec spec i) (it_recs it) st)) (\<lambda>(its, st). Inr (next # its, st))))"

text \<open>The settlement of a key: superseded records, and a latest tombstone that is old enough.\<close>

definition settle_key :: "CleanSpec \<Rightarrow> int \<Rightarrow> bounds \<Rightarrow> keyState \<Rightarrow> mergeResult" where
  "settle_key spec now bs st =
     (if ks_latestOff st < 0 then ks_res st
      else
        let res = fold (\<lambda>(i, r) res. if dr_offset r \<noteq> ks_latestOff st \<and> dr_offset r < cs_ceiling spec
                                     then drop_off bs i (dr_offset r) res else res) (ks_part st) (ks_res st);
            r = ks_latestRec st in
        if cs_TombstoneRetention spec > 0 \<and> dr_flags r AND digestFlagTombstone \<noteq> 0 \<and>
           ks_latestOff st < cs_TombstoneGCBelow spec \<and> dr_ts r > 0 \<and> dr_ts r < now - cs_TombstoneRetention spec
        then (drop_off bs (ks_latestIdx st) (ks_latestOff st) res)
          \<lparr>gcSegs := (gcSegs res) [ks_latestIdx st := True]\<rparr>
        else res)"

definition its_left :: "digestIter option list \<Rightarrow> nat" where
  "its_left its = sum_list (map (\<lambda>it. case it of None \<Rightarrow> 0 | Some it \<Rightarrow> Suc (it_rem it)) its)"

lemma it_next_rem: "it_next it = Inr (Some it') \<Longrightarrow> it_rem it' < it_rem it"
  by (auto simp: it_next_def and_then_Inr_iff split: if_splits)

lemma take_key_left:
  "take_key spec k i its st = Inr (its', st') \<Longrightarrow>
     its_left its' \<le> its_left its \<and> ((\<exists>it. Some it \<in> set its \<and> it_key it = k) \<longrightarrow> its_left its' < its_left its)"
proof (induction spec k i its st arbitrary: its' st' rule: take_key.induct)
  case (3 spec k i it its st)
  show ?case
  proof (cases "it_key it = k")
    case True
    obtain nx js where n: "it_next it = Inr nx" "its' = nx # js"
      "take_key spec k (i + 1) its (fold (take_rec spec i) (it_recs it) st) = Inr (js, st')"
      using "3.prems" True by (auto simp: and_then_Inr_iff)
    have "its_left js \<le> its_left its" using "3.IH"(2) [OF _ n(1,3)] True by blast
    moreover have "(case nx of None \<Rightarrow> 0 | Some it \<Rightarrow> Suc (it_rem it)) < Suc (it_rem it)"
      using n(1) it_next_rem [of it] by (cases nx) auto
    ultimately show ?thesis using n(2) by (simp add: its_left_def)
  next
    case False
    then obtain js where "its' = Some it # js" "take_key spec k (i + 1) its st = Inr (js, st')"
      using "3.prems" by (auto simp: and_then_Inr_iff)
    then show ?thesis using "3.IH"(1) False by (auto simp: its_left_def)
  qed
qed (auto simp: its_left_def and_then_Inr_iff)

lemma min_key_in: "min_key its m = Some k \<Longrightarrow> m = Some k \<or> (\<exists>it. Some it \<in> set its \<and> it_key it = k)"
  by (induction its m rule: min_key.induct) (auto split: option.splits if_splits)

function merge_loop :: "CleanSpec \<Rightarrow> int \<Rightarrow> bounds \<Rightarrow> digestIter option list \<Rightarrow> mergeResult \<Rightarrow> mergeResult result" where
  "merge_loop spec now bs its res =
     (case min_key its None of
        None \<Rightarrow> Inr res
      | Some k \<Rightarrow> and_then (take_key spec k 0 its (new_key res)) (\<lambda>(its, st).
          merge_loop spec now bs its (settle_key spec now bs st)))"
  by pat_completeness auto
termination
proof (relation "measure (\<lambda>(_, _, _, its, _). its_left its)")
  fix spec :: CleanSpec and now :: int and bs :: bounds and its res k x its' st
  assume "min_key its None = Some k" "take_key spec k 0 its (new_key res) = Inr x" "(its', st) = x"
  then show "((spec, now, bs, its', settle_key spec now bs st), spec, now, bs, its, res) \<in> measure (\<lambda>(_, _, _, its, _). its_left its)"
    using take_key_left [of spec k 0 its "new_key res" its' st] min_key_in [of its None k] by auto
qed simp

declare merge_loop.simps [simp del]

definition mergeDigests :: "CleanSpec \<Rightarrow> int \<Rightarrow> segment list \<Rightarrow> keyDigest list \<Rightarrow> mergeResult result" where
  "mergeDigests spec now segments digests =
     (let n = length segments in
      and_then (start_iters digests) (\<lambda>its.
        merge_loop spec now (map (\<lambda>s. (s_BaseOffset s, NextOffset s)) segments) its
          \<lparr>drops = replicate n None, abortedKeyed = replicate n False, stripKeyed = replicate n False,
           gcSegs = replicate n False\<rparr>))"

text \<open>
  A segment's sidecar as the pass finds it, and whether writing a new one succeeds.  A sealed segment's
  digest is loaded if it can be, else built and written out; the active segment's is built for this pass.
\<close>

record sidecar =
  sc_file :: "bytes option"
  sc_write_ok :: bool

definition segment_digest :: "codecs \<Rightarrow> bool \<Rightarrow> sidecar \<Rightarrow> segment \<Rightarrow> keyDigest result" where
  "segment_digest C sealed f s =
     (let load = loadKeyDigest (s_BaseOffset s) (s_position s) in
      and_then (if sealed then load (sc_file f) else Inr None) (\<lambda>d. case d of
        Some d \<Rightarrow> Inr d
      | None \<Rightarrow> and_then (buildKeyDigest C s) (\<lambda>d.
          if sealed \<and> sc_write_ok f
          then and_then (load (Some (encodeKeyDigest d))) (\<lambda>ld. Inr (case ld of None \<Rightarrow> d | Some ld \<Rightarrow> ld))
          else Inr d)))"

fun loadOrBuildDigests :: "codecs \<Rightarrow> (sidecar \<times> segment) list \<Rightarrow> keyDigest list result" where
  "loadOrBuildDigests C [] = Inr []"
| "loadOrBuildDigests C ((f, s) # fs) =
     and_then (segment_digest C (fs \<noteq> []) f s) (\<lambda>d. and_then (loadOrBuildDigests C fs) (\<lambda>ds. Inr (d # ds)))"

section \<open>Decisions\<close>

definition canSkip :: "CleanSpec \<Rightarrow> keyDigest \<Rightarrow> mergeResult \<Rightarrow> nat \<Rightarrow> bool" where
  "canSkip spec d m i =
     (if (case drops m ! i of None \<Rightarrow> False | Some ds \<Rightarrow> ds_count ds > 0) then False
      else if abortedKeyed m ! i then False
      else if stripActive spec \<and>
        ((\<exists>off \<in> set (d_control d). off < cs_StripBelow spec) \<or>
         stripKeyed m ! i \<and> \<not> stripStampCovers d (cs_StripBelow spec) (cs_StripHeaders spec) \<or>
         (\<exists>r \<in> set (d_unkeyed d). dr_offset r < cs_StripBelow spec \<and> dr_flags r AND digestFlagHasHeaders \<noteq> 0 \<and>
            \<not> stripStampCovers d (cs_StripBelow spec) (cs_StripHeaders spec))) then False
      else if \<exists>r \<in> set (d_unkeyed d). dr_offset r < cs_ceiling spec \<and> aborted spec (dr_offset r) then False
      else True)"

datatype disposition = dispRetain | dispRemove | dispStrip

definition classify :: "CleanSpec \<Rightarrow> int \<Rightarrow> bytes \<Rightarrow> dropSet option \<Rightarrow> disposition result" where
  "classify spec offset msg ds =
     (let strip = offset < cs_StripBelow spec \<and> cs_StripHeaders spec \<noteq> [] in
      if offset \<ge> cs_ceiling spec then Inr dispRetain
      else and_then (sm_Attributes msg) (\<lambda>attrs.
        if attrs AND AttrControl \<noteq> 0 then Inr (if strip then dispRemove else dispRetain)
        else if aborted spec offset then Inr dispRemove
        else and_then (sm_Key msg) (\<lambda>key.
          if key = None then Inr (if strip then dispStrip else dispRetain)
          else if dropSet_get ds offset then Inr dispRemove
          else Inr (if strip then dispStrip else dispRetain))))"

end
