(* ===== verification/Compact_Merge.thy ===== *)
theory Compact_Merge
  imports Compact_Cleaner
begin

text \<open>
  What the merge of the digests computes.  A drop set is a set of offsets; the k-way merge visits every key
  exactly once, in ascending order, with all of its records in segment order; and what a pass removes is what
  a definition over the log's records alone, without digests, sets or iterators, says it removes.
\<close>

section \<open>Sets of offsets\<close>

text \<open>
  What a pass needs of the set it collects offsets in: it is created for a range, an offset of the range
  added to it is in it and nothing else is, and its count is positive exactly when it has an element.
\<close>

locale offset_set =
  fixes new :: "int \<Rightarrow> int \<Rightarrow> 's"
    and add :: "int \<Rightarrow> 's \<Rightarrow> 's"
    and mem :: "'s \<Rightarrow> int \<Rightarrow> bool"
    and count :: "'s \<Rightarrow> int"
    and room :: "int \<Rightarrow> int \<Rightarrow> 's \<Rightarrow> bool"
  assumes room_new: "room b n (new b n)"
    and room_add: "room b n s \<Longrightarrow> room b n (add off s)"
    and mem_new: "\<not> mem (new b n) off"
    and mem_add: "room b n s \<Longrightarrow> b \<le> off \<Longrightarrow> off < n \<Longrightarrow> mem (add off s) x \<longleftrightarrow> mem s x \<or> x = off"
    and count_pos: "room b n s \<Longrightarrow> 0 < count s \<longleftrightarrow> (\<exists>off. mem s off)"
begin

lemma room_fold: "room b n s \<Longrightarrow> room b n (fold add offs s)"
  by (induction offs arbitrary: s) (simp_all add: room_add)

lemma mem_fold: "room b n s \<Longrightarrow> \<forall>off \<in> set offs. b \<le> off \<and> off < n \<Longrightarrow> mem (fold add offs s) x \<longleftrightarrow> mem s x \<or> x \<in> set offs"
  by (induction offs arbitrary: s) (auto simp: room_add mem_add)

lemma collected:
  assumes "\<forall>off \<in> set offs. b \<le> off \<and> off < n"
  shows "mem (fold add offs (new b n)) x \<longleftrightarrow> x \<in> set offs" and "0 < count (fold add offs (new b n)) \<longleftrightarrow> offs \<noteq> []"
  using mem_fold [OF room_new assms] count_pos [OF room_fold [OF room_new [of b n]], of offs]
  by (simp add: mem_new, cases offs) (auto simp: mem_new)

end

definition set_room :: "int \<Rightarrow> int \<Rightarrow> dropSet \<Rightarrow> bool" where
  "set_room b n d \<longleftrightarrow> ds_base d = b \<and> n - b \<le> 64 * int (length (ds_bits d)) \<and> 0 \<le> ds_count d \<and>
     (0 < ds_count d \<longleftrightarrow> (\<exists>off. dropSet_get (Some d) off))"

lemma dropSet_get_bit:
  "dropSet_get (Some d) off \<longleftrightarrow> 0 \<le> off - ds_base d \<and> off - ds_base d < 64 * int (length (ds_bits d)) \<and>
     bit (ds_bits d ! nat ((off - ds_base d) div 64)) (nat ((off - ds_base d) mod 64))"
  by (auto simp: dropSet_get_def Let_def bit_iff_and_push_bit_not_eq_0)

lemma dropSet_get_set:
  "dropSet_get (Some (dropSet_set off d)) x \<longleftrightarrow>
     dropSet_get (Some d) x \<or> x = off \<and> ds_base d \<le> off \<and> off - ds_base d < 64 * int (length (ds_bits d))"
proof (cases "off - ds_base d < 0 \<or> off - ds_base d \<ge> int (length (ds_bits d)) * 64")
  case True
  then show ?thesis by (auto simp: dropSet_set_def)
next
  case False
  let ?i = "off - ds_base d" and ?j = "x - ds_base d"
  let ?w = "nat (?i div 64)" and ?b = "nat (?i mod 64)"
  have w: "?w < length (ds_bits d)" and b: "?b < 64" using False by (auto simp: nat_less_iff)
  have same: "x = off" if "0 \<le> ?j" "nat (?j div 64) = ?w" "nat (?j mod 64) = ?b"
  proof -
    have "?j div 64 = ?i div 64" "?j mod 64 = ?i mod 64" using that False
      by (simp_all add: eq_nat_nat_iff pos_imp_zdiv_nonneg_iff)
    then have "?j = ?i" by (metis mult_div_mod_eq)
    then show ?thesis by simp
  qed
  show ?thesis
  proof (cases "bit (ds_bits d ! ?w) ?b")
    case True
    then show ?thesis using False by (auto simp: dropSet_set_def Let_def dropSet_get_bit bit_iff_and_push_bit_not_eq_0)
  next
    case nb: False
    have s: "dropSet_set off d = d \<lparr>ds_bits := (ds_bits d) [?w := ds_bits d ! ?w OR push_bit ?b 1], ds_count := ds_count d + 1\<rparr>"
      using False nb by (simp add: dropSet_set_def Let_def bit_iff_and_push_bit_not_eq_0)
    have bits: "bit (ds_bits d ! ?w OR push_bit ?b 1) n \<longleftrightarrow> bit (ds_bits d ! ?w) n \<or> n = ?b" if "n < 64" for n
      using that by (auto simp: bit_simps)
    have m: "nat (?j mod 64) < 64" by (simp add: nat_less_iff)
    show ?thesis
    proof (cases "0 \<le> ?j \<and> ?j < 64 * int (length (ds_bits d)) \<and> nat (?j div 64) = ?w")
      case True
      then show ?thesis unfolding dropSet_get_bit s using w bits [OF m] same by auto
    next
      case False
      then show ?thesis unfolding dropSet_get_bit s using w nb \<open>\<not> (_ \<or> _)\<close> by (auto simp: nth_list_update)
    qed
  qed
qed

lemma dropSet_set_fields: "ds_base (dropSet_set off d) = ds_base d" "length (ds_bits (dropSet_set off d)) = length (ds_bits d)"
  by (simp_all add: dropSet_set_def Let_def)

lemma dropSet_set_count:
  "ds_count (dropSet_set off d) = (if dropSet_get (Some (dropSet_set off d)) off \<and> \<not> dropSet_get (Some d) off then ds_count d + 1 else ds_count d)"
  unfolding dropSet_get_set by (auto simp: dropSet_set_def Let_def dropSet_get_def)

interpretation bitmap: offset_set newDropSet dropSet_set "\<lambda>d. dropSet_get (Some d)" ds_count set_room
proof
  show new: "\<not> dropSet_get (Some (newDropSet b n)) off" for b n off
    by (auto simp: newDropSet_def Let_def dropSet_get_bit nat_less_iff)
  show "set_room b n (newDropSet b n)" for b n
    using new [of b n] by (auto simp: set_room_def) (auto simp: newDropSet_def Let_def)
  show "set_room b n (dropSet_set off s)" if "set_room b n s" for b n s off
    using that by (auto simp: set_room_def dropSet_set_fields dropSet_set_count dropSet_get_set)
  show "dropSet_get (Some (dropSet_set off s)) x \<longleftrightarrow> dropSet_get (Some s) x \<or> x = off"
    if "set_room b n s" "b \<le> off" "off < n" for b n s off x
    using that by (auto simp: dropSet_get_set set_room_def)
  show "0 < ds_count s \<longleftrightarrow> (\<exists>off. dropSet_get (Some s) off)" if "set_room b n s" for b n s
    using that by (simp add: set_room_def)
qed

section \<open>The merge visits every key once\<close>

type_synonym entries = "(bytes \<times> digestRec list) list"

text \<open>An iterator at its current entry, with the entries after it still to come.\<close>

fun it_at :: "digestIter option \<Rightarrow> entries \<Rightarrow> bool" where
  "it_at None es = (es = [])"
| "it_at (Some it) [] = False"
| "it_at (Some it) (e # es) = (it_key it = fst e \<and> it_recs it = snd e \<and> it_holds it es)"

fun all_recs :: "bytes \<Rightarrow> nat \<Rightarrow> entries list \<Rightarrow> (nat \<times> digestRec) list" where
  "all_recs k i [] = []"
| "all_recs k i (es # ess) = (case map_of es k of None \<Rightarrow> [] | Some rs \<Rightarrow> map (Pair i) rs) @ all_recs k (i + 1) ess"

definition all_keys :: "entries list \<Rightarrow> bytes set" where
  "all_keys ess = fst ` \<Union> (set ` set ess)"

lemma all_keys_simps: "all_keys [] = {}" "all_keys (es # ess) = fst ` set es \<union> all_keys ess"
  by (auto simp: all_keys_def)

definition advance :: "bytes \<Rightarrow> entries \<Rightarrow> entries" where
  "advance k es = (case es of [] \<Rightarrow> [] | e # es' \<Rightarrow> if fst e = k then es' else es)"

lemma advance_simps: "advance k [] = []" "advance k (e # es) = (if fst e = k then es else e # es)"
  by (simp_all add: advance_def)

abbreviation key_sorted :: "entries \<Rightarrow> bool" where
  "key_sorted es \<equiv> sorted_wrt (<) (map fst es)"

definition take_all :: "CleanSpec \<Rightarrow> (nat \<times> digestRec) list \<Rightarrow> keyState \<Rightarrow> keyState" where
  "take_all spec = fold (\<lambda>(i, r). take_rec spec i r)"

definition merge_key :: "CleanSpec \<Rightarrow> int \<Rightarrow> bounds \<Rightarrow> entries list \<Rightarrow> bytes \<Rightarrow> mergeResult \<Rightarrow> mergeResult" where
  "merge_key spec now bs ess k res = settle_key spec now bs (take_all spec (all_recs k 0 ess) (new_key res))"

lemma it_next_at: "it_holds it es \<Longrightarrow> \<exists>nx. it_next it = Inr nx \<and> it_at nx es"
  using it_next_holds [of it] it_next_done [of it] by (cases es) fastforce+

lemma start_iters_at:
  "list_all2 (\<lambda>d. it_holds (newDigestIter d)) ds ess \<Longrightarrow> \<exists>its. start_iters ds = Inr its \<and> list_all2 it_at its ess"
proof (induction rule: list_all2_induct)
  case (Cons d ds es ess)
  then show ?case using it_next_at [OF Cons.hyps(1)] by fastforce
qed simp

lemma map_of_advance:
  assumes "key_sorted es"
  shows "k' \<noteq> k \<Longrightarrow> map_of (advance k es) k' = map_of es k'" and "key_sorted (advance k es)" "set (advance k es) \<subseteq> set es"
proof -
  show "k' \<noteq> k \<Longrightarrow> map_of (advance k es) k' = map_of es k'" by (cases es) (auto simp: advance_def)
  show "key_sorted (advance k es)" using assms by (cases es) (simp_all add: advance_def)
  show "set (advance k es) \<subseteq> set es" by (cases es) (auto simp: advance_def)
qed

lemma map_of_least:
  assumes "key_sorted es" and "es \<noteq> [] \<Longrightarrow> k \<le> fst (hd es)"
  shows "map_of es k = (case es of [] \<Rightarrow> None | e # _ \<Rightarrow> if fst e = k then Some (snd e) else None)"
    and "k \<notin> fst ` set (advance k es)"
proof -
  have n: "k \<notin> fst ` set es'" if "es = e # es'" for e es' using assms that by force
  show "map_of es k = (case es of [] \<Rightarrow> None | e # _ \<Rightarrow> if fst e = k then Some (snd e) else None)"
    using n by (cases es) (auto simp: map_of_eq_None_iff)
  show "k \<notin> fst ` set (advance k es)" using n by (cases es) (auto simp: advance_def)
qed

lemma take_key_at:
  assumes "list_all2 it_at its ess" and "\<forall>es \<in> set ess. key_sorted es \<and> (es \<noteq> [] \<longrightarrow> k \<le> fst (hd es))"
  shows "\<exists>its'. take_key spec k i its st = Inr (its', take_all spec (all_recs k i ess) st) \<and> list_all2 it_at its' (map (advance k) ess)"
  using assms
proof (induction its ess arbitrary: i st rule: list_all2_induct)
  case (Cons it its es ess)
  have m: "map_of es k = (case es of [] \<Rightarrow> None | e # _ \<Rightarrow> if fst e = k then Some (snd e) else None)"
    using Cons.prems by (intro map_of_least) simp_all
  have IH: "\<exists>its'. take_key spec k (i + 1) its st' = Inr (its', take_all spec (all_recs k (i + 1) ess) st') \<and>
      list_all2 it_at its' (map (advance k) ess)" for st' using Cons by simp
  show ?case
  proof (cases it)
    case None
    then show ?thesis using Cons.hyps(1) IH [of st] m by (auto simp: advance_simps)
  next
    case (Some t)
    then obtain e es' where e: "es = e # es'" "it_key t = fst e" "it_recs t = snd e" "it_holds t es'"
      using Cons.hyps(1) by (cases es) auto
    show ?thesis
    proof (cases "fst e = k")
      case True
      obtain nx where "it_next t = Inr nx" "it_at nx es'" using it_next_at [OF e(4)] by blast
      moreover have "fold (take_rec spec i) rs st = take_all spec (map (Pair i) rs) st" for rs
        by (simp add: take_all_def fold_map comp_def)
      ultimately show ?thesis using True IH [of "take_all spec (map (Pair i) (snd e)) st"] e Some m
        by (auto simp: advance_simps take_all_def)
    next
      case False
      then show ?thesis using IH [of st] Some e m Cons.hyps(1) by (auto simp: advance_simps)
    qed
  qed
qed (simp add: take_all_def)

lemma min_key_least:
  assumes "list_all2 it_at its ess"
  shows "case min_key its m of
      None \<Rightarrow> m = None \<and> (\<forall>es \<in> set ess. es = [])
    | Some k \<Rightarrow> (m = Some k \<or> k \<in> all_keys ess) \<and> (\<forall>k'. m = Some k' \<longrightarrow> k \<le> k') \<and> (\<forall>es \<in> set ess. es \<noteq> [] \<longrightarrow> k \<le> fst (hd es))"
  using assms
proof (induction its ess arbitrary: m rule: list_all2_induct)
  case Nil
  then show ?case by (cases m) simp_all
next
  case (Cons it its es ess)
  show ?case
  proof (cases it)
    case None
    then show ?thesis using Cons.hyps(1) Cons.IH [of m] by (auto simp: all_keys_simps split: option.splits)
  next
    case (Some t)
    then obtain e es' where e: "es = e # es'" "it_key t = fst e" using Cons.hyps(1) by (cases es) auto
    let ?m = "case m of None \<Rightarrow> Some (it_key t) | Some k \<Rightarrow> if it_key t < k then Some (it_key t) else Some k"
    show ?thesis using Some e Cons.IH [of ?m]
      by (auto simp: all_keys_simps split: option.splits if_splits)
  qed
qed

lemma all_recs_advance: "\<forall>es \<in> set ess. key_sorted es \<Longrightarrow> k' \<noteq> k \<Longrightarrow> all_recs k' i (map (advance k) ess) = all_recs k' i ess"
  by (induction ess arbitrary: i) (simp_all add: map_of_advance(1))

lemma all_keys_advance:
  assumes "\<forall>es \<in> set ess. key_sorted es \<and> (es \<noteq> [] \<longrightarrow> k \<le> fst (hd es))"
  shows "all_keys (map (advance k) ess) = all_keys ess - {k}"
  using assms
proof (induction ess)
  case (Cons es ess)
  then have "k \<notin> fst ` set (advance k es)" by (intro map_of_least(2)) simp_all
  moreover have "fst ` set (advance k es) \<union> {k} = fst ` set es \<union> {k}" by (cases es) (auto simp: advance_simps)
  ultimately show ?case using Cons by (auto simp: all_keys_simps)
qed (simp add: all_keys_simps)

text \<open>The k-way merge is the fold of the per-key step over the keys in ascending order.\<close>

lemma merge_loop_fold:
  assumes "list_all2 it_at its ess" and "\<forall>es \<in> set ess. key_sorted es"
  shows "\<exists>ks. merge_loop spec now bs its res = Inr (fold (merge_key spec now bs ess) ks res) \<and> sorted_wrt (<) ks \<and> set ks = all_keys ess"
  using assms
proof (induction spec now bs its res arbitrary: ess rule: merge_loop.induct)
  case (1 spec now bs its res)
  note least = min_key_least [OF "1.prems"(1), of None]
  show ?case
  proof (cases "min_key its None")
    case None
    then have "all_keys ess = {}" using least by (auto simp: all_keys_def)
    then show ?thesis using None by (intro exI [of _ "[]"]) (simp add: merge_loop.simps)
  next
    case (Some k)
    then have k: "k \<in> all_keys ess" "\<forall>es \<in> set ess. key_sorted es \<and> (es \<noteq> [] \<longrightarrow> k \<le> fst (hd es))" using least "1.prems"(2) by auto
    let ?st = "take_all spec (all_recs k 0 ess) (new_key res)" and ?ess = "map (advance k) ess"
    obtain its' where t: "take_key spec k 0 its (new_key res) = Inr (its', ?st)" "list_all2 it_at its' ?ess"
      using take_key_at [OF "1.prems"(1) k(2)] by blast
    have "\<forall>es \<in> set ?ess. key_sorted es" using "1.prems"(2) map_of_advance(2) by simp
    then obtain ks where ks: "merge_loop spec now bs its' (settle_key spec now bs ?st) = Inr (fold (merge_key spec now bs ?ess) ks (settle_key spec now bs ?st))"
      "sorted_wrt (<) ks" "set ks = all_keys ?ess"
      using "1.IH" [OF Some t(1) refl t(2)] by blast
    have s: "set ks = all_keys ess - {k}" unfolding ks(3) by (rule all_keys_advance [OF k(2)])
    have "fold (merge_key spec now bs ?ess) ks r = fold (merge_key spec now bs ess) ks r" for r
      using s "1.prems"(2) by (intro fold_cong) (auto simp: merge_key_def all_recs_advance)
    moreover have "k < k'" if k': "k' \<in> set ks" for k'
    proof -
      obtain es where es: "es \<in> set ess" "k' \<in> fst ` set es" using k' s by (auto simp: all_keys_def)
      then have "es \<noteq> []" by auto
      then obtain e es' where e: "es = e # es'" by (auto simp: neq_Nil_conv)
      have "k \<le> fst e" "fst e \<le> k'" using k(2) es e by force+
      then show ?thesis using k' s by force
    qed
    ultimately show ?thesis using Some t(1) ks(1,2) s k(1)
      by (intro exI [of _ "k # ks"]) (auto simp: merge_loop.simps [of spec now bs its] merge_key_def [of spec now bs ess k])
  qed
qed

section \<open>What one key does to the result\<close>

definition dropped :: "mergeResult \<Rightarrow> nat \<Rightarrow> int \<Rightarrow> bool" where
  "dropped res i off = dropSet_get (drops res ! i) off"

definition res_ok :: "bounds \<Rightarrow> mergeResult \<Rightarrow> bool" where
  "res_ok bs res \<longleftrightarrow> length (drops res) = length bs \<and> length (abortedKeyed res) = length bs \<and>
     length (stripKeyed res) = length bs \<and> length (gcSegs res) = length bs \<and>
     (\<forall>i < length bs. \<forall>d. drops res ! i = Some d \<longrightarrow> set_room (fst (bs ! i)) (snd (bs ! i)) d)"

definition in_bounds :: "bounds \<Rightarrow> nat \<times> digestRec \<Rightarrow> bool" where
  "in_bounds bs ir \<longleftrightarrow> fst ir < length bs \<and> 0 \<le> dr_offset (snd ir) \<and>
     fst (bs ! fst ir) \<le> dr_offset (snd ir) \<and> dr_offset (snd ir) < snd (bs ! fst ir)"

definition counted :: "CleanSpec \<Rightarrow> digestRec \<Rightarrow> bool" where
  "counted spec r \<longleftrightarrow> dr_offset r \<le> cs_ceiling spec \<and> \<not> aborted spec (dr_offset r)"

definition expired :: "CleanSpec \<Rightarrow> int \<Rightarrow> digestRec \<Rightarrow> bool" where
  "expired spec now r \<longleftrightarrow> cs_TombstoneRetention spec > 0 \<and> dr_flags r AND digestFlagTombstone \<noteq> 0 \<and>
     dr_offset r < cs_TombstoneGCBelow spec \<and> dr_ts r > 0 \<and> dr_ts r < now - cs_TombstoneRetention spec"

text \<open>The latest counted record of a key.\<close>

definition is_latest :: "CleanSpec \<Rightarrow> (nat \<times> digestRec) list \<Rightarrow> nat \<times> digestRec \<Rightarrow> bool" where
  "is_latest spec irs ir \<longleftrightarrow> ir \<in> set irs \<and> counted spec (snd ir) \<and>
     (\<forall>jr \<in> set irs. counted spec (snd jr) \<longrightarrow> dr_offset (snd jr) \<le> dr_offset (snd ir))"

definition key_drops :: "CleanSpec \<Rightarrow> int \<Rightarrow> (nat \<times> digestRec) list \<Rightarrow> (nat \<times> int) set" where
  "key_drops spec now irs = {(i, dr_offset r) | i r. (i, r) \<in> set irs \<and> counted spec r \<and>
     (\<not> is_latest spec irs (i, r) \<and> dr_offset r < cs_ceiling spec \<or> is_latest spec irs (i, r) \<and> expired spec now r)}"

lemma drop_off_ok:
  assumes "res_ok bs res" and "i < length bs" and "fst (bs ! i) \<le> off" and "off < snd (bs ! i)"
  shows "res_ok bs (drop_off bs i off res)"
    and "j < length bs \<Longrightarrow> dropped (drop_off bs i off res) j x \<longleftrightarrow> dropped res j x \<or> j = i \<and> x = off"
    and "abortedKeyed (drop_off bs i off res) = abortedKeyed res" "stripKeyed (drop_off bs i off res) = stripKeyed res"
      "gcSegs (drop_off bs i off res) = gcSegs res"
proof -
  define d where "d = (case drops res ! i of None \<Rightarrow> newDropSet (fst (bs ! i)) (snd (bs ! i)) | Some d \<Rightarrow> d)"
  have r: "set_room (fst (bs ! i)) (snd (bs ! i)) d"
    using assms(1,2) bitmap.room_new by (auto simp: d_def res_ok_def split: option.splits)
  have e: "drop_off bs i off res = res \<lparr>drops := (drops res) [i := Some (dropSet_set off d)]\<rparr>" by (simp add: drop_off_def d_def)
  show "res_ok bs (drop_off bs i off res)"
    using assms(1,2) bitmap.room_add [OF r] by (auto simp: e res_ok_def nth_list_update split: if_splits)
  have "dropSet_get (Some d) x \<longleftrightarrow> dropSet_get (drops res ! i) x" for x
    using bitmap.mem_new by (cases "drops res ! i") (auto simp: d_def dropSet_get_def [of None])
  then show "j < length bs \<Longrightarrow> dropped (drop_off bs i off res) j x \<longleftrightarrow> dropped res j x \<or> j = i \<and> x = off"
    using bitmap.mem_add [OF r assms(3,4)] assms(1,2) by (auto simp: e dropped_def res_ok_def nth_list_update)
  show "abortedKeyed (drop_off bs i off res) = abortedKeyed res" "stripKeyed (drop_off bs i off res) = stripKeyed res"
      "gcSegs (drop_off bs i off res) = gcSegs res" by (simp_all add: e)
qed

lemma drop_fold_ok:
  fixes P :: "digestRec \<Rightarrow> bool"
  assumes "res_ok bs res" and "\<forall>ir \<in> set irs. in_bounds bs ir"
  defines "res' \<equiv> fold (\<lambda>(i, r) res. if P r then drop_off bs i (dr_offset r) res else res) irs res"
  shows "res_ok bs res'" and "j < length bs \<Longrightarrow> dropped res' j x \<longleftrightarrow> dropped res j x \<or> (\<exists>r. (j, r) \<in> set irs \<and> P r \<and> x = dr_offset r)"
    and "abortedKeyed res' = abortedKeyed res" "stripKeyed res' = stripKeyed res" "gcSegs res' = gcSegs res"
proof -
  have "res_ok bs res' \<and> (\<forall>j x. j < length bs \<longrightarrow> (dropped res' j x \<longleftrightarrow> dropped res j x \<or> (\<exists>r. (j, r) \<in> set irs \<and> P r \<and> x = dr_offset r))) \<and>
    abortedKeyed res' = abortedKeyed res \<and> stripKeyed res' = stripKeyed res \<and> gcSegs res' = gcSegs res"
    unfolding res'_def using assms(1,2)
  proof (induction irs arbitrary: res)
    case (Cons ir irs)
    obtain i r where ir: "ir = (i, r)" by (cases ir)
    let ?res = "if P r then drop_off bs i (dr_offset r) res else res"
    have b: "i < length bs" "fst (bs ! i) \<le> dr_offset r" "dr_offset r < snd (bs ! i)" using Cons.prems(2) by (simp_all add: in_bounds_def ir)
    note d = drop_off_ok [OF Cons.prems(1) b]
    have "res_ok bs ?res" using d(1) Cons.prems(1) by simp
    note IH = Cons.IH [OF this]
    show ?case using IH Cons.prems(2) d(2-5) by (auto simp: ir)
  qed simp
  then show "res_ok bs res'" "j < length bs \<Longrightarrow> dropped res' j x \<longleftrightarrow> dropped res j x \<or> (\<exists>r. (j, r) \<in> set irs \<and> P r \<and> x = dr_offset r)"
    "abortedKeyed res' = abortedKeyed res" "stripKeyed res' = stripKeyed res" "gcSegs res' = gcSegs res" by blast+
qed

text \<open>The records a key has collected, with the latest of them marked.\<close>

definition part_ok :: "keyState \<Rightarrow> bool" where
  "part_ok st \<longleftrightarrow>
     (if ks_part st = [] then ks_latestOff st = - 1
      else (ks_latestIdx st, ks_latestRec st) \<in> set (ks_part st) \<and> ks_latestOff st = dr_offset (ks_latestRec st)) \<and>
     (\<forall>ir \<in> set (ks_part st). 0 \<le> dr_offset (snd ir) \<and> dr_offset (snd ir) \<le> ks_latestOff st)"

definition strips :: "CleanSpec \<Rightarrow> digestRec \<Rightarrow> bool" where
  "strips spec r \<longleftrightarrow> stripActive spec \<and> dr_offset r < cs_StripBelow spec \<and> dr_flags r AND digestFlagHasHeaders \<noteq> 0"

definition aborts :: "CleanSpec \<Rightarrow> digestRec \<Rightarrow> bool" where
  "aborts spec r \<longleftrightarrow> dr_offset r < cs_ceiling spec \<and> aborted spec (dr_offset r)"

lemma take_rec_ok:
  assumes "part_ok st" and "0 \<le> dr_offset r"
  shows "part_ok (take_rec spec i r st)" "ks_part (take_rec spec i r st) = ks_part st @ (if counted spec r then [(i, r)] else [])"
    "ks_res (take_rec spec i r st) = (ks_res st)
       \<lparr>stripKeyed := (if strips spec r then (stripKeyed (ks_res st)) [i := True] else stripKeyed (ks_res st)),
        abortedKeyed := (if aborts spec r then (abortedKeyed (ks_res st)) [i := True] else abortedKeyed (ks_res st))\<rparr>"
proof -
  show "ks_part (take_rec spec i r st) = ks_part st @ (if counted spec r then [(i, r)] else [])"
    "ks_res (take_rec spec i r st) = (ks_res st)
       \<lparr>stripKeyed := (if strips spec r then (stripKeyed (ks_res st)) [i := True] else stripKeyed (ks_res st)),
        abortedKeyed := (if aborts spec r then (abortedKeyed (ks_res st)) [i := True] else abortedKeyed (ks_res st))\<rparr>"
    by (auto simp: take_rec_def Let_def counted_def strips_def aborts_def)
  show "part_ok (take_rec spec i r st)"
    using assms by (force simp: take_rec_def Let_def part_ok_def split: if_splits)
qed

lemma set_true_nth: "j < length xs \<Longrightarrow> xs [i := True] ! j \<longleftrightarrow> xs ! j \<or> j = i"
  by (auto simp: nth_list_update_eq) (cases "i = j"; simp)+

text \<open>The state after a key's records, against the state before.\<close>

definition taken :: "CleanSpec \<Rightarrow> bounds \<Rightarrow> (nat \<times> digestRec) list \<Rightarrow> keyState \<Rightarrow> keyState \<Rightarrow> bool" where
  "taken spec bs irs st st' \<longleftrightarrow> part_ok st' \<and> ks_part st' = ks_part st @ filter (\<lambda>ir. counted spec (snd ir)) irs \<and>
     res_ok bs (ks_res st') \<and> drops (ks_res st') = drops (ks_res st) \<and> gcSegs (ks_res st') = gcSegs (ks_res st) \<and>
     (\<forall>j < length bs. (stripKeyed (ks_res st') ! j \<longleftrightarrow> stripKeyed (ks_res st) ! j \<or> (\<exists>r. (j, r) \<in> set irs \<and> strips spec r)) \<and>
       (abortedKeyed (ks_res st') ! j \<longleftrightarrow> abortedKeyed (ks_res st) ! j \<or> (\<exists>r. (j, r) \<in> set irs \<and> aborts spec r)))"

lemma take_all_ok:
  assumes "part_ok st" and "\<forall>ir \<in> set irs. 0 \<le> dr_offset (snd ir)" and "res_ok bs (ks_res st)"
  shows "taken spec bs irs st (take_all spec irs st)"
  using assms
proof (induction irs arbitrary: st)
  case (Cons ir irs)
  obtain i r where ir: "ir = (i, r)" by (cases ir)
  note t = take_rec_ok [OF Cons.prems(1), of r spec i]
  let ?st = "take_rec spec i r st"
  have ok: "res_ok bs (ks_res ?st)" using t(3) Cons.prems(2,3) by (simp add: ir res_ok_def)
  have f: "j < length bs \<Longrightarrow> stripKeyed (ks_res ?st) ! j \<longleftrightarrow> stripKeyed (ks_res st) ! j \<or> j = i \<and> strips spec r"
    "j < length bs \<Longrightarrow> abortedKeyed (ks_res ?st) ! j \<longleftrightarrow> abortedKeyed (ks_res st) ! j \<or> j = i \<and> aborts spec r"
    "drops (ks_res ?st) = drops (ks_res st)" "gcSegs (ks_res ?st) = gcSegs (ks_res st)" for j
    using t(3) Cons.prems(2,3) by (auto simp: ir res_ok_def set_true_nth)
  have IH: "taken spec bs irs ?st (take_all spec irs ?st)"
    using Cons.prems(2) t(1) ok by (intro Cons.IH) (simp_all add: ir)
  moreover have "take_all spec (ir # irs) st = take_all spec irs ?st" by (simp add: take_all_def ir)
  ultimately show ?case using f t(2) Cons.prems(2) by (auto simp: ir taken_def)
qed (simp add: take_all_def taken_def)

definition merged_key :: "CleanSpec \<Rightarrow> int \<Rightarrow> bounds \<Rightarrow> (nat \<times> digestRec) list \<Rightarrow> mergeResult \<Rightarrow> mergeResult \<Rightarrow> bool" where
  "merged_key spec now bs irs res res' \<longleftrightarrow> res_ok bs res' \<and>
     (\<forall>j < length bs. (\<forall>x. dropped res' j x \<longleftrightarrow> dropped res j x \<or> (j, x) \<in> key_drops spec now irs) \<and>
       (stripKeyed res' ! j \<longleftrightarrow> stripKeyed res ! j \<or> (\<exists>r. (j, r) \<in> set irs \<and> strips spec r)) \<and>
       (abortedKeyed res' ! j \<longleftrightarrow> abortedKeyed res ! j \<or> (\<exists>r. (j, r) \<in> set irs \<and> aborts spec r)) \<and>
       (gcSegs res' ! j \<longleftrightarrow> gcSegs res ! j \<or> (\<exists>r. is_latest spec irs (j, r) \<and> expired spec now r)))"

lemma latest_unique:
  assumes "inj_on (\<lambda>ir. dr_offset (snd ir)) (set irs)" and "part_ok st" and "ks_part st = filter (\<lambda>ir. counted spec (snd ir)) irs"
    and "ks_part st \<noteq> []"
  shows "is_latest spec irs ir \<longleftrightarrow> ir = (ks_latestIdx st, ks_latestRec st)"
proof
  let ?l = "(ks_latestIdx st, ks_latestRec st)"
  have l: "?l \<in> set irs" "counted spec (ks_latestRec st)" "\<forall>ir \<in> set irs. counted spec (snd ir) \<longrightarrow> dr_offset (snd ir) \<le> dr_offset (ks_latestRec st)"
    using assms(2-4) by (auto simp: part_ok_def)
  { assume "is_latest spec irs ir"
    then have "ir \<in> set irs" "dr_offset (snd ir) \<le> dr_offset (snd ?l)" "dr_offset (snd ?l) \<le> dr_offset (snd ir)"
      using l bspec [OF _ l(1), of "\<lambda>jr. counted spec (snd jr) \<longrightarrow> dr_offset (snd jr) \<le> dr_offset (snd ir)"] by (auto simp: is_latest_def)
    then have "ir \<in> set irs" "dr_offset (snd ir) = dr_offset (snd ?l)" by simp_all
    then show "ir = ?l" using inj_onD [OF assms(1)] l(1) by metis }
  { assume "ir = ?l" then show "is_latest spec irs ir" using l by (auto simp: is_latest_def) }
qed

definition settled :: "CleanSpec \<Rightarrow> int \<Rightarrow> bounds \<Rightarrow> (nat \<times> digestRec) list \<Rightarrow> mergeResult \<Rightarrow> mergeResult \<Rightarrow> bool" where
  "settled spec now bs irs res res' \<longleftrightarrow> res_ok bs res' \<and> stripKeyed res' = stripKeyed res \<and> abortedKeyed res' = abortedKeyed res \<and>
     (\<forall>j < length bs. (\<forall>x. dropped res' j x \<longleftrightarrow> dropped res j x \<or> (j, x) \<in> key_drops spec now irs) \<and>
       (gcSegs res' ! j \<longleftrightarrow> gcSegs res ! j \<or> (\<exists>r. is_latest spec irs (j, r) \<and> expired spec now r)))"

lemma settle_key_ok:
  assumes inj: "inj_on (\<lambda>ir. dr_offset (snd ir)) (set irs)" and b: "\<forall>ir \<in> set irs. in_bounds bs ir"
    and p: "part_ok st" "ks_part st = filter (\<lambda>ir. counted spec (snd ir)) irs" and ok: "res_ok bs (ks_res st)"
  shows "settled spec now bs irs (ks_res st) (settle_key spec now bs st)"
proof (cases "ks_part st = []")
  case True
  then have n: "\<not> counted spec (snd ir)" if "ir \<in> set irs" for ir
    using p that by (auto simp: filter_empty_conv)
  have "ks_latestOff st = - 1" using True p(1) by (simp add: part_ok_def)
  moreover have "key_drops spec now irs = {}" "\<And>ir. \<not> is_latest spec irs ir"
    using n by (fastforce simp: key_drops_def is_latest_def)+
  ultimately show ?thesis using ok by (simp add: settle_key_def settled_def)
next
  case False
  let ?L = "(ks_latestIdx st, ks_latestRec st)" and ?off = "ks_latestOff st" and ?r = "ks_latestRec st"
  let ?P = "\<lambda>r. dr_offset r \<noteq> ?off \<and> dr_offset r < cs_ceiling spec"
  let ?res = "fold (\<lambda>(i, r) res. if ?P r then drop_off bs i (dr_offset r) res else res) (ks_part st) (ks_res st)"
  have l: "is_latest spec irs ir \<longleftrightarrow> ir = ?L" for ir by (rule latest_unique [OF inj p False])
  have off: "?off = dr_offset ?r" "0 \<le> ?off" and L: "?L \<in> set irs" using p False by (auto simp: part_ok_def)
  have bL: "ks_latestIdx st < length bs" "fst (bs ! ks_latestIdx st) \<le> ?off" "?off < snd (bs ! ks_latestIdx st)"
    using b L off(1) by (auto simp: in_bounds_def)
  have eq: "dr_offset r = ?off \<longleftrightarrow> (i, r) = ?L" if "(i, r) \<in> set irs" for i r
    using inj_onD [OF inj, of "(i, r)" ?L] that L off(1) by auto
  have "\<forall>ir \<in> set (ks_part st). in_bounds bs ir" using b p(2) by auto
  note f = drop_fold_ok [OF ok this, where P = ?P]
  note d = drop_off_ok [OF f(1) bL]
  have part: "(i, r) \<in> set (ks_part st) \<longleftrightarrow> (i, r) \<in> set irs \<and> counted spec r" for i r using p(2) by auto
  have s: "settle_key spec now bs st = (if expired spec now ?r
      then (drop_off bs (ks_latestIdx st) ?off ?res) \<lparr>gcSegs := (gcSegs ?res) [ks_latestIdx st := True]\<rparr> else ?res)"
    using off by (simp add: settle_key_def expired_def Let_def)
  have k: "(j, x) \<in> key_drops spec now irs \<longleftrightarrow>
      (\<exists>r. (j, r) \<in> set (ks_part st) \<and> ?P r \<and> x = dr_offset r) \<or> expired spec now ?r \<and> j = ks_latestIdx st \<and> x = ?off" for j x
    using eq part L l p False off(1) by (auto simp: key_drops_def part_ok_def)
  have res: "res_ok bs (settle_key spec now bs st)" using d(1) f(1) by (simp add: s res_ok_def)
  moreover have "dropped (settle_key spec now bs st) j x \<longleftrightarrow> dropped (ks_res st) j x \<or> (j, x) \<in> key_drops spec now irs" if "j < length bs" for j x
    using d(2) [OF that] f(2) [OF that] by (auto simp: s k dropped_def)
  moreover have "length (gcSegs (ks_res st)) = length bs" using ok by (simp add: res_ok_def)
  ultimately show ?thesis using f(3-5) d(3-5) by (auto simp: settled_def s l set_true_nth)
qed

lemma merge_key_ok:
  assumes "inj_on (\<lambda>ir. dr_offset (snd ir)) (set (all_recs k 0 ess))" and "\<forall>ir \<in> set (all_recs k 0 ess). in_bounds bs ir" and "res_ok bs res"
  shows "merged_key spec now bs (all_recs k 0 ess) res (merge_key spec now bs ess k res)"
proof -
  let ?irs = "all_recs k 0 ess"
  have "taken spec bs ?irs (new_key res) (take_all spec ?irs (new_key res))"
    using assms(2,3) by (intro take_all_ok) (auto simp: new_key_def part_ok_def in_bounds_def)
  then show ?thesis
    using settle_key_ok [OF assms(1,2), of "take_all spec ?irs (new_key res)" spec now]
    by (auto simp: merged_key_def settled_def merge_key_def taken_def new_key_def dropped_def)
qed

section \<open>The whole merge\<close>

definition merged :: "CleanSpec \<Rightarrow> int \<Rightarrow> bounds \<Rightarrow> entries list \<Rightarrow> bytes set \<Rightarrow> mergeResult \<Rightarrow> mergeResult \<Rightarrow> bool" where
  "merged spec now bs ess ks res res' \<longleftrightarrow> res_ok bs res' \<and>
     (\<forall>j < length bs. (\<forall>x. dropped res' j x \<longleftrightarrow> dropped res j x \<or> (\<exists>k \<in> ks. (j, x) \<in> key_drops spec now (all_recs k 0 ess))) \<and>
       (stripKeyed res' ! j \<longleftrightarrow> stripKeyed res ! j \<or> (\<exists>k \<in> ks. \<exists>r. (j, r) \<in> set (all_recs k 0 ess) \<and> strips spec r)) \<and>
       (abortedKeyed res' ! j \<longleftrightarrow> abortedKeyed res ! j \<or> (\<exists>k \<in> ks. \<exists>r. (j, r) \<in> set (all_recs k 0 ess) \<and> aborts spec r)) \<and>
       (gcSegs res' ! j \<longleftrightarrow> gcSegs res ! j \<or> (\<exists>k \<in> ks. \<exists>r. is_latest spec (all_recs k 0 ess) (j, r) \<and> expired spec now r)))"

lemma merge_keys_ok:
  assumes "\<forall>k. inj_on (\<lambda>ir. dr_offset (snd ir)) (set (all_recs k 0 ess)) \<and> (\<forall>ir \<in> set (all_recs k 0 ess). in_bounds bs ir)"
    and "res_ok bs res"
  shows "merged spec now bs ess (set ks) res (fold (merge_key spec now bs ess) ks res)"
  using assms(2)
proof (induction ks arbitrary: res)
  case (Cons k ks)
  have k: "merged_key spec now bs (all_recs k 0 ess) res (merge_key spec now bs ess k res)"
    using merge_key_ok assms(1) Cons.prems by blast
  then have "merged spec now bs ess (set ks) (merge_key spec now bs ess k res) (fold (merge_key spec now bs ess) (k # ks) res)"
    using Cons.IH by (simp add: merged_key_def)
  then show ?case using k unfolding merged_def merged_key_def by (simp del: fold_simps)
qed (simp add: merged_def)

lemma all_recs_nth: "(j, r) \<in> set (all_recs k i ess) \<longleftrightarrow> i \<le> j \<and> j - i < length ess \<and> (\<exists>rs. map_of (ess ! (j - i)) k = Some rs \<and> r \<in> set rs)"
proof (induction ess arbitrary: i)
  case (Cons es ess)
  show ?case
  proof (cases "j = i")
    case True
    then show ?thesis using Cons.IH [of "i + 1"] by (cases "map_of es k") auto
  next
    case False
    then have "j - i = Suc (j - (i + 1))" if "i < j" using that by simp
    then show ?thesis using False Cons.IH [of "i + 1"] by (cases "map_of es k") (auto simp: Suc_le_eq)
  qed
qed simp

lemma all_recs_keyed:
  "(j, d) \<in> set (all_recs k 0 (map key_entries rss)) \<longleftrightarrow> j < length rss \<and> (\<exists>r \<in> set (rss ! j). keyed k r \<and> d = drec r)"
  by (auto simp: all_recs_nth key_entries_keys(2) key_recs_def Let_def filter_empty_conv split: if_splits) blast

lemma all_recs_elim:
  assumes "x \<in> set (all_recs k 0 (map key_entries rss))"
  obtains i r where "x = (i, drec r)" and "i < length rss" and "r \<in> set (rss ! i)" and "keyed k r"
proof -
  obtain i d where x: "x = (i, d)" by (cases x)
  then show thesis using assms that all_recs_keyed [of i d k rss] by blast
qed

text \<open>Segments with their records: in bounds, and one segment's bounds below the next one's.\<close>

definition laid_out :: "bounds \<Rightarrow> logrec list list \<Rightarrow> bool" where
  "laid_out bs rss \<longleftrightarrow> length bs = length rss \<and> sorted_wrt (\<lambda>a b. snd a \<le> fst b) bs \<and>
     (\<forall>i < length rss. sorted_wrt (\<lambda>r r'. lr_offset r < lr_offset r') (rss ! i) \<and>
       (\<forall>r \<in> set (rss ! i). 0 \<le> lr_offset r \<and> fst (bs ! i) \<le> lr_offset r \<and> lr_offset r < snd (bs ! i)))"

lemma laid_out_unique:
  assumes "laid_out bs rss" and "i < length rss" "r \<in> set (rss ! i)" and "j < length rss" "r' \<in> set (rss ! j)" and "lr_offset r = lr_offset r'"
  shows "i = j \<and> r = r'"
proof -
  have lt: False if "a < b" "b < length rss" "x \<in> set (rss ! a)" "y \<in> set (rss ! b)" "lr_offset x = lr_offset y" for a b x y
  proof -
    have "snd (bs ! a) \<le> fst (bs ! b)" using assms(1) that by (simp add: laid_out_def sorted_wrt_iff_nth_less)
    moreover have "\<forall>i < length rss. \<forall>r \<in> set (rss ! i). fst (bs ! i) \<le> lr_offset r \<and> lr_offset r < snd (bs ! i)"
      using assms(1) by (simp add: laid_out_def)
    then have "lr_offset x < snd (bs ! a)" "fst (bs ! b) \<le> lr_offset y" using that(1-4) order_less_trans by blast+
    ultimately show False using that(5) by simp
  qed
  have ij: "i = j" using lt [of i j r r'] lt [of j i r' r] assms by (cases i j rule: linorder_cases) auto
  have "sorted_wrt (<) (map lr_offset (rss ! i))" using assms(1,2) by (simp add: laid_out_def sorted_wrt_map)
  then have "distinct (map lr_offset (rss ! i))" using strict_sorted_iff by blast
  then have "r = r'" using assms ij inj_onD [of lr_offset "set (rss ! i)" r r'] by (simp add: distinct_map)
  then show ?thesis using ij by simp
qed

lemma mergeDigests_ok:
  assumes "laid_out bs rss" and "list_all2 digest_says ds rss" and bs: "bs = map (\<lambda>s. (s_BaseOffset s, NextOffset s)) segs"
  shows "\<exists>m. mergeDigests spec now segs ds = Inr m \<and>
    merged spec now bs (map key_entries rss) (all_keys (map key_entries rss))
      \<lparr>drops = replicate (length segs) None, abortedKeyed = replicate (length segs) False, stripKeyed = replicate (length segs) False,
       gcSegs = replicate (length segs) False\<rparr> m"
proof -
  let ?ess = "map key_entries rss"
  let ?res = "\<lparr>drops = replicate (length segs) None, abortedKeyed = replicate (length segs) False, stripKeyed = replicate (length segs) False,
       gcSegs = replicate (length segs) False\<rparr>"
  have "list_all2 (\<lambda>d. it_holds (newDigestIter d)) ds ?ess"
    using assms(2) by (auto simp: list_all2_conv_all_nth digest_says_def)
  then obtain its where its: "start_iters ds = Inr its" "list_all2 it_at its ?ess" using start_iters_at by blast
  have srt: "\<forall>es \<in> set ?ess. key_sorted es" using key_entries_keys(1) by simp
  obtain ks where ks: "merge_loop spec now bs its ?res = Inr (fold (merge_key spec now bs ?ess) ks ?res)" "set ks = all_keys ?ess"
    using merge_loop_fold [OF its(2) srt, of spec now bs ?res] by blast
  have "inj_on (\<lambda>ir. dr_offset (snd ir)) (set (all_recs k 0 ?ess)) \<and> (\<forall>ir \<in> set (all_recs k 0 ?ess). in_bounds bs ir)" for k
  proof
    show "inj_on (\<lambda>ir. dr_offset (snd ir)) (set (all_recs k 0 ?ess))"
    proof (rule inj_onI)
      fix x y assume xy: "x \<in> set (all_recs k 0 ?ess)" "y \<in> set (all_recs k 0 ?ess)" "dr_offset (snd x) = dr_offset (snd y)"
      obtain i r where x: "x = (i, drec r)" "i < length rss" "r \<in> set (rss ! i)" by (rule all_recs_elim [OF xy(1)])
      obtain j r' where y: "y = (j, drec r')" "j < length rss" "r' \<in> set (rss ! j)" by (rule all_recs_elim [OF xy(2)])
      show "x = y" using laid_out_unique [OF assms(1), of i r j r'] xy(3) x y by (simp add: drec_def)
    qed
    show "\<forall>ir \<in> set (all_recs k 0 ?ess). in_bounds bs ir"
    proof
      fix x assume "x \<in> set (all_recs k 0 ?ess)"
      then obtain i r where "x = (i, drec r)" "i < length rss" "r \<in> set (rss ! i)" by (rule all_recs_elim)
      then show "in_bounds bs x" using assms(1) by (simp add: in_bounds_def laid_out_def drec_def)
    qed
  qed
  moreover have "res_ok bs ?res" by (simp add: res_ok_def bs)
  ultimately have "merged spec now bs ?ess (set ks) ?res (fold (merge_key spec now bs ?ess) ks ?res)" by (intro merge_keys_ok) blast+
  then show ?thesis using its(1) ks by (simp add: mergeDigests_def Let_def bs)
qed

end
