(* ===== verification/Compaction.thy ===== *)
theory Compaction
  imports Compact_Merge Log_Replication
begin

text \<open>
  What a compaction pass decides, stated over the log's records: the verdict on a record, without digests,
  drop sets or iterators, and what the records a pass keeps still say about every key.
\<close>

section \<open>The verdict on a record\<close>

text \<open>
  A record that counts for its key in a merge: a data record that was not aborted, at or below the ceiling.  The merge
  counts the record at the ceiling itself, which is not committed yet when the ceiling is an open transaction's start.
\<close>

definition counts :: "CleanSpec \<Rightarrow> logrec \<Rightarrow> bool" where
  "counts spec r \<longleftrightarrow> \<not> is_control r \<and> lr_offset r \<le> cs_ceiling spec \<and> \<not> aborted spec (lr_offset r)"

definition superseded :: "CleanSpec \<Rightarrow> logrec list \<Rightarrow> logrec \<Rightarrow> bool" where
  "superseded spec rs r \<longleftrightarrow> (\<exists>r' \<in> set rs. counts spec r' \<and> rec_key r' = rec_key r \<and> lr_offset r < lr_offset r')"

definition collectable :: "CleanSpec \<Rightarrow> int \<Rightarrow> logrec \<Rightarrow> bool" where
  "collectable spec now r \<longleftrightarrow> cs_TombstoneRetention spec > 0 \<and> is_tombstone r \<and> lr_offset r < cs_TombstoneGCBelow spec \<and>
     lr_timestamp r > 0 \<and> lr_timestamp r < now - cs_TombstoneRetention spec"

definition strip_or_retain :: "CleanSpec \<Rightarrow> logrec \<Rightarrow> disposition" where
  "strip_or_retain spec r = (if lr_offset r < cs_StripBelow spec \<and> cs_StripHeaders spec \<noteq> [] then dispStrip else dispRetain)"

definition verdict :: "CleanSpec \<Rightarrow> int \<Rightarrow> logrec list \<Rightarrow> logrec \<Rightarrow> disposition" where
  "verdict spec now rs r =
     (if lr_offset r \<ge> cs_ceiling spec then dispRetain
      else if is_control r
        then (if lr_offset r < cs_StripBelow spec \<and> cs_StripHeaders spec \<noteq> [] then dispRemove else dispRetain)
      else if aborted spec (lr_offset r) then dispRemove
      else if rec_key r \<noteq> None \<and> (superseded spec rs r \<or> collectable spec now r) then dispRemove
      else strip_or_retain spec r)"

lemma drec_flags:
  "dr_flags (drec r) AND digestFlagTombstone \<noteq> 0 \<longleftrightarrow> is_tombstone r"
  "dr_flags (drec r) AND digestFlagHasHeaders \<noteq> 0 \<longleftrightarrow> rec_headers r \<noteq> []"
  by (simp_all add: drec_def digestFlagTombstone_def digestFlagHasHeaders_def)

lemma drec_counted: "\<not> is_control r \<Longrightarrow> counted spec (drec r) \<longleftrightarrow> counts spec r"
  by (simp add: counted_def counts_def drec_def)

lemma drec_expired: "expired spec now (drec r) \<longleftrightarrow> collectable spec now r"
  using drec_flags(1) [of r] by (simp add: expired_def collectable_def) (simp add: drec_def)

text \<open>A key's latest counted record, in the merge and in the log.\<close>

lemma latest_superseded:
  assumes "i < length rss" and "r \<in> set (rss ! i)" and "keyed k r" and "counts spec r"
  shows "is_latest spec (all_recs k 0 (map key_entries rss)) (i, drec r) \<longleftrightarrow> \<not> superseded spec (concat rss) r"
proof -
  have k: "\<not> is_control r" "rec_key r = Some k" using assms(3) by (simp_all add: keyed_def)
  have m: "(i, drec r) \<in> set (all_recs k 0 (map key_entries rss))" using assms(1-3) all_recs_keyed by blast
  have "(\<forall>jr \<in> set (all_recs k 0 (map key_entries rss)). counted spec (snd jr) \<longrightarrow> dr_offset (snd jr) \<le> lr_offset r) \<longleftrightarrow>
    (\<forall>r' \<in> set (concat rss). keyed k r' \<longrightarrow> counts spec r' \<longrightarrow> lr_offset r' \<le> lr_offset r)" (is "?L \<longleftrightarrow> ?R")
  proof
    assume l: ?L
    show ?R
    proof (intro ballI impI)
      fix r' assume r': "r' \<in> set (concat rss)" "keyed k r'" "counts spec r'"
      then obtain q where "q \<in> set rss" "r' \<in> set q" by auto
      then obtain j where "j < length rss" "r' \<in> set (rss ! j)" by (metis in_set_conv_nth)
      then have "(j, drec r') \<in> set (all_recs k 0 (map key_entries rss))" using all_recs_keyed r'(2) by blast
      then have "counted spec (drec r') \<longrightarrow> dr_offset (drec r') \<le> lr_offset r" using l by force
      then show "lr_offset r' \<le> lr_offset r" using r' by (simp add: drec_counted keyed_def) (simp add: drec_def)
    qed
  next
    assume ?R
    then show ?L by (auto elim!: all_recs_elim simp: drec_counted keyed_def) (auto simp: drec_def)
  qed
  moreover have "?R \<longleftrightarrow> \<not> superseded spec (concat rss) r"
    using k unfolding superseded_def keyed_def counts_def by (metis not_less)
  moreover have "counted spec (drec r)" "dr_offset (drec r) = lr_offset r" using assms(4) k by (simp_all add: drec_counted) (simp add: drec_def)
  ultimately show ?thesis using m by (simp add: is_latest_def)
qed

section \<open>The pass decides as the verdict says\<close>

lemma key_in_all_keys: "i < length rss \<Longrightarrow> r \<in> set (rss ! i) \<Longrightarrow> keyed k r \<Longrightarrow> k \<in> all_keys (map key_entries rss)"
proof -
  assume "i < length rss" "r \<in> set (rss ! i)" "keyed k r"
  then have "(i, drec r) \<in> set (all_recs k 0 (map key_entries rss))" using all_recs_keyed by blast
  then have "i < length (map key_entries rss) \<and> (\<exists>rs. map_of (map key_entries rss ! i) k = Some rs)" unfolding all_recs_nth by (metis diff_zero)
  then obtain rs where "map_of (map key_entries rss ! i) k = Some rs" "i < length (map key_entries rss)" by blast
  then have "(k, rs) \<in> \<Union> (set ` set (map key_entries rss))" using map_of_SomeD by (intro UN_I [OF nth_mem])
  then have "fst (k, rs) \<in> all_keys (map key_entries rss)" unfolding all_keys_def by (rule imageI)
  then show ?thesis by simp
qed

lemma key_drops_iff:
  "(i, x) \<in> key_drops spec now irs \<longleftrightarrow> (\<exists>d. (i, d) \<in> set irs \<and> dr_offset d = x \<and> counted spec d \<and>
     (\<not> is_latest spec irs (i, d) \<and> x < cs_ceiling spec \<or> is_latest spec irs (i, d) \<and> expired spec now d))"
  by (auto simp: key_drops_def)

text \<open>In a segment an offset names one record.\<close>

lemma only_rec:
  assumes "laid_out bs rss" and "i < length rss" "r \<in> set (rss ! i)"
    and "(i, d) \<in> set (all_recs k 0 (map key_entries rss))" and "dr_offset d = lr_offset r"
  shows "d = drec r" and "keyed k r"
proof -
  obtain r' where r': "r' \<in> set (rss ! i)" "keyed k r'" "d = drec r'" using iffD1 [OF all_recs_keyed assms(4)] by blast
  have "lr_offset r' = lr_offset r" using assms(5) r'(3) by (simp add: drec_def)
  then have "r' = r" using laid_out_unique [OF assms(1,2) r'(1) assms(2,3)] by simp
  then show "d = drec r" "keyed k r" using r' by simp_all
qed

lemma merged_dropped:
  assumes "laid_out bs rss" and "merged spec now bs (map key_entries rss) (all_keys (map key_entries rss)) res m"
    and "i < length rss" "r \<in> set (rss ! i)" "keyed k r" "counts spec r" and "\<not> dropped res i (lr_offset r)"
  shows "dropped m i (lr_offset r) \<longleftrightarrow>
    (superseded spec (concat rss) r \<and> lr_offset r < cs_ceiling spec \<or> \<not> superseded spec (concat rss) r \<and> collectable spec now r)"
proof -
  define ess where "ess = map key_entries rss"
  note only = only_rec [OF assms(1,3,4), folded ess_def]
  have m: "(i, drec r) \<in> set (all_recs k 0 ess)" using assms(3-5) all_recs_keyed [of i "drec r" k rss] ess_def by blast
  have c: "counted spec (drec r)" "dr_offset (drec r) = lr_offset r"
    using assms(5,6) drec_counted [of r spec] by (simp_all add: keyed_def) (simp add: drec_def)
  have "i < length bs" using assms(1,3) by (simp add: laid_out_def)
  then have "dropped m i (lr_offset r) \<longleftrightarrow> (\<exists>k \<in> all_keys ess. (i, lr_offset r) \<in> key_drops spec now (all_recs k 0 ess))"
    using assms(2,7) unfolding merged_def ess_def by simp
  also have "\<dots> \<longleftrightarrow> (i, lr_offset r) \<in> key_drops spec now (all_recs k 0 ess)"
  proof -
    have "k' = k" if kd: "(i, lr_offset r) \<in> key_drops spec now (all_recs k' 0 ess)" for k'
    proof -
      obtain d where "(i, d) \<in> set (all_recs k' 0 ess)" "dr_offset d = lr_offset r" using kd unfolding key_drops_iff by blast
      then have "keyed k' r" by (rule only(2))
      then show ?thesis using assms(5) by (simp add: keyed_def)
    qed
    moreover have "k \<in> all_keys ess" unfolding ess_def by (rule key_in_all_keys [OF assms(3-5)])
    ultimately show ?thesis by blast
  qed
  also have "\<dots> \<longleftrightarrow> (\<not> is_latest spec (all_recs k 0 ess) (i, drec r) \<and> lr_offset r < cs_ceiling spec \<or>
      is_latest spec (all_recs k 0 ess) (i, drec r) \<and> expired spec now (drec r))"
    unfolding key_drops_iff using m c only(1) by blast
  finally show ?thesis unfolding ess_def latest_superseded [OF assms(3-6)] drec_expired by blast
qed

lemma classify_verdict:
  assumes "laid_out bs rss" and "merged spec now bs (map key_entries rss) (all_keys (map key_entries rss)) res m"
    and "i < length rss" "r \<in> set (rss ! i)" and "readable r" and "\<not> dropped res i (lr_offset r)"
  shows "classify spec (lr_offset r) (lr_payload r) (drops m ! i) = Inr (verdict spec now (concat rss) r)"
proof -
  note f = readable_fields [OF assms(5)]
  show ?thesis
  proof (cases "rec_key r = None \<or> is_control r \<or> lr_offset r \<ge> cs_ceiling spec \<or> aborted spec (lr_offset r)")
    case True
    then show ?thesis using f by (auto simp: classify_def verdict_def strip_or_retain_def is_control_def)
  next
    case False
    then obtain k where k: "rec_key r = Some k" "keyed k r" "counts spec r" by (auto simp: keyed_def counts_def)
    have "dropSet_get (drops m ! i) (lr_offset r) \<longleftrightarrow> superseded spec (concat rss) r \<or> collectable spec now r"
      using merged_dropped [OF assms(1-4) k(2,3) assms(6)] False by (auto simp: dropped_def)
    then show ?thesis using False f k(1) by (auto simp: classify_def verdict_def strip_or_retain_def is_control_def)
  qed
qed

section \<open>A pass over a log\<close>

text \<open>
  The log a pass runs on: its records read, its keys are within the digest's bound, its bases are
  machine integers, and each sidecar is missing or one that a pass wrote for the segment as it is.
\<close>

definition sidecar_ok :: "segment \<Rightarrow> logrec list \<Rightarrow> sidecar \<Rightarrow> bool" where
  "sidecar_ok s rs f \<longleftrightarrow> sc_file f = None \<or>
     (\<exists>v hdrs. sc_file f = Some (encodeKeyDigest (stamped v hdrs (digest_of s rs))) \<and> digest_fits (stamped v hdrs (digest_of s rs)))"

definition pass_ok :: "codecs \<Rightarrow> commitLog \<Rightarrow> chunks list \<Rightarrow> sidecar list \<Rightarrow> bool" where
  "pass_ok C l css fs \<longleftrightarrow> log_ok C l css \<and> list_all readable (log_recs css) \<and>
     (\<forall>r \<in> set (log_recs css). \<forall>k. rec_key r = Some k \<longrightarrow> length k \<le> 2 ^ 24) \<and>
     (\<forall>s \<in> set (l_segments l). in_i64 (s_BaseOffset s)) \<and> length fs = length css \<and>
     (\<forall>i < length css. sidecar_ok (l_segments l ! i) (concat (css ! i)) (fs ! i))"

abbreviation seg_bounds :: "commitLog \<Rightarrow> bounds" where
  "seg_bounds l \<equiv> map (\<lambda>s. (s_BaseOffset s, NextOffset s)) (l_segments l)"

lemma pass_laid_out: "log_ok C l css \<Longrightarrow> laid_out (seg_bounds l) (map concat css)"
proof -
  assume l: "log_ok C l css"
  then have n: "length (l_segments l) = length css" and h: "\<And>i. i < length css \<Longrightarrow> seg_holds C (l_segments l ! i) (css ! i)"
    by (auto simp: log_ok_def list_all2_conv_all_nth seg_ok_def)
  have "sorted_wrt (\<lambda>a b. snd a \<le> fst b) (seg_bounds l)" using l by (simp add: log_ok_def sorted_wrt_map)
  moreover have "sorted_wrt (\<lambda>r r'. lr_offset r < lr_offset r') (concat (css ! i))" if "i < length css" for i
    using h [OF that] by (simp add: seg_holds_def records_ok_def sorted_wrt_map)
  moreover have "0 \<le> lr_offset r \<and> s_BaseOffset (l_segments l ! i) \<le> lr_offset r \<and> lr_offset r < NextOffset (l_segments l ! i)"
    if "i < length css" "r \<in> set (concat (css ! i))" for i r
    using holds_bounds(1,3) [OF h [OF that(1)]] that(2) by fastforce
  ultimately show ?thesis using n unfolding laid_out_def by simp
qed

lemma segment_digest_says:
  assumes "seg_ok C s cs" and "list_all readable (concat cs)" and "in_i64 (s_BaseOffset s)"
    and "\<forall>r \<in> set (concat cs). \<forall>k. rec_key r = Some k \<longrightarrow> length k \<le> 2 ^ 24" and "sidecar_ok s (concat cs) f"
  shows "\<exists>d. segment_digest C sealed f s = Inr d \<and> digest_says d (concat cs)"
proof -
  have h: "seg_holds C s cs" "s_live s" using assms(1) by (simp_all add: seg_ok_def)
  let ?d = "digest_of s (concat cs)"
  note b = buildKeyDigest_holds [OF h assms(2)]
  note ld = load_stamped [OF h(1) assms(3,4)]
  have "stamped (- 1) [] ?d = ?d" by (simp add: stamped_def digest_of_def)
  then obtain d' where d': "loadKeyDigest (s_BaseOffset s) (s_position s) (Some (encodeKeyDigest ?d)) = Inr (Some d')" "digest_says d' (concat cs)"
    using ld [of "- 1" "[]"] digest_of_fits(1) [OF h(1) assms(3,4)] by auto
  have n: "segment_digest C sealed f s = Inr (if sealed \<and> sc_write_ok f then d' else ?d)"
    if "(if sealed then loadKeyDigest (s_BaseOffset s) (s_position s) (sc_file f) else Inr None) = Inr None"
    using that d'(1) b by (simp add: segment_digest_def)
  have "digest_says ?d (concat cs)" by (rule digest_of_says [OF h(1) assms(3,4)])
  then have built: ?thesis if "(if sealed then loadKeyDigest (s_BaseOffset s) (s_position s) (sc_file f) else Inr None) = Inr None"
    using n [OF that] d'(2) by simp
  show ?thesis
  proof (cases "sealed \<and> sc_file f \<noteq> None")
    case True
    then obtain v hdrs where "sc_file f = Some (encodeKeyDigest (stamped v hdrs ?d))" "digest_fits (stamped v hdrs ?d)"
      using assms(5) by (auto simp: sidecar_ok_def)
    then show ?thesis using ld [of v hdrs] True by (auto simp: segment_digest_def)
  next
    case False
    then show ?thesis by (intro built) (auto simp: loadKeyDigest_def)
  qed
qed

definition seg_pass_ok :: "codecs \<Rightarrow> sidecar \<times> segment \<Rightarrow> chunks \<Rightarrow> bool" where
  "seg_pass_ok C fs cs \<longleftrightarrow> seg_ok C (snd fs) cs \<and> list_all readable (concat cs) \<and> in_i64 (s_BaseOffset (snd fs)) \<and>
     (\<forall>r \<in> set (concat cs). \<forall>k. rec_key r = Some k \<longrightarrow> length k \<le> 2 ^ 24) \<and> sidecar_ok (snd fs) (concat cs) (fst fs)"

lemma loadOrBuildDigests_says:
  assumes "list_all2 (seg_pass_ok C) fss css"
  shows "\<exists>ds. loadOrBuildDigests C fss = Inr ds \<and> list_all2 digest_says ds (map concat css)"
  using assms
proof (induction fss css rule: list_all2_induct)
  case (Cons fs fss cs css)
  obtain f s where fs: "fs = (f, s)" by (cases fs)
  obtain d where "segment_digest C (fss \<noteq> []) f s = Inr d" "digest_says d (concat cs)"
    using segment_digest_says [of C s cs f "fss \<noteq> []"] Cons.hyps(1) by (auto simp: fs seg_pass_ok_def)
  moreover obtain ds where "loadOrBuildDigests C fss = Inr ds" "list_all2 digest_says ds (map concat css)" using Cons.IH by blast
  ultimately show ?case by (intro exI [of _ "d # ds"]) (simp add: fs)
qed simp

lemma pass_segments:
  assumes "pass_ok C l css fs"
  shows "list_all2 (seg_pass_ok C) (zip fs (l_segments l)) css"
proof -
  have l: "log_ok C l css" "length fs = length css" using assms by (simp_all add: pass_ok_def)
  then have n: "length (l_segments l) = length css" by (auto simp: log_ok_def list_all2_conv_all_nth)
  have "seg_pass_ok C (fs ! i, l_segments l ! i) (css ! i)" if i: "i < length css" for i
  proof -
    have "set (concat (css ! i)) \<subseteq> set (log_recs css)" using i nth_mem by (auto simp: log_recs_def)
    then have "list_all readable (concat (css ! i))" "\<forall>r \<in> set (concat (css ! i)). \<forall>k. rec_key r = Some k \<longrightarrow> length k \<le> 2 ^ 24"
      using assms unfolding pass_ok_def list_all_iff by blast+
    moreover have "l_segments l ! i \<in> set (l_segments l)" using i n by simp
    ultimately show ?thesis
      using assms i l(1) by (simp add: seg_pass_ok_def pass_ok_def log_ok_def list_all2_conv_all_nth del: set_concat)
  qed
  then show ?thesis using n l(2) by (simp add: list_all2_conv_all_nth)
qed

lemmas pass_digests = loadOrBuildDigests_says [OF pass_segments]

text \<open>What the digests and their merge say of the log, and with it of each of its records.\<close>

abbreviation no_drops :: "nat \<Rightarrow> mergeResult" where
  "no_drops n \<equiv> \<lparr>drops = replicate n None, abortedKeyed = replicate n False, stripKeyed = replicate n False, gcSegs = replicate n False\<rparr>"

abbreviation log_entries :: "chunks list \<Rightarrow> entries list" where
  "log_entries css \<equiv> map key_entries (map concat css)"

definition decided :: "CleanSpec \<Rightarrow> int \<Rightarrow> commitLog \<Rightarrow> chunks list \<Rightarrow> keyDigest list \<Rightarrow> mergeResult \<Rightarrow> bool" where
  "decided spec now l css ds m \<longleftrightarrow> laid_out (seg_bounds l) (map concat css) \<and> list_all readable (log_recs css) \<and>
     list_all2 digest_says ds (map concat css) \<and>
     merged spec now (seg_bounds l) (log_entries css) (all_keys (log_entries css)) (no_drops (length css)) m"

lemma pass_decided:
  assumes "pass_ok C l css fs"
  shows "\<exists>ds m. loadOrBuildDigests C (zip fs (l_segments l)) = Inr ds \<and> mergeDigests spec now (l_segments l) ds = Inr m \<and>
     decided spec now l css ds m"
proof -
  have l: "log_ok C l css" using assms by (simp add: pass_ok_def)
  then have n: "length (l_segments l) = length css" by (auto simp: log_ok_def list_all2_conv_all_nth)
  note lo = pass_laid_out [OF l]
  obtain ds where ds: "loadOrBuildDigests C (zip fs (l_segments l)) = Inr ds" "list_all2 digest_says ds (map concat css)"
    using pass_digests [OF assms] by blast
  obtain m where "mergeDigests spec now (l_segments l) ds = Inr m"
    "merged spec now (seg_bounds l) (log_entries css) (all_keys (log_entries css)) (no_drops (length css)) m"
    using mergeDigests_ok [OF lo ds(2) refl, of spec now] unfolding n by blast
  then show ?thesis using ds lo assms by (auto simp: decided_def pass_ok_def)
qed

lemma decided_readable:
  assumes "decided spec now l css ds m" and "i < length css" "r \<in> set (concat (css ! i))"
  shows "readable r" and "0 \<le> lr_offset r"
proof -
  have "r \<in> set (log_recs css)" using assms(2,3) nth_mem by (auto simp: log_recs_def)
  then show "readable r" using assms(1) by (simp add: decided_def list_all_iff)
  show "0 \<le> lr_offset r" using assms by (auto simp: decided_def laid_out_def simp del: set_concat)
qed

lemma decided_classify:
  assumes "decided spec now l css ds m" and "i < length css" "r \<in> set (concat (css ! i))"
  shows "classify spec (lr_offset r) (lr_payload r) (drops m ! i) = Inr (verdict spec now (log_recs css) r)"
proof -
  have "laid_out (seg_bounds l) (map concat css)"
    "merged spec now (seg_bounds l) (log_entries css) (all_keys (log_entries css)) (no_drops (length css)) m"
    using assms(1) by (simp_all add: decided_def)
  note cv = classify_verdict [OF this, of i r]
  show ?thesis using cv assms decided_readable(1) [OF assms] by (simp add: log_recs_def dropped_def dropSet_get_def del: set_concat)
qed

section \<open>What a log says of a key\<close>

definition view :: "CleanSpec \<Rightarrow> logrec list \<Rightarrow> bytes \<Rightarrow> logrec option" where
  "view spec rs k = (let xs = filter (\<lambda>r. keyed k r \<and> counts spec r) rs in if xs = [] then None else Some (last xs))"

lemma last_filter: "xs \<noteq> [] \<Longrightarrow> P (last xs) \<Longrightarrow> filter P xs \<noteq> [] \<and> last (filter P xs) = last xs"
  by (induction xs rule: rev_induct) simp_all

section \<open>Segments a pass does not read\<close>

lemma canSkipD:
  assumes "canSkip spec d m i"
  shows "\<And>e. drops m ! i = Some e \<Longrightarrow> \<not> 0 < ds_count e" and "\<not> abortedKeyed m ! i"
    and "\<And>r. r \<in> set (d_unkeyed d) \<Longrightarrow> \<not> (dr_offset r < cs_ceiling spec \<and> aborted spec (dr_offset r))"
    and "\<And>off. stripActive spec \<Longrightarrow> off \<in> set (d_control d) \<Longrightarrow> \<not> off < cs_StripBelow spec"
    and "stripActive spec \<Longrightarrow> stripKeyed m ! i \<Longrightarrow> stripStampCovers d (cs_StripBelow spec) (cs_StripHeaders spec)"
    and "\<And>r. r \<in> set (d_unkeyed d) \<Longrightarrow> strips spec r \<Longrightarrow> stripStampCovers d (cs_StripBelow spec) (cs_StripHeaders spec)"
  using assms unfolding canSkip_def strips_def by (auto split: if_splits)

lemma decided_flags:
  assumes "decided spec now l css ds m" and "i < length css" "r \<in> set (concat (css ! i))" and "keyed k r"
  shows "aborts spec (drec r) \<Longrightarrow> abortedKeyed m ! i" and "strips spec (drec r) \<Longrightarrow> stripKeyed m ! i"
proof -
  have m: "merged spec now (seg_bounds l) (log_entries css) (all_keys (log_entries css)) (no_drops (length css)) m"
    "length (seg_bounds l) = length css" using assms(1) by (simp_all add: decided_def laid_out_def)
  have "(i, drec r) \<in> set (all_recs k 0 (log_entries css))" "k \<in> all_keys (log_entries css)"
    using assms(2-4) all_recs_keyed [of i "drec r" k "map concat css"] key_in_all_keys [of i "map concat css" r k] by (auto simp del: set_concat)
  then show "aborts spec (drec r) \<Longrightarrow> abortedKeyed m ! i" "strips spec (drec r) \<Longrightarrow> stripKeyed m ! i"
    using m assms(2) unfolding merged_def by auto
qed

lemma decided_unkeyed:
  assumes "decided spec now l css ds m" and "i < length css" "r \<in> set (concat (css ! i))"
  shows "rec_key r = None \<Longrightarrow> \<not> is_control r \<Longrightarrow> drec r \<in> set (d_unkeyed (ds ! i))" and "is_control r \<Longrightarrow> lr_offset r \<in> set (d_control (ds ! i))"
proof -
  have "list_all2 digest_says ds (map concat css)" using assms(1) by (simp add: decided_def)
  then have "digest_says (ds ! i) (concat (css ! i))" using assms(2) by (auto dest: list_all2_nthD2)
  then show "rec_key r = None \<Longrightarrow> \<not> is_control r \<Longrightarrow> drec r \<in> set (d_unkeyed (ds ! i))" "is_control r \<Longrightarrow> lr_offset r \<in> set (d_control (ds ! i))"
    using assms(3) by (auto simp: digest_says_def simp del: set_concat)
qed

lemma skip_no_drop:
  assumes "decided spec now l css ds m" and "i < length css" and "canSkip spec (ds ! i) m i"
  shows "\<not> dropSet_get (drops m ! i) x"
proof
  assume d: "dropSet_get (drops m ! i) x"
  then obtain e where e: "drops m ! i = Some e" by (auto simp: dropSet_get_def split: option.splits)
  have "set_room (fst (seg_bounds l ! i)) (snd (seg_bounds l ! i)) e" using assms(1,2) e by (simp add: decided_def laid_out_def merged_def res_ok_def)
  then have "0 < ds_count e" using bitmap.count_pos d e by auto
  then show False using canSkipD(1) [OF assms(3) e] by simp
qed

lemma drec_offset: "dr_offset (drec r) = lr_offset r"
  by (simp add: drec_def)

lemma skip_no_abort:
  assumes "decided spec now l css ds m" and "i < length css" "r \<in> set (concat (css ! i))" and "canSkip spec (ds ! i) m i" and "\<not> is_control r"
  shows "\<not> (lr_offset r < cs_ceiling spec \<and> aborted spec (lr_offset r))"
proof
  assume a: "lr_offset r < cs_ceiling spec \<and> aborted spec (lr_offset r)"
  show False
  proof (cases "rec_key r")
    case None
    then show False using canSkipD(3) [OF assms(4) decided_unkeyed(1) [OF assms(1-3) None assms(5)]] a by (simp add: drec_offset)
  next
    case (Some k)
    then have "keyed k r" "aborts spec (drec r)" using a assms(5) by (simp_all add: keyed_def aborts_def drec_offset)
    then show False using decided_flags(1) [OF assms(1-3)] canSkipD(2) [OF assms(4)] by blast
  qed
qed

lemma skip_no_control:
  assumes "decided spec now l css ds m" and "i < length css" "r \<in> set (concat (css ! i))" and "canSkip spec (ds ! i) m i" and "is_control r"
  shows "\<not> (lr_offset r < cs_StripBelow spec \<and> cs_StripHeaders spec \<noteq> [])"
proof
  assume a: "lr_offset r < cs_StripBelow spec \<and> cs_StripHeaders spec \<noteq> []"
  then have "stripActive spec" using decided_readable(2) [OF assms(1-3)] by (simp add: stripActive_def)
  then show False using canSkipD(4) [OF assms(4)] decided_unkeyed(2) [OF assms(1-3,5)] a by blast
qed

lemma skip_keeps:
  assumes "decided spec now l css ds m" and "i < length css" "r \<in> set (concat (css ! i))" and "canSkip spec (ds ! i) m i"
  shows "verdict spec now (log_recs css) r \<noteq> dispRemove"
proof
  assume "verdict spec now (log_recs css) r = dispRemove"
  then have "classify spec (lr_offset r) (lr_payload r) (drops m ! i) = Inr dispRemove" using decided_classify [OF assms(1-3)] by simp
  then show False
    using skip_no_abort [OF assms] skip_no_control [OF assms] skip_no_drop [OF assms(1,2,4), of "lr_offset r"]
      readable_fields [OF decided_readable(1) [OF assms(1-3)]]
    by (auto simp: classify_def is_control_def Let_def split: if_splits)
qed

lemma skip_strips:
  assumes "decided spec now l css ds m" and "i < length css" "r \<in> set (concat (css ! i))" and "canSkip spec (ds ! i) m i"
    and v: "verdict spec now (log_recs css) r = dispStrip"
  shows "stripStampCovers (ds ! i) (cs_StripBelow spec) (cs_StripHeaders spec) \<or> rec_headers r = []"
proof (rule ccontr)
  assume n: "\<not> (stripStampCovers (ds ! i) (cs_StripBelow spec) (cs_StripHeaders spec) \<or> rec_headers r = [])"
  have a: "lr_offset r < cs_StripBelow spec" "cs_StripHeaders spec \<noteq> []" "\<not> is_control r"
    using v by (auto simp: verdict_def strip_or_retain_def split: if_splits)
  then have act: "stripActive spec" using decided_readable(2) [OF assms(1-3)] by (simp add: stripActive_def)
  then have s: "strips spec (drec r)" using a n drec_flags(2) [of r] by (simp add: strips_def drec_offset)
  show False
  proof (cases "rec_key r")
    case None
    then show False using canSkipD(6) [OF assms(4) decided_unkeyed(1) [OF assms(1-3) None a(3)] s] n by simp
  next
    case (Some k)
    then have "keyed k r" using a(3) by (simp add: keyed_def)
    then show False using decided_flags(2) [OF assms(1-3) _ s] canSkipD(5) [OF assms(4) act] n by blast
  qed
qed

section \<open>Keys longer than the iterator accepts\<close>

lemma start_iters_error: "d \<in> set ds \<Longrightarrow> it_next (newDigestIter d) = Inl e \<Longrightarrow> \<exists>e. start_iters ds = Inl e"
proof (induction ds)
  case (Cons x ds)
  then show ?case by (cases "it_next (newDigestIter x)"; cases "start_iters ds") auto
qed simp

lemma it_next_oversized:
  assumes "key_entries rs = (k, ds) # es" and "2 ^ 24 < length k" "length k < 2 ^ 64"
  shows "it_next (newDigestIter (digest_of s rs)) = Inl ErrIndexCorrupt"
proof -
  have "it_uvarint (it_r (newDigestIter (digest_of s rs))) =
      Inr (length k, drop (length (uvarint (length k))) (it_r (newDigestIter (digest_of s rs))))"
    using assms by (simp add: newDigestIter_def digest_of_def it_uvarint_def w_entry_def [of _ _ "(k, ds)"] Uvarint_uvarint)
  moreover have "it_rem (newDigestIter (digest_of s rs)) \<noteq> 0" using assms(1) by (simp add: newDigestIter_def digest_of_def)
  ultimately show ?thesis using assms(2) by (simp add: it_next_def)
qed

lemma key_entries_head:
  assumes "r \<in> set rs" and "keyed k r" and "\<forall>r \<in> set rs. \<forall>k. keyed k r \<longrightarrow> P k"
  shows "\<exists>k ds es. key_entries rs = (k, ds) # es \<and> P k"
proof -
  have P: "P k'" if e: "(k', ds) \<in> set (key_entries rs)" for k' ds
  proof -
    have "key_recs rs k' = Some ds" using key_entries_keys [of rs] e strict_sorted_iff by (metis map_of_is_SomeI)
    then obtain r' where "r' \<in> set rs" "keyed k' r'" by (auto simp: key_recs_def Let_def filter_empty_conv split: if_splits)
    then show ?thesis using assms(3) by blast
  qed
  have "map_of (key_entries rs) k \<noteq> None" using assms(1,2) by (auto simp: key_entries_keys(2) key_recs_def Let_def filter_empty_conv)
  then have "key_entries rs \<noteq> []" by auto
  then obtain e es where "key_entries rs = e # es" by (auto simp: neq_Nil_conv)
  then show ?thesis using P [of "fst e" "snd e"] by (intro exI [of _ "fst e"] exI [of _ "snd e"] exI [of _ es]) simp
qed

section \<open>A log of two segments\<close>

definition two_log :: "logrec list \<Rightarrow> int \<Rightarrow> logrec list \<Rightarrow> commitLog" where
  "two_log rs b qs = (log_of (seg_at b True qs)) \<lparr>l_segments := [seg_at 100 True rs, seg_at b True qs]\<rparr>"

definition no_sidecar :: sidecar where
  "no_sidecar = \<lparr>sc_file = None, sc_write_ok = True\<rparr>"

lemma two_log_pass:
  assumes "records_ok 100 rs" "rs \<noteq> []" and "records_ok b qs" "qs \<noteq> []" and "lr_offset (last rs) < b" "b < 2 ^ 63"
    and "list_all readable (rs @ qs)" and "\<forall>r \<in> set (rs @ qs). \<forall>k. rec_key r = Some k \<longrightarrow> length k \<le> 2 ^ 24"
  shows "\<exists>cs ds. pass_ok raw_codecs (two_log rs b qs) [cs, ds] [no_sidecar, no_sidecar] \<and> concat cs = rs \<and> concat ds = qs"
proof -
  obtain cs where cs: "seg_ok raw_codecs (seg_at 100 True rs) cs" "concat cs = rs" "s_BaseOffset (seg_at 100 True rs) = 100"
    using seg_at_ok [OF assms(1,2)] by blast
  obtain ds where ds: "seg_ok raw_codecs (seg_at b True qs) ds" "concat ds = qs" "s_BaseOffset (seg_at b True qs) = b"
    using seg_at_ok [OF assms(3,4)] by blast
  have h: "seg_holds raw_codecs (seg_at 100 True rs) cs" using cs(1) by (simp add: seg_ok_def)
  have nx: "NextOffset (seg_at 100 True rs) \<le> b" using NextOffset_last [OF h] assms(2,5) unfolding cs(2) by simp
  have "\<not> IsEmpty (seg_at 100 True rs)" using IsEmpty_holds [OF h] assms(2) unfolding cs(2) by simp
  then have "log_ok raw_codecs (two_log rs b qs) [cs, ds]"
    using log_of_ok [OF ds(1)] cs(1) ds(1,3) nx by (simp add: two_log_def log_ok_def activeSegment_def log_of_def)
  moreover have "0 \<le> b" using assms(3) by (simp add: records_ok_def)
  moreover have "log_recs [cs, ds] = rs @ qs" by (simp add: log_recs_def cs(2) ds(2))
  moreover have "i < 2 \<Longrightarrow> sidecar_ok s r ([no_sidecar, no_sidecar] ! i)" for i s r
    by (cases i) (simp_all add: sidecar_ok_def no_sidecar_def less_Suc_eq numeral_2_eq_2)
  ultimately have "pass_ok raw_codecs (two_log rs b qs) [cs, ds] [no_sidecar, no_sidecar]"
    using assms(6-8) cs(3) ds(3) by (simp add: pass_ok_def two_log_def)
  then show ?thesis using cs(2) ds(2) by blast
qed

definition plain_spec :: "int \<Rightarrow> CleanSpec" where
  "plain_spec ceil = \<lparr>cs_Ceiling = At ceil, cs_ceiling = ceil, cs_stripOnly = False, cs_StripBelow = 0, cs_StripHeaders = [],
     cs_StripUncompacted = False, cs_Aborted = None, cs_TombstoneGCBelow = 0, cs_TombstoneRetention = 0, cs_maxRewrites = 0,
     cs_RewriteBudget = 0, cs_TierBudgets = [], cs_JoinBelow = 0, cs_TierJoinBelow = [], cs_TierPlacement = [], cs_skipTiers = [],
     cs_TierWriter = [], cs_RetentionFloor = \<lparr>bound_off = 0, bound_set = False\<rparr>\<rparr>"

definition later_notes :: "logrec list" where
  "later_notes = [a_note 0 (Some [107]) [] 10 105, a_note 0 (Some [108]) [] 11 106]"

lemmas note_simps = sample_notes_def later_notes_def a_note_small is_control_def is_tombstone_def AttrControl_def AttrTombstone_def

lemma sample_pass:
  "\<exists>cs ds. pass_ok raw_codecs (two_log sample_notes 105 later_notes) [cs, ds] [no_sidecar, no_sidecar] \<and>
     concat cs = sample_notes \<and> concat ds = later_notes"
  by (rule two_log_pass) (use sample_notes_ok in \<open>simp_all add: note_simps records_ok_def a_note_length\<close>)

section \<open>Properties\<close>

text \<open>
  C13: a compaction pass over a log loads or builds a digest per segment and merges them without an error, and
  \<^verbatim>\<open>classify\<close> then decides every record of the log as the definition over the records alone does: a record at
  or above the ceiling is retained; below it a control record goes once it is below the strip bound, an aborted
  record goes, a keyed record goes when a later counted record of its key exists or it is a tombstone past its
  retention, and what stays loses its strip headers below the strip bound.
\<close>

theorem compaction_decides:
  assumes "pass_ok C l css fs"
  shows "\<exists>ds m. loadOrBuildDigests C (zip fs (l_segments l)) = Inr ds \<and> mergeDigests spec now (l_segments l) ds = Inr m \<and>
     (\<forall>i < length css. \<forall>r \<in> set (concat (css ! i)).
        classify spec (lr_offset r) (lr_payload r) (drops m ! i) = Inr (verdict spec now (log_recs css) r))"
  using pass_decided [OF assms, of spec now] decided_classify by metis

theorem compaction_decides_witness:
  "\<exists>ds m. loadOrBuildDigests raw_codecs (zip [no_sidecar, no_sidecar] (l_segments (two_log sample_notes 105 later_notes))) = Inr ds \<and>
     mergeDigests (plain_spec 105) 0 (l_segments (two_log sample_notes 105 later_notes)) ds = Inr m \<and>
     classify (plain_spec 105) 100 (lr_payload (sample_notes ! 0)) (drops m ! 0) = Inr dispRemove \<and>
     classify (plain_spec 105) 104 (lr_payload (sample_notes ! 4)) (drops m ! 0) = Inr dispRetain"
proof -
  let ?l = "two_log sample_notes 105 later_notes"
  obtain cs es where p: "pass_ok raw_codecs ?l [cs, es] [no_sidecar, no_sidecar]" "concat cs = sample_notes" "concat es = later_notes"
    using sample_pass by blast
  obtain ds m where d: "loadOrBuildDigests raw_codecs (zip [no_sidecar, no_sidecar] (l_segments ?l)) = Inr ds"
    "mergeDigests (plain_spec 105) 0 (l_segments ?l) ds = Inr m"
    "\<forall>i < length [cs, es]. \<forall>r \<in> set (concat ([cs, es] ! i)).
       classify (plain_spec 105) (lr_offset r) (lr_payload r) (drops m ! i) = Inr (verdict (plain_spec 105) 0 (log_recs [cs, es]) r)"
    using compaction_decides [OF p(1), of "plain_spec 105" 0] by blast
  have "\<forall>r \<in> set sample_notes. classify (plain_spec 105) (lr_offset r) (lr_payload r) (drops m ! 0) =
      Inr (verdict (plain_spec 105) 0 (sample_notes @ later_notes) r)"
    using d(3) p(2,3) by (auto simp: log_recs_def simp del: set_concat)
  moreover have "verdict (plain_spec 105) 0 (sample_notes @ later_notes) (sample_notes ! 0) = dispRemove"
    "verdict (plain_spec 105) 0 (sample_notes @ later_notes) (sample_notes ! 4) = dispRetain"
    by (simp_all add: verdict_def superseded_def counts_def collectable_def strip_or_retain_def plain_spec_def aborted_def note_simps)
  moreover have "sample_notes ! 0 \<in> set sample_notes" "sample_notes ! 4 \<in> set sample_notes"
    "lr_offset (sample_notes ! 0) = 100" "lr_offset (sample_notes ! 4) = 104" by (simp_all add: note_simps)
  ultimately show ?thesis using d(1,2) by (metis)
qed

text \<open>
  C14: a segment the pass skips without reading it has nothing to do: no record of it would be removed, and a
  record the pass would strip has no header at all, or the segment's strip stamp covers this pass's bound.
\<close>

theorem canSkip_sound:
  assumes "pass_ok C l css fs" and "loadOrBuildDigests C (zip fs (l_segments l)) = Inr ds"
    and "mergeDigests spec now (l_segments l) ds = Inr m" and "canSkip spec (ds ! i) m i" and "i < length css"
    and "r \<in> set (concat (css ! i))"
  shows "classify spec (lr_offset r) (lr_payload r) (drops m ! i) = Inr dispRetain \<or>
     classify spec (lr_offset r) (lr_payload r) (drops m ! i) = Inr dispStrip \<and>
     (stripStampCovers (ds ! i) (cs_StripBelow spec) (cs_StripHeaders spec) \<or> rec_headers r = [])"
proof -
  have d: "decided spec now l css ds m" using pass_decided [OF assms(1), of spec now] assms(2,3) by auto
  show ?thesis using decided_classify [OF d assms(5,6)] skip_keeps [OF d assms(5,6,4)] skip_strips [OF d assms(5,6,4)]
    by (cases "verdict spec now (log_recs css) r") auto
qed

lemma idle_canSkip:
  assumes "decided (plain_spec 0) now l css ds m" and "i < length css" and "\<forall>r \<in> set (log_recs css). 0 < lr_offset r"
  shows "canSkip (plain_spec 0) (ds ! i) m i"
proof -
  have mg: "merged (plain_spec 0) now (seg_bounds l) (log_entries css) (all_keys (log_entries css)) (no_drops (length css)) m"
    "length (seg_bounds l) = length css" using assms(1) by (simp_all add: decided_def laid_out_def)
  have "key_drops (plain_spec 0) now (all_recs k 0 (log_entries css)) = {}" for k
  proof -
    have "\<not> counted (plain_spec 0) (snd x)" if x: "x \<in> set (all_recs k 0 (log_entries css))" for x
    proof -
      obtain j r where j: "x = (j, drec r)" "j < length (map concat css)" "r \<in> set (map concat css ! j)" by (rule all_recs_elim [OF x])
      then have "r \<in> set (log_recs css)" using nth_mem by (auto simp: log_recs_def)
      then show ?thesis using assms(3) j(1) by (auto simp: counted_def drec_offset plain_spec_def)
    qed
    then show ?thesis by (force simp: key_drops_def)
  qed
  then have nd: "\<not> dropSet_get (drops m ! i) x" for x
    using mg assms(2) by (simp add: merged_def dropped_def dropSet_get_def [of None])
  have "\<not> 0 < ds_count e" if "drops m ! i = Some e" for e
  proof -
    have "set_room (fst (seg_bounds l ! i)) (snd (seg_bounds l ! i)) e" using mg assms(2) that by (simp add: merged_def res_ok_def)
    then show ?thesis using bitmap.count_pos nd that by simp
  qed
  moreover have "\<not> abortedKeyed m ! i" using mg assms(2) by (simp add: merged_def aborts_def aborted_def plain_spec_def)
  ultimately show ?thesis by (simp add: canSkip_def stripActive_def aborted_def plain_spec_def split: option.split)
qed

theorem canSkip_sound_witness:
  "\<exists>ds m. loadOrBuildDigests raw_codecs (zip [no_sidecar, no_sidecar] (l_segments (two_log sample_notes 105 later_notes))) = Inr ds \<and>
     mergeDigests (plain_spec 0) 0 (l_segments (two_log sample_notes 105 later_notes)) ds = Inr m \<and> canSkip (plain_spec 0) (ds ! 0) m 0 \<and>
     classify (plain_spec 0) 100 (lr_payload (sample_notes ! 0)) (drops m ! 0) \<noteq> Inr dispRemove"
proof -
  let ?l = "two_log sample_notes 105 later_notes"
  obtain cs es where p: "pass_ok raw_codecs ?l [cs, es] [no_sidecar, no_sidecar]" "concat cs = sample_notes" "concat es = later_notes"
    using sample_pass by blast
  obtain ds m where d: "loadOrBuildDigests raw_codecs (zip [no_sidecar, no_sidecar] (l_segments ?l)) = Inr ds"
    "mergeDigests (plain_spec 0) 0 (l_segments ?l) ds = Inr m" "decided (plain_spec 0) 0 ?l [cs, es] ds m"
    using pass_decided [OF p(1), of "plain_spec 0" 0] by blast
  have k: "canSkip (plain_spec 0) (ds ! 0) m 0"
    by (rule idle_canSkip [OF d(3)]) (simp_all add: log_recs_def p(2,3) note_simps del: set_concat)
  have "sample_notes ! 0 \<in> set (concat ([cs, es] ! 0))" "lr_offset (sample_notes ! 0) = 100" by (simp_all add: p(2) note_simps del: set_concat)
  then have "classify (plain_spec 0) 100 (lr_payload (sample_notes ! 0)) (drops m ! 0) \<noteq> Inr dispRemove"
    using canSkip_sound [OF p(1) d(1,2) k, of "sample_notes ! 0"] by auto
  then show ?thesis using d(1,2) k by blast
qed

text \<open>
  C39: a record exactly at the ceiling counts for its key, though it may be undecided: every older record of
  the key below the ceiling is removed for it, and nothing else of the key is left to read if it is aborted later.
\<close>

theorem record_at_ceiling_shadows:
  assumes "pass_ok C l css fs" and "loadOrBuildDigests C (zip fs (l_segments l)) = Inr ds"
    and "mergeDigests spec now (l_segments l) ds = Inr m" and "i < length css" and "r \<in> set (concat (css ! i))" and "u \<in> set (log_recs css)"
    and "\<not> is_control r" "\<not> is_control u" and "rec_key r = Some k" "rec_key u = Some k"
    and "lr_offset r < cs_ceiling spec" "lr_offset u = cs_ceiling spec" and "\<not> aborted spec (lr_offset u)"
  shows "classify spec (lr_offset r) (lr_payload r) (drops m ! i) = Inr dispRemove"
proof -
  have d: "decided spec now l css ds m" using pass_decided [OF assms(1), of spec now] assms(2,3) by auto
  have "superseded spec (log_recs css) r" using assms(6-13) by (auto simp: superseded_def counts_def)
  then show ?thesis using decided_classify [OF d assms(4,5)] assms(7,9,11) by (simp add: verdict_def)
qed

theorem record_at_ceiling_shadows_witness:
  "\<exists>ds m. loadOrBuildDigests raw_codecs (zip [no_sidecar, no_sidecar] (l_segments (two_log sample_notes 105 later_notes))) = Inr ds \<and>
     mergeDigests (plain_spec 106) 0 (l_segments (two_log sample_notes 105 later_notes)) ds = Inr m \<and>
     classify (plain_spec 106) 104 (lr_payload (sample_notes ! 4)) (drops m ! 0) = Inr dispRemove"
proof -
  let ?l = "two_log sample_notes 105 later_notes"
  obtain cs es where p: "pass_ok raw_codecs ?l [cs, es] [no_sidecar, no_sidecar]" "concat cs = sample_notes" "concat es = later_notes"
    using sample_pass by blast
  obtain ds m where d: "loadOrBuildDigests raw_codecs (zip [no_sidecar, no_sidecar] (l_segments ?l)) = Inr ds"
    "mergeDigests (plain_spec 106) 0 (l_segments ?l) ds = Inr m" using pass_decided [OF p(1), of "plain_spec 106" 0] by blast
  have "classify (plain_spec 106) (lr_offset (sample_notes ! 4)) (lr_payload (sample_notes ! 4)) (drops m ! 0) = Inr dispRemove"
    by (rule record_at_ceiling_shadows [OF p(1) d, where u = "later_notes ! 1" and k = "[108]"])
      (simp_all add: p(2,3) log_recs_def plain_spec_def aborted_def note_simps del: set_concat)
  then show ?thesis using d by (intro exI [of _ ds] exI [of _ m]) (simp add: note_simps)
qed

text \<open>
  C40: a key longer than 16 MiB, which the log accepts, stops compaction.  The digest of a segment whose keys
  are that long is built without an error, and every merge it takes part in fails.
\<close>

theorem oversized_key_stops_compaction:
  assumes "seg_holds C s cs" and "s_live s" and "list_all readable (concat cs)" and "r \<in> set (concat cs)" and "keyed k r"
    and "\<forall>r \<in> set (concat cs). \<forall>k. keyed k r \<longrightarrow> 2 ^ 24 < length k \<and> length k < 2 ^ 64"
  shows "\<exists>d. buildKeyDigest C s = Inr d \<and> (\<forall>ds. d \<in> set ds \<longrightarrow> (\<exists>e. mergeDigests spec now segs ds = Inl e))"
proof -
  obtain k ds es where k: "key_entries (concat cs) = (k, ds) # es" "2 ^ 24 < length k \<and> length k < 2 ^ 64"
    using key_entries_head [OF assms(4-6)] by blast
  then have "it_next (newDigestIter (digest_of s (concat cs))) = Inl ErrIndexCorrupt" using it_next_oversized by blast
  then have "\<exists>e. start_iters ds = Inl e" if "digest_of s (concat cs) \<in> set ds" for ds using start_iters_error [OF that] by blast
  then have "\<exists>e. mergeDigests spec now segs ds = Inl e" if "digest_of s (concat cs) \<in> set ds" for ds
    using that by (force simp: mergeDigests_def Let_def)
  then show ?thesis using buildKeyDigest_holds [OF assms(1-3)] by blast
qed

theorem oversized_key_stops_compaction_witness:
  "\<exists>k. length k = 2 ^ 24 + 1 \<and> (\<exists>d. buildKeyDigest raw_codecs (seg_at 100 True [a_note 0 (Some k) [] 5 100]) = Inr d \<and>
     (\<exists>e. mergeDigests (plain_spec 0) 0 [seg_at 100 True [a_note 0 (Some k) [] 5 100]] [d] = Inl e))"
proof -
  obtain k :: bytes where k: "length k = 2 ^ 24 + 1" using Ex_list_of_length by blast
  let ?r = "a_note 0 (Some k) [] 5 100"
  have l: "length (lr_payload ?r) = 2 ^ 24 + 18" using k by (simp add: a_note_def record_of_def bytes_simps wire_body_def wire_def)
  then have f: "readable ?r" "attrs ?r = 0" "rec_key ?r = Some k" "lr_offset ?r = 100" "lr_timestamp ?r = 5" using a_note_fields [of "[]"] by simp_all
  have "lr_payload ?r \<noteq> []" using l by auto
  then have "frame_ok ?r" using l f by (simp add: frame_ok_def)
  then have "records_ok 100 [?r]" using l f by (simp add: records_ok_def)
  then obtain cs where cs: "seg_ok raw_codecs (seg_at 100 True [?r]) cs" "concat cs = [?r]" using seg_at_ok [of 100 "[?r]" True] by blast
  have kd: "keyed k' ?r \<longleftrightarrow> k' = k" for k' using f by (auto simp: keyed_def is_control_def)
  obtain d where "buildKeyDigest raw_codecs (seg_at 100 True [?r]) = Inr d"
    "\<forall>ds. d \<in> set ds \<longrightarrow> (\<exists>e. mergeDigests (plain_spec 0) 0 [seg_at 100 True [?r]] ds = Inl e)"
    using oversized_key_stops_compaction [of raw_codecs "seg_at 100 True [?r]" cs ?r k "plain_spec 0" 0 "[seg_at 100 True [?r]]"]
      cs f kd k by (auto simp: seg_ok_def simp del: set_concat)
  then show ?thesis using k by (intro exI [of _ k]) auto
qed

end
