(* ===== verification/Segment_Rewrite.thy ===== *)
theory Segment_Rewrite
  imports Compaction
begin

text \<open>
  \<^verbatim>\<open>compact_cleaner.go\<close>, the rewrite of one segment: the strip of a frame, the block writer, the walk that feeds a
  segment's records to a rewrite block by block, and \<^verbatim>\<open>cleanSegment\<close> and \<^verbatim>\<open>consolidateOne\<close> on top of them.

  The copy a rewrite builds is a segment of its own; \<open>ws n\<close> is how the operating system answers its \<open>n\<close>-th write.
  Deleting a segment's files is a function \<open>del\<close>, and so is installing a finished copy over its source
  (\<^verbatim>\<open>Sync\<close> and \<^verbatim>\<open>Replace\<close>, or the upload, commit and swap of a tiered segment).  A copy whose rewrite failed is
  dropped, so an error leaves nothing but the error.  \<open>ord\<close> is the order in which the two passes of \<^verbatim>\<open>encode\<close>
  range over a header map.
\<close>

section \<open>Stripping a frame\<close>

type_synonym orders = "header_map \<Rightarrow> header_map \<times> header_map"

definition any_header :: "header_map \<Rightarrow> bytes list \<Rightarrow> bool" where
  "any_header have hdrs \<longleftrightarrow> (\<exists>h \<in> set hdrs. h \<in> fst ` set have)"

definition hasAnyHeader :: "bytes \<Rightarrow> bytes list \<Rightarrow> bool result" where
  "hasAnyHeader msg hdrs = and_then (sm_Headers msg) (\<lambda>have. Inr (if have = [] then False else any_header have hdrs))"

text \<open>The stripped frame, or \<open>None\<close> when no header is there to strip.\<close>

definition stripFrame :: "orders \<Rightarrow> bytes \<Rightarrow> bytes list \<Rightarrow> bytes option result" where
  "stripFrame ord ms headers =
     and_then (ms_Message ms) (\<lambda>msg. and_then (sm_Crc msg) (\<lambda>want. and_then (go_from msg 4) (\<lambda>body.
     if want \<noteq> crc32 Castagnoli body then Inl ErrCorruptRecord
     else and_then (sm_Headers msg) (\<lambda>have.
     if \<not> any_header have headers then Inr None
     else
       let kept = filter (\<lambda>h. fst h \<notin> set headers) have;
           o1 = map (apsnd Some) (fst (ord kept)); o2 = map (apsnd Some) (snd (ord kept)) in
       and_then (sm_MagicByte msg) (\<lambda>magic. and_then (sm_Attributes msg) (\<lambda>att.
       and_then (sm_Key msg) (\<lambda>key. and_then (sm_Value msg) (\<lambda>val.
       and_then (encode o1 o2 \<lparr>Crc = 0, MagicByte = magic, Attributes = att, Key = key, Value = val, Headers = o2,
                               Timestamp = 0, LeaderEpoch = 0\<rparr>) (\<lambda>data.
       and_then (ms_Offset ms) (\<lambda>offset. and_then (ms_Timestamp ms) (\<lambda>ts. and_then (ms_LeaderEpoch ms) (\<lambda>epoch.
         let fields = be64 (word_of_int offset) @ be64 (word_of_int ts) @ be64 epoch @ be32 (word_of_nat (length data)) in
         and_then (headerCrc fields) (\<lambda>crc. Inr (Some (fields @ be32 crc @ data)))))))))))))))"

section \<open>The block writer\<close>

abbreviation (input) cleanBlockTarget :: int where "cleanBlockTarget \<equiv> 262144"

record blockWriter =
  bw_seg :: segment
  bw_buf :: bytes
  bw_writes :: nat

definition bw_written :: "(segment \<times> err option) result \<Rightarrow> 'a blockWriter_scheme \<Rightarrow> 'a blockWriter_scheme result" where
  "bw_written r w =
     and_then r (\<lambda>(s, e). case e of Some e \<Rightarrow> Inl e | None \<Rightarrow> Inr (w \<lparr>bw_seg := s, bw_writes := bw_writes w + 1\<rparr>))"

definition bw_flush :: "codecs \<Rightarrow> (nat \<Rightarrow> io) \<Rightarrow> 'a blockWriter_scheme \<Rightarrow> 'a blockWriter_scheme result" where
  "bw_flush C ws w =
     (if bw_buf w = [] then Inr w
      else and_then (entriesForMessageSet (s_position (bw_seg w)) (bw_buf w)) (\<lambda>entries.
        and_then (bw_written (WriteMessageSet C (ws (bw_writes w)) (bw_buf w) entries (bw_seg w)) w) (\<lambda>w.
          Inr (w \<lparr>bw_buf := []\<rparr>))))"

definition bw_add :: "codecs \<Rightarrow> (nat \<Rightarrow> io) \<Rightarrow> bytes \<Rightarrow> 'a blockWriter_scheme \<Rightarrow> 'a blockWriter_scheme result" where
  "bw_add C ws ms w =
     (let w = w \<lparr>bw_buf := bw_buf w @ ms\<rparr> in
      if int (length (bw_buf w)) \<ge> cleanBlockTarget then bw_flush C ws w else Inr w)"

section \<open>The walk\<close>

text \<open>The blocks of a segment from the one that holds a logical position on; \<open>None\<close> without a block layout.\<close>

definition blockTailFrom :: "int \<Rightarrow> segment \<Rightarrow> blockRef list option" where
  "blockTailFrom pos s =
     (if \<not> s_blockMode s \<or> s_blocksPending s then None
      else Some (drop (sort_search (length (s_blocks s))
             (\<lambda>i. logicalStart (s_blocks s ! i) + logicalLen (s_blocks s ! i) > pos)) (s_blocks s)))"

text \<open>A block's bytes as they lie in the backing.\<close>

definition br_read :: "segment \<Rightarrow> blockRef \<Rightarrow> bytes result" where
  "br_read s b =
     (case shutErrorLocked s of
        Some e \<Rightarrow> Inl e
      | None \<Rightarrow> if physLen b < 0 then Inl GoPanic else file_ReadAt (s_backing s) (nat (physLen b)) (physStart b))"

text \<open>The frames from a position to the end of a block, where the scanner then stands, and what stopped it short.\<close>

function scan_until :: "codecs \<Rightarrow> segment \<Rightarrow> int \<Rightarrow> int \<Rightarrow> bytes list \<times> int \<times> err option" where
  "scan_until C s end_pos pos =
     (if pos \<ge> end_pos then ([], pos, None)
      else case Scan C s pos of
        Inl e \<Rightarrow> ([], pos, Some e)
      | Inr (ms, _, pos') \<Rightarrow> (let (mss, p, e) = scan_until C s end_pos pos' in (ms # mss, p, e)))"
  by pat_completeness auto
termination
  by (relation "measure (\<lambda>(_, _, end_pos, pos). nat (end_pos - pos))") (auto dest!: Scan_advances)

declare scan_until.simps [simp del]

definition unreadable :: "err \<Rightarrow> err" where
  "unreadable e = (if e = GoPanic then GoPanic else ErrSegmentUnreadable)"

definition walk_raw :: "codecs \<Rightarrow> segment \<Rightarrow> (bytes \<Rightarrow> 'w \<Rightarrow> 'w result) \<Rightarrow> 'w \<Rightarrow> 'w result" where
  "walk_raw C s keep w =
     (case scan_all C s 0 of (mss, e) \<Rightarrow>
        and_then (fold_result keep mss w) (\<lambda>w. if e = EOF then Inr w else Inl (unreadable e)))"

text \<open>A block carried over as it is, between what was kept before it and what follows.\<close>

definition carry_block ::
  "codecs \<Rightarrow> (nat \<Rightarrow> io) \<Rightarrow> segment \<Rightarrow> blockRef \<Rightarrow> bytes \<Rightarrow> 'a blockWriter_scheme \<Rightarrow> 'a blockWriter_scheme result" where
  "carry_block C ws s b framing w =
     and_then (bw_flush C ws w) (\<lambda>w.
       case br_read s b of
         Inl e \<Rightarrow> Inl (unreadable e)
       | Inr data \<Rightarrow> and_then (entriesForMessageSet (s_position (bw_seg w)) framing) (\<lambda>entries.
           bw_written (WriteBlock (ws (bw_writes w)) data (b_codec b) (int (length framing)) entries (bw_seg w)) w))"

definition walk_block ::
  "codecs \<Rightarrow> (nat \<Rightarrow> io) \<Rightarrow> segment \<Rightarrow> (bytes \<Rightarrow> 'a blockWriter_scheme \<Rightarrow> 'a blockWriter_scheme result) \<Rightarrow>
     (bytes list \<Rightarrow> bool result) \<Rightarrow> blockRef \<Rightarrow> int \<times> 'a blockWriter_scheme \<Rightarrow> (int \<times> 'a blockWriter_scheme) result" where
  "walk_block C ws s keep passes_whole b pw =
     (case pw of (pos, w) \<Rightarrow> case scan_until C s (logicalStart b + logicalLen b) pos of (mss, pos, e) \<Rightarrow>
      if mergeable b then
        and_then (fold_result keep mss w) (\<lambda>w. case e of Some e \<Rightarrow> Inl (unreadable e) | None \<Rightarrow> Inr (pos, w))
      else (case e of
        Some e \<Rightarrow> Inl (unreadable e)
      | None \<Rightarrow> and_then (passes_whole mss) (\<lambda>passes.
          if passes \<and> s_blockMode (bw_seg w)
          then and_then (carry_block C ws s b (concat mss) w) (\<lambda>w. Inr (pos, w))
          else
            let control = b_flags b AND FlagControl \<noteq> 0; flush = (\<lambda>w. if control then bw_flush C ws w else Inr w) in
            and_then (flush w) (\<lambda>w. and_then (fold_result keep mss w) (\<lambda>w. and_then (flush w) (\<lambda>w. Inr (pos, w)))))))"

definition rewriteWalk ::
  "codecs \<Rightarrow> (nat \<Rightarrow> io) \<Rightarrow> segment \<Rightarrow> (bytes \<Rightarrow> 'a blockWriter_scheme \<Rightarrow> 'a blockWriter_scheme result) \<Rightarrow>
     (bytes list \<Rightarrow> bool result) \<Rightarrow> 'a blockWriter_scheme \<Rightarrow> 'a blockWriter_scheme result" where
  "rewriteWalk C ws s keep passes_whole w =
     (case ensureBlocksLoaded s of
        Inl e \<Rightarrow> Inl (unreadable e)
      | Inr s \<Rightarrow> case blockTailFrom 0 s of
          None \<Rightarrow> walk_raw C s keep w
        | Some bs \<Rightarrow> and_then (fold_result (walk_block C ws s keep passes_whole) bs (0, w)) (\<lambda>(_, w). Inr w))"

section \<open>Cleaning a segment\<close>

text \<open>What \<^verbatim>\<open>cleanSegment\<close> counts while it keeps records.\<close>

record keepState = blockWriter +
  kp_removed :: nat
  kp_stripped :: nat
  kp_corrupt :: nat
  kp_residual :: bool

definition strip_or_copy :: "orders \<Rightarrow> CleanSpec \<Rightarrow> bytes \<Rightarrow> keepState \<Rightarrow> (bytes \<times> keepState) result" where
  "strip_or_copy ord spec ms w =
     (case stripFrame ord ms (cs_StripHeaders spec) of
        Inl e \<Rightarrow> if e = ErrCorruptRecord then Inr (ms, w \<lparr>kp_corrupt := kp_corrupt w + 1, kp_residual := True\<rparr>) else Inl e
      | Inr None \<Rightarrow> Inr (ms, w)
      | Inr (Some sf) \<Rightarrow> Inr (sf, w \<lparr>kp_stripped := kp_stripped w + 1\<rparr>))"

definition note_residual :: "CleanSpec \<Rightarrow> int \<Rightarrow> bytes \<Rightarrow> keepState \<Rightarrow> keepState result" where
  "note_residual spec offset msg w =
     (if \<not> stripActive spec then Inr w
      else and_then (sm_Attributes msg) (\<lambda>att.
        if att AND AttrControl = 0 \<and> offset \<ge> cs_StripBelow spec
        then and_then (hasAnyHeader msg (cs_StripHeaders spec)) (\<lambda>h. Inr (if h then w \<lparr>kp_residual := True\<rparr> else w))
        else Inr w))"

definition keep_record ::
  "codecs \<Rightarrow> (nat \<Rightarrow> io) \<Rightarrow> orders \<Rightarrow> CleanSpec \<Rightarrow> dropSet option \<Rightarrow> bytes \<Rightarrow> keepState \<Rightarrow> keepState result" where
  "keep_record C ws ord spec ds ms w =
     and_then (ms_Offset ms) (\<lambda>offset. and_then (ms_Message ms) (\<lambda>msg. and_then (classify spec offset msg ds) (\<lambda>d.
       if d = dispRemove then Inr (w \<lparr>kp_removed := kp_removed w + 1\<rparr>)
       else and_then (if d = dispStrip then strip_or_copy ord spec ms w
                      else and_then (note_residual spec offset msg w) (\<lambda>w. Inr (ms, w))) (\<lambda>(out, w). bw_add C ws out w))))"

fun whole_block :: "CleanSpec \<Rightarrow> dropSet option \<Rightarrow> bytes list \<Rightarrow> bool result" where
  "whole_block spec ds [] = Inr True"
| "whole_block spec ds (ms # mss) =
     and_then (ms_Offset ms) (\<lambda>offset. and_then (ms_Message ms) (\<lambda>msg. and_then (classify spec offset msg ds) (\<lambda>d.
       if d \<noteq> dispRetain then Inr False else whole_block spec ds mss)))"

definition needsBlockConsolidation :: "segment \<Rightarrow> bool" where
  "needsBlockConsolidation s =
     (if \<not> s_blockMode s \<or> s_blocksPending s \<or> length (s_blocks s) < 1024 then False
      else let n = int (length (filter mergeable (s_blocks s))); targetBlocks = s_position s div cleanBlockTarget + 1 in
        n \<ge> 1024 \<and> n > 4 * targetBlocks)"

text \<open>
  The working copy.  The files a crashed rewrite left under its name are removed first, so it starts empty; the
  removal may fail.
\<close>

definition newWorkingSegment :: "codecs \<Rightarrow> disk \<Rightarrow> bool \<Rightarrow> int \<Rightarrow> int \<Rightarrow> Codec \<Rightarrow> byte \<Rightarrow> segment result option" where
  "newWorkingSegment C d remove_ok base maxBytes codec format =
     (if \<not> remove_ok then Some (Inl IOError)
      else newSegmentWith C (dk_io d) (dk_size d) (dk_cut d) (dk_sync d) (dk_table d) base maxBytes False codec format None None [])"

definition Cleaned :: "codecs \<Rightarrow> disk \<Rightarrow> bool \<Rightarrow> segment \<Rightarrow> segment result option" where
  "Cleaned C d remove_ok s = newWorkingSegment C d remove_ok (s_BaseOffset s) (s_maxBytes s) (s_codec s) (s_format s)"

text \<open>What a scan of the whole segment came to: the copy, and what was counted.\<close>

definition clean_copy ::
  "codecs \<Rightarrow> (nat \<Rightarrow> io) \<Rightarrow> orders \<Rightarrow> CleanSpec \<Rightarrow> dropSet option \<Rightarrow> segment \<Rightarrow> segment \<Rightarrow> keepState result" where
  "clean_copy C ws ord spec ds s copy =
     and_then (rewriteWalk C ws s (keep_record C ws ord spec ds) (whole_block spec ds)
         \<lparr>bw_seg = copy, bw_buf = [], bw_writes = 0, kp_removed = 0, kp_stripped = 0, kp_corrupt = 0, kp_residual = False\<rparr>)
       (bw_flush C ws)"

definition strip_stamp :: "CleanSpec \<Rightarrow> keepState \<Rightarrow> int \<times> bytes list" where
  "strip_stamp spec w =
     (if stripActive spec then (if kp_residual w then cs_StripBelow spec else 2 ^ 63 - 1, cs_StripHeaders spec) else (- 1, []))"

text \<open>The sidecar a pass leaves beside a segment it scanned; \<open>None\<close> when it could not be built or written.\<close>

definition refreshDigest :: "codecs \<Rightarrow> bool \<Rightarrow> segment \<Rightarrow> int \<times> bytes list \<Rightarrow> bytes option result" where
  "refreshDigest C write_ok s st =
     (case buildKeyDigest C s of
        Inl e \<Rightarrow> if e = GoPanic then Inl GoPanic else Inr None
      | Inr d \<Rightarrow> Inr (if write_ok then Some (encodeKeyDigest (d \<lparr>d_stripVerifiedBelow := fst st, d_stripHdrs := snd st\<rparr>)) else None))"

text \<open>How the world answers one rewrite.\<close>

record rewriteEnv =
  rw_disk :: disk
  rw_remove :: bool
  rw_writes :: "nat \<Rightarrow> io"
  rw_orders :: orders
  rw_delete :: "segment \<Rightarrow> err option"
  rw_install :: "segment \<Rightarrow> segment \<Rightarrow> segment result"
  rw_digest :: bool

type_synonym cleaned = "(segment \<times> bytes option) option \<times> nat"

definition finish_clean :: "codecs \<Rightarrow> rewriteEnv \<Rightarrow> CleanSpec \<Rightarrow> segment \<Rightarrow> keepState \<Rightarrow> cleaned result" where
  "finish_clean C env spec s w =
     (let del = (\<lambda>s. case rw_delete env s of None \<Rightarrow> Inr () | Some e \<Rightarrow> Inl e) in
      if IsEmpty (bw_seg w) then
        and_then (del (bw_seg w)) (\<lambda>_. and_then (del s) (\<lambda>_. Inr (None, kp_removed w)))
      else if kp_removed w = 0 \<and> kp_stripped w = 0 \<and> \<not> needsBlockConsolidation s then
        and_then (del (bw_seg w)) (\<lambda>_. and_then (refreshDigest C (rw_digest env) s (strip_stamp spec w)) (\<lambda>f.
          Inr (Some (s, f), 0)))
      else
        and_then (rw_install env s (bw_seg w)) (\<lambda>s'. and_then (refreshDigest C (rw_digest env) s' (strip_stamp spec w)) (\<lambda>f.
          Inr (Some (s', f), kp_removed w))))"

definition cleanSegment :: "codecs \<Rightarrow> rewriteEnv \<Rightarrow> CleanSpec \<Rightarrow> segment \<Rightarrow> dropSet option \<Rightarrow> cleaned result option" where
  "cleanSegment C env spec s ds =
     (case Cleaned C (rw_disk env) (rw_remove env) s of
        None \<Rightarrow> None
      | Some r \<Rightarrow> Some (and_then r (\<lambda>copy.
          and_then (clean_copy C (rw_writes env) (rw_orders env) spec ds s copy) (finish_clean C env spec s))))"

section \<open>Consolidating a segment\<close>

definition consolidateOne :: "codecs \<Rightarrow> rewriteEnv \<Rightarrow> segment \<Rightarrow> segment result option" where
  "consolidateOne C env s =
     (case Cleaned C (rw_disk env) (rw_remove env) s of
        None \<Rightarrow> None
      | Some r \<Rightarrow> Some (and_then r (\<lambda>copy.
          and_then (rewriteWalk C (rw_writes env) s (bw_add C (rw_writes env)) (\<lambda>_. Inr True)
              \<lparr>bw_seg = copy, bw_buf = [], bw_writes = 0\<rparr>) (\<lambda>w.
          and_then (bw_flush C (rw_writes env) w) (\<lambda>w. rw_install env s (bw_seg w))))))"

end
