(* ===== verification/Rewrite_Holds.thy ===== *)
theory Rewrite_Holds
  imports Segment_Rewrite
begin

text \<open>
  What a rewritten segment holds.  A strip changes nothing of a record but its headers; the block writer and the
  carried blocks extend the copy by exactly the records they are given; and the walk, proved once for any rewrite
  in the locale \<open>rewrite\<close>, feeds every record of the source through in order.
\<close>

section \<open>What a strip makes of a record\<close>

text \<open>A record whose checksum holds was written by the encoder; a damaged one may hold any bytes the accessors can read.\<close>

definition written :: "bytes \<Rightarrow> header_map \<Rightarrow> Message \<Rightarrow> bool" where
  "written p hm m \<longleftrightarrow> p = wire (map (apsnd Some) hm) m \<and> distinct (map fst hm) \<and> length hm < 65536 \<and> encodable (map (apsnd Some) hm) m"

definition sound :: "logrec \<Rightarrow> bool" where
  "sound r \<longleftrightarrow> frame_ok r \<and> readable r \<and> (crcMatches (lr_payload r) = Inr True \<longrightarrow> (\<exists>hm m. written (lr_payload r) hm m))"

definition orders_ok :: "orders \<Rightarrow> bool" where
  "orders_ok ord \<longleftrightarrow> (\<forall>hm. mset (fst (ord hm)) = mset hm \<and> mset (snd (ord hm)) = mset hm)"

definition stripped :: "bytes list \<Rightarrow> logrec \<Rightarrow> logrec \<Rightarrow> bool" where
  "stripped hdrs r r' \<longleftrightarrow>
     lr_offset r' = lr_offset r \<and> lr_timestamp r' = lr_timestamp r \<and> lr_epoch r' = lr_epoch r \<and>
     (if crcMatches (lr_payload r) = Inr True
      then crcMatches (lr_payload r') = Inr True \<and> sm_MagicByte (lr_payload r') = sm_MagicByte (lr_payload r) \<and>
           attrs r' = attrs r \<and> rec_key r' = rec_key r \<and> sm_Value (lr_payload r') = sm_Value (lr_payload r) \<and>
           map_of (rec_headers r') = map_of (rec_headers r) |` (- set hdrs)
      else lr_payload r' = lr_payload r)"

definition strip_rec :: "orders \<Rightarrow> bytes list \<Rightarrow> logrec \<Rightarrow> logrec" where
  "strip_rec ord hdrs r =
     (case stripFrame ord (frame r) hdrs of Inr (Some sf) \<Rightarrow> r \<lparr>lr_payload := drop 32 sf\<rparr> | _ \<Rightarrow> r)"

lemma crc_split:
  assumes "readable r"
  shows "\<exists>want body. sm_Crc (lr_payload r) = Inr want \<and> go_from (lr_payload r) 4 = Inr body \<and>
     (crcMatches (lr_payload r) = Inr True \<longleftrightarrow> want = crc32 Castagnoli body)"
proof -
  obtain a where "sm_Attributes (lr_payload r) = Inr a" using assms by (auto simp: readable_def)
  then have l: "6 \<le> length (lr_payload r)" by (auto simp: sm_Attributes_def go_index_def split: if_splits)
  then obtain want where "sm_Crc (lr_payload r) = Inr want" by (simp add: sm_Crc_def uint32_of_def)
  moreover obtain body where "go_from (lr_payload r) 4 = Inr body" using l by (simp add: go_from_def go_slice_def)
  ultimately show ?thesis using l by (simp add: crcMatches_def)
qed

lemma wire_shrinks:
  "length (wire (map (apsnd Some) (filter P hm)) m) \<le> length (wire (map (apsnd Some) hm) m)"
  by (induction hm) (auto simp: wire_def wire_body_def)

lemma wire_message_cong:
  "MagicByte m = MagicByte m' \<Longrightarrow> Attributes m = Attributes m' \<Longrightarrow> Key m = Key m' \<Longrightarrow> Value m = Value m' \<Longrightarrow> wire hs m = wire hs m'"
  by (simp add: wire_def wire_body_def)

lemma map_of_filter_keys: "distinct (map fst hm) \<Longrightarrow> map_of (filter (\<lambda>h. fst h \<notin> A) hm) = map_of hm |` (- A)"
  by (induction hm) (auto simp: restrict_map_def fun_eq_iff)

lemma any_header_map: "\<not> any_header hm hdrs \<Longrightarrow> map_of hm |` (- set hdrs) = map_of hm"
proof (rule ext)
  fix k assume n: "\<not> any_header hm hdrs"
  show "(map_of hm |` (- set hdrs)) k = map_of hm k"
  proof (cases "k \<in> set hdrs")
    case True
    then have "k \<notin> fst ` set hm" using n by (auto simp: any_header_def)
    then show ?thesis using True by (simp add: restrict_map_def map_of_eq_None_iff [THEN iffD2])
  qed (simp add: restrict_map_def)
qed

text \<open>The payload a strip writes, and what its accessors read.\<close>

lemma encode_kept:
  assumes "written p hm m" and "length p < 2 ^ 31" and "mset o1 = mset (filter P hm)" and "mset o2 = mset (filter P hm)"
    and "MagicByte m' = MagicByte m" "Attributes m' = Attributes m" "Key m' = Key m" "Value m' = Value m"
  shows "\<exists>q. encode (map (apsnd Some) o1) (map (apsnd Some) o2) m' = Inr q \<and> written q o2 m' \<and> length q \<le> length p"
proof -
  let ?k = "map (apsnd Some) (filter P hm)" and ?h1 = "map (apsnd Some) o1" and ?h2 = "map (apsnd Some) o2"
  have p: "p = wire (map (apsnd Some) hm) m" "distinct (map fst hm)" "length hm < 65536" "encodable (map (apsnd Some) hm) m"
    using assms(1) by (simp_all add: written_def)
  have ms: "mset ?h2 = mset ?k" "mset ?h1 = mset ?h2" using assms(3,4) by simp_all
  have "encodable ?k m'" using p(4) assms(5-8) by (auto simp: encodable_def list_all_iff)
  then have en: "encodable ?h2 m'" using encodable_perm [OF ms(1)] by simp
  then have "encode ?h1 ?h2 m' = Inr (wire ?h2 m')" using encode_wire_lemma [OF ms(2)] by simp
  moreover have "wire ?h2 m' = wire ?h2 m" by (rule wire_message_cong) (use assms(5-8) in simp_all)
  moreover have "length (wire ?h2 m) \<le> length p" using length_wire_perm [OF ms(1)] wire_shrinks [of P hm m] p(1) by simp
  moreover have "distinct (map fst o2)"
  proof -
    have "mset (map fst o2) = mset (map fst (filter P hm))" using assms(4) by simp
    then show ?thesis using p(2) mset_eq_imp_distinct_iff distinct_map_filter by blast
  qed
  moreover have "length o2 < 65536"
    using mset_eq_length [OF assms(4)] length_filter_le [of P hm] p(3) by linarith
  ultimately show ?thesis using en by (auto simp: written_def)
qed

lemma written_fields:
  assumes "written (lr_payload r) hm m" and "length (lr_payload r) < 2 ^ 31"
  shows "readable r" "attrs r = Attributes m" "rec_key r = Key m" "rec_headers r = hm" "sm_Value (lr_payload r) = Inr (Value m)"
    "sm_MagicByte (lr_payload r) = Inr (MagicByte m)" "crcMatches (lr_payload r) = Inr True"
proof -
  have p: "lr_payload r = wire (map (apsnd Some) hm) m" "distinct (map fst hm)" "length hm < 65536" "encodable (map (apsnd Some) hm) m"
    using assms(1) by (simp_all add: written_def)
  have "list_all (\<lambda>h. length (fst h) < 65536) hm"
    using p(4) by (auto simp: encodable_def list_all_iff string_ok_def MaxInt16_def)
  note b = wire_read_back [OF refl p(2,3) this, of m]
  show "readable r" "attrs r = Attributes m" "rec_key r = Key m" "rec_headers r = hm" "sm_Value (lr_payload r) = Inr (Value m)"
    "sm_MagicByte (lr_payload r) = Inr (MagicByte m)" "crcMatches (lr_payload r) = Inr True"
    using b assms(2) wire_crcMatches
    by (simp_all add: p(1) readable_def attrs_def rec_key_def rec_headers_def or_else_def)
qed

lemma strip_kept:
  assumes fo: "frame_ok r" and w: "written (lr_payload r) hm m" and ord: "orders_ok ord" and has: "any_header hm hdrs"
  shows "stripFrame ord (frame r) hdrs = Inr (Some (frame (strip_rec ord hdrs r))) \<and> stripped hdrs r (strip_rec ord hdrs r) \<and>
     sound (strip_rec ord hdrs r) \<and> length (lr_payload (strip_rec ord hdrs r)) \<le> length (lr_payload r)"
proof -
  note acc = frame_accessors [OF fo, of "[]", simplified]
  have len: "length (lr_payload r) < 2 ^ 31" using fo by (simp add: frame_ok_def)
  note f = written_fields [OF w len]
  let ?P = "\<lambda>h. fst h \<notin> set hdrs"
  define o1 o2 where "o1 = fst (ord (filter ?P hm))" and "o2 = snd (ord (filter ?P hm))"
  then have o: "ord (filter ?P hm) = (o1, o2)" "mset o1 = mset (filter ?P hm)" "mset o2 = mset (filter ?P hm)"
    using ord by (simp_all add: orders_ok_def)
  define m' where "m' = \<lparr>Crc = 0, MagicByte = MagicByte m, Attributes = Attributes m, Key = Key m, Value = Value m,
    Headers = map (apsnd Some) o2, Timestamp = 0, LeaderEpoch = 0\<rparr>"
  obtain q where q: "encode (map (apsnd Some) o1) (map (apsnd Some) o2) m' = Inr q" "written q o2 m'" "length q \<le> length (lr_payload r)"
    using encode_kept [OF w len o(2,3), of m'] by (auto simp: m'_def)
  define r' where "r' = r \<lparr>lr_payload := q\<rparr>"
  obtain want body where cs: "sm_Crc (lr_payload r) = Inr want" "go_from (lr_payload r) 4 = Inr body" "want = crc32 Castagnoli body"
    using crc_split [OF f(1)] f(7) by blast
  have ff: "be64 (word_of_int (lr_offset r)) @ be64 (word_of_int (lr_timestamp r)) @ be64 (lr_epoch r) @ be32 (word_of_nat (length q)) = frame_fields r'"
    by (simp add: frame_fields_def r'_def)
  have hc: "headerCrc (frame_fields r') = Inr (crc32 Castagnoli (frame_fields r'))" by (simp add: headerCrc_def go_slice_def)
  have fr: "be64 (word_of_int (lr_offset r)) @ be64 (word_of_int (lr_timestamp r)) @ be64 (lr_epoch r) @ be32 (word_of_nat (length q)) @
      be32 (crc32 Castagnoli (frame_fields r')) @ q = frame r'"
    using frame_cut [of r' "[]"] by (simp add: r'_def)
  have s: "stripFrame ord (frame r) hdrs = Inr (Some (frame r'))"
    unfolding stripFrame_def acc and_then.simps cs(1,2)
    using f(1-6) readable_fields [OF f(1)] has o(1) q(1) cs(3)
    by (simp add: Let_def acc(1-3) m'_def [symmetric] ff hc fr)
  then have sr: "strip_rec ord hdrs r = r'" by (simp add: strip_rec_def r'_def frame_def)
  have len': "length (lr_payload r') < 2 ^ 31" using q(3) len by (simp add: r'_def)
  have "written (lr_payload r') o2 m'" using q(2) by (simp add: r'_def)
  note f' = written_fields [OF this len']
  have fo': "frame_ok r'" using fo q(2,3) by (auto simp: frame_ok_def r'_def written_def wire_def)
  have "map_of o2 = map_of (filter ?P hm)"
  proof -
    have "set o2 = set (filter ?P hm)" using o(3) by (rule mset_eq_setD)
    moreover have "distinct (map fst o2)" "distinct (map fst (filter ?P hm))"
      using q(2) w by (simp_all add: written_def distinct_map_filter)
    ultimately show ?thesis using map_of_inject_set [of o2 "filter ?P hm"] by simp
  qed
  then have "map_of (rec_headers r') = map_of (rec_headers r) |` (- set hdrs)"
    using f(4) f'(4) w map_of_filter_keys [of hm "set hdrs"] by (simp add: written_def)
  then have "stripped hdrs r r'" using f f' by (simp add: stripped_def r'_def m'_def)
  moreover have "sound r'" using fo' f'(1) q(2) by (auto simp: sound_def r'_def)
  ultimately show ?thesis using s q(3) unfolding sr by (simp add: r'_def)
qed

lemma strip_sound:
  assumes "sound r" and "orders_ok ord"
  shows "stripFrame ord (frame r) hdrs =
       (if crcMatches (lr_payload r) \<noteq> Inr True then Inl ErrCorruptRecord
        else if \<not> any_header (rec_headers r) hdrs then Inr None else Inr (Some (frame (strip_rec ord hdrs r)))) \<and>
     stripped hdrs r (strip_rec ord hdrs r) \<and> sound (strip_rec ord hdrs r) \<and>
     length (lr_payload (strip_rec ord hdrs r)) \<le> length (lr_payload r)"
proof -
  have fo: "frame_ok r" and rd: "readable r" using assms(1) by (simp_all add: sound_def)
  note acc = frame_accessors [OF fo, of "[]", simplified]
  obtain want body where cs: "sm_Crc (lr_payload r) = Inr want" "go_from (lr_payload r) 4 = Inr body"
    "crcMatches (lr_payload r) = Inr True \<longleftrightarrow> want = crc32 Castagnoli body" using crc_split [OF rd] by blast
  show ?thesis
  proof (cases "crcMatches (lr_payload r) = Inr True")
    case False
    then have "stripFrame ord (frame r) hdrs = Inl ErrCorruptRecord" using cs by (simp add: stripFrame_def acc)
    then show ?thesis using False assms(1) by (simp add: strip_rec_def stripped_def)
  next
    case True
    then obtain hm m where w: "written (lr_payload r) hm m" using assms(1) by (auto simp: sound_def)
    have hm: "rec_headers r = hm" using written_fields(4) [OF w] fo by (simp add: frame_ok_def)
    show ?thesis
    proof (cases "any_header hm hdrs")
      case has: True
      then show ?thesis using strip_kept [OF fo w assms(2) has] True hm by simp
    next
      case False
      then have "stripFrame ord (frame r) hdrs = Inr None" using cs True readable_fields(3) [OF rd] hm by (simp add: stripFrame_def acc)
      then show ?thesis using True False assms(1) any_header_map [OF False] hm by (simp add: strip_rec_def stripped_def)
    qed
  qed
qed

section \<open>The copy\<close>

text \<open>The copy of a rewrite and what waits in the writer's buffer, together: the records written so far.\<close>

definition wrote :: "codecs \<Rightarrow> int \<Rightarrow> bool \<Rightarrow> 'a blockWriter_scheme \<Rightarrow> logrec list \<Rightarrow> bool" where
  "wrote C base bm w rs \<longleftrightarrow>
     (\<exists>cs ps. seg_ok C (bw_seg w) cs \<and> s_BaseOffset (bw_seg w) = base \<and> s_blockMode (bw_seg w) = bm \<and>
        bw_buf w = frames ps \<and> rs = concat cs @ ps)"

abbreviation (input) all_written :: "nat \<Rightarrow> io" where "all_written \<equiv> \<lambda>_. io_ok"

lemma frames_Nil_iff: "frames rs = [] \<longleftrightarrow> rs = []"
  by (cases rs) (auto simp: frame_def frame_fields_def)

lemma same_shape_ok:
  assumes "seg_ok C s cs" and "seg_holds C s' cs'" and "same_shape s s'"
  shows "seg_ok C s' cs'" "s_BaseOffset s' = s_BaseOffset s" "s_blockMode s' = s_blockMode s"
  using assms by (simp_all add: seg_ok_def same_shape_def s_live_def)

lemma bw_flush_wrote:
  assumes "wrote C base bm w rs" and "records_ok base rs" and "codecs_ok C"
  shows "\<exists>s n cs. bw_flush C all_written w = Inr (w \<lparr>bw_seg := s, bw_buf := [], bw_writes := n\<rparr>) \<and>
     seg_ok C s cs \<and> concat cs = rs \<and> s_BaseOffset s = base \<and> s_blockMode s = bm"
proof -
  obtain cs ps where c: "seg_ok C (bw_seg w) cs" "s_BaseOffset (bw_seg w) = base" "s_blockMode (bw_seg w) = bm"
    "bw_buf w = frames ps" "rs = concat cs @ ps" using assms(1) by (auto simp: wrote_def)
  show ?thesis
  proof (cases "ps = []")
    case True
    then have b: "bw_buf w = []" using c(4) by simp
    then have "bw_flush C all_written w = Inr (w \<lparr>bw_seg := bw_seg w, bw_buf := [], bw_writes := bw_writes w\<rparr>)"
      by (cases w) (simp add: bw_flush_def)
    then show ?thesis using c True by blast
  next
    case False
    have h: "seg_holds C (bw_seg w) cs" "\<not> s_closed (bw_seg w)" "codec_Valid (s_codec (bw_seg w))"
      using c(1) by (simp_all add: seg_ok_def s_live_def)
    obtain s' cs' where s': "WriteMessageSet C io_ok (frames ps) (entries_of (s_position (bw_seg w)) ps) (bw_seg w) = Inr (s', None)"
      "seg_holds C s' cs'" "concat cs' = concat cs @ ps" "same_shape (bw_seg w) s'"
      using WriteMessageSet_holds [OF h(1,2) False _ assms(3) h(3)] assms(2) c(2,5) by auto
    have e: "entriesForMessageSet (s_position (bw_seg w)) (frames ps) = Inr (entries_of (s_position (bw_seg w)) ps)"
      using assms(2) c(5) by (intro entriesForMessageSet_frames) (simp add: records_ok_def)
    have "bw_flush C all_written w = Inr (w \<lparr>bw_seg := s', bw_buf := [], bw_writes := bw_writes w + 1\<rparr>)"
      using False by (simp add: bw_flush_def c(4) frames_Nil_iff e s'(1) bw_written_def)
    then show ?thesis using same_shape_ok [OF c(1) s'(2,4)] s'(3) c(2,3,5) by blast
  qed
qed

lemma bw_add_wrote:
  assumes "wrote C base bm w rs" and "records_ok base (rs @ [r])" and "codecs_ok C"
  shows "\<exists>s b n. bw_add C all_written (frame r) w = Inr (w \<lparr>bw_seg := s, bw_buf := b, bw_writes := n\<rparr>) \<and>
     wrote C base bm (w \<lparr>bw_seg := s, bw_buf := b, bw_writes := n\<rparr>) (rs @ [r])"
proof -
  define v where "v = w \<lparr>bw_buf := bw_buf w @ frame r\<rparr>"
  have "wrote C base bm v (rs @ [r])"
  proof -
    obtain cs ps where "seg_ok C (bw_seg w) cs" "s_BaseOffset (bw_seg w) = base" "s_blockMode (bw_seg w) = bm"
      "bw_buf w = frames ps" "rs = concat cs @ ps" using assms(1) by (auto simp: wrote_def)
    then show ?thesis unfolding wrote_def by (intro exI [of _ cs] exI [of _ "ps @ [r]"]) (simp add: v_def)
  qed
  moreover have "v = w \<lparr>bw_seg := bw_seg w, bw_buf := bw_buf w @ frame r, bw_writes := bw_writes w\<rparr>" by (simp add: v_def)
  moreover obtain s n cs where "bw_flush C all_written v = Inr (v \<lparr>bw_seg := s, bw_buf := [], bw_writes := n\<rparr>)"
    "seg_ok C s cs" "concat cs = rs @ [r]" "s_BaseOffset s = base" "s_blockMode s = bm"
    using bw_flush_wrote [OF calculation(1) assms(2,3)] by blast
  moreover have "v \<lparr>bw_seg := s, bw_buf := [], bw_writes := n\<rparr> = w \<lparr>bw_seg := s, bw_buf := [], bw_writes := n\<rparr>" by (simp add: v_def)
  moreover have "wrote C base bm (w \<lparr>bw_seg := s, bw_buf := [], bw_writes := n\<rparr>) (rs @ [r])"
    unfolding wrote_def using calculation(4-7) by (intro exI [of _ cs] exI [of _ "[]"]) simp
  moreover have "bw_add C all_written (frame r) w = (if int (length (bw_buf v)) \<ge> cleanBlockTarget then bw_flush C all_written v else Inr v)"
    by (simp add: bw_add_def v_def)
  ultimately show ?thesis by (metis (no_types))
qed

section \<open>Carried blocks\<close>

lemma v3_block_header:
  assumes "decodeV3Block C data = Inr d"
  shows "\<exists>h. DecodeHeader data = Inr h \<and> go_index data 1 = Inr v3_Version \<and> 76 \<le> length data"
proof -
  obtain h where h: "DecodeHeader data = Inr h"
    using assms by (auto simp: decodeV3Block_def DecodeBlock_def VerifyPayload_def and_then_Inr_iff)
  then show ?thesis by (auto simp: DecodeHeader_def and_then_Inr_iff split: if_splits)
qed

lemma WriteBlock_carries:
  assumes "seg_ok C t cs" and "s_blockMode t" and "c \<noteq> []" and ok: "records_ok (s_BaseOffset t) (concat cs @ c)"
    and data: "decodeV3Block C data = Inr (frames c)"
  shows "\<exists>t'. WriteBlock io_ok data codec (int (length (frames c))) (entries_of (s_position t) c) t = Inr (t', None) \<and>
     seg_holds C t' (cs @ [c]) \<and> same_shape t t' \<and>
     (\<exists>b h. s_blocks t' = s_blocks t @ [b] \<and> b_version b = v3_Version \<and> DecodeHeader data = Inr h \<and> b_flags b = h_Flags h)"
proof -
  obtain h where h: "DecodeHeader data = Inr h" "go_index data 1 = Inr v3_Version" "76 \<le> length data" using v3_block_header [OF data] by blast
  have holds: "seg_holds C t cs" "\<not> s_closed t" using assms(1) by (simp_all add: seg_ok_def s_live_def)
  define b where "b = \<lparr>logicalStart = s_position t, logicalLen = int (length (frames c)), physStart = s_physPosition t,
      physLen = int (length data), b_codec = codec, b_records = int (length c), b_version = v3_Version, b_flags = h_Flags h\<rparr>"
  define s1 where "s1 = t \<lparr>s_dirtyData := True, s_dirtyIndex := True, s_backing := s_backing t @ data,
      s_blocks := s_blocks t @ [b], s_position := s_position t + int (length (frames c)),
      s_physPosition := s_physPosition t + int (length data)\<rparr>"
  have old: "s_position t = int (length (frames (concat cs)))" "\<not> s_blocksPending t" "tiled 0 0 (s_blocks t)"
    "list_all2 (decodes_to C t) (s_blocks t) (map frames cs)" "map b_records (s_blocks t) = map (int \<circ> length) cs"
    "s_physPosition t = int (length (s_backing t))" "sum_list (map physLen (s_blocks t)) = s_physPosition t"
    using holds(1) assms(2) by (simp_all add: seg_holds_def seg_bytes_def)
  obtain idx where idx: "s_Index t = Some idx" "ix_holds (s_BaseOffset t) idx (anchors 0 cs)"
    using holds(1) by (auto simp: seg_holds_def)
  have ne: "frames c \<noteq> []" using assms(3) by (simp add: frames_Nil_iff)
  have "ends_match s1 (concat cs)" using holds(1) by (simp add: seg_holds_def ends_match_def s1_def)
  then obtain s2 where n: "noteWrittenLocked (entries_of (s_position t) c) s1 = Inr s2"
    and ends: "ends_match s2 (concat cs @ c)"
    and s2: "s2 = s1 \<lparr>s_firstOffset := s_firstOffset s2, s_firstWriteTime := s_firstWriteTime s2,
             s_lastOffset := s_lastOffset s2, s_lastWriteTime := s_lastWriteTime s2\<rparr>"
    using noteWrittenLocked_ends [OF _ ok assms(3)] by blast
  have ix: "s_Index s2 = Some idx" using idx by (subst s2) (simp add: s1_def)
  have fits: "list_all (entry_fits (s_BaseOffset t)) [entry_of (s_position t) (hd c)]"
    using anchors_fit [of "s_BaseOffset t" cs "[c]"] ok assms(3) by (simp add: old(1))
  obtain idx' where i: "index_entries io_ok [entry_of (s_position t) (hd c)] s2 = Inr (s2 \<lparr>s_Index := Some idx'\<rparr>, None)"
    and hi: "ix_holds (s_BaseOffset t) idx' (anchors 0 cs @ [entry_of (s_position t) (hd c)])"
    using index_entries_holds [OF ix idx(2) fits] by blast
  let ?s = "s2 \<lparr>s_Index := Some idx'\<rparr>"
  have "WriteBlock io_ok data codec (int (length (frames c))) (entries_of (s_position t) c) t = Inr (?s, None)"
    using holds(2) h n entries_of_ends(3,4) [OF assms(3), of "s_position t"] i
    by (simp add: WriteBlock_def appendBlockBytes_def backing_Write_def io_ok_def s1_def b_def Let_def)
  moreover have shape: "same_shape t ?s" by (subst s2) (simp add: same_shape_def s1_def)
  moreover have "seg_bytes C ?s (cs @ [c])"
  proof -
    have bk: "s_backing ?s = s_backing t @ data" by (subst s2) (simp add: s1_def)
    have "file_ReadAt (s_backing ?s) (length data) (int (length (s_backing t))) = Inr data"
      unfolding bk using sub_append_right [of "s_backing t" "length (s_backing t)" data "length data"] h(3) by (simp add: file_ReadAt_def)
    then have "decodes_to C ?s b (frames c)" using data ne by (simp add: decodes_to_def decodeBlock_def b_def old(6))
    moreover have "list_all2 (decodes_to C ?s) (s_blocks t) (map frames cs)"
      by (rule list_all2_mono [OF old(4)]) (rule decodes_to_append [OF _ bk])
    ultimately have l2: "list_all2 (decodes_to C ?s) (s_blocks t @ [b]) (map frames (cs @ [c]))"
      by (simp add: list_all2_appendI)
    have "tiled 0 0 (s_blocks t @ [b])"
      using old(3,7) decodes_to_logical [OF old(4)] old(1) h(3) assms(3)
      by (simp add: tiled_snoc concat_map_frames) (simp add: b_def)
    moreover have "s_blocks ?s = s_blocks t @ [b]" "s_position ?s = s_position t + int (length (frames c))"
      "s_physPosition ?s = s_physPosition t + int (length data)" "\<not> s_blocksPending ?s" "s_blockMode ?s"
      by (subst s2, simp add: s1_def old(2) assms(2))+
    moreover have "b_records b = int (length c)" "physLen b = int (length data)" by (simp_all add: b_def)
    ultimately show ?thesis using l2 old(1,5-7) bk unfolding seg_bytes_def by simp
  qed
  moreover have "ix_holds (s_BaseOffset t) idx' (anchors 0 (cs @ [c]))" using hi by (simp add: anchors_append old(1))
  moreover have "ends_match ?s (concat cs @ c)" using ends by (simp add: ends_match_def)
  moreover have "s_blocks ?s = s_blocks t @ [b]" by (subst s2) (simp add: s1_def)
  moreover have "b_version b = v3_Version" "b_flags b = h_Flags h" by (simp_all add: b_def)
  ultimately show ?thesis using ok holds(1) assms(3) h(1) by (auto simp: seg_holds_def same_shape_def)
qed

lemma carry_block_wrote:
  assumes "wrote C base True w rs" and "records_ok base (rs @ c)" and "codecs_ok C" and "c \<noteq> []"
    and "\<not> s_closed s" and "decodes_to C s b (frames c)" and "\<not> mergeable b"
  shows "\<exists>t n. carry_block C all_written s b (frames c) w = Inr (w \<lparr>bw_seg := t, bw_buf := [], bw_writes := n\<rparr>) \<and>
     wrote C base True (w \<lparr>bw_seg := t, bw_buf := [], bw_writes := n\<rparr>) (rs @ c)"
proof -
  have v3: "b_version b = v3_Version" using assms(7) by (simp add: mergeable_def)
  then obtain data where d: "0 \<le> physLen b" "file_ReadAt (s_backing s) (nat (physLen b)) (physStart b) = Inr data"
    "decodeV3Block C data = Inr (frames c)"
    using assms(6) by (auto simp: decodes_to_def decodeBlock_def and_then_Inr_iff split: if_splits)
  then have rd: "br_read s b = Inr data" using assms(5) by (simp add: br_read_def shutErrorLocked_def)
  have "records_ok base rs" using assms(2) records_ok_prefix by blast
  then obtain t n cs where f: "bw_flush C all_written w = Inr (w \<lparr>bw_seg := t, bw_buf := [], bw_writes := n\<rparr>)"
    "seg_ok C t cs" "concat cs = rs" "s_BaseOffset t = base" "s_blockMode t" using bw_flush_wrote [OF assms(1) _ assms(3)] by blast
  have e: "entriesForMessageSet (s_position t) (frames c) = Inr (entries_of (s_position t) c)"
    using assms(2) by (intro entriesForMessageSet_frames) (simp add: records_ok_def)
  obtain t' where t': "WriteBlock io_ok data (b_codec b) (int (length (frames c))) (entries_of (s_position t) c) t = Inr (t', None)"
    "seg_holds C t' (cs @ [c])" "same_shape t t'" using WriteBlock_carries [OF f(2,5) assms(4) _ d(3)] assms(2) f(3,4) by blast
  note ok = same_shape_ok [OF f(2) t'(2,3)]
  let ?w = "w \<lparr>bw_seg := t', bw_buf := [], bw_writes := n + 1\<rparr>"
  have "carry_block C all_written s b (frames c) w = Inr ?w"
    using t'(1) by (simp add: carry_block_def f(1) rd e bw_written_def)
  moreover have "wrote C base True ?w (rs @ c)"
    unfolding wrote_def using ok f(3-5) by (intro exI [of _ "cs @ [c]"] exI [of _ "[]"]) simp
  ultimately show ?thesis by blast
qed

section \<open>The walk\<close>

lemma scan_until_frames:
  assumes "open_holds C s (pre @ c @ post)" and "list_all frame_ok c" and "\<not> s_blocksPending s"
  shows "scan_until C s (int (length (frames (pre @ c)))) (int (length (frames pre))) = (map frame c, int (length (frames (pre @ c))), None)"
  using assms
proof (induction c arbitrary: pre)
  case Nil
  then show ?case by (simp add: scan_until.simps)
next
  case (Cons r c)
  have "Scan C s (int (length (frames pre))) = Inr (frame r, entry_of (int (length (frames pre))) r, int (length (frames (pre @ [r]))))"
    using Cons.prems by (intro Scan_at [of C s pre r "c @ post"]) simp_all
  moreover have "scan_until C s (int (length (frames ((pre @ [r]) @ c)))) (int (length (frames (pre @ [r])))) =
      (map frame c, int (length (frames ((pre @ [r]) @ c))), None)"
    using Cons.prems by (intro Cons.IH) simp_all
  ultimately show ?case by (simp add: scan_until.simps [of C s _ "int (length (frames pre))"])
qed

lemma blockTailFrom_all:
  assumes "seg_bytes C s cs" and "s_blockMode s"
  shows "blockTailFrom 0 s = Some (s_blocks s)"
proof -
  let ?P = "\<lambda>b. logicalStart b + logicalLen b > 0"
  have t: "tiled 0 0 (s_blocks s)" "\<not> s_blocksPending s" "list_all2 (decodes_to C s) (s_blocks s) (map frames cs)"
    using assms by (simp_all add: seg_bytes_def)
  have "sort_search (length (s_blocks s)) (\<lambda>i. ?P (s_blocks s ! i)) = length (takeWhile (\<lambda>b. \<not> ?P b) (s_blocks s))"
    by (rule gosort.search_list_first) (use tiled_mono [OF t(1)] in fastforce)
  moreover have "takeWhile (\<lambda>b. \<not> ?P b) (s_blocks s) = []"
    using t(1,3) by (cases "s_blocks s") (auto simp: decodes_to_def list_all2_Cons1)
  ultimately show ?thesis using assms(2) t(2) by (simp add: blockTailFrom_def)
qed

definition outs :: "(logrec \<Rightarrow> logrec option) \<Rightarrow> logrec list \<Rightarrow> logrec list" where
  "outs out rs = concat (map (\<lambda>r. case out r of None \<Rightarrow> [] | Some r' \<Rightarrow> [r']) rs)"

lemma outs_simps [simp]: "outs out [] = []" "outs out (rs @ ss) = outs out rs @ outs out ss"
  by (simp_all add: outs_def)

lemma outs_id: "\<forall>r \<in> set rs. out r = Some r \<Longrightarrow> outs out rs = rs"
  by (induction rs) (simp_all add: outs_def)

lemma outs_Cons: "outs out (r # rs) = outs out [r] @ outs out rs"
  by (simp add: outs_def)

text \<open>
  Whether a block is carried whole, and the records of a segment as the walk meets them, each with whether its
  block was; \<open>bm\<close> is the block mode of the copy.
\<close>

definition carried :: "bool \<Rightarrow> (logrec list \<Rightarrow> bool) \<Rightarrow> blockRef \<Rightarrow> logrec list \<Rightarrow> bool" where
  "carried bm passes b c \<longleftrightarrow> \<not> mergeable b \<and> passes c \<and> bm"

definition tagged :: "bool \<Rightarrow> (logrec list \<Rightarrow> bool) \<Rightarrow> segment \<Rightarrow> chunks \<Rightarrow> (bool \<times> logrec) list" where
  "tagged bm passes s cs =
     (if s_blockMode s then concat (map2 (\<lambda>b c. map (Pair (carried bm passes b c)) c) (s_blocks s) cs) else map (Pair False) (concat cs))"

lemma tagged_snd:
  assumes "seg_bytes C s cs"
  shows "map snd (tagged bm passes s cs) = concat cs"
proof (cases "s_blockMode s")
  case True
  then have "length (s_blocks s) = length cs" using assms by (auto simp: seg_bytes_def dest: list_all2_lengthD)
  moreover have "length bs = length cs \<Longrightarrow> map snd (concat (map2 (\<lambda>b c. map (Pair (carried bm passes b c)) c) bs cs)) = concat cs" for bs
    by (induction bs cs rule: list_induct2) (auto simp: comp_def)
  ultimately have "map snd (concat (map2 (\<lambda>b c. map (Pair (carried bm passes b c)) c) (s_blocks s) cs)) = concat cs" by blast
  then show ?thesis using True by (simp add: tagged_def)
qed (simp add: tagged_def comp_def)

text \<open>
  A rewrite: what it keeps of a record, what lets a block pass whole, and what it tallies of the records it has
  seen, each marked with whether it was carried in a whole block.
\<close>

locale rewrite =
  fixes C :: codecs and base :: int and bm :: bool and keep :: "bytes \<Rightarrow> 'a blockWriter_scheme \<Rightarrow> 'a blockWriter_scheme result"
    and passes_whole :: "bytes list \<Rightarrow> bool result" and out :: "logrec \<Rightarrow> logrec option" and passes :: "logrec list \<Rightarrow> bool"
    and tally :: "'a blockWriter_scheme \<Rightarrow> (bool \<times> logrec) list \<Rightarrow> bool" and good :: "logrec \<Rightarrow> bool"
  assumes codecs: "tally w xs \<Longrightarrow> codecs_ok C"
    and good_frame: "good r \<Longrightarrow> frame_ok r"
    and out_fits: "good r \<Longrightarrow> out r = Some r' \<Longrightarrow> frame_ok r' \<and> lr_offset r' = lr_offset r \<and> length (lr_payload r') \<le> length (lr_payload r)"
    and keep_one: "wrote C base bm w rs \<Longrightarrow> tally w xs \<Longrightarrow> good r \<Longrightarrow> records_ok base (rs @ outs out [r]) \<Longrightarrow>
      \<exists>w'. keep (frame r) w = Inr w' \<and> wrote C base bm w' (rs @ outs out [r]) \<and> tally w' (xs @ [(False, r)])"
    and tally_bw: "tally w xs \<Longrightarrow> tally (w \<lparr>bw_seg := s, bw_buf := b, bw_writes := n\<rparr>) xs"
    and whole_total: "list_all good rs \<Longrightarrow> passes_whole (map frame rs) = Inr (passes rs)"
    and whole_kept: "list_all good rs \<Longrightarrow> passes rs \<Longrightarrow> r \<in> set rs \<Longrightarrow> out r = Some r"
    and whole_tally: "list_all good rs \<Longrightarrow> passes rs \<Longrightarrow> tally w xs \<Longrightarrow> tally w (xs @ map (Pair True) rs)"
begin

lemma outs_offsets:
  assumes "list_all good rs" and "r' \<in> set (outs out rs)"
  shows "\<exists>r \<in> set rs. lr_offset r' = lr_offset r \<and> frame_ok r'"
proof -
  obtain r where "r \<in> set rs" "out r = Some r'" using assms(2) by (auto simp: outs_def split: option.splits)
  then show ?thesis using out_fits [of r r'] assms(1) by (auto simp: list_all_iff)
qed

lemma outs_sorted: "list_all good rs \<Longrightarrow> sorted_wrt (<) (map lr_offset rs) \<Longrightarrow> sorted_wrt (<) (map lr_offset (outs out rs))"
proof (induction rs)
  case (Cons r rs)
  have "sorted_wrt (<) (map lr_offset (outs out rs))" using Cons by simp
  moreover have "lr_offset r < lr_offset r'" if "r' \<in> set (outs out rs)" for r'
    using outs_offsets [OF _ that] Cons.prems by auto
  moreover have "outs out [r] = [] \<or> (\<exists>r'. outs out [r] = [r'] \<and> lr_offset r' = lr_offset r)"
    using Cons.prems(1) out_fits [of r] by (cases "out r") (simp_all add: outs_def)
  ultimately show ?case unfolding outs_Cons [of out r rs] by (auto simp: sorted_wrt_append)
qed simp

lemma outs_length: "list_all good rs \<Longrightarrow> length (frames (outs out rs)) \<le> length (frames rs)"
proof (induction rs)
  case (Cons r rs)
  have "length (frames (outs out [r])) \<le> length (frame r)"
    using Cons.prems out_fits [of r] by (cases "out r") (simp_all add: outs_def)
  then show ?case using Cons unfolding outs_Cons [of out r rs] by simp
qed simp

lemma outs_records:
  assumes "records_ok base rs" and "list_all good rs"
  shows "records_ok base (outs out rs)"
  using assms outs_sorted [OF assms(2)] outs_length [OF assms(2)] outs_offsets [OF assms(2)]
  by (fastforce simp: records_ok_def list_all_iff)

definition at :: "'a blockWriter_scheme \<Rightarrow> (bool \<times> logrec) list \<Rightarrow> bool" where
  "at w xs \<longleftrightarrow> wrote C base bm w (outs out (map snd xs)) \<and> tally w xs"

lemma keep_all:
  assumes "at w xs" and "list_all good (map snd xs @ c)" and "records_ok base (map snd xs @ c)"
  shows "\<exists>w'. fold_result keep (map frame c) w = Inr w' \<and> at w' (xs @ map (Pair False) c)"
  using assms
proof (induction c arbitrary: w xs)
  case (Cons r c)
  have ok: "records_ok base (map snd xs @ [r])" using Cons.prems(3) records_ok_prefix [of base "map snd xs @ [r]" c] by simp
  then have "records_ok base (outs out (map snd xs) @ outs out [r])"
    using outs_records [of "map snd xs @ [r]"] Cons.prems(2) by simp
  then obtain w' where k: "keep (frame r) w = Inr w'" "wrote C base bm w' (outs out (map snd xs) @ outs out [r])" "tally w' (xs @ [(False, r)])"
    using keep_one [of w "outs out (map snd xs)" xs r] Cons.prems(1,2) by (auto simp: at_def)
  then have "at w' (xs @ [(False, r)])" by (simp add: at_def)
  then obtain w'' where "fold_result keep (map frame c) w' = Inr w''" "at w'' ((xs @ [(False, r)]) @ map (Pair False) c)"
    using Cons.IH [of w' "xs @ [(False, r)]"] Cons.prems(2,3) by auto
  then show ?case using k(1) by simp
qed simp

lemma flush_at:
  assumes "at w xs" and "list_all good (map snd xs)" and "records_ok base (map snd xs)"
  shows "\<exists>w' cs. bw_flush C all_written w = Inr w' \<and> at w' xs \<and> seg_ok C (bw_seg w') cs \<and> concat cs = outs out (map snd xs) \<and> bw_buf w' = []"
proof -
  obtain s n cs where f: "bw_flush C all_written w = Inr (w \<lparr>bw_seg := s, bw_buf := [], bw_writes := n\<rparr>)"
    "seg_ok C s cs" "concat cs = outs out (map snd xs)" "s_BaseOffset s = base" "s_blockMode s = bm"
    using bw_flush_wrote [of C base bm w "outs out (map snd xs)"] outs_records assms codecs [of w xs] by (auto simp: at_def)
  then have "at (w \<lparr>bw_seg := s, bw_buf := [], bw_writes := n\<rparr>) xs"
    using assms(1) tally_bw unfolding at_def wrote_def by (intro conjI exI [of _ cs] exI [of _ "[]"]) simp_all
  then show ?thesis using f by (intro exI [of _ "w \<lparr>bw_seg := s, bw_buf := [], bw_writes := n\<rparr>"] exI [of _ cs]) simp
qed

lemma walk_block_at:
  assumes "at w xs" and "open_holds C s (map snd xs @ c @ post)" and "\<not> s_blocksPending s"
    and "list_all good (map snd xs @ c)" and "records_ok base (map snd xs @ c)" and "c \<noteq> []"
    and b: "decodes_to C s b (frames c)" "logicalStart b = int (length (frames (map snd xs)))"
  shows "\<exists>w'. walk_block C all_written s keep passes_whole b (int (length (frames (map snd xs))), w) =
       Inr (int (length (frames (map snd xs @ c))), w') \<and> at w' (xs @ map (Pair (carried bm passes b c)) c)"
proof -
  have fo: "list_all frame_ok c" using assms(4) good_frame by (auto simp: list_all_iff)
  have e: "logicalStart b + logicalLen b = int (length (frames (map snd xs @ c)))" using b by (simp add: decodes_to_def)
  note sc = scan_until_frames [OF assms(2) fo assms(3)]
  have wh: "passes_whole (map frame c) = Inr (passes c)" using whole_total assms(4) by simp
  have md: "s_blockMode (bw_seg w) = bm" "\<not> s_closed s" using assms(1,2) by (auto simp: at_def wrote_def open_holds_def)
  have fr: "concat (map frame c) = frames c" by (simp add: frames_def)
  show ?thesis
  proof (cases "carried bm passes b c")
    case True
    then have k: "\<not> mergeable b" "passes c" "bm" by (simp_all add: carried_def)
    then have oc: "outs out c = c" using whole_kept [of c] assms(4) by (intro outs_id) simp
    have "wrote C base bm w (outs out (map snd xs))" using assms(1) by (simp add: at_def)
    then have wt: "wrote C base True w (outs out (map snd xs))" using k(3) by simp
    have "records_ok base (outs out (map snd xs) @ c)" using outs_records [OF assms(5,4)] by (simp add: oc)
    then obtain t n where t: "carry_block C all_written s b (frames c) w = Inr (w \<lparr>bw_seg := t, bw_buf := [], bw_writes := n\<rparr>)"
      "wrote C base True (w \<lparr>bw_seg := t, bw_buf := [], bw_writes := n\<rparr>) (outs out (map snd xs) @ c)"
      using carry_block_wrote [OF wt _ codecs assms(6) md(2) b(1) k(1), of w xs] assms(1) by (auto simp: at_def)
    let ?w = "w \<lparr>bw_seg := t, bw_buf := [], bw_writes := n\<rparr>"
    have "tally ?w (xs @ map (Pair True) c)" using whole_tally [of c] k(2) assms(1,4) tally_bw by (simp add: at_def)
    moreover have "wrote C base bm ?w (outs out (map snd xs) @ c)" using t(2) k(3) by simp
    ultimately have "at ?w (xs @ map (Pair (carried bm passes b c)) c)" using True by (simp add: at_def comp_def oc)
    moreover have "walk_block C all_written s keep passes_whole b (int (length (frames (map snd xs))), w) = Inr (int (length (frames (map snd xs @ c))), ?w)"
      unfolding walk_block_def prod.case e sc using k md(1) wh t(1) fr by simp
    ultimately show ?thesis by blast
  next
    case False
    show ?thesis
    proof (cases "mergeable b \<or> b_flags b AND FlagControl = 0")
      case True
      obtain w' where "fold_result keep (map frame c) w = Inr w'" "at w' (xs @ map (Pair False) c)"
        using keep_all [OF assms(1,4,5)] by blast
      moreover have "walk_block C all_written s keep passes_whole b (int (length (frames (map snd xs))), w) =
          and_then (fold_result keep (map frame c) w) (\<lambda>w. Inr (int (length (frames (map snd xs @ c))), w))"
        unfolding walk_block_def prod.case e sc using False True md(1) wh by (auto simp: carried_def Let_def)
      ultimately show ?thesis using False by simp
    next
      case ctl: False
      have rp: "records_ok base (map snd xs)" using assms(5) records_ok_prefix by blast
      obtain w1 where w1: "bw_flush C all_written w = Inr w1" "at w1 xs" using flush_at [OF assms(1)] assms(4) rp by auto
      obtain w2 where w2: "fold_result keep (map frame c) w1 = Inr w2" "at w2 (xs @ map (Pair False) c)"
        using keep_all [OF w1(2) assms(4,5)] by blast
      have mp: "map snd (xs @ map (Pair False) c) = map snd xs @ c" by (simp add: comp_def)
      obtain w3 where w3: "bw_flush C all_written w2 = Inr w3" "at w3 (xs @ map (Pair False) c)"
        using flush_at [OF w2(2)] assms(4,5) unfolding mp by blast
      have "walk_block C all_written s keep passes_whole b (int (length (frames (map snd xs))), w) =
          Inr (int (length (frames (map snd xs @ c))), w3)"
        unfolding walk_block_def prod.case e sc using False ctl md(1) wh w1(1) w2(1) w3(1) by (auto simp: carried_def Let_def)
      then show ?thesis using w3(2) False by simp
    qed
  qed
qed

lemma walk_blocks_at:
  assumes "at w xs" and "open_holds C s (map snd xs @ concat cs)" and "\<not> s_blocksPending s"
    and "list_all good (map snd xs @ concat cs)" and "records_ok base (map snd xs @ concat cs)" and "[] \<notin> set cs"
    and "tiled (int (length (frames (map snd xs)))) p bs" and "list_all2 (decodes_to C s) bs (map frames cs)"
  shows "\<exists>pos w'. fold_result (walk_block C all_written s keep passes_whole) bs (int (length (frames (map snd xs))), w) = Inr (pos, w') \<and>
     at w' (xs @ concat (map2 (\<lambda>b c. map (Pair (carried bm passes b c)) c) bs cs))"
  using assms
proof (induction bs arbitrary: w xs cs p)
  case (Cons b bs)
  then obtain c cs' where cs: "cs = c # cs'" "decodes_to C s b (frames c)" "list_all2 (decodes_to C s) bs (map frames cs')"
    by (cases cs) auto
  let ?ys = "xs @ map (Pair (carried bm passes b c)) c"
  have ys: "map snd ?ys = map snd xs @ c" by (simp add: comp_def)
  have td: "logicalStart b = int (length (frames (map snd xs)))" "tiled (int (length (frames (map snd ?ys)))) (p + physLen b) bs"
    using Cons.prems(7) cs(2) by (auto simp: decodes_to_def comp_def)
  have ok: "records_ok base (map snd xs @ c)" using Cons.prems(5) cs(1) records_ok_prefix [of base "map snd xs @ c" "concat cs'"] by simp
  obtain w' where w': "walk_block C all_written s keep passes_whole b (int (length (frames (map snd xs))), w) =
       Inr (int (length (frames (map snd xs @ c))), w')" "at w' ?ys"
    using walk_block_at [OF Cons.prems(1) _ Cons.prems(3) _ ok _ cs(2) td(1), of "concat cs'"] Cons.prems(2,4,6) cs(1) by auto
  obtain pos w'' where "fold_result (walk_block C all_written s keep passes_whole) bs (int (length (frames (map snd ?ys))), w') = Inr (pos, w'')"
    "at w'' (?ys @ concat (map2 (\<lambda>b c. map (Pair (carried bm passes b c)) c) bs cs'))"
    using Cons.IH [OF w'(2) _ Cons.prems(3) _ _ _ td(2) cs(3)] Cons.prems(2,4-6) cs(1) unfolding ys by auto
  then show ?case using w'(1) unfolding ys by (intro exI [of _ pos] exI [of _ w'']) (simp add: cs(1))
qed simp

lemma rewriteWalk_at:
  assumes "seg_holds C s cs" and "s_live s" and "s_BaseOffset s = base" and "list_all good (concat cs)" and "at w []"
  shows "\<exists>w'. rewriteWalk C all_written s keep passes_whole w = Inr w' \<and> at w' (tagged bm passes s cs)"
proof -
  have o: "open_holds C s (concat cs)" "\<not> s_blocksPending s" using seg_open [OF assms(1,2)] by simp_all
  have h: "records_ok base (concat cs)" "seg_bytes C s cs" "[] \<notin> set cs" using assms(1,3) by (simp_all add: seg_holds_def)
  have el: "ensureBlocksLoaded s = Inr s" using o(2) by (simp add: ensureBlocksLoaded_def)
  show ?thesis
  proof (cases "s_blockMode s")
    case True
    then have "tiled 0 0 (s_blocks s)" "list_all2 (decodes_to C s) (s_blocks s) (map frames cs)"
      using h(2) by (simp_all add: seg_bytes_def)
    then obtain pos w' where "fold_result (walk_block C all_written s keep passes_whole) (s_blocks s) (0, w) = Inr (pos, w')" "at w' (tagged bm passes s cs)"
      using walk_blocks_at [OF assms(5), of s cs 0 "s_blocks s"] o assms(4) h(1,3) True by (auto simp: tagged_def)
    then show ?thesis using True by (simp add: rewriteWalk_def el blockTailFrom_all [OF h(2)])
  next
    case False
    obtain w' where "fold_result keep (map frame (concat cs)) w = Inr w'" "at w' (map (Pair False) (concat cs))"
      using keep_all [OF assms(5), of "concat cs"] assms(4) h(1) by auto
    moreover have "list_all frame_ok (concat cs)" using assms(4) good_frame by (auto simp: list_all_iff)
    then have "scan_all C s 0 = (map frame (concat cs), EOF)" using scan_all_frames [of C s "[]"] o by simp
    ultimately show ?thesis using False
      by (simp add: rewriteWalk_def el blockTailFrom_def walk_raw_def tagged_def del: map_concat)
  qed
qed

text \<open>The copy a rewrite ends with holds exactly what was kept.\<close>

lemma rewrite_copy:
  assumes "seg_holds C s cs" and "s_live s" and "s_BaseOffset s = base" and "list_all good (concat cs)" and "at w []"
  shows "\<exists>w' ds. and_then (rewriteWalk C all_written s keep passes_whole w) (bw_flush C all_written) = Inr w' \<and>
     tally w' (tagged bm passes s cs) \<and> seg_ok C (bw_seg w') ds \<and> concat ds = outs out (concat cs) \<and>
     s_BaseOffset (bw_seg w') = base"
proof -
  obtain v where v: "rewriteWalk C all_written s keep passes_whole w = Inr v" "at v (tagged bm passes s cs)"
    using rewriteWalk_at [OF assms] by blast
  have t: "map snd (tagged bm passes s cs) = concat cs" using assms(1) by (auto simp: seg_holds_def intro: tagged_snd)
  have "records_ok base (concat cs)" using assms(1,3) by (simp add: seg_holds_def)
  then obtain w' ds where "bw_flush C all_written v = Inr w'" "at w' (tagged bm passes s cs)" "seg_ok C (bw_seg w') ds" "concat ds = outs out (concat cs)"
    using flush_at [OF v(2)] assms(4) unfolding t by blast
  then show ?thesis using v(1) by (auto simp: at_def wrote_def)
qed

end

section \<open>A compaction rewrite\<close>

definition disp_of :: "CleanSpec \<Rightarrow> dropSet option \<Rightarrow> logrec \<Rightarrow> disposition" where
  "disp_of spec ds r = or_else dispRetain (classify spec (lr_offset r) (lr_payload r) ds)"

definition clean_out :: "orders \<Rightarrow> CleanSpec \<Rightarrow> dropSet option \<Rightarrow> logrec \<Rightarrow> logrec option" where
  "clean_out ord spec ds r =
     (case disp_of spec ds r of
        dispRemove \<Rightarrow> None
      | dispStrip \<Rightarrow> Some (strip_rec ord (cs_StripHeaders spec) r)
      | dispRetain \<Rightarrow> Some r)"

text \<open>A record the pass strips, and one that keeps a header the pass is to strip elsewhere.\<close>

definition loses_headers :: "CleanSpec \<Rightarrow> dropSet option \<Rightarrow> logrec \<Rightarrow> bool" where
  "loses_headers spec ds r \<longleftrightarrow> disp_of spec ds r = dispStrip \<and> crcMatches (lr_payload r) = Inr True \<and> any_header (rec_headers r) (cs_StripHeaders spec)"

definition residual :: "CleanSpec \<Rightarrow> dropSet option \<Rightarrow> logrec \<Rightarrow> bool" where
  "residual spec ds r \<longleftrightarrow>
     (case disp_of spec ds r of
        dispRemove \<Rightarrow> False
      | dispStrip \<Rightarrow> crcMatches (lr_payload r) \<noteq> Inr True
      | dispRetain \<Rightarrow> stripActive spec \<and> \<not> is_control r \<and> lr_offset r \<ge> cs_StripBelow spec \<and> any_header (rec_headers r) (cs_StripHeaders spec))"

definition all_retained :: "CleanSpec \<Rightarrow> dropSet option \<Rightarrow> logrec list \<Rightarrow> bool" where
  "all_retained spec ds rs \<longleftrightarrow> (\<forall>r \<in> set rs. disp_of spec ds r = dispRetain)"

definition clean_tally :: "codecs \<Rightarrow> CleanSpec \<Rightarrow> dropSet option \<Rightarrow> keepState \<Rightarrow> (bool \<times> logrec) list \<Rightarrow> bool" where
  "clean_tally C spec ds w xs \<longleftrightarrow> codecs_ok C \<and>
     kp_removed w = length (filter (\<lambda>r. disp_of spec ds r = dispRemove) (map snd xs)) \<and>
     kp_stripped w = length (filter (loses_headers spec ds) (map snd xs)) \<and>
     (kp_residual w \<longleftrightarrow> (\<exists>(c, r) \<in> set xs. \<not> c \<and> residual spec ds r))"

lemma classify_disp:
  assumes "sound r"
  shows "classify spec (lr_offset r) (lr_payload r) ds = Inr (disp_of spec ds r)"
proof -
  have "readable r" using assms by (simp add: sound_def)
  note f = readable_fields [OF this]
  then have "\<exists>d. classify spec (lr_offset r) (lr_payload r) ds = Inr d" by (auto simp: classify_def Let_def)
  then show ?thesis by (auto simp: disp_of_def or_else_def)
qed

lemma strip_or_copy_sound:
  assumes "sound r" and "orders_ok ord" and "disp_of spec ds r = dispStrip"
  shows "strip_or_copy ord spec (frame r) w =
     Inr (frame (strip_rec ord (cs_StripHeaders spec) r),
          w \<lparr>kp_stripped := kp_stripped w + (if loses_headers spec ds r then 1 else 0),
             kp_corrupt := kp_corrupt w + (if crcMatches (lr_payload r) = Inr True then 0 else 1),
             kp_residual := (kp_residual w \<or> residual spec ds r)\<rparr>)"
proof -
  have s: "stripFrame ord (frame r) (cs_StripHeaders spec) =
       (if crcMatches (lr_payload r) \<noteq> Inr True then Inl ErrCorruptRecord
        else if \<not> any_header (rec_headers r) (cs_StripHeaders spec) then Inr None
        else Inr (Some (frame (strip_rec ord (cs_StripHeaders spec) r))))" using strip_sound [OF assms(1,2)] by blast
  have id: "strip_rec ord (cs_StripHeaders spec) r = r"
    if "crcMatches (lr_payload r) \<noteq> Inr True \<or> \<not> any_header (rec_headers r) (cs_StripHeaders spec)"
    using that by (auto simp: strip_rec_def s)
  show ?thesis
  proof (cases "crcMatches (lr_payload r) = Inr True \<and> any_header (rec_headers r) (cs_StripHeaders spec)")
    case True
    then show ?thesis using assms(3) by (simp add: strip_or_copy_def s loses_headers_def residual_def)
  next
    case False
    then show ?thesis using assms(3) id by (simp add: strip_or_copy_def s loses_headers_def residual_def)
  qed
qed

lemma note_residual_sound:
  assumes "sound r" and "disp_of spec ds r = dispRetain"
  shows "note_residual spec (lr_offset r) (lr_payload r) w = Inr (w \<lparr>kp_residual := (kp_residual w \<or> residual spec ds r)\<rparr>)"
proof -
  have "readable r" using assms by (simp add: sound_def)
  note f = readable_fields [OF this]
  show ?thesis using assms(2) f
    by (cases w) (auto simp: note_residual_def residual_def is_control_def hasAnyHeader_def any_header_def)
qed

lemma keep_record_one:
  assumes "wrote C base bm w rs" and "clean_tally C spec ds w xs" and "sound r" and "orders_ok ord"
    and "records_ok base (rs @ outs (clean_out ord spec ds) [r])"
  shows "\<exists>w'. keep_record C all_written ord spec ds (frame r) w = Inr w' \<and>
     wrote C base bm w' (rs @ outs (clean_out ord spec ds) [r]) \<and> clean_tally C spec ds w' (xs @ [(False, r)])"
proof -
  have fo: "frame_ok r" using assms(3) by (simp add: sound_def)
  note acc = frame_accessors [OF fo, of "[]", simplified]
  note cl = classify_disp [OF assms(3), of spec ds]
  have wr: "wrote C base bm w' rs" if "bw_seg w' = bw_seg w" "bw_buf w' = bw_buf w" for w' :: keepState
    using assms(1) that by (simp add: wrote_def)
  have add: "\<exists>w'. bw_add C all_written (frame q) v = Inr w' \<and> wrote C base bm w' (rs @ [q]) \<and> clean_tally C spec ds w' zs"
    if v: "wrote C base bm v rs" "clean_tally C spec ds v zs" "records_ok base (rs @ [q])" for v q zs
  proof -
    have "codecs_ok C" using assms(2) by (simp add: clean_tally_def)
    then obtain s b n where "bw_add C all_written (frame q) v = Inr (v \<lparr>bw_seg := s, bw_buf := b, bw_writes := n\<rparr>)"
      "wrote C base bm (v \<lparr>bw_seg := s, bw_buf := b, bw_writes := n\<rparr>) (rs @ [q])" using bw_add_wrote [OF v(1,3)] by blast
    then show ?thesis using v(2) by (auto simp: clean_tally_def)
  qed
  show ?thesis
  proof (cases "disp_of spec ds r")
    case dispRemove
    let ?w = "w \<lparr>kp_removed := kp_removed w + 1\<rparr>"
    have "keep_record C all_written ord spec ds (frame r) w = Inr ?w" by (simp add: keep_record_def acc cl dispRemove)
    moreover have "clean_tally C spec ds ?w (xs @ [(False, r)])"
      using assms(2) dispRemove by (auto simp: clean_tally_def loses_headers_def residual_def)
    ultimately show ?thesis using wr [of ?w] dispRemove by (simp add: outs_def clean_out_def)
  next
    case dispStrip
    let ?v = "w \<lparr>kp_stripped := kp_stripped w + (if loses_headers spec ds r then 1 else 0),
             kp_corrupt := kp_corrupt w + (if crcMatches (lr_payload r) = Inr True then 0 else 1),
             kp_residual := (kp_residual w \<or> residual spec ds r)\<rparr>"
    have "keep_record C all_written ord spec ds (frame r) w = bw_add C all_written (frame (strip_rec ord (cs_StripHeaders spec) r)) ?v"
      by (simp add: keep_record_def acc cl dispStrip strip_or_copy_sound [OF assms(3,4) dispStrip])
    moreover have "clean_tally C spec ds ?v (xs @ [(False, r)])" using assms(2) dispStrip by (auto simp: clean_tally_def)
    ultimately show ?thesis using add [of ?v] wr [of ?v] assms(5) dispStrip by (simp add: outs_def clean_out_def)
  next
    case dispRetain
    let ?v = "w \<lparr>kp_residual := (kp_residual w \<or> residual spec ds r)\<rparr>"
    have "keep_record C all_written ord spec ds (frame r) w = bw_add C all_written (frame r) ?v"
      by (simp add: keep_record_def acc cl dispRetain note_residual_sound [OF assms(3) dispRetain])
    moreover have "clean_tally C spec ds ?v (xs @ [(False, r)])" using assms(2) dispRetain by (auto simp: clean_tally_def loses_headers_def)
    ultimately show ?thesis using add [of ?v] wr [of ?v] assms(5) dispRetain by (simp add: outs_def clean_out_def)
  qed
qed

lemma whole_block_total:
  "list_all sound rs \<Longrightarrow> whole_block spec ds (map frame rs) = Inr (all_retained spec ds rs)"
proof (induction rs)
  case (Cons r rs)
  then have "frame_ok r" by (simp add: sound_def)
  note acc = frame_accessors [OF this, of "[]", simplified]
  show ?case using Cons classify_disp [of r spec ds] by (simp add: acc all_retained_def)
qed (simp add: all_retained_def)

interpretation clean: rewrite C base bm "keep_record C all_written ord spec ds" "whole_block spec ds" "clean_out ord spec ds"
  "all_retained spec ds" "clean_tally C spec ds" "\<lambda>r. sound r \<and> orders_ok ord"
proof unfold_locales
  fix r r' assume r: "sound r \<and> orders_ok ord" "clean_out ord spec ds r = Some r'"
  then have "r' = r \<or> r' = strip_rec ord (cs_StripHeaders spec) r" by (auto simp: clean_out_def split: disposition.splits)
  then show "frame_ok r' \<and> lr_offset r' = lr_offset r \<and> length (lr_payload r') \<le> length (lr_payload r)"
    using strip_sound [of r ord "cs_StripHeaders spec"] r(1) by (auto simp: sound_def stripped_def)
next
  fix rs assume "list_all (\<lambda>r. sound r \<and> orders_ok ord) rs"
  then show "whole_block spec ds (map frame rs) = Inr (all_retained spec ds rs)"
    by (intro whole_block_total) (simp add: list_all_iff)
next
  fix w xs rs assume "all_retained spec ds rs" and t: "clean_tally C spec ds w xs"
  then have "\<forall>r \<in> set rs. disp_of spec ds r \<noteq> dispRemove \<and> \<not> loses_headers spec ds r" by (auto simp: all_retained_def loses_headers_def)
  then have "filter (\<lambda>r. disp_of spec ds r = dispRemove) rs = []" "filter (loses_headers spec ds) rs = []" by (simp_all add: filter_empty_conv)
  then show "clean_tally C spec ds w (xs @ map (Pair True) rs)" using t by (auto simp: clean_tally_def comp_def)
next
  fix w rs xs r
  assume "wrote C base bm w rs" "clean_tally C spec ds w xs" "sound r \<and> orders_ok ord" "records_ok base (rs @ outs (clean_out ord spec ds) [r])"
  then show "\<exists>w'. keep_record C all_written ord spec ds (frame r) w = Inr w' \<and>
      wrote C base bm w' (rs @ outs (clean_out ord spec ds) [r]) \<and> clean_tally C spec ds w' (xs @ [(False, r)])"
    using keep_record_one by blast
qed (simp_all add: clean_tally_def sound_def all_retained_def clean_out_def)

interpretation consolidate: rewrite C base bm "bw_add C all_written" "\<lambda>_. Inr True" Some "\<lambda>_. True"
  "\<lambda>w :: blockWriter. \<lambda>xs. codecs_ok C" frame_ok
proof unfold_locales
  fix w :: blockWriter and rs xs r
  assume "wrote C base bm w rs" "codecs_ok C" "records_ok base (rs @ outs Some [r])"
  then show "\<exists>w'. bw_add C all_written (frame r) w = Inr w' \<and> wrote C base bm w' (rs @ outs Some [r]) \<and> codecs_ok C"
    using bw_add_wrote [of C base bm w rs r] by (auto simp: outs_def)
qed auto

end
