(* ===== verification/Segment_Clean.thy ===== *)
theory Segment_Clean
  imports Rewrite_Holds
begin

text \<open>
  What \<^verbatim>\<open>cleanSegment\<close> and \<^verbatim>\<open>consolidateOne\<close> leave of a segment, and what the stamp on its digest says.
\<close>

section \<open>A rewrite the world lets succeed\<close>

text \<open>
  No file operation fails, and installing a copy gives a segment that holds what the copy held (it is the copy,
  reopened under its source's name, or the source over its new objects).
\<close>

definition env_ok :: "codecs \<Rightarrow> rewriteEnv \<Rightarrow> bool" where
  "env_ok C env \<longleftrightarrow> dk_io (rw_disk env) = io_ok \<and> dk_size (rw_disk env) \<and> rw_remove env \<and> rw_writes env = all_written \<and>
     orders_ok (rw_orders env) \<and> (\<forall>s. rw_delete env s = None) \<and>
     (\<forall>s copy cs. seg_ok C copy cs \<longrightarrow> (\<exists>s' cs'. rw_install env s copy = Inr s' \<and> seg_ok C s' cs' \<and> concat cs' = concat cs \<and>
        s_BaseOffset s' = s_BaseOffset copy))"

lemma Cleaned_fresh:
  assumes "env_ok C env" and "seg_ok C s cs"
  shows "\<exists>copy. Cleaned C (rw_disk env) (rw_remove env) s = Some (Inr copy) \<and> seg_ok C copy [] \<and> s_BaseOffset copy = s_BaseOffset s \<and>
     s_blockMode copy = (s_codec s \<noteq> None_codec \<or> s_format s = v3_Version)"
proof -
  let ?d = "rw_disk env"
  have b: "0 \<le> s_BaseOffset s" using assms(2) holds_bounds(3) by (auto simp: seg_ok_def)
  obtain copy where c: "newSegmentWith C io_ok True (dk_cut ?d) (dk_sync ?d) (dk_table ?d) (s_BaseOffset s) (s_maxBytes s) True (s_codec s)
      (s_format s) None None [] = Some (Inr copy)" "seg_holds C copy []" "s_live copy" "s_BaseOffset copy = s_BaseOffset s"
      "s_codec copy = s_codec s" "s_maxBytes copy = s_maxBytes s"
      "s_blockMode copy = (s_codec s \<noteq> None_codec \<or> s_format s = v3_Version)"
    using newSegmentWith_fresh_ok [OF b] by blast
  have n: "newSegmentWith C w a b c d base mx False codec format None None [] = newSegmentWith C w a b c d base mx True codec format None None []"
    for w a b c d base mx codec format by (simp add: newSegmentWith_def)
  have "Cleaned C ?d (rw_remove env) s = Some (Inr copy)"
    using assms(1) c(1) by (simp add: Cleaned_def newWorkingSegment_def env_ok_def n)
  then show ?thesis using c assms(2) by (simp add: seg_ok_def)
qed

definition kept_as :: "CleanSpec \<Rightarrow> dropSet option \<Rightarrow> logrec \<Rightarrow> logrec \<Rightarrow> bool" where
  "kept_as spec ds r r' \<longleftrightarrow> (if disp_of spec ds r = dispStrip then stripped (cs_StripHeaders spec) r r' else r' = r)"

lemma outs_clean:
  assumes "list_all sound rs" and "orders_ok ord"
  shows "list_all2 (kept_as spec ds) (filter (\<lambda>r. disp_of spec ds r \<noteq> dispRemove) rs) (outs (clean_out ord spec ds) rs) \<and>
     list_all sound (outs (clean_out ord spec ds) rs)"
  using assms(1)
proof (induction rs)
  case (Cons r rs)
  have "sound r" using Cons.prems by simp
  note st = strip_sound [OF this assms(2), of "cs_StripHeaders spec"]
  show ?case unfolding outs_Cons [of _ r rs] using Cons st
    by (cases "disp_of spec ds r") (simp_all add: outs_def clean_out_def kept_as_def)
qed simp

lemma outs_unchanged:
  assumes "list_all sound rs" and "orders_ok ord"
    and "filter (\<lambda>r. disp_of spec ds r = dispRemove) rs = []" and "filter (loses_headers spec ds) rs = []"
  shows "outs (clean_out ord spec ds) rs = rs"
proof (rule outs_id, rule ballI)
  fix r assume r: "r \<in> set rs"
  then have s: "sound r" "disp_of spec ds r \<noteq> dispRemove" "\<not> loses_headers spec ds r"
    using assms(1,3,4) by (auto simp: list_all_iff filter_empty_conv)
  have "strip_rec ord (cs_StripHeaders spec) r = r" if "disp_of spec ds r = dispStrip"
    using strip_sound [OF s(1) assms(2), of "cs_StripHeaders spec"] s(3) that by (auto simp: strip_rec_def loses_headers_def split: if_splits)
  then show "clean_out ord spec ds r = Some r" using s(2) by (cases "disp_of spec ds r") (simp_all add: clean_out_def)
qed

lemma refreshDigest_holds:
  assumes "seg_ok C s cs" and "list_all sound (concat cs)"
  shows "refreshDigest C ok s st = Inr (if ok then Some (encodeKeyDigest (stamped (fst st) (snd st) (digest_of s (concat cs)))) else None)"
proof -
  have "list_all readable (concat cs)" using assms(2) by (auto simp: list_all_iff sound_def)
  then have "buildKeyDigest C s = Inr (digest_of s (concat cs))" using assms(1) buildKeyDigest_holds by (auto simp: seg_ok_def)
  then show ?thesis by (simp add: refreshDigest_def stamped_def)
qed

section \<open>The scan and its copy\<close>

lemma clean_copy_holds:
  assumes "seg_ok C s cs" and "codecs_ok C" and "orders_ok ord" and "list_all sound (concat cs)"
    and "seg_ok C copy []" and "s_BaseOffset copy = s_BaseOffset s"
  shows "\<exists>w ds'. clean_copy C all_written ord spec ds s copy = Inr w \<and>
     clean_tally C spec ds w (tagged (s_blockMode copy) (all_retained spec ds) s cs) \<and> seg_ok C (bw_seg w) ds' \<and>
     concat ds' = outs (clean_out ord spec ds) (concat cs) \<and> s_BaseOffset (bw_seg w) = s_BaseOffset s"
proof -
  let ?w = "\<lparr>bw_seg = copy, bw_buf = [], bw_writes = 0, kp_removed = 0, kp_stripped = 0, kp_corrupt = 0, kp_residual = False\<rparr>"
  have "wrote C (s_BaseOffset s) (s_blockMode copy) ?w []"
    unfolding wrote_def using assms(5,6) by (intro exI [of _ "[]"]) simp
  moreover have "clean_tally C spec ds ?w []" using assms(2) by (simp add: clean_tally_def)
  ultimately have "clean.at C (s_BaseOffset s) (s_blockMode copy) ord spec ds ?w []" by (simp add: clean.at_def)
  then show ?thesis
    using clean.rewrite_copy [of C s cs "s_BaseOffset s" ord "s_blockMode copy" spec ds ?w] assms(1,3,4)
    by (auto simp: clean_copy_def seg_ok_def list_all_iff)
qed

text \<open>A scan of a segment, and what \<^verbatim>\<open>cleanSegment\<close> makes of it.\<close>

lemma cleanSegment_scan:
  assumes "seg_ok C s cs" and "codecs_ok C" and "env_ok C env" and "list_all sound (concat cs)"
  defines "bm \<equiv> s_codec s \<noteq> None_codec \<or> s_format s = v3_Version"
  shows "\<exists>w ds'. cleanSegment C env spec s ds = Some (finish_clean C env spec s w) \<and> seg_ok C (bw_seg w) ds' \<and>
     concat ds' = outs (clean_out (rw_orders env) spec ds) (concat cs) \<and> s_BaseOffset (bw_seg w) = s_BaseOffset s \<and>
     clean_tally C spec ds w (tagged bm (all_retained spec ds) s cs)"
proof -
  obtain copy where c: "Cleaned C (rw_disk env) (rw_remove env) s = Some (Inr copy)" "seg_ok C copy []" "s_BaseOffset copy = s_BaseOffset s" "s_blockMode copy = bm"
    using Cleaned_fresh [OF assms(3,1)] unfolding bm_def by blast
  have e: "orders_ok (rw_orders env)" "rw_writes env = all_written" using assms(3) by (simp_all add: env_ok_def)
  obtain w ds' where w: "clean_copy C all_written (rw_orders env) spec ds s copy = Inr w"
    "clean_tally C spec ds w (tagged bm (all_retained spec ds) s cs)" "seg_ok C (bw_seg w) ds'"
    "concat ds' = outs (clean_out (rw_orders env) spec ds) (concat cs)" "s_BaseOffset (bw_seg w) = s_BaseOffset s"
    using clean_copy_holds [OF assms(1,2) e(1) assms(4) c(2,3)] unfolding c(4) by blast
  have "cleanSegment C env spec s ds = Some (finish_clean C env spec s w)" by (simp add: cleanSegment_def c(1) e(2) w(1))
  then show ?thesis using w by blast
qed

section \<open>Samples\<close>

definition sample_env :: rewriteEnv where
  "sample_env = \<lparr>rw_disk = disk_ok, rw_remove = True, rw_writes = all_written, rw_orders = (\<lambda>hm. (hm, hm)),
     rw_delete = (\<lambda>_. None), rw_install = (\<lambda>_ copy. Inr copy), rw_digest = True\<rparr>"

lemma sample_env_ok: "env_ok C sample_env"
  by (auto simp: env_ok_def sample_env_def disk_ok_def orders_ok_def)

definition strip_spec :: CleanSpec where
  "strip_spec = (plain_spec 103) \<lparr>cs_StripBelow := 103, cs_StripHeaders := [[104]]\<rparr>"

lemma disp_of_eq:
  assumes "sound r"
  shows "disp_of spec ds r =
     (let strip = lr_offset r < cs_StripBelow spec \<and> cs_StripHeaders spec \<noteq> [];
          kept = (if strip then dispStrip else dispRetain) in
      if lr_offset r \<ge> cs_ceiling spec then dispRetain
      else if is_control r then (if strip then dispRemove else dispRetain)
      else if aborted spec (lr_offset r) then dispRemove
      else if rec_key r \<noteq> None \<and> dropSet_get ds (lr_offset r) then dispRemove else kept)"
proof -
  have "readable r" using assms by (simp add: sound_def)
  note f = readable_fields [OF this]
  show ?thesis by (simp add: disp_of_def classify_def f or_else_def Let_def is_control_def)
qed

lemma a_note_sound:
  assumes "k \<in> {None, Some [107], Some [108]}" and "hs \<in> {[], [([104], [1])]}" and "in_i64 ts" and "in_i64 off"
  shows "sound (a_note a k hs ts off)"
proof -
  let ?m = "\<lparr>Crc = 0, MagicByte = 2, Attributes = a, Key = k, Value = Some [1], Headers = map (apsnd Some) hs, Timestamp = ts, LeaderEpoch = 1\<rparr>"
  have "written (lr_payload (a_note a k hs ts off)) hs ?m"
    using assms(1,2) by (auto simp: written_def a_note_def record_of_def encodable_def string_ok_def MaxInt16_def MaxInt32_def)
  then show ?thesis using a_note_small [OF assms] by (auto simp: sound_def)
qed

lemma sample_notes_sound: "list_all sound sample_notes"
  by (simp add: sample_notes_def a_note_sound)

definition sample_drop :: dropSet where
  "sample_drop = dropSet_set 100 (newDropSet 100 105)"

lemma sample_drop_get: "dropSet_get (Some sample_drop) 100" "\<not> dropSet_get (Some sample_drop) 102"
  by (simp_all add: sample_drop_def dropSet_set_def newDropSet_def dropSet_get_def)

text \<open>The frames a version-3 block reads as are records a rewrite can strip.\<close>

lemma wire_fits:
  assumes "length (wire hs m) < 2 ^ 31"
  shows "bytes_ok (Key m)" "bytes_ok (Value m)" "h \<in> set hs \<Longrightarrow> bytes_ok (snd h)"
proof -
  have f: "bytes_ok x" if "length (wire_field x) < 2 ^ 31" for x using that by (cases x) (simp_all add: wire_field_def MaxInt32_def)
  have l: "length (wire hs m) = 4 + (2 + length (wire_field (Key m)) + length (wire_field (Value m)) + 2 + length (concat (map wire_header hs)))"
    by (simp add: wire_def wire_body_def)
  show "bytes_ok (Key m)" "bytes_ok (Value m)" using assms l by (auto intro!: f)
  assume "h \<in> set hs"
  then have "length (wire_header h) \<le> length (concat (map wire_header hs))" by (induction hs) auto
  then show "bytes_ok (snd h)" using assms l by (intro f) (simp add: wire_header_def)
qed

lemma v3_logrec_sound:
  assumes "headers_wf (r_Headers r)" and "headers_fit h i r" and "frame_ok (v3_logrec h i r)"
  shows "sound (v3_logrec h i r)" and "rec_headers (v3_logrec h i r) = read_headers h i r"
proof -
  let ?hs = "sort_key fst (record_headers h i r)" and ?m = "v3_message h i r"
  have wf: "headers_wf ?hs" using record_headers_wf [OF assms(1), of h i] by (auto simp: headers_wf_def distinct_map)
  have eq: "?hs = map (apsnd Some) (read_headers h i r)"
    unfolding read_headers_def map_map
    by (rule sym, rule map_idI) (use wf in \<open>force simp: headers_wf_def nil_bytes_def\<close>)
  have l: "length (wire ?hs ?m) < 2 ^ 31" using assms(3) by (simp add: frame_ok_def v3_logrec_payload)
  have "encodable ?hs ?m"
    using wire_fits [OF l] assms(2) by (auto simp: encodable_def list_all_iff headers_fit_def string_ok_def MaxInt16_def)
  then have w: "written (lr_payload (v3_logrec h i r)) (read_headers h i r) ?m"
    using assms(2) wf unfolding written_def v3_logrec_payload eq [symmetric]
    by (simp add: read_headers_def headers_wf_def headers_fit_def case_prod_beta comp_def)
  have "length (lr_payload (v3_logrec h i r)) < 2 ^ 31" using assms(3) by (simp add: frame_ok_def)
  note f = written_fields [OF w this]
  show "sound (v3_logrec h i r)" using assms(3) f(1) w by (auto simp: sound_def)
  show "rec_headers (v3_logrec h i r) = read_headers h i r" by (rule f(4))
qed

lemma sample_v3_segment:
  "\<exists>s c. seg_ok raw_codecs s [c] \<and> s_blockMode s \<and> s_codec s = Snappy \<and> (\<forall>b \<in> set (s_blocks s). \<not> mergeable b) \<and>
     list_all sound c \<and> (\<forall>r \<in> set c. 7 \<le> lr_offset r \<and> lr_offset r < 2 ^ 32 \<and> any_header (rec_headers r) [hdrProducerID]) \<and> c \<noteq> []"
proof -
  let ?recs = "map sorted_headers sample_records" and ?t = "(emptySegment 7 1000 Snappy) \<lparr>s_blockMode := True, s_Index := Some (index_of 7 [] 40)\<rparr>"
  obtain h where h: "DecodeBlock raw_codecs sample_block = Inr (h, ?recs)" "h_BaseOffset h = 7" "h_BaseTimestamp h = 1000" "is_stamped h"
    using sample_header_decoded by blast
  let ?c = "v3_logrecs h 0 ?recs"
  have fit: "all_fit h 0 ?recs"
    by (simp add: sample_records_def sorted_headers_def headers_fit_def record_headers_def id_headers_def Let_def
        hdrProducerID_def hdrProducerEpoch_def hdrSequence_def hdrNonce_def)
  have d: "decodeV3Block raw_codecs sample_block = Inr (frames ?c)" using fit by (simp add: decodeV3Block_def h synthesizeFraming_frames)
  have ok: "records_ok 7 ?c"
    by (simp add: records_ok_def sample_records_def sorted_headers_def frame_ok_def v3_logrec_def record_of_def v3_message_def h
        record_headers_def id_headers_def Let_def wire_def wire_body_def wire_field_def wire_header_def
        wire_string_def nil_bytes_def hdrProducerID_def hdrProducerEpoch_def hdrSequence_def hdrNonce_def)
  have ne: "?c \<noteq> []" by (simp add: sample_records_def)
  have "ix_holds 7 (index_of 7 [] 40) []" by (rule index_of_holds) simp
  then have t: "seg_ok raw_codecs ?t []" "s_blockMode ?t" "s_BaseOffset ?t = 7"
    by (simp_all add: seg_ok_def seg_holds_def emptySegment_def records_ok_def ends_match_def seg_bytes_def s_live_def codec_Valid_def Snappy_def Zstd_def)
  obtain t' b g where t': "seg_holds raw_codecs t' [?c]" "same_shape ?t t'" "s_blocks t' = [b]" "b_version b = v3_Version"
      "DecodeHeader sample_block = Inr g" "b_flags b = h_Flags g"
    using WriteBlock_carries [OF t(1,2) ne _ d, of Snappy] ok t(3) by (auto simp: emptySegment_def)
  have "g = h" using h(1) t'(5) by (auto simp: DecodeBlock_def VerifyPayload_def and_then_Inr_iff split: if_splits)
  then have "\<not> mergeable b" using t'(4,6) h(4) by (simp add: mergeable_def is_stamped_def)
  moreover have "seg_ok raw_codecs t' [?c]" "s_blockMode t'" "s_codec t' = Snappy"
    using same_shape_ok [OF t(1) t'(1,2)] t'(2) by (simp_all add: same_shape_def emptySegment_def)
  moreover have rec: "sound r \<and> 7 \<le> lr_offset r \<and> lr_offset r < 2 ^ 32 \<and> any_header (rec_headers r) [hdrProducerID]" if r: "r \<in> set ?c" for r
  proof -
    obtain i where i: "i < length ?recs" "r = v3_logrec h i (?recs ! i)" using r v3_logrecs_nth [of _ ?recs h 0] by (auto simp: in_set_conv_nth)
    have "headers_wf (r_Headers (?recs ! i))" by (rule DecodeBlock_headers_wf [OF h(1) nth_mem [OF i(1)]])
    moreover have "headers_fit h i (?recs ! i)" using all_fit_nth [OF fit i(1)] by simp
    moreover have "frame_ok r" using ok r by (simp add: records_ok_def list_all_iff)
    ultimately have s: "sound r" "rec_headers r = read_headers h i (?recs ! i)" using v3_logrec_sound [of "?recs ! i" h i] i(2) by simp_all
    have "hdrProducerID \<in> fst ` set (record_headers h i (?recs ! i))"
      using record_headers_lookup(1) [OF h(4), of i "?recs ! i"] by (metis map_of_SomeD fst_conv image_eqI)
    then have "any_header (rec_headers r) [hdrProducerID]" by (force simp: any_header_def s(2) read_headers_def)
    moreover have "7 \<le> lr_offset r" "lr_offset r < 2 ^ 32" using ok r by (auto simp: records_ok_def)
    ultimately show ?thesis using s(1) by blast
  qed
  ultimately show ?thesis using ne t'(3) by (intro exI [of _ t'] exI [of _ ?c]) (auto simp: list_all_iff)
qed

section \<open>What a rewrite leaves\<close>

lemma cleanSegment_holds:
  assumes "seg_ok C s cs" and "codecs_ok C" and "env_ok C env" and "list_all sound (concat cs)"
  shows "\<exists>res. cleanSegment C env spec s ds = Some (Inr (res, length (filter (\<lambda>r. disp_of spec ds r = dispRemove) (concat cs)))) \<and>
     (case res of
        None \<Rightarrow> \<forall>r \<in> set (concat cs). disp_of spec ds r = dispRemove
      | Some (s', _) \<Rightarrow> \<exists>cs'. seg_ok C s' cs' \<and> concat cs' \<noteq> [] \<and> s_BaseOffset s' = s_BaseOffset s \<and>
          list_all2 (kept_as spec ds) (filter (\<lambda>r. disp_of spec ds r \<noteq> dispRemove) (concat cs)) (concat cs'))"
proof -
  define bm where "bm \<longleftrightarrow> s_codec s \<noteq> None_codec \<or> s_format s = v3_Version"
  obtain w ds' where w: "cleanSegment C env spec s ds = Some (finish_clean C env spec s w)" "seg_ok C (bw_seg w) ds'"
    "concat ds' = outs (clean_out (rw_orders env) spec ds) (concat cs)" "s_BaseOffset (bw_seg w) = s_BaseOffset s"
    "clean_tally C spec ds w (tagged bm (all_retained spec ds) s cs)" using cleanSegment_scan [OF assms] unfolding bm_def by blast
  let ?n = "length (filter (\<lambda>r. disp_of spec ds r = dispRemove) (concat cs))"
  have "seg_bytes C s cs" using assms(1) by (simp add: seg_ok_def seg_holds_def)
  then have tg: "map snd (tagged bm (all_retained spec ds) s cs) = concat cs" by (rule tagged_snd)
  have cnt: "kp_removed w = ?n" "kp_stripped w = length (filter (loses_headers spec ds) (concat cs))"
    using w(5) by (simp_all add: clean_tally_def tg)
  have e: "orders_ok (rw_orders env)" "\<And>s. rw_delete env s = None" using assms(3) by (simp_all add: env_ok_def)
  note oc = outs_clean [OF assms(4) e(1), of spec ds]
  have em: "IsEmpty (bw_seg w) \<longleftrightarrow> concat ds' = []" using w(2) IsEmpty_holds by (auto simp: seg_ok_def)
  show ?thesis
  proof (cases "concat ds' = []")
    case True
    then have "filter (\<lambda>r. disp_of spec ds r \<noteq> dispRemove) (concat cs) = []" using oc w(3) by simp
    then have "\<forall>r \<in> set (concat cs). disp_of spec ds r = dispRemove" by (simp only: filter_empty_conv) blast
    moreover have "finish_clean C env spec s w = Inr (None, ?n)" using True em e(2) cnt(1) by (simp add: finish_clean_def)
    ultimately show ?thesis using w(1) by (intro exI [of _ None]) simp
  next
    case ne: False
    then have nem: "\<not> IsEmpty (bw_seg w)" using em by blast
    show ?thesis
    proof (cases "kp_removed w = 0 \<and> kp_stripped w = 0 \<and> \<not> needsBlockConsolidation s")
      case True
      then have un: "outs (clean_out (rw_orders env) spec ds) (concat cs) = concat cs" using outs_unchanged [OF assms(4) e(1)] cnt by simp
      obtain f where "refreshDigest C (rw_digest env) s (strip_stamp spec w) = Inr f" using refreshDigest_holds [OF assms(1,4)] by blast
      then have "finish_clean C env spec s w = Inr (Some (s, f), ?n)"
        unfolding finish_clean_def Let_def if_not_P [OF nem] if_P [OF True] using e(2) cnt(1) True by simp
      then show ?thesis using w(1,3) assms(1) oc ne un by (intro exI [of _ "Some (s, f)"]) (auto intro!: exI [of _ cs] simp del: concat_eq_Nil_conv)
    next
      case False
      obtain s' cs' where i: "rw_install env s (bw_seg w) = Inr s'" "seg_ok C s' cs'" "concat cs' = concat ds'" "s_BaseOffset s' = s_BaseOffset s"
        using assms(3) w(2,4) unfolding env_ok_def by metis
      have "list_all sound (concat cs')" using oc w(3) i(3) by simp
      then obtain f where "refreshDigest C (rw_digest env) s' (strip_stamp spec w) = Inr f" using refreshDigest_holds [OF i(2)] by blast
      then have "finish_clean C env spec s w = Inr (Some (s', f), ?n)"
        unfolding finish_clean_def Let_def if_not_P [OF nem] if_not_P [OF False] i(1) by (simp add: cnt(1))
      then show ?thesis using w(1,3) i(2-4) oc ne by (intro exI [of _ "Some (s', f)"]) (auto intro!: exI [of _ cs'] simp del: concat_eq_Nil_conv)
    qed
  qed
qed

section \<open>Properties\<close>

text \<open>
  C10: rewriting a segment for compaction loses nothing it should keep and keeps nothing it should lose.  Whatever
  the segment's layout - raw, compressed blocks, or version-3 blocks that may have to be carried whole - the
  rewrite succeeds; if every record goes, so does the segment; otherwise the segment it leaves holds, in order,
  exactly the records the pass does not remove.  Each is unchanged, except that one the pass strips has lost the
  strip headers and nothing else, and one whose checksum fails is copied as it was.  The count returned is that
  of the records removed.
\<close>

theorem cleanSegment_keeps_survivors:
  assumes "seg_ok C s cs" and "codecs_ok C" and "env_ok C env" and "list_all sound (concat cs)"
  shows "\<exists>res. cleanSegment C env spec s ds = Some (Inr (res, length (filter (\<lambda>r. disp_of spec ds r = dispRemove) (concat cs)))) \<and>
     (case res of
        None \<Rightarrow> \<forall>r \<in> set (concat cs). disp_of spec ds r = dispRemove
      | Some (s', _) \<Rightarrow> \<exists>cs'. seg_ok C s' cs' \<and> concat cs' \<noteq> [] \<and> s_BaseOffset s' = s_BaseOffset s \<and>
          list_all2 (kept_as spec ds) (filter (\<lambda>r. disp_of spec ds r \<noteq> dispRemove) (concat cs)) (concat cs'))"
  by (rule cleanSegment_holds [OF assms])

theorem cleanSegment_keeps_survivors_witness:
  "\<exists>s' f cs'. cleanSegment raw_codecs sample_env strip_spec (seg_at 100 True sample_notes) (Some sample_drop) = Some (Inr (Some (s', f), 2)) \<and>
     seg_ok raw_codecs s' cs' \<and> map lr_offset (concat cs') = [102, 103, 104] \<and> map_of (rec_headers (hd (concat cs'))) = Map.empty"
proof -
  let ?s = "seg_at 100 True sample_notes" and ?d = "disp_of strip_spec (Some sample_drop)"
  obtain cs where cs: "seg_ok raw_codecs ?s cs" "concat cs = sample_notes" using seg_at_ok [OF sample_notes_ok(1)] by (auto simp: sample_notes_def)
  have so: "list_all sound (concat cs)" using cs(2) sample_notes_sound by simp
  define n0 n1 n2 n3 n4 where nd: "n0 = a_note 0 (Some [108]) [] 5 100" "n1 = a_note 1 None [] 6 101" "n2 = a_note 2 (Some [107]) [([104], [1])] 7 102"
    "n3 = a_note 0 None [] 8 103" "n4 = a_note 0 (Some [108]) [] 9 104"
  have n: "sample_notes = [n0, n1, n2, n3, n4]" by (simp add: sample_notes_def nd)
  have "sound n0" "sound n1" "sound n2" "sound n3" "sound n4" using sample_notes_sound by (simp_all add: n)
  note e = this [THEN disp_of_eq, of strip_spec "Some sample_drop"]
  have d: "?d n0 = dispRemove" "?d n1 = dispRemove" "?d n2 = dispStrip" "?d n3 = dispRetain" "?d n4 = dispRetain"
    and o: "lr_offset n2 = 102" "lr_offset n3 = 103" "lr_offset n4 = 104" "rec_headers n2 = [([104], [1])]" "crcMatches (lr_payload n2) = Inr True"
    unfolding e by (simp_all add: nd note_simps strip_spec_def plain_spec_def aborted_def sample_drop_get)
      (simp add: a_note_def record_of_def wire_crcMatches)
  obtain res where res: "cleanSegment raw_codecs sample_env strip_spec ?s (Some sample_drop) =
      Some (Inr (res, length (filter (\<lambda>r. ?d r = dispRemove) (concat cs))))"
    "case res of None \<Rightarrow> \<forall>r \<in> set (concat cs). ?d r = dispRemove
      | Some (s', _) \<Rightarrow> \<exists>cs'. seg_ok raw_codecs s' cs' \<and> concat cs' \<noteq> [] \<and> s_BaseOffset s' = s_BaseOffset ?s \<and>
          list_all2 (kept_as strip_spec (Some sample_drop)) (filter (\<lambda>r. ?d r \<noteq> dispRemove) (concat cs)) (concat cs')"
    using cleanSegment_keeps_survivors [OF cs(1) sample_ok(1) sample_env_ok so, of strip_spec "Some sample_drop"] by blast
  have f: "filter (\<lambda>r. ?d r = dispRemove) (concat cs) = [n0, n1]" "filter (\<lambda>r. ?d r \<noteq> dispRemove) (concat cs) = [n2, n3, n4]"
    using d by (simp_all add: cs(2) n)
  obtain s' g where r: "res = Some (s', g)" using res(2) d(3) by (cases res) (auto simp: cs(2) n)
  then obtain cs' where "seg_ok raw_codecs s' cs'" "list_all2 (kept_as strip_spec (Some sample_drop)) [n2, n3, n4] (concat cs')"
    using res(2) unfolding f by auto
  then show ?thesis using res(1) r o d unfolding f
    by (intro exI [of _ s'] exI [of _ g] exI [of _ cs'])
      (auto simp: list_all2_Cons1 kept_as_def stripped_def strip_spec_def restrict_map_def fun_eq_iff)
qed

text \<open>
  C30: the strip stamp claims more than the scan saw.  In a segment of version-3 blocks no rewrite may merge, a
  block the pass keeps whole is carried past the check for strip headers, so records that still carry them leave
  no trace: the segment is unchanged, and its digest is stamped as free of strip headers for every later bound.
\<close>

theorem carried_headers_stamped_clean:
  assumes "seg_ok C s cs" and "codecs_ok C" and "env_ok C env" and "list_all sound (concat cs)" and "rw_digest env" and "stripActive spec"
    and "s_blockMode s" and "s_codec s \<noteq> None_codec" and "\<forall>b \<in> set (s_blocks s). \<not> mergeable b"
    and "all_retained spec ds (concat cs)" and "r \<in> set (concat cs)" and "any_header (rec_headers r) (cs_StripHeaders spec)"
  shows "\<exists>d. cleanSegment C env spec s ds = Some (Inr (Some (s, Some (encodeKeyDigest d)), 0)) \<and>
     (\<forall>below. in_i64 below \<longrightarrow> stripStampCovers d below (cs_StripHeaders spec))"
proof -
  define bm where "bm \<longleftrightarrow> s_codec s \<noteq> None_codec \<or> s_format s = v3_Version"
  obtain w ds' where w: "cleanSegment C env spec s ds = Some (finish_clean C env spec s w)" "seg_ok C (bw_seg w) ds'"
    "concat ds' = outs (clean_out (rw_orders env) spec ds) (concat cs)"
    "clean_tally C spec ds w (tagged bm (all_retained spec ds) s cs)" using cleanSegment_scan [OF assms(1-4)] unfolding bm_def by blast
  have sb: "seg_bytes C s cs" using assms(1) by (simp add: seg_ok_def seg_holds_def)
  have none: "filter (\<lambda>r. disp_of spec ds r = dispRemove) (concat cs) = []" "filter (loses_headers spec ds) (concat cs) = []"
    using assms(10) by (auto simp: all_retained_def loses_headers_def filter_empty_conv)
  have tg: "c" if "(c, x) \<in> set (tagged bm (all_retained spec ds) s cs)" for c x
  proof -
    from that obtain b k where bk: "(b, k) \<in> set (zip (s_blocks s) cs)" "c = carried bm (all_retained spec ds) b k"
      using assms(7) by (auto simp: tagged_def)
    have "b \<in> set (s_blocks s)" "k \<in> set cs" using bk(1) by (auto dest: set_zip_leftD set_zip_rightD)
    then show ?thesis using bk(2) assms(8-10) by (auto simp: carried_def bm_def all_retained_def)
  qed
  have cnt: "kp_removed w = 0" "kp_stripped w = 0" "\<not> kp_residual w"
    using w(4) tg by (auto simp: clean_tally_def tagged_snd [OF sb] none)
  have "orders_ok (rw_orders env)" using assms(3) by (simp add: env_ok_def)
  then have un: "concat ds' = concat cs" using outs_unchanged [OF assms(4) _ none] w(3) by simp
  have nem: "\<not> IsEmpty (bw_seg w)" using IsEmpty_holds [of C "bw_seg w" ds'] w(2) un assms(11) by (auto simp: seg_ok_def)
  have nbc: "\<not> needsBlockConsolidation s" using assms(9) by (simp add: needsBlockConsolidation_def Let_def filter_False)
  let ?d = "stamped (2 ^ 63 - 1) (cs_StripHeaders spec) (digest_of s (concat cs))"
  have "finish_clean C env spec s w = Inr (Some (s, Some (encodeKeyDigest ?d)), 0)"
    using assms(3,5,6) nem nbc cnt refreshDigest_holds [OF assms(1,4), of True] by (simp add: finish_clean_def env_ok_def strip_stamp_def)
  moreover have "\<forall>below. in_i64 below \<longrightarrow> stripStampCovers ?d below (cs_StripHeaders spec)" by (auto simp: stripStampCovers_def stamped_def)
  ultimately show ?thesis using w(1) by (intro exI [of _ ?d]) simp
qed

theorem carried_headers_stamped_clean_witness:
  "\<exists>spec s c r d. s_blockMode s \<and> seg_ok raw_codecs s [c] \<and> r \<in> set c \<and> any_header (rec_headers r) (cs_StripHeaders spec) \<and>
     cleanSegment raw_codecs sample_env spec s None = Some (Inr (Some (s, Some (encodeKeyDigest d)), 0)) \<and>
     stripStampCovers d (lr_offset r + 1) (cs_StripHeaders spec)"
proof -
  obtain s c where s: "seg_ok raw_codecs s [c]" "s_blockMode s" "s_codec s = Snappy" "\<forall>b \<in> set (s_blocks s). \<not> mergeable b"
    "list_all sound c" "\<forall>r \<in> set c. 7 \<le> lr_offset r \<and> lr_offset r < 2 ^ 32 \<and> any_header (rec_headers r) [hdrProducerID]" "c \<noteq> []" using sample_v3_segment by blast
  let ?spec = "(plain_spec 5) \<lparr>cs_StripBelow := 5, cs_StripHeaders := [hdrProducerID]\<rparr>"
  have sn: "disp_of ?spec None r = dispRetain" if "r \<in> set c" for r
    using s(5,6) that disp_of_eq [of r ?spec None] by (fastforce simp: list_all_iff plain_spec_def)
  obtain d where "cleanSegment raw_codecs sample_env ?spec s None = Some (Inr (Some (s, Some (encodeKeyDigest d)), 0))"
    "\<forall>below. in_i64 below \<longrightarrow> stripStampCovers d below (cs_StripHeaders ?spec)"
    using carried_headers_stamped_clean [OF s(1) sample_ok(1) sample_env_ok, of ?spec None "hd c"] s sn
    by (auto simp: all_retained_def stripActive_def plain_spec_def sample_env_def Snappy_def None_codec_def)
  moreover have "in_i64 (lr_offset (hd c) + 1)" using s(6,7) hd_in_set [of c] by fastforce
  ultimately show ?thesis using s by (intro exI [of _ ?spec] exI [of _ s] exI [of _ c] exI [of _ "hd c"] exI [of _ d]) simp
qed

section \<open>Consolidation\<close>

lemma consolidateOne_keeps:
  assumes "seg_ok C s cs" and "codecs_ok C" and "env_ok C env"
  shows "\<exists>s' cs'. consolidateOne C env s = Some (Inr s') \<and> seg_ok C s' cs' \<and> concat cs' = concat cs \<and> s_BaseOffset s' = s_BaseOffset s"
proof -
  obtain copy where c: "Cleaned C (rw_disk env) (rw_remove env) s = Some (Inr copy)" "seg_ok C copy []" "s_BaseOffset copy = s_BaseOffset s"
    using Cleaned_fresh [OF assms(3,1)] by blast
  let ?w = "\<lparr>bw_seg = copy, bw_buf = [], bw_writes = 0\<rparr>"
  have "wrote C (s_BaseOffset s) (s_blockMode copy) ?w []"
    unfolding wrote_def using c(2,3) by (intro exI [of _ "[]"]) simp
  then have "consolidate.at C (s_BaseOffset s) (s_blockMode copy) ?w []" unfolding consolidate.at_def using assms(2) by simp
  moreover have h: "seg_holds C s cs" "s_live s" using assms(1) by (simp_all add: seg_ok_def)
  moreover have "list_all frame_ok (concat cs)" using seg_open [OF h] by simp
  ultimately obtain w ds' where w: "and_then (rewriteWalk C all_written s (bw_add C all_written) (\<lambda>_. Inr True) ?w) (bw_flush C all_written) = Inr w"
    "seg_ok C (bw_seg w) ds'" "concat ds' = outs Some (concat cs)" "s_BaseOffset (bw_seg w) = s_BaseOffset s"
    using consolidate.rewrite_copy [of C s cs "s_BaseOffset s" "s_blockMode copy" ?w] by blast
  have "outs Some (concat cs) = concat cs" by (rule outs_id) simp
  then obtain s' cs' where i: "rw_install env s (bw_seg w) = Inr s'" "seg_ok C s' cs'" "concat cs' = concat cs" "s_BaseOffset s' = s_BaseOffset s"
    using assms(3) w(2-4) unfolding env_ok_def by metis
  have "rw_writes env = all_written" using assms(3) by (simp add: env_ok_def)
  then have "consolidateOne C env s = Some (and_then (and_then (rewriteWalk C all_written s (bw_add C all_written) (\<lambda>_. Inr True) ?w)
      (bw_flush C all_written)) (\<lambda>w. rw_install env s (bw_seg w)))"
    by (simp add: consolidateOne_def c(1) and_then_assoc)
  then show ?thesis using w(1) i by auto
qed

end
