(* ===== verification/Compact_Pass.thy ===== *)
theory Compact_Pass
  imports Segment_Clean "HOL-Library.Product_Lexorder"
begin

text \<open>
  \<^verbatim>\<open>compact_cleaner.go\<close>, the pass over a log: which sealed segments it wants to rewrite, in what order, under which
  budgets, and the list it leaves.  The rewrites may stop anywhere - a budget spent, a tier that is read-only, a
  rewrite that fails - and the order decides whether a log is still right when they do.

  The world's part is an argument: the clock as a sequence of readings, and how each segment's rewrite is answered.
\<close>

section \<open>Budgets\<close>

text \<open>\<^verbatim>\<open>deadline\<close> is \<open>None\<close> for Go's zero time.\<close>

record rewriteBudget =
  rb_max :: int
  rb_deadline :: "int option"
  rb_spent :: int

definition newRewriteBudget :: "int \<Rightarrow> int \<Rightarrow> int \<Rightarrow> rewriteBudget" where
  "newRewriteBudget now mx d = \<lparr>rb_max = mx, rb_deadline = (if d > 0 then Some (now + d) else None), rb_spent = 0\<rparr>"

definition rb_allow :: "int \<Rightarrow> rewriteBudget \<Rightarrow> bool" where
  "rb_allow now b =
     (if rb_max b > 0 \<and> rb_spent b \<ge> rb_max b then False
      else case rb_deadline b of None \<Rightarrow> True | Some t \<Rightarrow> rb_spent b = 0 \<or> \<not> now > t)"

definition rb_note :: "rewriteBudget \<Rightarrow> rewriteBudget" where
  "rb_note b = b \<lparr>rb_spent := rb_spent b + 1\<rparr>"

section \<open>What the pass wants, and in what order\<close>

datatype segDisposition = keepProtected | keepConverged | wantRewrite

definition seg_disposition :: "int \<Rightarrow> CleanSpec \<Rightarrow> mergeResult \<Rightarrow> nat \<Rightarrow> keyDigest \<Rightarrow> segment \<Rightarrow> segDisposition" where
  "seg_disposition horizon spec m i d s =
     (if horizon > 0 \<and> s_lastWriteTime s > horizon then keepProtected
      else if canSkip spec d m i \<and> \<not> needsBlockConsolidation s then keepConverged
      else wantRewrite)"

definition dropCount :: "mergeResult \<Rightarrow> nat \<Rightarrow> int" where
  "dropCount m i = (case drops m ! i of None \<Rightarrow> 0 | Some d \<Rightarrow> ds_count d)"

definition lateRewrite :: "CleanSpec \<Rightarrow> mergeResult \<Rightarrow> nat \<Rightarrow> keyDigest \<Rightarrow> bool" where
  "lateRewrite spec m i d =
     (if gcSegs m ! i then True
      else if \<not> stripActive spec then False
      else \<exists>off \<in> set (d_control d). off < cs_StripBelow spec)"

text \<open>
  The stable sort of the source: segments that may go in any order first, most drops first; then the others
  in log order.
\<close>

definition rewrite_order :: "segDisposition list \<Rightarrow> bool list \<Rightarrow> mergeResult \<Rightarrow> nat list" where
  "rewrite_order disp late m =
     sort_key (\<lambda>i. (late ! i, if late ! i then int i else - dropCount m i)) (filter (\<lambda>i. disp ! i = wantRewrite) [0..<length disp])"

section \<open>The rewrites\<close>

record passEnv =
  pe_mergeNow :: int
  pe_ageNow :: int
  pe_clock :: "nat \<Rightarrow> int"
  pe_rewrite :: "nat \<Rightarrow> rewriteEnv"

text \<open>\<open>ps_done ! i\<close> is what segment \<open>i\<close> became, if it was rewritten; \<open>ps_reads\<close> counts the readings of the clock.\<close>

record passState =
  ps_budget :: rewriteBudget
  ps_tiers :: "(bytes \<times> rewriteBudget) list"
  ps_reads :: nat
  ps_skipped :: bool
  ps_done :: "segment option option list"
  ps_removed :: nat
  ps_err :: "err option"

text \<open>The budget a segment is charged to; a tier's is made at its first use.\<close>

definition budgetFor :: "passEnv \<Rightarrow> CleanSpec \<Rightarrow> bytes \<Rightarrow> passState \<Rightarrow> rewriteBudget \<times> passState" where
  "budgetFor env spec tier st =
     (case map_of (ps_tiers st) tier of
        Some b \<Rightarrow> (b, st)
      | None \<Rightarrow>
          let d = (case map_of (cs_TierBudgets spec) tier of Some d \<Rightarrow> d | None \<Rightarrow> cs_RewriteBudget spec);
              b = newRewriteBudget (pe_clock env (ps_reads st)) (cs_maxRewrites spec) d in
          (b, st \<lparr>ps_tiers := (tier, b) # ps_tiers st, ps_reads := ps_reads st + 1\<rparr>))"

definition charge :: "bytes option \<Rightarrow> rewriteBudget \<Rightarrow> passState \<Rightarrow> passState" where
  "charge tier b st =
     (case tier of
        None \<Rightarrow> st \<lparr>ps_budget := rb_note b\<rparr>
      | Some t \<Rightarrow> st \<lparr>ps_tiers := AList.update t (rb_note b) (ps_tiers st)\<rparr>)"

text \<open>One turn of the loop: go on without a rewrite, stop, or rewrite.\<close>

datatype turn = Skip | Stop | Rewrite rewriteBudget

definition pass_turn :: "passEnv \<Rightarrow> CleanSpec \<Rightarrow> bool \<Rightarrow> segment \<Rightarrow> passState \<Rightarrow> turn \<times> passState" where
  "pass_turn env spec late s st =
     (let (b, st) = (case s_tier s of None \<Rightarrow> (ps_budget st, st) | Some t \<Rightarrow> budgetFor env spec t st);
          first = rb_allow (pe_clock env (ps_reads st)) b; second = rb_allow (pe_clock env (ps_reads st + 1)) b in
      if (case s_tier s of None \<Rightarrow> False | Some t \<Rightarrow> t \<in> set (cs_skipTiers spec)) then (Skip, st \<lparr>ps_skipped := True\<rparr>)
      else if late \<and> (ps_skipped st \<or> \<not> first) then (Stop, st)
      else let st = st \<lparr>ps_reads := ps_reads st + 2\<rparr> in
        if \<not> second then (Skip, st \<lparr>ps_skipped := True\<rparr>) else (Rewrite b, st))"

fun rewrite_loop ::
  "codecs \<Rightarrow> passEnv \<Rightarrow> CleanSpec \<Rightarrow> segment list \<Rightarrow> mergeResult \<Rightarrow> bool list \<Rightarrow> nat list \<Rightarrow> passState \<Rightarrow> passState result option" where
  "rewrite_loop C env spec segs m late [] st = Some (Inr st)"
| "rewrite_loop C env spec segs m late (i # is) st =
     (case pass_turn env spec (late ! i) (segs ! i) st of
        (Skip, st) \<Rightarrow> rewrite_loop C env spec segs m late is st
      | (Stop, st) \<Rightarrow> Some (Inr st)
      | (Rewrite b, st) \<Rightarrow>
          (case cleanSegment C (pe_rewrite env i) spec (segs ! i) (drops m ! i) of
             None \<Rightarrow> None
           | Some (Inl e) \<Rightarrow> Some (if e = GoPanic then Inl GoPanic else Inr (st \<lparr>ps_err := Some e\<rparr>))
           | Some (Inr (res, n)) \<Rightarrow>
               rewrite_loop C env spec segs m late is
                 ((charge (s_tier (segs ! i)) b st)
                    \<lparr>ps_done := (ps_done st) [i := Some (map_option fst res)], ps_removed := ps_removed st + n\<rparr>)))"

section \<open>The pass\<close>

text \<open>The list the pass leaves, and how far every record is as the pass wants it.\<close>

fun assemble :: "segDisposition list \<Rightarrow> segment option option list \<Rightarrow> segment list \<Rightarrow> bool \<Rightarrow> int \<Rightarrow> segment list \<times> int" where
  "assemble (d # disps) (x # xs) (s # ss) chain verified =
     (let segEnd = NextOffset s - 1; (out, chain, verified) =
        (if d = keepProtected then ([s], False, verified)
         else if d = keepConverged then ([s], chain, if chain then segEnd else verified)
         else case x of
           None \<Rightarrow> ([s], False, verified)
         | Some None \<Rightarrow> ([], chain, if chain then segEnd else verified)
         | Some (Some s') \<Rightarrow> ([s'], chain, if chain then segEnd else verified));
        (rest, verified) = assemble disps xs ss chain verified in
      (out @ rest, verified))"
| "assemble _ _ _ chain verified = ([], verified)"

definition only_strip :: "CleanSpec \<Rightarrow> mergeResult \<Rightarrow> mergeResult" where
  "only_strip spec m =
     (if cs_stripOnly spec then m \<lparr>drops := map (\<lambda>_. None) (drops m), gcSegs := map (\<lambda>_. False) (gcSegs m)\<rparr> else m)"

text \<open>
  \<^verbatim>\<open>compact\<close>: the segments the pass leaves (\<open>None\<close> for the nil slice), the records removed, the verified floor and
  the error.  \<open>minAge\<close> is the cleaner's \<^verbatim>\<open>MinAge\<close>.
\<close>

definition compact ::
  "codecs \<Rightarrow> int \<Rightarrow> passEnv \<Rightarrow> CleanSpec \<Rightarrow> (sidecar \<times> segment) list \<Rightarrow> (segment list option \<times> nat \<times> int \<times> err option) result option" where
  "compact C minAge env spec fss =
     (let segs = map snd fss; n = length segs - 1 in
      case and_then (loadOrBuildDigests C fss) (\<lambda>ds. and_then (mergeDigests spec (pe_mergeNow env) segs ds) (\<lambda>m. Inr (ds, m))) of
        Inl e \<Rightarrow> Some (if e = GoPanic then Inl GoPanic else Inr (None, 0, - 1, Some e))
      | Inr (ds, m) \<Rightarrow>
          let m = only_strip spec m;
              horizon = (if minAge > 0 then pe_ageNow env - minAge else 0);
              disp = map (\<lambda>i. seg_disposition horizon spec m i (ds ! i) (segs ! i)) [0..<n];
              late = map (\<lambda>i. lateRewrite spec m i (ds ! i)) [0..<n];
              st = \<lparr>ps_budget = newRewriteBudget (pe_clock env 0) (cs_maxRewrites spec) (cs_RewriteBudget spec), ps_tiers = [],
                    ps_reads = 1, ps_skipped = False, ps_done = replicate n None, ps_removed = 0, ps_err = None\<rparr> in
          (case rewrite_loop C env spec segs m late (rewrite_order disp late m) st of
             None \<Rightarrow> None
           | Some (Inl e) \<Rightarrow> Some (Inl e)
           | Some (Inr st) \<Rightarrow>
               let (kept, verified) = assemble disp (ps_done st) (take n segs) True (- 1); compacted = kept @ [last segs] in
               Some (Inr (if ps_err st \<noteq> None then (Some compacted, ps_removed st, - 1, ps_err st)
                          else (Some compacted, ps_removed st, min verified (cs_StripBelow spec - 1), None)))))"

definition CompactSpec ::
  "codecs \<Rightarrow> int \<Rightarrow> passEnv \<Rightarrow> CleanSpec \<Rightarrow> (sidecar \<times> segment) list \<Rightarrow> (segment list option \<times> int \<times> err option) result option" where
  "CompactSpec C minAge env spec fss =
     (if length fss \<le> 1 then Some (Inr (Some (map snd fss), - 1, None))
      else map_option (map_sum id (\<lambda>(compacted, removed, verified, e). (compacted, verified, e))) (compact C minAge env spec fss))"

section \<open>Consolidation without compaction\<close>

fun consolidate_loop ::
  "codecs \<Rightarrow> (nat \<Rightarrow> int) \<Rightarrow> (nat \<Rightarrow> rewriteEnv) \<Rightarrow> nat \<Rightarrow> rewriteBudget \<Rightarrow> segment list \<Rightarrow> (segment list \<times> err option) result option" where
  "consolidate_loop C clk env i b [] = Some (Inr ([], None))"
| "consolidate_loop C clk env i b [s] = Some (Inr ([s], None))"
| "consolidate_loop C clk env i b (s # t # ss) =
     (let cons = (\<lambda>s. map_option (map_sum id (\<lambda>(out, e). (s # out, e)))) in
      if \<not> needsBlockConsolidation s \<or> \<not> rb_allow (clk i) b then cons s (consolidate_loop C clk env (i + 1) b (t # ss))
      else (case consolidateOne C (env i) s of
          None \<Rightarrow> None
        | Some (Inl e) \<Rightarrow> Some (if e = GoPanic then Inl GoPanic else Inr (s # t # ss, Some e))
        | Some (Inr s') \<Rightarrow> cons s' (consolidate_loop C clk env (i + 1) (rb_note b) (t # ss))))"

definition consolidateSegments ::
  "codecs \<Rightarrow> (nat \<Rightarrow> int) \<Rightarrow> (nat \<Rightarrow> rewriteEnv) \<Rightarrow> int \<Rightarrow> int \<Rightarrow> segment list \<Rightarrow> (segment list \<times> err option) result option" where
  "consolidateSegments C clk env maxRewrites budgetDur segs =
     (if length segs \<le> 1 then Some (Inr (segs, None))
      else consolidate_loop C clk env 1 (newRewriteBudget (clk 0) maxRewrites budgetDur) segs)"

end
