(* ===== verification/Pass_Safety.thy ===== *)
theory Pass_Safety
  imports Compact_Pass
begin

text \<open>
  A compaction pass that stops early is still safe: a segment that holds a tombstone to collect, or a marker to
  remove, is rewritten only when every segment the pass wants and that it governs already was, so no older value
  of a collected key is left to come back.
\<close>

section \<open>The order of the rewrites\<close>

lemma order_before:
  assumes "i \<in> set (rewrite_order disp late m)" and "j \<in> set (rewrite_order disp late m)" and "late ! i" and "j \<le> i"
    and "rewrite_order disp late m = a @ i # b"
  shows "j \<in> set (a @ [i])"
proof (rule ccontr)
  let ?f = "\<lambda>i. (late ! i, if late ! i then int i else - dropCount m i)"
  assume n: "j \<notin> set (a @ [i])"
  then have jb: "j \<in> set b" "j \<noteq> i" using assms(2,5) by auto
  have "sorted (map ?f (a @ i # b))" unfolding assms(5) [symmetric] rewrite_order_def by (rule sorted_sort_key)
  then have "?f i \<le> ?f j" using jb(1) by (auto simp: sorted_append)
  then show False using assms(3,4) jb(2) by (auto simp: less_eq_prod_def split: if_splits)
qed

lemma order_wanted: "set (rewrite_order disp late m) = {i. i < length disp \<and> disp ! i = wantRewrite}" "distinct (rewrite_order disp late m)"
  by (auto simp: rewrite_order_def)

section \<open>The loop\<close>

lemma pass_turn_state:
  assumes "pass_turn env spec late s st = (t, st')"
  shows "ps_done st' = ps_done st" "ps_err st' = ps_err st" "t \<noteq> Skip \<Longrightarrow> ps_skipped st' = ps_skipped st" "t = Skip \<Longrightarrow> ps_skipped st'"
    "t = Rewrite b \<Longrightarrow> late \<Longrightarrow> \<not> ps_skipped st"
  using assms by (auto simp: pass_turn_def budgetFor_def Let_def split: option.splits if_splits prod.splits)

lemma charge_state [simp]: "ps_done (charge t b st) = ps_done st" "ps_skipped (charge t b st) = ps_skipped st" "ps_err (charge t b st) = ps_err st"
  by (simp_all add: charge_def split: option.split)

text \<open>What a rewritten segment became.\<close>

definition rewritten_to :: "codecs \<Rightarrow> passEnv \<Rightarrow> CleanSpec \<Rightarrow> segment list \<Rightarrow> mergeResult \<Rightarrow> nat \<Rightarrow> segment option \<Rightarrow> bool" where
  "rewritten_to C env spec segs m i x \<longleftrightarrow>
     (\<exists>res n. cleanSegment C (pe_rewrite env i) spec (segs ! i) (drops m ! i) = Some (Inr (res, n)) \<and> x = map_option fst res)"

text \<open>No late segment is done unless all that come before it are.\<close>

fun governed :: "bool list \<Rightarrow> segment option option list \<Rightarrow> nat list \<Rightarrow> nat list \<Rightarrow> bool" where
  "governed late xs pre [] = True"
| "governed late xs pre (i # is) = ((late ! i \<and> xs ! i \<noteq> None \<longrightarrow> (\<forall>j \<in> set pre. xs ! j \<noteq> None)) \<and> governed late xs (pre @ [i]) is)"

lemma governed_at: "governed late xs pre (a @ i # b) \<Longrightarrow> late ! i \<Longrightarrow> xs ! i \<noteq> None \<Longrightarrow> j \<in> set (pre @ a) \<Longrightarrow> xs ! j \<noteq> None"
proof (induction a arbitrary: pre)
  case (Cons k a)
  then show ?case using Cons.IH [of "pre @ [k]"] by simp
qed simp

lemma governed_none: "\<forall>i \<in> set is. xs ! i = None \<Longrightarrow> governed late xs pre is"
  by (induction "is" arbitrary: pre) auto

definition loop_done :: "codecs \<Rightarrow> passEnv \<Rightarrow> CleanSpec \<Rightarrow> segment list \<Rightarrow> mergeResult \<Rightarrow> bool list \<Rightarrow> nat list \<Rightarrow> nat list \<Rightarrow>
    passState \<Rightarrow> passState \<Rightarrow> bool" where
  "loop_done C env spec segs m late pre is st st' \<longleftrightarrow>
     length (ps_done st') = length (ps_done st) \<and> (\<forall>j. j \<notin> set is \<longrightarrow> ps_done st' ! j = ps_done st ! j) \<and>
     (\<forall>i \<in> set is. \<forall>x. ps_done st' ! i = Some x \<longrightarrow> rewritten_to C env spec segs m i x) \<and> governed late (ps_done st') pre is"

lemma rewrite_loop_done:
  assumes "rewrite_loop C env spec segs m late is st = Some (Inr st')" and "distinct (pre @ is)" and "\<forall>i \<in> set (pre @ is). i < length (ps_done st)"
    and "\<forall>i \<in> set is. ps_done st ! i = None" and "\<not> ps_skipped st \<longrightarrow> (\<forall>j \<in> set pre. ps_done st ! j \<noteq> None)"
  shows "loop_done C env spec segs m late pre is st st'"
  using assms
proof (induction "is" arbitrary: st pre)
  case (Cons i "is")
  obtain t st1 where t: "pass_turn env spec (late ! i) (segs ! i) st = (t, st1)" by (cases "pass_turn env spec (late ! i) (segs ! i) st")
  note ts = pass_turn_state [OF t]
  have i: "i \<notin> set is" "i \<notin> set pre" "i < length (ps_done st)" "ps_done st ! i = None" using Cons.prems(2-4) by auto
  show ?case
  proof (cases t)
    case Stop
    then have "ps_done st' = ps_done st" using Cons.prems(1) t ts(1) by simp
    then show ?thesis using Cons.prems(4) governed_none [of "i # is" "ps_done st" late pre] by (simp add: loop_done_def)
  next
    case Skip
    have l: "rewrite_loop C env spec segs m late is st1 = Some (Inr st')" using Cons.prems(1) t Skip by simp
    have "loop_done C env spec segs m late (pre @ [i]) is st1 st'"
      using Cons.prems(2-4) ts(1,4) Skip by (intro Cons.IH [OF l]) auto
    then show ?thesis using i ts(1) by (simp add: loop_done_def)
  next
    case (Rewrite b)
    show ?thesis
    proof (cases "\<exists>res n. cleanSegment C (pe_rewrite env i) spec (segs ! i) (drops m ! i) = Some (Inr (res, n))")
      case True
      then obtain res n where c: "cleanSegment C (pe_rewrite env i) spec (segs ! i) (drops m ! i) = Some (Inr (res, n))" by blast
      define st2 where "st2 = (charge (s_tier (segs ! i)) b st1)
                    \<lparr>ps_done := (ps_done st1) [i := Some (map_option fst res)], ps_removed := ps_removed st1 + n\<rparr>"
      have l: "rewrite_loop C env spec segs m late is st2 = Some (Inr st')" using Cons.prems(1) t Rewrite c by (simp add: st2_def)
      have d2: "ps_done st2 = (ps_done st) [i := Some (map_option fst res)]" "ps_skipped st2 = ps_skipped st"
        using ts(1,3) Rewrite by (simp_all add: st2_def)
      have "loop_done C env spec segs m late (pre @ [i]) is st2 st'"
        using Cons.prems(2-5) d2 i by (intro Cons.IH [OF l]) (auto simp: nth_list_update)
      then have ld: "length (ps_done st') = length (ps_done st)" "\<And>j. j \<notin> set is \<Longrightarrow> ps_done st' ! j = ps_done st2 ! j"
        "\<forall>i \<in> set is. \<forall>x. ps_done st' ! i = Some x \<longrightarrow> rewritten_to C env spec segs m i x" "governed late (ps_done st') (pre @ [i]) is"
        by (simp_all add: loop_done_def d2(1))
      have "ps_done st' ! i = Some (map_option fst res)" using ld(2) [OF i(1)] i(3) by (simp add: d2(1))
      moreover have "rewritten_to C env spec segs m i (map_option fst res)" using c by (auto simp: rewritten_to_def)
      moreover have "ps_done st' ! j \<noteq> None" if j: "late ! i" "j \<in> set pre" for j
      proof -
        have "\<not> ps_skipped st" using ts(5) [OF Rewrite j(1)] by simp
        then have "ps_done st ! j \<noteq> None" "j \<noteq> i" "j \<notin> set is" using Cons.prems(2,5) j(2) by auto
        then show ?thesis using ld(2) [of j] by (simp add: d2(1))
      qed
      moreover have "ps_done st' ! j = ps_done st ! j" if "j \<notin> set (i # is)" for j using ld(2) [of j] that by (simp add: d2(1))
      ultimately show ?thesis using ld(1,3,4) by (auto simp: loop_done_def)
    next
      case False
      then have "ps_done st' = ps_done st" using Cons.prems(1) t Rewrite ts(1) by (auto split: option.splits sum.splits if_splits)
      then show ?thesis using Cons.prems(4) governed_none [of "i # is" "ps_done st" late pre] by (simp add: loop_done_def)
    qed
  qed
qed (simp add: loop_done_def)

lemma rewrite_loop_total:
  assumes "\<forall>i \<in> set is. \<exists>r. cleanSegment C (pe_rewrite env i) spec (segs ! i) (drops m ! i) = Some r \<and> r \<noteq> Inl GoPanic"
  shows "\<exists>st'. rewrite_loop C env spec segs m late is st = Some (Inr st')"
  using assms
proof (induction "is" arbitrary: st)
  case (Cons i "is")
  obtain t st1 where t: "pass_turn env spec (late ! i) (segs ! i) st = (t, st1)" by (cases "pass_turn env spec (late ! i) (segs ! i) st")
  obtain r where "cleanSegment C (pe_rewrite env i) spec (segs ! i) (drops m ! i) = Some r" "r \<noteq> Inl GoPanic" using Cons.prems by auto
  then show ?case using Cons t by (cases t) (auto split: sum.splits)
qed simp

section \<open>What became of each segment\<close>

definition same_record :: "CleanSpec \<Rightarrow> logrec \<Rightarrow> logrec \<Rightarrow> bool" where
  "same_record spec r r' \<longleftrightarrow> r' = r \<or> stripped (cs_StripHeaders spec) r r'"

lemma same_record_counts:
  assumes "same_record spec r r'"
  shows "lr_offset r' = lr_offset r" and "keyed k r' \<longleftrightarrow> keyed k r" and "counts spec r' \<longleftrightarrow> counts spec r"
proof -
  have "lr_offset r' = lr_offset r \<and> attrs r' = attrs r \<and> rec_key r' = rec_key r"
    using assms by (auto simp: same_record_def stripped_def rec_key_def attrs_def split: if_splits)
  then show "lr_offset r' = lr_offset r" "keyed k r' \<longleftrightarrow> keyed k r" "counts spec r' \<longleftrightarrow> counts spec r"
    by (simp_all add: keyed_def counts_def is_control_def)
qed

text \<open>The segments left of one, their chunks, and the records \<open>keep\<close> names.\<close>

definition left_of :: "codecs \<Rightarrow> CleanSpec \<Rightarrow> (logrec \<Rightarrow> bool) \<Rightarrow> segment \<Rightarrow> chunks \<Rightarrow> segment list \<Rightarrow> chunks list \<Rightarrow> bool" where
  "left_of C spec keep s cs out css' \<longleftrightarrow> list_all2 (seg_ok C) out css' \<and> length out \<le> 1 \<and>
     (\<forall>s' \<in> set out. s_BaseOffset s' = s_BaseOffset s \<and> NextOffset s' \<le> NextOffset s \<and> \<not> IsEmpty s') \<and>
     list_all2 (same_record spec) (filter keep (concat cs)) (log_recs css')"

definition out_of :: "segment option option \<Rightarrow> segment \<Rightarrow> segment list" where
  "out_of x s = (case x of None \<Rightarrow> [s] | Some None \<Rightarrow> [] | Some (Some s') \<Rightarrow> [s'])"

lemma assemble_out:
  assumes "length disps = length ss" and "length xs = length ss" and "\<forall>i < length ss. disps ! i \<noteq> wantRewrite \<longrightarrow> xs ! i = None"
  shows "fst (assemble disps xs ss chain verified) = concat (map2 out_of xs ss)"
  using assms
proof (induction ss arbitrary: disps xs chain verified)
  case (Cons s ss)
  then obtain d ds x ys where e: "disps = d # ds" "xs = x # ys" by (metis length_Suc_conv length_Cons)
  have "\<forall>i < length ss. ds ! i \<noteq> wantRewrite \<longrightarrow> ys ! i = None" using Cons.prems(3) unfolding e by (metis length_Cons not_less_eq nth_Cons_Suc)
  then have ih: "fst (assemble ds ys ss chain verified) = concat (map2 out_of ys ss)" for chain verified using Cons.IH Cons.prems(1,2) by (simp add: e)
  have "d \<noteq> wantRewrite \<longrightarrow> x = None" using Cons.prems(3) by (force simp: e)
  then have "fst (assemble (d # ds) (x # ys) (s # ss) chain verified) = out_of x s @ concat (map2 out_of ys ss)"
    by (cases d) (auto simp: Let_def out_of_def ih case_prod_beta split: option.split)
  then show ?case by (simp add: e)
qed auto

lemma kept_left_of:
  assumes "seg_ok C s cs" and "\<not> IsEmpty s" and "\<forall>r \<in> set (concat cs). keep r"
  shows "left_of C spec keep s cs [s] [cs]"
proof -
  have "filter keep (concat cs) = concat cs" using assms(3) by (simp only: filter_id_conv)
  moreover have "list_all2 (same_record spec) rs rs" for rs by (simp add: list_all2_same same_record_def)
  ultimately show ?thesis using assms(1,2) by (simp add: left_of_def log_recs_def)
qed

lemma rewritten_left_of:
  assumes "seg_ok C s cs" and "codecs_ok C" and "env_ok C e" and "list_all sound (concat cs)"
    and "cleanSegment C e spec s ds = Some (Inr (res, n))" and "\<forall>r \<in> set (concat cs). keep r \<longleftrightarrow> disp_of spec ds r \<noteq> dispRemove"
  shows "\<exists>css'. left_of C spec keep s cs (out_of (Some (map_option fst res)) s) css'"
proof -
  have k: "filter keep (concat cs) = filter (\<lambda>r. disp_of spec ds r \<noteq> dispRemove) (concat cs)" using assms(6) by (intro filter_cong) auto
  have sm: "same_record spec r r'" if "kept_as spec ds r r'" for r r' using that by (auto simp: kept_as_def same_record_def split: if_splits)
  have res: "case res of None \<Rightarrow> \<forall>r \<in> set (concat cs). disp_of spec ds r = dispRemove
      | Some (s', _) \<Rightarrow> \<exists>cs'. seg_ok C s' cs' \<and> concat cs' \<noteq> [] \<and> s_BaseOffset s' = s_BaseOffset s \<and>
          list_all2 (kept_as spec ds) (filter (\<lambda>r. disp_of spec ds r \<noteq> dispRemove) (concat cs)) (concat cs')"
    using cleanSegment_holds [OF assms(1-4), of spec ds] assms(5) by auto
  show ?thesis
  proof (cases res)
    case None
    then have "filter keep (concat cs) = []" using res unfolding k by (simp only: filter_empty_conv) auto
    then show ?thesis using None by (intro exI [of _ "[]"]) (simp add: left_of_def out_of_def)
  next
    case (Some p)
    obtain s' f where p: "p = (s', f)" by (cases p)
    then obtain cs' where c: "seg_ok C s' cs'" "concat cs' \<noteq> []" "s_BaseOffset s' = s_BaseOffset s"
      "list_all2 (kept_as spec ds) (filter keep (concat cs)) (concat cs')" using res Some unfolding k by auto
    then have sr: "list_all2 (same_record spec) (filter keep (concat cs)) (concat cs')" using sm by (blast intro: list_all2_mono)
    have h: "seg_holds C s cs" "seg_holds C s' cs'" using assms(1) c(1) by (simp_all add: seg_ok_def)
    have fne: "filter keep (concat cs) \<noteq> []" using sr c(2) by (metis list_all2_Nil)
    then have "same_record spec (last (filter keep (concat cs))) (last (concat cs'))"
      using sr c(2) by (metis last_conv_nth list_all2_conv_all_nth length_greater_0_conv diff_less zero_less_one)
    then have "lr_offset (last (concat cs')) = lr_offset (last (filter keep (concat cs)))" by (rule same_record_counts)
    moreover have "last (filter keep (concat cs)) \<in> set (concat cs)" using last_in_set [OF fne] by (metis filter_is_subset subsetD)
    ultimately have "lr_offset (last (concat cs')) < NextOffset s" using holds_bounds(1) [OF h(1)] by simp
    then have "NextOffset s' \<le> NextOffset s" using NextOffset_last [OF h(2) c(2)] by simp
    moreover have "\<not> IsEmpty s'" using IsEmpty_holds [OF h(2)] c(2) by blast
    ultimately show ?thesis using Some p c(1,3) sr by (intro exI [of _ "[cs']"]) (simp add: left_of_def out_of_def log_recs_def)
  qed
qed

section \<open>The log a pass leaves\<close>

lemma left_list:
  assumes "length css = length ss" "length oss = length ss" "length pss = length ss"
    and "\<forall>i < length ss. left_of C spec keep (ss ! i) (css ! i) (oss ! i) (pss ! i)" and "sorted_wrt (\<lambda>s t. NextOffset s \<le> s_BaseOffset t) ss"
  shows "list_all2 (seg_ok C) (concat oss) (concat pss) \<and> sorted_wrt (\<lambda>s t. NextOffset s \<le> s_BaseOffset t) (concat oss) \<and>
     (\<forall>s' \<in> set (concat oss). \<not> IsEmpty s' \<and> (\<exists>s \<in> set ss. s_BaseOffset s' = s_BaseOffset s \<and> NextOffset s' \<le> NextOffset s)) \<and>
     list_all2 (same_record spec) (filter keep (log_recs css)) (log_recs (concat pss))"
  using assms
proof (induction ss arbitrary: css oss pss)
  case (Cons s ss)
  then obtain cs css' out oss' ps pss' where e: "css = cs # css'" "oss = out # oss'" "pss = ps # pss'" by (metis length_Suc_conv length_Cons)
  have "\<forall>i < length ss. left_of C spec keep (ss ! i) (css' ! i) (oss' ! i) (pss' ! i)"
    using Cons.prems(4) unfolding e by (metis length_Cons not_less_eq nth_Cons_Suc)
  note ih = Cons.IH [of css' oss' pss', OF _ _ _ this]
  have ih: "list_all2 (seg_ok C) (concat oss') (concat pss')" "sorted_wrt (\<lambda>s t. NextOffset s \<le> s_BaseOffset t) (concat oss')"
    "\<forall>s' \<in> set (concat oss'). \<not> IsEmpty s' \<and> (\<exists>s \<in> set ss. s_BaseOffset s' = s_BaseOffset s \<and> NextOffset s' \<le> NextOffset s)"
    "list_all2 (same_record spec) (filter keep (log_recs css')) (log_recs (concat pss'))"
    using ih Cons.prems by (simp_all add: e)
  have l: "list_all2 (seg_ok C) out ps" "length out \<le> 1" "\<forall>s' \<in> set out. s_BaseOffset s' = s_BaseOffset s \<and> NextOffset s' \<le> NextOffset s \<and> \<not> IsEmpty s'"
    "list_all2 (same_record spec) (filter keep (concat cs)) (log_recs ps)"
    using Cons.prems(4) by (force simp: e left_of_def)+
  have "NextOffset s \<le> s_BaseOffset t" if "t \<in> set ss" for t using Cons.prems(5) that by simp
  then have "\<forall>x \<in> set out. \<forall>y \<in> set (concat oss'). NextOffset x \<le> s_BaseOffset y" using l(3) ih(3) by fastforce
  moreover have "sorted_wrt (\<lambda>s t. NextOffset s \<le> s_BaseOffset t) out" using l(2) by (cases out; cases "tl out") auto
  ultimately have "sorted_wrt (\<lambda>s t. NextOffset s \<le> s_BaseOffset t) (concat oss)" using ih(2) by (simp add: e sorted_wrt_append del: set_concat)
  moreover have "\<forall>s' \<in> set (concat oss). \<not> IsEmpty s' \<and> (\<exists>t \<in> set (s # ss). s_BaseOffset s' = s_BaseOffset t \<and> NextOffset s' \<le> NextOffset t)"
    using l(3) ih(3) by (auto simp: e simp del: set_concat)
  ultimately show ?case using ih(1,4) l(1,4) by (simp add: e list_all2_appendI)
qed simp

lemma log_left:
  assumes "log_ok C l css" and "n = length css - 1" and "length oss = n" "length pss = n"
    and "\<forall>i < n. left_of C spec keep (l_segments l ! i) (css ! i) (oss ! i) (pss ! i)" and "\<forall>r \<in> set (concat (last css)). keep r"
  shows "log_ok C (l \<lparr>l_segments := concat oss @ [last (l_segments l)]\<rparr>) (concat pss @ [last css])"
    and "list_all2 (same_record spec) (filter keep (log_recs css)) (log_recs (concat pss @ [last css]))"
proof -
  let ?ss = "butlast (l_segments l)" and ?a = "last (l_segments l)"
  have l: "l_segments l \<noteq> []" "list_all2 (seg_ok C) (l_segments l) css" "sorted_wrt (\<lambda>s t. NextOffset s \<le> s_BaseOffset t) (l_segments l)"
    using assms(1) by (simp_all add: log_ok_def)
  then have len: "length (l_segments l) = length css" "css \<noteq> []" "length ?ss = n" "length (butlast css) = n"
    using assms(2) by (auto simp: list_all2_conv_all_nth)
  have ss: "l_segments l = ?ss @ [?a]" "css = butlast css @ [last css]" using l(1) len(2) by simp_all
  then have sw: "sorted_wrt (\<lambda>s t. NextOffset s \<le> s_BaseOffset t) (?ss @ [?a])" using l(3) by simp
  have "\<forall>i < length ?ss. left_of C spec keep (?ss ! i) (butlast css ! i) (oss ! i) (pss ! i)" using assms(5) len by (simp add: nth_butlast)
  note ll = left_list [of "butlast css" ?ss oss pss, OF _ _ _ this]
  have ll: "list_all2 (seg_ok C) (concat oss) (concat pss)" "sorted_wrt (\<lambda>s t. NextOffset s \<le> s_BaseOffset t) (concat oss)"
    "\<forall>s' \<in> set (concat oss). \<not> IsEmpty s' \<and> (\<exists>s \<in> set ?ss. s_BaseOffset s' = s_BaseOffset s \<and> NextOffset s' \<le> NextOffset s)"
    "list_all2 (same_record spec) (filter keep (log_recs (butlast css))) (log_recs (concat pss))"
    using ll assms(3,4) len sw by (simp_all add: sorted_wrt_append)
  have "n < length css" using assms(2) len(2) by simp
  then have "seg_ok C ?a (last css)" using l(1,2) len(1,2) assms(2) by (simp add: last_conv_nth list_all2_conv_all_nth)
  moreover have "\<forall>s' \<in> set (concat oss). NextOffset s' \<le> s_BaseOffset ?a" using ll(3) sw unfolding sorted_wrt_append by fastforce
  ultimately show "log_ok C (l \<lparr>l_segments := concat oss @ [?a]\<rparr>) (concat pss @ [last css])"
    using assms(1) ll(1-3) l(1)
    by (simp add: log_ok_def list_all2_appendI sorted_wrt_append activeSegment_def del: set_concat)
  have "filter keep (concat (last css)) = concat (last css)" using assms(6) by (simp only: filter_id_conv)
  moreover have "list_all2 (same_record spec) rs rs" for rs by (simp add: list_all2_same same_record_def)
  ultimately have "list_all2 (same_record spec) (filter keep (log_recs (butlast css @ [last css]))) (log_recs (concat pss @ [last css]))"
    using ll(4) by (simp add: list_all2_appendI)
  then show "list_all2 (same_record spec) (filter keep (log_recs css)) (log_recs (concat pss @ [last css]))" using ss(2) by simp
qed

section \<open>A pass, whatever stops it\<close>

abbreviation age_horizon :: "int \<Rightarrow> passEnv \<Rightarrow> int" where
  "age_horizon minAge env \<equiv> if minAge > 0 then pe_ageNow env - minAge else 0"

definition pass_disp :: "int \<Rightarrow> CleanSpec \<Rightarrow> mergeResult \<Rightarrow> keyDigest list \<Rightarrow> segment list \<Rightarrow> segDisposition list" where
  "pass_disp horizon spec m ds segs = map (\<lambda>i. seg_disposition horizon spec m i (ds ! i) (segs ! i)) [0..<length segs - 1]"

definition pass_late :: "CleanSpec \<Rightarrow> mergeResult \<Rightarrow> keyDigest list \<Rightarrow> segment list \<Rightarrow> bool list" where
  "pass_late spec m ds segs = map (\<lambda>i. lateRewrite spec m i (ds ! i)) [0..<length segs - 1]"

text \<open>What the loop leaves, whatever stopped it: segments rewritten, no late one before those it waits for.\<close>

definition rewrote :: "codecs \<Rightarrow> int \<Rightarrow> passEnv \<Rightarrow> CleanSpec \<Rightarrow> segment list \<Rightarrow> keyDigest list \<Rightarrow> mergeResult \<Rightarrow> segment option option list \<Rightarrow> bool" where
  "rewrote C minAge env spec segs ds m xs \<longleftrightarrow>
     (let disp = pass_disp (age_horizon minAge env) spec m ds segs; late = pass_late spec m ds segs in
      length xs = length segs - 1 \<and>
      (\<forall>i < length segs - 1. xs ! i \<noteq> None \<longrightarrow> disp ! i = wantRewrite \<and> rewritten_to C env spec segs m i (the (xs ! i))) \<and>
      (\<forall>i j. j \<le> i \<longrightarrow> i < length segs - 1 \<longrightarrow> late ! i \<longrightarrow> xs ! i \<noteq> None \<longrightarrow> disp ! j = wantRewrite \<longrightarrow> xs ! j \<noteq> None))"

lemma loop_rewrote:
  assumes "loop_done C env spec segs m late [] (rewrite_order disp late m) st st'" and "ps_done st = replicate (length segs - 1) None"
    and "disp = pass_disp (age_horizon minAge env) spec m ds segs" and "late = pass_late spec m ds segs"
  shows "rewrote C minAge env spec segs ds m (ps_done st')"
proof -
  let ?o = "rewrite_order disp late m" and ?xs = "ps_done st'"
  note o = order_wanted [of disp late m]
  have n: "length disp = length segs - 1" by (simp add: assms(3) pass_disp_def)
  have w: "i \<in> set ?o" if "i < length segs - 1" "?xs ! i \<noteq> None" for i
    using assms(1,2) that by (auto simp: loop_done_def)
  have "?xs ! j \<noteq> None" if h: "j \<le> i" "i < length segs - 1" "late ! i" "?xs ! i \<noteq> None" "disp ! j = wantRewrite" for i j
  proof -
    have io: "i \<in> set ?o" by (rule w [OF h(2,4)])
    have jo: "j \<in> set ?o" using h(1,2,5) n o(1) by simp
    obtain a b where ab: "?o = a @ i # b" using io by (auto dest: split_list)
    have "governed late ?xs [] (a @ i # b)" using assms(1) ab by (simp add: loop_done_def)
    then show ?thesis using order_before [OF io jo h(3,1) ab] governed_at [of late ?xs "[]" a i b j] h(3,4) by auto
  qed
  moreover have "disp ! i = wantRewrite \<and> rewritten_to C env spec segs m i (the (?xs ! i))" if h: "i < length segs - 1" "?xs ! i \<noteq> None" for i
    using w [OF h] o(1) assms(1) h(2) by (auto simp: loop_done_def)
  ultimately show ?thesis using assms by (auto simp: rewrote_def Let_def loop_done_def)
qed

text \<open>The world answers each rewrite well, or refuses it before it starts.\<close>

definition pass_env_ok :: "codecs \<Rightarrow> passEnv \<Rightarrow> bool" where
  "pass_env_ok C env \<longleftrightarrow> (\<forall>i. env_ok C (pe_rewrite env i) \<or> \<not> rw_remove (pe_rewrite env i))"

lemma rewrite_refused: "\<not> rw_remove e \<Longrightarrow> cleanSegment C e spec s ds = Some (Inl IOError)"
  by (simp add: cleanSegment_def Cleaned_def newWorkingSegment_def)

lemma pass_rewrite:
  assumes "pass_env_ok C env" and "seg_ok C s cs" and "codecs_ok C" and "list_all sound (concat cs)"
  shows "\<exists>r. cleanSegment C (pe_rewrite env i) spec s ds = Some r \<and> r \<noteq> Inl GoPanic"
proof (cases "env_ok C (pe_rewrite env i)")
  case True
  then show ?thesis using cleanSegment_holds [OF assms(2,3) _ assms(4), of "pe_rewrite env i" spec ds] by auto
next
  case False
  then show ?thesis using assms(1) rewrite_refused by (force simp: pass_env_ok_def)
qed

lemma log_segment:
  assumes "log_ok C l css" and "list_all sound (log_recs css)" and "i < length css"
  shows "seg_ok C (l_segments l ! i) (css ! i)" and "list_all sound (concat (css ! i))"
proof -
  show "seg_ok C (l_segments l ! i) (css ! i)" using assms(1,3) by (simp add: log_ok_def list_all2_conv_all_nth)
  have "set (concat (css ! i)) \<subseteq> set (log_recs css)" using assms(3) nth_mem by (auto simp: log_recs_def)
  then show "list_all sound (concat (css ! i))" using assms(2) unfolding list_all_iff by blast
qed

lemma compact_runs:
  assumes "pass_ok C l css fs" and "codecs_ok C" and "list_all sound (log_recs css)" and "pass_env_ok C env"
  shows "\<exists>ds m xs n verified e. decided spec (pe_mergeNow env) l css ds m \<and> rewrote C minAge env spec (l_segments l) ds (only_strip spec m) xs \<and>
     compact C minAge env spec (zip fs (l_segments l)) =
       Some (Inr (Some (concat (map2 out_of xs (butlast (l_segments l))) @ [last (l_segments l)]), n, verified, e))"
proof -
  let ?segs = "l_segments l" and ?h = "age_horizon minAge env"
  have l: "log_ok C l css" using assms(1) by (simp add: pass_ok_def)
  then have len: "length ?segs = length css" "?segs \<noteq> []" by (auto simp: log_ok_def list_all2_conv_all_nth)
  have sn: "map snd (zip fs ?segs) = ?segs" using assms(1) len by (simp add: pass_ok_def)
  obtain ds m where d: "loadOrBuildDigests C (zip fs ?segs) = Inr ds" "mergeDigests spec (pe_mergeNow env) ?segs ds = Inr m"
    "decided spec (pe_mergeNow env) l css ds m" using pass_decided [OF assms(1)] by blast
  define disp late where dl: "disp = pass_disp ?h spec (only_strip spec m) ds ?segs" "late = pass_late spec (only_strip spec m) ds ?segs"
  define st where "st = \<lparr>ps_budget = newRewriteBudget (pe_clock env 0) (cs_maxRewrites spec) (cs_RewriteBudget spec), ps_tiers = [],
      ps_reads = 1, ps_skipped = False, ps_done = replicate (length ?segs - 1) None, ps_removed = 0, ps_err = None\<rparr>"
  let ?o = "rewrite_order disp late (only_strip spec m)"
  have lo: "i < length css - 1" if "i \<in> set ?o" for i using that by (simp add: order_wanted dl pass_disp_def len)
  have "\<exists>r. cleanSegment C (pe_rewrite env i) spec (?segs ! i) (drops (only_strip spec m) ! i) = Some r \<and> r \<noteq> Inl GoPanic" if "i \<in> set ?o" for i
    using lo [OF that] log_segment [OF l assms(3), of i] by (intro pass_rewrite [OF assms(4) _ assms(2), of _ "css ! i"]) simp_all
  then obtain st' where st': "rewrite_loop C env spec ?segs (only_strip spec m) late ?o st = Some (Inr st')" using rewrite_loop_total by blast
  have done0: "ps_done st = replicate (length ?segs - 1) None" by (simp add: st_def)
  have "loop_done C env spec ?segs (only_strip spec m) late [] ?o st st'"
    by (rule rewrite_loop_done [OF st']) (use lo in \<open>auto simp: done0 len order_wanted(2)\<close>)
  then have r: "rewrote C minAge env spec ?segs ds (only_strip spec m) (ps_done st')" by (rule loop_rewrote [OF _ done0 dl])
  have "fst (assemble disp (ps_done st') (butlast ?segs) True (- 1)) = concat (map2 out_of (ps_done st') (butlast ?segs))"
    using r by (intro assemble_out) (auto simp: dl pass_disp_def rewrote_def Let_def)
  then obtain v where v: "assemble disp (ps_done st') (butlast ?segs) True (- 1) = (concat (map2 out_of (ps_done st') (butlast ?segs)), v)"
    by (metis prod.collapse)
  have tk: "take (length ?segs - 1) ?segs = butlast ?segs" by (simp add: butlast_conv_take)
  have "\<exists>n v' e. compact C minAge env spec (zip fs ?segs) =
       Some (Inr (Some (concat (map2 out_of (ps_done st') (butlast ?segs)) @ [last ?segs]), n, v', e))"
    unfolding compact_def Let_def sn d(1) tk using d(2) st' v
    by (cases "ps_err st'") (auto simp: dl pass_disp_def pass_late_def st_def)
  then show ?thesis using d(3) r by blast
qed

text \<open>The records that are gone.\<close>

definition gone :: "CleanSpec \<Rightarrow> chunks list \<Rightarrow> mergeResult \<Rightarrow> segment option option list \<Rightarrow> logrec \<Rightarrow> bool" where
  "gone spec css m xs r \<longleftrightarrow> (\<exists>i < length xs. xs ! i \<noteq> None \<and> r \<in> set (concat (css ! i)) \<and> disp_of spec (drops m ! i) r = dispRemove)"

lemma gone_at:
  assumes "laid_out bs (map concat css)" and "length xs \<le> length css" and "i < length css" and "r \<in> set (concat (css ! i))"
  shows "gone spec css m xs r \<longleftrightarrow> i < length xs \<and> xs ! i \<noteq> None \<and> disp_of spec (drops m ! i) r = dispRemove"
proof -
  have "j = i" if "j < length xs" "r \<in> set (concat (css ! j))" for j
    using laid_out_unique [OF assms(1), of j r i r] that assms(2-4) by simp
  then show ?thesis using assms(4) unfolding gone_def by blast
qed

lemma rewrote_left:
  assumes "log_ok C l css" and "codecs_ok C" and "list_all sound (log_recs css)" and "pass_env_ok C env"
    and "rewrote C minAge env spec (l_segments l) ds m xs"
  shows "\<exists>css'. log_ok C (l \<lparr>l_segments := concat (map2 out_of xs (butlast (l_segments l))) @ [last (l_segments l)]\<rparr>) css' \<and>
     list_all2 (same_record spec) (filter (\<lambda>r. \<not> gone spec css m xs r) (log_recs css)) (log_recs css')"
proof -
  let ?segs = "l_segments l" and ?n = "length css - 1" and ?keep = "\<lambda>r. \<not> gone spec css m xs r"
  have len: "length ?segs = length css" "css \<noteq> []" using assms(1) by (auto simp: log_ok_def list_all2_conv_all_nth)
  have xs: "length xs = ?n" using assms(5) len by (simp add: rewrote_def Let_def)
  note g = gone_at [OF pass_laid_out [OF assms(1)], of xs _ _ spec m]
  have "\<exists>ps. left_of C spec ?keep (?segs ! i) (css ! i) (out_of (xs ! i) (?segs ! i)) ps" if i: "i < ?n" for i
  proof -
    note s = log_segment [OF assms(1,3), of i]
    have "?segs ! i \<in> set (butlast ?segs)" using i len nth_mem [of i "butlast ?segs"] by (simp add: nth_butlast)
    then have ne: "\<not> IsEmpty (?segs ! i)" using assms(1) by (simp add: log_ok_def)
    have gi: "gone spec css m xs r \<longleftrightarrow> xs ! i \<noteq> None \<and> disp_of spec (drops m ! i) r = dispRemove" if "r \<in> set (concat (css ! i))" for r
      using g [of i r] i xs that by (simp del: set_concat)
    show ?thesis
    proof (cases "xs ! i")
      case None
      then have "left_of C spec ?keep (?segs ! i) (css ! i) [?segs ! i] [css ! i]"
        using s(1) ne gi i by (intro kept_left_of) (simp_all del: set_concat)
      then show ?thesis using None by (auto simp: out_of_def)
    next
      case (Some x)
      then obtain res k where c: "cleanSegment C (pe_rewrite env i) spec (?segs ! i) (drops m ! i) = Some (Inr (res, k))" "x = map_option fst res"
        using assms(5) i len by (auto simp: rewrote_def Let_def rewritten_to_def)
      then have "env_ok C (pe_rewrite env i)" using assms(4) rewrite_refused [of "pe_rewrite env i"] by (force simp: pass_env_ok_def)
      then show ?thesis
        using rewritten_left_of [OF s(1) assms(2) _ s(2) c(1), of ?keep] Some c(2) i gi by (simp del: set_concat)
    qed
  qed
  then obtain P where P: "\<forall>i < ?n. left_of C spec ?keep (?segs ! i) (css ! i) (out_of (xs ! i) (?segs ! i)) (P i)" by metis
  let ?oss = "map2 out_of xs (butlast ?segs)" and ?pss = "map P [0..<?n]"
  have "\<forall>i < ?n. left_of C spec ?keep (?segs ! i) (css ! i) (?oss ! i) (?pss ! i)" using P xs len by (simp add: nth_butlast)
  moreover have "\<forall>r \<in> set (concat (last css)). ?keep r" using g [of ?n] xs len by (simp add: last_conv_nth del: set_concat)
  ultimately show ?thesis using log_left [OF assms(1) refl, of ?oss ?pss spec ?keep] xs len by auto
qed

section \<open>What the log still says\<close>

lemma last_related:
  assumes "list_all2 R xs ys" and "ys \<noteq> []"
  shows "xs \<noteq> [] \<and> R (last xs) (last ys)"
  using assms by (induction rule: list_all2_induct) auto

definition view_kept :: "CleanSpec \<Rightarrow> int \<Rightarrow> logrec list \<Rightarrow> logrec list \<Rightarrow> bool" where
  "view_kept spec now rs rs' \<longleftrightarrow>
     (\<forall>k. case view spec rs' k of
        Some r' \<Rightarrow> \<exists>r. view spec rs k = Some r \<and> same_record spec r r'
      | None \<Rightarrow> \<forall>r. view spec rs k = Some r \<longrightarrow> lr_offset r < cs_ceiling spec \<and> collectable spec now r)"

lemma view_keptI:
  assumes "list_all2 (same_record spec) (filter (\<lambda>r. \<not> G r) rs) rs'"
    and "\<And>k r. view spec rs k = Some r \<Longrightarrow> G r \<Longrightarrow>
      lr_offset r < cs_ceiling spec \<and> collectable spec now r \<and> (\<forall>x \<in> set rs. keyed k x \<and> counts spec x \<longrightarrow> G x)"
  shows "view_kept spec now rs rs'"
  unfolding view_kept_def
proof
  fix k
  let ?K = "\<lambda>r. keyed k r \<and> counts spec r"
  define xs where "xs = filter ?K rs"
  have "list_all2 (same_record spec) (filter ?K (filter (\<lambda>r. \<not> G r) rs)) (filter ?K rs')"
    using assms(1) same_record_counts(2,3) by (induction rule: list_all2_induct) auto
  moreover have "filter ?K (filter (\<lambda>r. \<not> G r) rs) = filter (\<lambda>r. \<not> G r) xs" unfolding xs_def filter_filter by (rule filter_cong) auto
  ultimately have r: "list_all2 (same_record spec) (filter (\<lambda>r. \<not> G r) xs) (filter ?K rs')" by simp
  have v: "view spec rs k = (if xs = [] then None else Some (last xs))"
    "view spec rs' k = (if filter ?K rs' = [] then None else Some (last (filter ?K rs')))"
    by (simp_all add: view_def xs_def)
  show "case view spec rs' k of
        Some r' \<Rightarrow> \<exists>r. view spec rs k = Some r \<and> same_record spec r r'
      | None \<Rightarrow> \<forall>r. view spec rs k = Some r \<longrightarrow> lr_offset r < cs_ceiling spec \<and> collectable spec now r"
  proof (cases "xs \<noteq> [] \<and> \<not> G (last xs)")
    case True
    then have "filter (\<lambda>r. \<not> G r) xs \<noteq> []" "last (filter (\<lambda>r. \<not> G r) xs) = last xs" using last_filter [of xs "\<lambda>r. \<not> G r"] by simp_all
    moreover from this(1) have "filter ?K rs' \<noteq> []" using r by (metis list_all2_Nil2)
    ultimately show ?thesis using last_related [OF r] True v by simp
  next
    case False
    have "filter ?K rs' = []"
    proof (cases "xs = []")
      case True
      then show ?thesis using r by simp
    next
      case ne: False
      then have "view spec rs k = Some (last xs)" "G (last xs)" using v(1) False by simp_all
      then have "\<forall>x \<in> set rs. ?K x \<longrightarrow> G x" using assms(2) by blast
      then have "filter (\<lambda>r. \<not> G r) xs = []" by (simp add: xs_def filter_empty_conv)
      then show ?thesis using r by simp
    qed
    then show ?thesis using False v assms(2) [of k "last xs"] by auto
  qed
qed

text \<open>A collected tombstone takes every older record of its key with it.\<close>

lemma view_latest:
  assumes "sorted_wrt (\<lambda>x y. lr_offset x < lr_offset y) rs" and "view spec rs k = Some r"
  shows "r \<in> set rs" "keyed k r" "counts spec r" and "\<And>x. x \<in> set rs \<Longrightarrow> keyed k x \<Longrightarrow> counts spec x \<Longrightarrow> x = r \<or> lr_offset x < lr_offset r"
    and "\<not> superseded spec rs r"
proof -
  let ?xs = "filter (\<lambda>r. keyed k r \<and> counts spec r) rs"
  have x: "?xs \<noteq> []" "r = last ?xs" using assms(2) by (auto simp: view_def Let_def split: if_splits)
  then have "r \<in> set ?xs" using last_in_set by blast
  then show r: "r \<in> set rs" "keyed k r" "counts spec r" by simp_all
  have "sorted_wrt (\<lambda>x y. lr_offset x < lr_offset y) (butlast ?xs @ [last ?xs])" using sorted_wrt_filter [OF assms(1)] x(1) by simp
  then have lt: "\<forall>y \<in> set (butlast ?xs). lr_offset y < lr_offset r" unfolding sorted_wrt_append using x(2) by simp
  show le: "y = r \<or> lr_offset y < lr_offset r" if "y \<in> set rs" "keyed k y" "counts spec y" for y
  proof -
    have "y \<in> set (butlast ?xs @ [last ?xs])" using that x(1) by simp
    then show ?thesis using lt x(2) by auto
  qed
  show "\<not> superseded spec rs r" using le r(2) by (force simp: superseded_def keyed_def counts_def)
qed

lemma decided_collected:
  assumes "decided spec now l css ds m" and "i < length css" "r \<in> set (concat (css ! i))" and "keyed k r" "counts spec r"
    and "\<not> superseded spec (log_recs css) r" and "disp_of spec (drops (only_strip spec m) ! i) r = dispRemove"
  shows "\<not> cs_stripOnly spec" and "lr_offset r < cs_ceiling spec" and "collectable spec now r" and "gcSegs m ! i"
proof -
  have len: "length (drops m) = length css" using assms(1) by (simp add: decided_def laid_out_def merged_def res_ok_def)
  note f = readable_fields [OF decided_readable(1) [OF assms(1-3)]]
  have nc: "\<not> is_control r" "\<not> aborted spec (lr_offset r)" using assms(4,5) by (simp_all add: keyed_def counts_def)
  show so: "\<not> cs_stripOnly spec"
  proof
    assume "cs_stripOnly spec"
    then have "drops (only_strip spec m) ! i = None" using assms(2) len by (simp add: only_strip_def)
    then show False using assms(7) nc f by (auto simp: disp_of_def classify_def or_else_def dropSet_get_def is_control_def Let_def split: if_splits)
  qed
  then have "verdict spec now (log_recs css) r = dispRemove"
    using decided_classify [OF assms(1-3)] assms(7) by (simp add: disp_of_def only_strip_def or_else_def)
  then show c: "lr_offset r < cs_ceiling spec" "collectable spec now r"
    using nc assms(6) by (auto simp: verdict_def strip_or_retain_def split: if_splits)
  have "is_latest spec (all_recs k 0 (log_entries css)) (i, drec r)"
    using latest_superseded [of i "map concat css" r k spec] assms(2-6) by (simp add: log_recs_def del: set_concat)
  moreover have "expired spec now (drec r)" using c(2) by (simp add: drec_expired)
  moreover have "k \<in> all_keys (log_entries css)" using key_in_all_keys [of i "map concat css" r k] assms(2-4) by (simp del: set_concat)
  ultimately show "gcSegs m ! i" using assms(1,2) unfolding decided_def merged_def laid_out_def by fastforce
qed

lemma decided_superseded:
  assumes "decided spec now l css ds m" and "i < length css" "r \<in> set (concat (css ! i))" and "keyed k r" "counts spec r"
    and "superseded spec (log_recs css) r" and "lr_offset r < cs_ceiling spec" and "\<not> cs_stripOnly spec"
  shows "disp_of spec (drops (only_strip spec m) ! i) r = dispRemove" and "\<not> canSkip spec (ds ! i) (only_strip spec m) i"
proof -
  have v: "verdict spec now (log_recs css) r = dispRemove" using assms(4-7) by (simp add: verdict_def keyed_def counts_def)
  then show "disp_of spec (drops (only_strip spec m) ! i) r = dispRemove"
    using decided_classify [OF assms(1-3)] assms(8) by (simp add: disp_of_def only_strip_def or_else_def)
  show "\<not> canSkip spec (ds ! i) (only_strip spec m) i" using skip_keeps [OF assms(1-3)] v assms(8) by (auto simp: only_strip_def)
qed

section \<open>A late rewrite waits for what it governs\<close>

definition ages_sorted :: "int \<Rightarrow> segment list \<Rightarrow> bool" where
  "ages_sorted minAge segs \<longleftrightarrow> minAge \<le> 0 \<or> sorted (map s_lastWriteTime segs)"

lemma late_waits:
  assumes "rewrote C minAge env spec segs ds m xs" and "ages_sorted minAge segs" and "lateRewrite spec m i (ds ! i)"
    and "i < length xs" "xs ! i \<noteq> None" and "j \<le> i" and "\<not> canSkip spec (ds ! j) m j"
  shows "xs ! j \<noteq> None"
proof -
  let ?h = "age_horizon minAge env"
  have i: "i < length segs - 1" using assms(1,4) by (simp add: rewrote_def Let_def)
  have n: "pass_disp ?h spec m ds segs ! k = seg_disposition ?h spec m k (ds ! k) (segs ! k)" "pass_late spec m ds segs ! k = lateRewrite spec m k (ds ! k)"
    if "k \<le> i" for k using that i by (simp_all add: pass_disp_def pass_late_def)
  have "seg_disposition ?h spec m i (ds ! i) (segs ! i) = wantRewrite"
    using assms(1,5) i n(1) [of i] by (simp add: rewrote_def Let_def)
  then have pi: "\<not> (?h > 0 \<and> s_lastWriteTime (segs ! i) > ?h)" by (auto simp: seg_disposition_def split: if_splits)
  have "minAge > 0 \<Longrightarrow> s_lastWriteTime (segs ! j) \<le> s_lastWriteTime (segs ! i)"
    using assms(2,6) i sorted_nth_mono [of "map s_lastWriteTime segs" j i] by (simp add: ages_sorted_def)
  then have "\<not> (?h > 0 \<and> s_lastWriteTime (segs ! j) > ?h)" using pi by (auto split: if_splits)
  then have "seg_disposition ?h spec m j (ds ! j) (segs ! j) = wantRewrite" using assms(7) by (simp add: seg_disposition_def)
  then show ?thesis using assms(1,3,5,6) i n(1) [OF assms(6)] n(2) [of i] by (simp add: rewrote_def Let_def)
qed

lemma laid_out_order:
  assumes "laid_out bs rss" and "i < length rss" "r \<in> set (rss ! i)" and "j < length rss" "r' \<in> set (rss ! j)" and "lr_offset r' < lr_offset r"
  shows "j \<le> i"
proof (rule ccontr)
  assume "\<not> j \<le> i"
  then have "snd (bs ! i) \<le> fst (bs ! j)" using assms(1,4) by (simp add: laid_out_def sorted_wrt_iff_nth_less)
  moreover have "lr_offset r < snd (bs ! i)" "fst (bs ! j) \<le> lr_offset r'" using assms(1-5) by (auto simp: laid_out_def)
  ultimately show False using assms(6) by linarith
qed

lemma log_rec_at:
  assumes "r \<in> set (log_recs css)"
  obtains i where "i < length css" "r \<in> set (concat (css ! i))"
proof -
  from assms obtain cs where "cs \<in> set css" "r \<in> set (concat cs)" by (auto simp: log_recs_def)
  then show thesis using that by (metis in_set_conv_nth)
qed

lemma tombstone_last:
  assumes "decided spec now l css ds m" and "rewrote C minAge env spec (l_segments l) ds (only_strip spec m) xs"
    and "ages_sorted minAge (l_segments l)" and "sorted_wrt (\<lambda>x y. lr_offset x < lr_offset y) (log_recs css)"
    and "view spec (log_recs css) k = Some r" and "gone spec css (only_strip spec m) xs r"
  shows "lr_offset r < cs_ceiling spec \<and> collectable spec now r \<and>
     (\<forall>x \<in> set (log_recs css). keyed k x \<and> counts spec x \<longrightarrow> gone spec css (only_strip spec m) xs x)"
proof -
  let ?m = "only_strip spec m"
  note v = view_latest [OF assms(4,5)]
  have lo: "laid_out (seg_bounds l) (map concat css)" using assms(1) by (simp add: decided_def)
  then have len: "length (l_segments l) = length css" by (simp add: laid_out_def)
  then have xs: "length xs = length css - 1" using assms(2) by (simp add: rewrote_def Let_def)
  obtain i where i: "i < length xs" "xs ! i \<noteq> None" "r \<in> set (concat (css ! i))" "disp_of spec (drops ?m ! i) r = dispRemove"
    using assms(6) unfolding gone_def by blast
  have ic: "i < length css" using i(1) xs by simp
  note c = decided_collected [OF assms(1) ic i(3) v(2,3,5) i(4)]
  have late: "lateRewrite spec ?m i (ds ! i)" using c(1,4) by (simp add: lateRewrite_def only_strip_def)
  have "gone spec css ?m xs x" if x: "x \<in> set (log_recs css)" "keyed k x" "counts spec x" for x
  proof (cases "x = r")
    case False
    then have lt: "lr_offset x < lr_offset r" using v(4) [OF x] by simp
    obtain j where j: "j < length css" "x \<in> set (concat (css ! j))" using x(1) by (rule log_rec_at)
    have "superseded spec (log_recs css) x" using v(1-3) x(2) lt by (auto simp: superseded_def keyed_def)
    note s = decided_superseded [OF assms(1) j x(2,3) this _ c(1)]
    have ji: "j \<le> i" using laid_out_order [OF lo, of i r j x] ic i(3) j lt by (simp del: set_concat)
    have ce: "lr_offset x < cs_ceiling spec" using c(2) lt by simp
    have "xs ! j \<noteq> None" by (rule late_waits [OF assms(2,3) late i(1,2) ji s(2) [OF ce]])
    then show ?thesis using s(1) [OF ce] j ji i(1) unfolding gone_def by (intro exI [of _ j]) simp
  qed (use assms(6) in simp)
  then show ?thesis using c by blast
qed

text \<open>A marker that is removed takes the aborted records before it along.\<close>

lemma marker_last:
  assumes "decided spec now l css ds m" and "rewrote C minAge env spec (l_segments l) ds (only_strip spec m) xs"
    and "ages_sorted minAge (l_segments l)" and "is_control u" and "gone spec css (only_strip spec m) xs u"
    and "r \<in> set (log_recs css)" and "\<not> is_control r" and "aborted spec (lr_offset r)" and "lr_offset r < lr_offset u"
  shows "gone spec css (only_strip spec m) xs r"
proof -
  let ?m = "only_strip spec m"
  have lo: "laid_out (seg_bounds l) (map concat css)" using assms(1) by (simp add: decided_def)
  then have len: "length (l_segments l) = length css" by (simp add: laid_out_def)
  then have xs: "length xs = length css - 1" using assms(2) by (simp add: rewrote_def Let_def)
  obtain i where i: "i < length xs" "xs ! i \<noteq> None" "u \<in> set (concat (css ! i))" "disp_of spec (drops ?m ! i) u = dispRemove"
    using assms(5) unfolding gone_def by blast
  have ic: "i < length css" using i(1) xs by simp
  note u = readable_fields [OF decided_readable(1) [OF assms(1) ic i(3)]]
  have b: "lr_offset u < cs_ceiling spec" "lr_offset u < cs_StripBelow spec" "cs_StripHeaders spec \<noteq> []"
    using i(4) assms(4) u by (auto simp: disp_of_def classify_def or_else_def is_control_def Let_def split: if_splits)
  moreover have "0 \<le> lr_offset u" by (rule decided_readable(2) [OF assms(1) ic i(3)])
  ultimately have late: "lateRewrite spec ?m i (ds ! i)"
    using decided_unkeyed(2) [OF assms(1) ic i(3) assms(4)] by (auto simp: lateRewrite_def stripActive_def)
  obtain j where j: "j < length css" "r \<in> set (concat (css ! j))" using assms(6) by (rule log_rec_at)
  have ji: "j \<le> i" using laid_out_order [OF lo, of i u j r] ic i(3) j assms(9) by (simp del: set_concat)
  have ce: "lr_offset r < cs_ceiling spec" using b(1) assms(9) by simp
  have "\<not> canSkip spec (ds ! j) ?m j"
  proof
    assume k: "canSkip spec (ds ! j) ?m j"
    have "abortedKeyed ?m = abortedKeyed m" by (simp add: only_strip_def)
    then show False
      using canSkipD(2) [OF k] canSkipD(3) [OF k, of "drec r"] decided_unkeyed(1) [OF assms(1) j _ assms(7)] decided_flags(1) [OF assms(1) j] assms(7,8) ce
      by (cases "rec_key r") (auto simp: keyed_def aborts_def drec_offset)
  qed
  then have "xs ! j \<noteq> None" by (rule late_waits [OF assms(2,3) late i(1,2) ji])
  moreover have "disp_of spec (drops ?m ! j) r = dispRemove"
    using readable_fields [OF decided_readable(1) [OF assms(1) j]] assms(7,8) ce
    by (auto simp: disp_of_def classify_def or_else_def is_control_def Let_def)
  ultimately show ?thesis using j ji i(1) unfolding gone_def by (intro exI [of _ j]) simp
qed

lemma CompactSpec_leaves:
  assumes "pass_ok C l css fs" and "codecs_ok C" and "list_all sound (log_recs css)" and "pass_env_ok C env"
  shows "\<exists>ds m xs segs' css' verified e. decided spec (pe_mergeNow env) l css ds m \<and>
     rewrote C minAge env spec (l_segments l) ds (only_strip spec m) xs \<and>
     CompactSpec C minAge env spec (zip fs (l_segments l)) = Some (Inr (Some segs', verified, e)) \<and> log_ok C (l \<lparr>l_segments := segs'\<rparr>) css' \<and>
     list_all2 (same_record spec) (filter (\<lambda>r. \<not> gone spec css (only_strip spec m) xs r) (log_recs css)) (log_recs css')"
proof -
  let ?segs = "l_segments l"
  have l: "log_ok C l css" using assms(1) by (simp add: pass_ok_def)
  then have len: "length ?segs = length css" "?segs \<noteq> []" "length fs = length ?segs"
    using assms(1) by (auto simp: log_ok_def list_all2_conv_all_nth pass_ok_def)
  obtain ds m xs n v e where c: "decided spec (pe_mergeNow env) l css ds m" "rewrote C minAge env spec ?segs ds (only_strip spec m) xs"
    "compact C minAge env spec (zip fs ?segs) = Some (Inr (Some (concat (map2 out_of xs (butlast ?segs)) @ [last ?segs]), n, v, e))"
    using compact_runs [OF assms] by blast
  have "\<exists>v e. CompactSpec C minAge env spec (zip fs ?segs) = Some (Inr (Some (concat (map2 out_of xs (butlast ?segs)) @ [last ?segs]), v, e))"
  proof (cases "length ?segs \<le> 1")
    case True
    then obtain s where "?segs = [s]" using len(2) by (cases ?segs) auto
    then show ?thesis using len(3) by (simp add: CompactSpec_def)
  next
    case False
    then show ?thesis using c(3) len(3) by (simp add: CompactSpec_def)
  qed
  then show ?thesis using c(1,2) rewrote_left [OF l assms(2-4) c(2)] by blast
qed

lemma left_offsets:
  assumes "list_all2 (same_record spec) xs ys"
  shows "lr_offset ` set ys = lr_offset ` set xs"
  using assms same_record_counts(1) by (induction rule: list_all2_induct) auto

lemma left_iff:
  assumes "list_all2 (same_record spec) (filter (\<lambda>r. \<not> G r) rs) rs'" and "sorted_wrt (\<lambda>x y. lr_offset x < lr_offset y) rs" and "r \<in> set rs"
  shows "lr_offset r \<in> lr_offset ` set rs' \<longleftrightarrow> \<not> G r"
proof -
  have "distinct (map lr_offset rs)" using assms(2) strict_sorted_iff [of "map lr_offset rs"] by (simp add: sorted_wrt_map)
  then have "inj_on lr_offset (set rs)" by (simp add: distinct_map)
  then show ?thesis using assms(3) unfolding left_offsets [OF assms(1)] by (auto simp: inj_on_def)
qed

section \<open>Properties\<close>

text \<open>
  C9: a compaction pass is safe wherever it stops.  A pass spends its budget, meets a read-only tier or a rewrite that
  is refused after any number of rewrites, and always leaves a well-formed log in which every key reads as before:
  its latest counted record is the same record (possibly without strip headers), or the key is gone because that
  record was a tombstone past its retention and below the ceiling.  An older value never comes back in its place.
  Counted records are the merge's: data records up to and including the ceiling that were not aborted.  A rewrite either
  succeeds or is refused before it writes anything; one that fails half way is not covered.  Segments must have been
  written in order of time where a minimum age protects some of them.
\<close>

theorem partial_pass_keeps_view:
  assumes "pass_ok C l css fs" and "codecs_ok C" and "list_all sound (log_recs css)" and "pass_env_ok C env"
    and "ages_sorted minAge (l_segments l)"
  shows "\<exists>segs' css' verified e. CompactSpec C minAge env spec (zip fs (l_segments l)) = Some (Inr (Some segs', verified, e)) \<and>
     log_ok C (l \<lparr>l_segments := segs'\<rparr>) css' \<and> view_kept spec (pe_mergeNow env) (log_recs css) (log_recs css')"
proof -
  have "log_ok C l css" using assms(1) by (simp add: pass_ok_def)
  then have srt: "sorted_wrt (\<lambda>x y. lr_offset x < lr_offset y) (log_recs css)" using log_recs_sorted by (auto simp: log_ok_def)
  obtain ds m xs segs' css' v e where c: "decided spec (pe_mergeNow env) l css ds m" "rewrote C minAge env spec (l_segments l) ds (only_strip spec m) xs"
    "CompactSpec C minAge env spec (zip fs (l_segments l)) = Some (Inr (Some segs', v, e))" "log_ok C (l \<lparr>l_segments := segs'\<rparr>) css'"
    "list_all2 (same_record spec) (filter (\<lambda>r. \<not> gone spec css (only_strip spec m) xs r) (log_recs css)) (log_recs css')"
    using CompactSpec_leaves [OF assms(1-4)] by blast
  have "view_kept spec (pe_mergeNow env) (log_recs css) (log_recs css')"
    by (rule view_keptI [OF c(5)]) (rule tombstone_last [OF c(1,2) assms(5) srt])
  then show ?thesis using c(3,4) by blast
qed

definition sample_pass_env :: passEnv where
  "sample_pass_env = \<lparr>pe_mergeNow = 0, pe_ageNow = 0, pe_clock = (\<lambda>_. 0), pe_rewrite = (\<lambda>_. sample_env)\<rparr>"

lemma sample_pass_env_ok: "pass_env_ok C sample_pass_env"
  by (simp add: pass_env_ok_def sample_pass_env_def sample_env_ok)

lemma later_notes_sound: "list_all sound later_notes"
  by (simp add: later_notes_def a_note_sound)

theorem partial_pass_keeps_view_witness:
  "\<exists>segs' css' verified e r. CompactSpec raw_codecs 0 sample_pass_env (plain_spec 105)
       (zip [no_sidecar, no_sidecar] (l_segments (two_log sample_notes 105 later_notes))) = Some (Inr (Some segs', verified, e)) \<and>
     log_ok raw_codecs ((two_log sample_notes 105 later_notes) \<lparr>l_segments := segs'\<rparr>) css' \<and>
     view (plain_spec 105) (log_recs css') [108] = Some r \<and> lr_offset r = 104"
proof -
  let ?l = "two_log sample_notes 105 later_notes" and ?p = "plain_spec 105"
  obtain cs es where p: "pass_ok raw_codecs ?l [cs, es] [no_sidecar, no_sidecar]" "concat cs = sample_notes" "concat es = later_notes"
    using sample_pass by blast
  have rs: "log_recs [cs, es] = sample_notes @ later_notes" using p(2,3) by (simp add: log_recs_def)
  then have so: "list_all sound (log_recs [cs, es])" using sample_notes_sound later_notes_sound by simp
  obtain segs' css' v e where c: "CompactSpec raw_codecs 0 sample_pass_env ?p (zip [no_sidecar, no_sidecar] (l_segments ?l)) = Some (Inr (Some segs', v, e))"
    "log_ok raw_codecs (?l \<lparr>l_segments := segs'\<rparr>) css'" "view_kept ?p (pe_mergeNow sample_pass_env) (log_recs [cs, es]) (log_recs css')"
    using partial_pass_keeps_view [OF p(1) sample_ok(1) so sample_pass_env_ok, of 0 ?p] by (auto simp: ages_sorted_def)
  have w: "view ?p (log_recs [cs, es]) [108] = Some (sample_notes ! 4)" "lr_offset (sample_notes ! 4) = 104" "\<not> collectable ?p 0 (sample_notes ! 4)"
    unfolding rs by (simp_all add: view_def keyed_def counts_def plain_spec_def aborted_def note_simps collectable_def)
  have k: "case view ?p (log_recs css') [108] of
        Some r' \<Rightarrow> \<exists>r. view ?p (log_recs [cs, es]) [108] = Some r \<and> same_record ?p r r'
      | None \<Rightarrow> \<forall>r. view ?p (log_recs [cs, es]) [108] = Some r \<longrightarrow> lr_offset r < cs_ceiling ?p \<and> collectable ?p 0 r"
    using c(3) unfolding view_kept_def sample_pass_env_def passEnv.simps by (rule spec)
  have "\<exists>r. view ?p (log_recs css') [108] = Some r \<and> lr_offset r = 104"
    using k w same_record_counts(1) by (cases "view ?p (log_recs css') [108]") auto
  then show ?thesis using c(1,2) by blast
qed

text \<open>
  C11: an aborted record never outlives its marker.  Wherever a compaction pass stops, if a control record of the log
  is no longer there, then neither is any record of an aborted transaction that came before it.  A
  rewrite either succeeds or is refused before it writes anything, and segments must have been written in order of time
  where a minimum age protects some of them.
\<close>

theorem aborted_gone_before_marker:
  assumes "pass_ok C l css fs" and "codecs_ok C" and "list_all sound (log_recs css)" and "pass_env_ok C env"
    and "ages_sorted minAge (l_segments l)"
  shows "\<exists>segs' css' verified e. CompactSpec C minAge env spec (zip fs (l_segments l)) = Some (Inr (Some segs', verified, e)) \<and>
     log_ok C (l \<lparr>l_segments := segs'\<rparr>) css' \<and>
     (\<forall>u \<in> set (log_recs css). is_control u \<and> lr_offset u \<notin> lr_offset ` set (log_recs css') \<longrightarrow>
       (\<forall>r \<in> set (log_recs css). \<not> is_control r \<and> aborted spec (lr_offset r) \<and> lr_offset r < lr_offset u \<longrightarrow>
          lr_offset r \<notin> lr_offset ` set (log_recs css')))"
proof -
  have "log_ok C l css" using assms(1) by (simp add: pass_ok_def)
  then have srt: "sorted_wrt (\<lambda>x y. lr_offset x < lr_offset y) (log_recs css)" using log_recs_sorted by (auto simp: log_ok_def)
  obtain ds m xs segs' css' v e where c: "decided spec (pe_mergeNow env) l css ds m" "rewrote C minAge env spec (l_segments l) ds (only_strip spec m) xs"
    "CompactSpec C minAge env spec (zip fs (l_segments l)) = Some (Inr (Some segs', v, e))" "log_ok C (l \<lparr>l_segments := segs'\<rparr>) css'"
    "list_all2 (same_record spec) (filter (\<lambda>r. \<not> gone spec css (only_strip spec m) xs r) (log_recs css)) (log_recs css')"
    using CompactSpec_leaves [OF assms(1-4)] by blast
  note iff = left_iff [OF c(5) srt]
  show ?thesis using c(3,4) iff marker_last [OF c(1,2) assms(5)] by blast
qed

theorem aborted_gone_before_marker_witness:
  "\<exists>segs' css' verified e. CompactSpec raw_codecs 0 sample_pass_env ((plain_spec 105) \<lparr>cs_StripBelow := 105, cs_StripHeaders := [[104]], cs_Aborted := Some (\<lambda>off. off = 100)\<rparr>)
       (zip [no_sidecar, no_sidecar] (l_segments (two_log sample_notes 105 later_notes))) = Some (Inr (Some segs', verified, e)) \<and>
     log_ok raw_codecs ((two_log sample_notes 105 later_notes) \<lparr>l_segments := segs'\<rparr>) css' \<and>
     (101 \<in> lr_offset ` set (log_recs css') \<or> 100 \<notin> lr_offset ` set (log_recs css'))"
proof -
  let ?l = "two_log sample_notes 105 later_notes" and ?p = "(plain_spec 105) \<lparr>cs_StripBelow := 105, cs_StripHeaders := [[104]], cs_Aborted := Some (\<lambda>off. off = 100)\<rparr>"
  obtain cs es where p: "pass_ok raw_codecs ?l [cs, es] [no_sidecar, no_sidecar]" "concat cs = sample_notes" "concat es = later_notes"
    using sample_pass by blast
  have rs: "log_recs [cs, es] = sample_notes @ later_notes" using p(2,3) by (simp add: log_recs_def)
  then have so: "list_all sound (log_recs [cs, es])" using sample_notes_sound later_notes_sound by simp
  have r: "sample_notes ! 0 \<in> set (log_recs [cs, es])" "sample_notes ! 1 \<in> set (log_recs [cs, es])" unfolding rs by (simp_all add: sample_notes_def)
  have f: "is_control (sample_notes ! 1)" "\<not> is_control (sample_notes ! 0)" "lr_offset (sample_notes ! 1) = 101" "lr_offset (sample_notes ! 0) = 100"
    "aborted ?p 100" by (simp_all add: note_simps aborted_def)
  obtain segs' css' v e where c: "CompactSpec raw_codecs 0 sample_pass_env ?p (zip [no_sidecar, no_sidecar] (l_segments ?l)) = Some (Inr (Some segs', v, e))"
    "log_ok raw_codecs (?l \<lparr>l_segments := segs'\<rparr>) css'"
    "\<forall>u \<in> set (log_recs [cs, es]). is_control u \<and> lr_offset u \<notin> lr_offset ` set (log_recs css') \<longrightarrow>
       (\<forall>r \<in> set (log_recs [cs, es]). \<not> is_control r \<and> aborted ?p (lr_offset r) \<and> lr_offset r < lr_offset u \<longrightarrow>
          lr_offset r \<notin> lr_offset ` set (log_recs css'))"
    using aborted_gone_before_marker [OF p(1) sample_ok(1) so sample_pass_env_ok, of 0 ?p] by (auto simp: ages_sorted_def)
  have "101 \<in> lr_offset ` set (log_recs css') \<or> 100 \<notin> lr_offset ` set (log_recs css')"
    using c(3) [rule_format, OF r(2), of "sample_notes ! 0"] r(1) f by auto
  then show ?thesis using c(1,2) by blast
qed

end
