(* ===== verification/Log_Truncate.thy ===== *)
theory Log_Truncate
  imports Segment_Clean
begin

text \<open>
  \<^verbatim>\<open>commitlog.go\<close>, \<^verbatim>\<open>Truncate\<close>, and the closing and deleting of a segment it needs from \<^verbatim>\<open>segment.go\<close>: what is
  left of a log whose records from an offset on are taken back, as a follower does that diverged from its leader.

  How the operating system answers is an argument, per deleted segment and for the copy that is written.
  Installing the copy over its source (\<^verbatim>\<open>Replace\<close>) is a function, as it is for a rewrite.
\<close>

section \<open>Closing and deleting a segment\<close>

text \<open>\<open>td_backing\<close> is the error of closing the log file, where a file that is closed already is no error.\<close>

record teardown =
  td_backing :: "err option"
  td_sync :: bool
  td_unmap :: bool
  td_trunc :: bool
  td_close :: bool
  td_table :: bool
  td_remove :: "err option"

definition closeSegment :: "teardown \<Rightarrow> bool \<Rightarrow> segment \<Rightarrow> segment \<times> err option" where
  "closeSegment t durable s =
     (if s_closed s then (s, None)
      else let shut = (if \<not> durable then CloseDiscarding else if s_dirtyIndex s then ix_Close else CloseFlushed);
               (s, ierr) = (case s_Index s of
                  None \<Rightarrow> (s, None)
                | Some idx \<Rightarrow> (case shut (td_sync t) (td_unmap t) (td_trunc t) (td_close t) idx of
                    (idx, e) \<Rightarrow> (s \<lparr>s_Index := Some idx\<rparr>, e))) in
        (case td_backing t of
           Some e \<Rightarrow> (s, Some e)
         | None \<Rightarrow> (case ierr of
             Some e \<Rightarrow> (s, Some e)
           | None \<Rightarrow> (seal (td_trunc t) (td_sync t) (td_table t) (s \<lparr>s_closed := True\<rparr>), None))))"

definition s_Delete :: "teardown \<Rightarrow> segment \<Rightarrow> segment \<times> err option" where
  "s_Delete t s =
     (let (s, closeErr) = closeSegment t False s; s = s \<lparr>s_left := True\<rparr> in
      case closeErr of
        Some e \<Rightarrow> (s, Some e)
      | None \<Rightarrow> (case td_remove t of Some e \<Rightarrow> (s, Some e) | None \<Rightarrow> (s \<lparr>s_blocksFile := None\<rparr>, None)))"

section \<open>Truncation\<close>

definition Truncated :: "codecs \<Rightarrow> disk \<Rightarrow> bool \<Rightarrow> segment \<Rightarrow> segment result option" where
  "Truncated C d remove_ok s = newWorkingSegment C d remove_ok (s_BaseOffset s) (s_maxBytes s) (s_codec s) (s_format s)"

text \<open>The records below the cut, one write each.\<close>

function trunc_copy :: "codecs \<Rightarrow> (nat \<Rightarrow> io) \<Rightarrow> segment \<Rightarrow> int \<Rightarrow> nat \<Rightarrow> int \<Rightarrow> segment \<Rightarrow> segment result" where
  "trunc_copy C ws s offset n pos copy =
     (case Scan C s pos of
        Inl e \<Rightarrow> if e = EOF then Inr copy else Inl (unreadable e)
      | Inr (ms, e, pos') \<Rightarrow>
          (case ms_Offset ms of
             Inl e \<Rightarrow> Inl e
           | Inr off \<Rightarrow>
               if off \<ge> offset then Inr copy
               else (case WriteMessageSet C (ws n) ms [e] copy of
                   Inl e \<Rightarrow> Inl e
                 | Inr (copy, Some e) \<Rightarrow> Inl e
                 | Inr (copy, None) \<Rightarrow> trunc_copy C ws s offset (n + 1) pos' copy)))"
  by pat_completeness auto
termination
  by (relation "measure (\<lambda>(_, _, s, _, _, pos, _). nat (s_position s - pos))") (auto dest!: Scan_advances)

declare trunc_copy.simps [simp del]

text \<open>Deleting in order, up to the first failure: the segments as they are then, and how many are gone.\<close>

fun delete_all :: "(nat \<Rightarrow> teardown) \<Rightarrow> nat \<Rightarrow> segment list \<Rightarrow> segment list \<times> nat \<times> err option" where
  "delete_all td i [] = ([], 0, None)"
| "delete_all td i (s # ss) =
     (case s_Delete (td i) s of
        (s, Some e) \<Rightarrow> (s # ss, 0, Some e)
      | (s, None) \<Rightarrow> (case delete_all td (i + 1) ss of (ss, n, e) \<Rightarrow> (s # ss, n + 1, e)))"

record truncEnv =
  te_disk :: disk
  te_remove :: bool
  te_writes :: "nat \<Rightarrow> io"
  te_delete :: "nat \<Rightarrow> teardown"
  te_install :: "segment \<Rightarrow> segment \<Rightarrow> segment result"
  te_shut :: bool
  te_epochs :: write_outcome

text \<open>The copy of the boundary segment, if it is to be replaced.\<close>

definition trunc_replacement :: "codecs \<Rightarrow> truncEnv \<Rightarrow> int \<Rightarrow> bool \<Rightarrow> segment \<Rightarrow> segment option result option" where
  "trunc_replacement C te offset replace seg =
     (if replace
      then map_option (\<lambda>r. and_then r (\<lambda>copy. and_then (trunc_copy C (te_writes te) seg offset 0 0 copy) (\<lambda>copy. Inr (Some copy))))
             (Truncated C (te_disk te) (te_remove te) seg)
      else Some (Inr None))"

text \<open>The files of deleted segments leave the directory.\<close>

definition forget :: "segment list \<Rightarrow> commitLog \<Rightarrow> commitLog" where
  "forget ss l = l \<lparr>l_dir := filter (\<lambda>b. b \<notin> s_BaseOffset ` set ss) (l_dir l)\<rparr>"

text \<open>The shorter list becomes the log's: the watermark comes down to what is left, and the epochs follow.\<close>

definition trunc_publish :: "truncEnv \<Rightarrow> int \<Rightarrow> segment list \<Rightarrow> commitLog \<Rightarrow> commitLog \<times> err option" where
  "trunc_publish te offset segments l =
     (if te_shut te then (l \<lparr>l_segmentsClosed := True\<rparr>, Some ErrCommitLogClosed)
      else let l = l \<lparr>l_segments := segments\<rparr>; newest = NextOffset (activeSegment l) - 1;
               l = (if l_hw l > newest then notifyHWChange (l \<lparr>l_hw := newest\<rparr>) else l);
               (c, e) = ClearLatest (te_epochs te) offset (l_epochs l) in
        (l \<lparr>l_epochs := c\<rparr>, e))"

definition trunc_delete :: "truncEnv \<Rightarrow> nat \<Rightarrow> bool \<Rightarrow> commitLog \<Rightarrow> commitLog \<times> err option" where
  "trunc_delete te idx replace l =
     (let ss = l_segments l; (after, n, e) = delete_all (te_delete te) (idx + 1) (drop (idx + 1) ss);
          l = forget (take n (drop (idx + 1) ss)) (l \<lparr>l_segments := take (idx + 1) ss @ after\<rparr>) in
      if e \<noteq> None \<or> replace then (l, e)
      else (case s_Delete (te_delete te idx) (ss ! idx) of
          (s, e) \<Rightarrow> let l = l \<lparr>l_segments := (l_segments l) [idx := s]\<rparr> in (if e = None then forget [s] l else l, e)))"

definition Truncate :: "codecs \<Rightarrow> truncEnv \<Rightarrow> int \<Rightarrow> commitLog \<Rightarrow> (commitLog \<times> err option) option" where
  "Truncate C te offset l =
     (if l_segmentsClosed l then Some (l, Some ErrCommitLogClosed)
      else (case findSegment (l_segments l) offset of
          (None, _) \<Rightarrow> Some (l, None)
        | (Some seg, idx) \<Rightarrow>
            let replace = s_BaseOffset seg \<noteq> offset \<or> idx = 0 in
            (case trunc_replacement C te offset replace seg of
               None \<Rightarrow> None
             | Some (Inl e) \<Rightarrow> Some (l, Some e)
             | Some (Inr copy) \<Rightarrow>
                 Some (case trunc_delete te idx replace l of
                    (l', Some e) \<Rightarrow> (l', Some e)
                  | (l', None) \<Rightarrow>
                      (case copy of
                         None \<Rightarrow> trunc_publish te offset (take idx (l_segments l)) l'
                       | Some copy \<Rightarrow>
                           (case te_install te seg copy of
                              Inl e \<Rightarrow> (l', Some e)
                            | Inr new \<Rightarrow>
                                trunc_publish te offset (take idx (l_segments l) @ [new])
                                  (l' \<lparr>l_segments := (l_segments l') [idx := seg \<lparr>s_left := True, s_closed := True\<rparr>]\<rparr>))))))) "

section \<open>What a truncation leaves\<close>

text \<open>No file operation fails, nobody closes the log meanwhile, and installing a copy keeps what it holds.\<close>

definition teardown_ok :: teardown where
  "teardown_ok = \<lparr>td_backing = None, td_sync = True, td_unmap = True, td_trunc = True, td_close = True, td_table = True, td_remove = None\<rparr>"

definition trunc_env_ok :: "codecs \<Rightarrow> truncEnv \<Rightarrow> bool" where
  "trunc_env_ok C te \<longleftrightarrow> dk_io (te_disk te) = io_ok \<and> dk_size (te_disk te) \<and> te_remove te \<and> te_writes te = all_written \<and>
     te_delete te = (\<lambda>_. teardown_ok) \<and> \<not> te_shut te \<and> te_epochs te = Written \<and>
     (\<forall>s copy cs. seg_ok C copy cs \<longrightarrow> (\<exists>s' cs'. te_install te s copy = Inr s' \<and> seg_ok C s' cs' \<and> concat cs' = concat cs \<and>
        s_BaseOffset s' = s_BaseOffset copy))"

lemma s_Delete_ok: "\<exists>s'. s_Delete teardown_ok s = (s', None) \<and> s_BaseOffset s' = s_BaseOffset s"
  by (auto simp: s_Delete_def closeSegment_def teardown_ok_def CloseDiscarding_def closeIndex_def seal_def Let_def split: option.split prod.split)

lemma delete_all_ok: "\<exists>ss'. delete_all (\<lambda>_. teardown_ok) i ss = (ss', length ss, None)"
proof (induction ss arbitrary: i)
  case (Cons s ss)
  obtain s' where "s_Delete teardown_ok s = (s', None)" using s_Delete_ok by blast
  moreover obtain ss' where "delete_all (\<lambda>_. teardown_ok) (i + 1) ss = (ss', length ss, None)" using Cons.IH by blast
  ultimately show ?case by simp
qed simp

lemma trunc_copy_holds:
  assumes "open_holds C s (pre @ post)" and "\<not> s_blocksPending s" and "codecs_ok C" and "records_ok base (pre @ post)"
    and "seg_ok C copy ds" and "concat ds = pre" and "s_BaseOffset copy = base"
  shows "\<exists>copy' ds'. trunc_copy C all_written s offset n (int (length (frames pre))) copy = Inr copy' \<and> seg_ok C copy' ds' \<and>
     concat ds' = pre @ takeWhile (\<lambda>r. lr_offset r < offset) post \<and> s_BaseOffset copy' = base"
  using assms
proof (induction post arbitrary: pre copy ds n)
  case Nil
  then have "Scan C s (int (length (frames pre))) = Inl EOF" using Scan_end [of C s pre] by simp
  then show ?case using Nil.prems by (intro exI [of _ copy] exI [of _ ds]) (simp add: trunc_copy.simps)
next
  case (Cons r post)
  let ?p = "int (length (frames pre))" and ?q = "int (length (frames (pre @ [r])))"
  have f: "frame_ok r" using Cons.prems(4) by (simp add: records_ok_def)
  have sc: "Scan C s ?p = Inr (frame r, entry_of ?p r, ?q)" using Scan_at [of C s pre r post] Cons.prems f by simp
  have o: "ms_Offset (frame r) = Inr (lr_offset r)" using frame_accessors(1) [OF f, of "[]"] by simp
  show ?case
  proof (cases "lr_offset r < offset")
    case True
    have c: "seg_holds C copy ds" "\<not> s_closed copy" "codec_Valid (s_codec copy)" using Cons.prems(5) by (simp_all add: seg_ok_def s_live_def)
    have pos: "s_position copy = ?p" using c(1) Cons.prems(6) by (auto simp: seg_holds_def seg_bytes_def)
    have "records_ok base (pre @ [r])" using Cons.prems(4) records_ok_prefix [of base "pre @ [r]" post] by simp
    then obtain copy' ds' where w: "WriteMessageSet C io_ok (frame r) [entry_of ?p r] copy = Inr (copy', None)"
      "seg_holds C copy' ds'" "concat ds' = pre @ [r]" "same_shape copy copy'"
      using WriteMessageSet_holds [OF c(1,2), of "[r]"] Cons.prems(3,6,7) c(3) pos by auto
    have "\<exists>c' es. trunc_copy C all_written s offset (n + 1) ?q copy' = Inr c' \<and> seg_ok C c' es \<and>
       concat es = (pre @ [r]) @ takeWhile (\<lambda>r. lr_offset r < offset) post \<and> s_BaseOffset c' = base"
      using Cons.prems same_shape_ok [OF Cons.prems(5) w(2,4)] w(3) by (intro Cons.IH) simp_all
    then show ?thesis using True by (simp add: trunc_copy.simps [of C _ s offset n ?p] sc o w(1))
  next
    case False
    then show ?thesis using Cons.prems by (intro exI [of _ copy] exI [of _ ds]) (simp add: trunc_copy.simps [of C _ s offset n ?p] sc o)
  qed
qed

lemma Truncated_fresh:
  assumes "trunc_env_ok C te" and "seg_ok C s cs"
  shows "\<exists>copy. Truncated C (te_disk te) (te_remove te) s = Some (Inr copy) \<and> seg_ok C copy [] \<and> s_BaseOffset copy = s_BaseOffset s"
  using Cleaned_fresh [of C "\<lparr>rw_disk = te_disk te, rw_remove = True, rw_writes = all_written, rw_orders = (\<lambda>hm. (hm, hm)),
      rw_delete = (\<lambda>_. None), rw_install = (\<lambda>_ copy. Inr copy), rw_digest = True\<rparr>" s cs] assms
  by (auto simp: env_ok_def orders_ok_def Truncated_def Cleaned_def trunc_env_ok_def)

lemma trunc_replacement_ok:
  assumes "trunc_env_ok C te" and "seg_ok C s cs" and "codecs_ok C"
  shows "\<exists>copy ds. trunc_replacement C te offset True s = Some (Inr (Some copy)) \<and> seg_ok C copy ds \<and>
     concat ds = takeWhile (\<lambda>r. lr_offset r < offset) (concat cs) \<and> s_BaseOffset copy = s_BaseOffset s"
proof -
  obtain copy where c: "Truncated C (te_disk te) (te_remove te) s = Some (Inr copy)" "seg_ok C copy []" "s_BaseOffset copy = s_BaseOffset s"
    using Truncated_fresh [OF assms(1,2)] by blast
  have h: "seg_holds C s cs" "s_live s" using assms(2) by (simp_all add: seg_ok_def)
  have "records_ok (s_BaseOffset s) (concat cs)" using h(1) by (simp add: seg_holds_def)
  then obtain copy' ds where "trunc_copy C all_written s offset 0 0 copy = Inr copy'" "seg_ok C copy' ds"
    "concat ds = takeWhile (\<lambda>r. lr_offset r < offset) (concat cs)" "s_BaseOffset copy' = s_BaseOffset s"
    using trunc_copy_holds [of C s "[]" "concat cs" "s_BaseOffset s" copy "[]" offset 0] seg_open [OF h] assms(3) c(2,3) by auto
  moreover have "te_writes te = all_written" using assms(1) by (simp add: trunc_env_ok_def)
  ultimately show ?thesis using c(1) by (intro exI [of _ copy'] exI [of _ ds]) (simp add: trunc_replacement_def)
qed

lemma segs_bounds:
  assumes "list_all2 (seg_ok C) ss css"
  shows "\<forall>t \<in> set ss. NextOffset t \<le> b \<Longrightarrow> \<forall>r \<in> set (log_recs css). lr_offset r < b"
    and "\<forall>t \<in> set ss. b \<le> s_BaseOffset t \<Longrightarrow> \<forall>r \<in> set (log_recs css). b \<le> lr_offset r"
  using assms
proof (induction ss css rule: list_all2_induct)
  case (Cons s ss cs css)
  { case 1 then show ?case using Cons holds_bounds(1) [of C s cs] by (fastforce simp: seg_ok_def simp del: set_concat) }
  { case 2 then show ?case using Cons holds_bounds(1) [of C s cs] by (fastforce simp: seg_ok_def simp del: set_concat) }
qed simp_all

text \<open>Where an offset lies in a log: at or past its end, or before the end of some segment.\<close>

lemma log_cut:
  assumes "log_ok C l css"
  obtains (above) i where "findSegment (l_segments l) offset = (None, i)" "\<forall>r \<in> set (log_recs css). lr_offset r < offset" "NextOffset (activeSegment l) \<le> offset"
  | (inside) A s B dss cs ess where "findSegment (l_segments l) offset = (Some s, length A)" "l_segments l = A @ s # B" "css = dss @ cs # ess"
      "list_all2 (seg_ok C) A dss" "seg_ok C s cs" "\<forall>r \<in> set (log_recs dss). lr_offset r < offset" "\<forall>r \<in> set (log_recs ess). offset \<le> lr_offset r"
      "\<forall>t \<in> set A. NextOffset t \<le> offset"
proof -
  let ?P = "\<lambda>s. NextOffset s \<le> offset"
  define A B where "A = takeWhile ?P (l_segments l)" and "B = dropWhile ?P (l_segments l)"
  have segs: "l_segments l = A @ B" by (simp add: A_def B_def)
  have ne: "l_segments l \<noteq> []" and h: "list_all2 (seg_ok C) (A @ B) css"
    and srt: "sorted_wrt (\<lambda>s t. NextOffset s \<le> s_BaseOffset t) (A @ B)" using assms segs by (simp_all add: log_ok_def)
  obtain dss ess where c: "css = dss @ ess" "list_all2 (seg_ok C) A dss" "list_all2 (seg_ok C) B ess"
    using h by (auto simp: list_all2_append1)
  have PA: "\<forall>t \<in> set A. ?P t" using set_takeWhileD by (fastforce simp: A_def)
  have below: "\<forall>r \<in> set (log_recs dss). lr_offset r < offset" by (rule segs_bounds(1) [OF c(2) PA])
  note f = findSegment_first [OF log_ok_ascending(2,1) [OF assms], of offset, folded A_def B_def]
  show thesis
  proof (cases B)
    case Nil
    then have "activeSegment l \<in> set A" using segs ne by (simp add: activeSegment_def)
    then show thesis using above f Nil below c PA by simp
  next
    case (Cons s B')
    then obtain cs ess' where e: "ess = cs # ess'" "seg_ok C s cs" "list_all2 (seg_ok C) B' ess'" using c(3) by (auto simp: list_all2_Cons1)
    have nx: "offset < NextOffset s" using Cons hd_dropWhile [of ?P "l_segments l"] unfolding B_def [symmetric] by simp
    have "\<forall>t \<in> set B'. NextOffset s \<le> s_BaseOffset t" using srt Cons by (simp add: sorted_wrt_append)
    then have "\<forall>t \<in> set B'. offset \<le> s_BaseOffset t" using nx by force
    then have "\<forall>r \<in> set (log_recs ess'). offset \<le> lr_offset r" by (rule segs_bounds(2) [OF e(3)])
    then show thesis using inside [of s A B' dss cs ess'] f Cons segs c e below PA by simp
  qed
qed

text \<open>The directory names no file but the segments'.\<close>

definition dir_exact :: "commitLog \<Rightarrow> bool" where
  "dir_exact l \<longleftrightarrow> set (l_dir l) \<subseteq> s_BaseOffset ` set (l_segments l)"

definition same_limits :: "commitLog \<Rightarrow> commitLog \<Rightarrow> bool" where
  "same_limits l l' \<longleftrightarrow> l_segmentsClosed l' = l_segmentsClosed l \<and> l_Compression l' = l_Compression l \<and>
     l_MaxSegmentBytes l' = l_MaxSegmentBytes l \<and> l_MaxSegmentAge l' = l_MaxSegmentAge l \<and> l_hw l' = l_hw l \<and> l_epochs l' = l_epochs l"

lemma trunc_delete_ok:
  assumes "trunc_env_ok C te" and "l_segments l = A @ s # B"
  shows "\<exists>l'. trunc_delete te (length A) replace l = (l', None) \<and> same_limits l l' \<and>
     set (l_dir l') = set (l_dir l) - s_BaseOffset ` set (if replace then B else s # B)"
proof -
  have td: "te_delete te = (\<lambda>_. teardown_ok)" using assms(1) by (simp add: trunc_env_ok_def)
  obtain B' where B': "delete_all (\<lambda>_. teardown_ok) (length A + 1) B = (B', length B, None)" using delete_all_ok by blast
  obtain s' where s': "s_Delete teardown_ok s = (s', None)" "s_BaseOffset s' = s_BaseOffset s" using s_Delete_ok by blast
  show ?thesis using B' s' by (auto simp: trunc_delete_def td assms(2) forget_def same_limits_def Let_def)
qed

lemma trunc_publish_ok:
  assumes "trunc_env_ok C te"
  shows "\<exists>l'. trunc_publish te offset segs l = (l', None) \<and> l_segments l' = segs \<and> l_hw l' = min (l_hw l) (NewestOffset l') \<and>
     l_epochs l' = fst (ClearLatest Written offset (l_epochs l)) \<and> l_dir l' = l_dir l \<and> l_segmentsClosed l' = l_segmentsClosed l \<and>
     l_Compression l' = l_Compression l \<and> l_MaxSegmentBytes l' = l_MaxSegmentBytes l"
proof -
  have te: "\<not> te_shut te" "te_epochs te = Written" using assms by (simp_all add: trunc_env_ok_def)
  have "\<exists>c. ClearLatest Written offset (l_epochs l) = (c, None)" by (simp add: ClearLatest_def flush_def Let_def)
  then obtain c where c: "ClearLatest Written offset (l_epochs l) = (c, None)" by blast
  show ?thesis
    by (auto simp: trunc_publish_def te Let_def notifyHWChange_def notify_def NewestOffset_def activeSegment_def c)
qed

lemma Truncate_inside:
  assumes ok: "log_ok C l css" and C: "codecs_ok C" and te: "trunc_env_ok C te" and dir: "dir_exact l"
    and f: "findSegment (l_segments l) offset = (Some s, length A)" and segs: "l_segments l = A @ s # B" and css: "css = dss @ cs # ess"
    and A: "list_all2 (seg_ok C) A dss" and s: "seg_ok C s cs"
  shows "\<exists>l' new. Truncate C te offset l = Some (l', None) \<and> l_segments l' = A @ new \<and>
     (if s_BaseOffset s \<noteq> offset \<or> A = []
      then \<exists>s' cs'. new = [s'] \<and> seg_ok C s' cs' \<and> concat cs' = takeWhile (\<lambda>r. lr_offset r < offset) (concat cs) \<and> s_BaseOffset s' = s_BaseOffset s
      else new = []) \<and>
     set (l_dir l') \<subseteq> s_BaseOffset ` set (l_segments l') \<and> l_hw l' = min (l_hw l) (NewestOffset l') \<and>
     l_epochs l' = fst (ClearLatest Written offset (l_epochs l)) \<and> \<not> l_segmentsClosed l' \<and> l_Compression l' = l_Compression l \<and>
     l_MaxSegmentBytes l' = l_MaxSegmentBytes l"
proof -
  let ?r = "s_BaseOffset s \<noteq> offset \<or> A = []"
  have nc: "\<not> l_segmentsClosed l" using ok by (simp add: log_ok_def)
  obtain l1 where l1: "trunc_delete te (length A) ?r l = (l1, None)" "same_limits l l1"
    "set (l_dir l1) = set (l_dir l) - s_BaseOffset ` set (if ?r then B else s # B)" using trunc_delete_ok [OF te segs] by blast
  show ?thesis
  proof (cases ?r)
    case True
    obtain copy ds where c: "trunc_replacement C te offset True s = Some (Inr (Some copy))" "seg_ok C copy ds"
      "concat ds = takeWhile (\<lambda>r. lr_offset r < offset) (concat cs)" "s_BaseOffset copy = s_BaseOffset s"
      using trunc_replacement_ok [OF te s C] by blast
    obtain s' cs' where i: "te_install te s copy = Inr s'" "seg_ok C s' cs'" "concat cs' = concat ds" "s_BaseOffset s' = s_BaseOffset s"
      using te c(2,4) unfolding trunc_env_ok_def by metis
    define l2 where "l2 = l1 \<lparr>l_segments := (l_segments l1) [length A := s \<lparr>s_left := True, s_closed := True\<rparr>]\<rparr>"
    obtain l' where l': "trunc_publish te offset (A @ [s']) l2 = (l', None)" "l_segments l' = A @ [s']" "l_hw l' = min (l_hw l2) (NewestOffset l')"
      "l_epochs l' = fst (ClearLatest Written offset (l_epochs l2))" "l_dir l' = l_dir l2" "l_segmentsClosed l' = l_segmentsClosed l2"
      "l_Compression l' = l_Compression l2" "l_MaxSegmentBytes l' = l_MaxSegmentBytes l2" using trunc_publish_ok [OF te] by blast
    have "Truncate C te offset l = Some (l', None)"
      using True l1(1) c(1) i(1) l'(1) nc f by (simp add: Truncate_def segs l2_def)
    moreover have "set (l_dir l') \<subseteq> s_BaseOffset ` set (l_segments l')"
      using dir l1(3) l'(2,5) i(4) True by (auto simp: dir_exact_def segs l2_def)
    ultimately show ?thesis using True l' i(2,3,4) c(3) nc l1(2) by (intro exI [of _ l'] exI [of _ "[s']"]) (auto simp: l2_def same_limits_def)
  next
    case False
    obtain l' where l': "trunc_publish te offset A l1 = (l', None)" "l_segments l' = A" "l_hw l' = min (l_hw l1) (NewestOffset l')"
      "l_epochs l' = fst (ClearLatest Written offset (l_epochs l1))" "l_dir l' = l_dir l1" "l_segmentsClosed l' = l_segmentsClosed l1"
      "l_Compression l' = l_Compression l1" "l_MaxSegmentBytes l' = l_MaxSegmentBytes l1" using trunc_publish_ok [OF te] by blast
    have "Truncate C te offset l = Some (l', None)"
      using False l1(1) l'(1) nc f by (simp add: Truncate_def segs trunc_replacement_def)
    moreover have "set (l_dir l') \<subseteq> s_BaseOffset ` set (l_segments l')" using dir l1(3) l'(2,5) False by (auto simp: dir_exact_def segs)
    ultimately show ?thesis using False l' nc l1(2) by (intro exI [of _ l'] exI [of _ "[]"]) (auto simp: same_limits_def)
  qed
qed

lemma base_le_next: "list_all2 (seg_ok C) ss css \<Longrightarrow> t \<in> set ss \<Longrightarrow> s_BaseOffset t \<le> NextOffset t"
  using holds_bounds(2) by (auto simp: list_all2_conv_all_nth in_set_conv_nth seg_ok_def)

lemma shortened_ok:
  assumes "log_ok C l css" and "l_segments l = A @ s # B" and "list_all2 (seg_ok C) A dss"
    and "l_segments l' = A @ new" and "list_all2 (seg_ok C) new ness" and "length new \<le> 1" and "A @ new \<noteq> []" and "\<forall>t \<in> set new. s_BaseOffset t = s_BaseOffset s"
    and "set (l_dir l') \<subseteq> s_BaseOffset ` set (l_segments l')"
    and "\<not> l_segmentsClosed l'" "l_Compression l' = l_Compression l" "l_MaxSegmentBytes l' = l_MaxSegmentBytes l"
  shows "log_ok C l' (dss @ ness)"
proof -
  have "butlast (A @ s # B) = A @ butlast (s # B)" by (simp add: butlast_append)
  then have srt: "sorted_wrt (\<lambda>s t. NextOffset s \<le> s_BaseOffset t) (A @ s # B)" "\<forall>t \<in> set A. \<not> IsEmpty t"
    using assms(1,2) unfolding log_ok_def by simp_all
  have one: "new = [] \<or> (\<exists>t. new = [t])" using assms(6) by (cases new) simp_all
  have AA: "sorted_wrt (\<lambda>s t. NextOffset s \<le> s_BaseOffset t) (A @ new)"
    using one assms(8) srt(1) by (elim disjE exE) (simp_all add: sorted_wrt_append)
  have l2: "list_all2 (seg_ok C) (A @ new) (dss @ ness)" using assms(3,5) by (rule list_all2_appendI)
  have "s_BaseOffset t \<le> s_BaseOffset (last (A @ new))" if t: "t \<in> set (A @ new)" for t
  proof -
    have "t \<in> set (butlast (A @ new) @ [last (A @ new)])" using t assms(7) by simp
    moreover have "sorted_wrt (\<lambda>s t. NextOffset s \<le> s_BaseOffset t) (butlast (A @ new) @ [last (A @ new)])" using AA assms(7) by simp
    ultimately show ?thesis using base_le_next [OF l2 t] unfolding sorted_wrt_append by force
  qed
  then have "\<forall>b \<in> set (l_dir l'). b \<le> s_BaseOffset (activeSegment l')" using assms(4,9) by (auto simp: activeSegment_def)
  moreover have "\<forall>t \<in> set (butlast (A @ new)). \<not> IsEmpty t"
    using srt(2) one by (auto simp: butlast_append dest: in_set_butlastD)
  ultimately show ?thesis using assms(1,4,7,10-12) AA l2 by (simp add: log_ok_def)
qed

lemma takeWhile_none: "\<forall>x \<in> set xs. \<not> P x \<Longrightarrow> takeWhile P xs = []"
  by (cases xs) simp_all

lemma takeWhile_cut:
  assumes "\<forall>x \<in> set xs. P x" and "\<forall>x \<in> set zs. \<not> P x"
  shows "takeWhile P (xs @ ys @ zs) = xs @ takeWhile P ys"
proof -
  have "takeWhile P zs = []" by (rule takeWhile_none [OF assms(2)])
  moreover have "takeWhile P (xs @ ys @ zs) = xs @ takeWhile P (ys @ zs)" using assms(1) by simp
  moreover have "takeWhile P (ys @ zs) = takeWhile P ys" using calculation(1) by (induction ys) simp_all
  ultimately show ?thesis by simp
qed

lemma Truncate_ok:
  assumes ok: "log_ok C l css" and C: "codecs_ok C" and te: "trunc_env_ok C te" and dir: "dir_exact l" and hw: "l_hw l \<le> NewestOffset l"
  shows "\<exists>l' css'. Truncate C te offset l = Some (l', None) \<and> log_ok C l' css' \<and> dir_exact l' \<and>
     log_recs css' = takeWhile (\<lambda>r. lr_offset r < offset) (log_recs css) \<and> l_hw l' = min (l_hw l) (NewestOffset l') \<and>
     ((\<exists>r \<in> set (log_recs css). offset \<le> lr_offset r) \<longrightarrow> l_epochs l' = fst (ClearLatest Written offset (l_epochs l))) \<and>
     (l' = l \<or> l_epochs l' = fst (ClearLatest Written offset (l_epochs l)))"
proof (cases rule: log_cut [OF ok, of offset])
  case (1 i)
  have nc: "\<not> l_segmentsClosed l" using ok by (simp add: log_ok_def)
  have "log_recs css = takeWhile (\<lambda>r. lr_offset r < offset) (log_recs css)" using 1(2) by (intro sym [OF takeWhile_eq_all_conv [THEN iffD2]])
  moreover have "Truncate C te offset l = Some (l, None)" using 1(1) nc by (simp add: Truncate_def)
  moreover have "\<not> (\<exists>r \<in> set (log_recs css). offset \<le> lr_offset r)" using 1(2) by force
  ultimately show ?thesis using ok dir hw by (intro exI [of _ l] exI [of _ css] conjI impI) simp_all
next
  case (2 A s B dss cs ess)
  obtain l' new where l': "Truncate C te offset l = Some (l', None)" "l_segments l' = A @ new"
    "if s_BaseOffset s \<noteq> offset \<or> A = []
      then \<exists>s' cs'. new = [s'] \<and> seg_ok C s' cs' \<and> concat cs' = takeWhile (\<lambda>r. lr_offset r < offset) (concat cs) \<and> s_BaseOffset s' = s_BaseOffset s
      else new = []"
    "set (l_dir l') \<subseteq> s_BaseOffset ` set (l_segments l')" "l_hw l' = min (l_hw l) (NewestOffset l')"
    "l_epochs l' = fst (ClearLatest Written offset (l_epochs l))" "\<not> l_segmentsClosed l'" "l_Compression l' = l_Compression l"
    "l_MaxSegmentBytes l' = l_MaxSegmentBytes l"
    using Truncate_inside [OF ok C te dir 2(1-5)] by blast
  obtain ness where n: "list_all2 (seg_ok C) new ness" "length new \<le> 1" "A @ new \<noteq> []" "\<forall>t \<in> set new. s_BaseOffset t = s_BaseOffset s"
    "log_recs ness = takeWhile (\<lambda>r. lr_offset r < offset) (concat cs)"
  proof (cases "s_BaseOffset s \<noteq> offset \<or> A = []")
    case True
    then obtain s' cs' where "new = [s']" "seg_ok C s' cs'" "concat cs' = takeWhile (\<lambda>r. lr_offset r < offset) (concat cs)"
      "s_BaseOffset s' = s_BaseOffset s" using l'(3) by auto
    then show thesis using that [of "[cs']"] by (simp add: log_recs_def)
  next
    case False
    have "\<forall>r \<in> set (concat cs). \<not> lr_offset r < offset" using holds_bounds(1) [of C s cs] 2(5) False by (force simp: seg_ok_def simp del: set_concat)
    then have tw: "takeWhile (\<lambda>r. lr_offset r < offset) (concat cs) = []" by (rule takeWhile_none)
    have "new = []" using l'(3) unfolding if_not_P [OF False] .
    then show thesis using False by (intro that [of "[]"]) (simp_all add: tw)
  qed
  have "log_ok C l' (dss @ ness)" by (rule shortened_ok [OF ok 2(2,4) l'(2) n(1-4) l'(4,7-9)])
  moreover have "log_recs (dss @ ness) = takeWhile (\<lambda>r. lr_offset r < offset) (log_recs css)"
    using takeWhile_cut [of "log_recs dss" "\<lambda>r. lr_offset r < offset" "log_recs ess" "concat cs"] 2(3,6,7) n(5) by (simp add: not_less)
  ultimately show ?thesis using l' by (intro exI [of _ l'] exI [of _ "dss @ ness"]) (simp add: dir_exact_def)
qed

section \<open>Properties\<close>

text \<open>
  C12: truncation takes back exactly the records from the offset on.  Whichever segment the offset falls in, at its
  base, inside it or in a gap, the call succeeds; the log is well formed and holds, in order, the records below
  the offset and no other, no file is left of a segment that is gone, the high watermark comes down to the newest
  offset that is left, and the leader epochs that began at or past the offset are forgotten.  The high watermark must
  not have been above the newest offset, and no file operation fails.
\<close>

theorem Truncate_removes_suffix:
  assumes "log_ok C l css" and "codecs_ok C" and "trunc_env_ok C te" and "dir_exact l" and "l_hw l \<le> NewestOffset l"
  shows "\<exists>l' css'. Truncate C te offset l = Some (l', None) \<and> log_ok C l' css' \<and> dir_exact l' \<and>
     log_recs css' = takeWhile (\<lambda>r. lr_offset r < offset) (log_recs css) \<and> l_hw l' = min (l_hw l) (NewestOffset l') \<and>
     ((\<exists>r \<in> set (log_recs css). offset \<le> lr_offset r) \<longrightarrow> l_epochs l' = fst (ClearLatest Written offset (l_epochs l)))"
  using Truncate_ok [OF assms, of offset] by blast

definition sample_trunc_env :: truncEnv where
  "sample_trunc_env = \<lparr>te_disk = disk_ok, te_remove = True, te_writes = all_written, te_delete = (\<lambda>_. teardown_ok),
     te_install = (\<lambda>_ copy. Inr copy), te_shut = False, te_epochs = Written\<rparr>"

lemma sample_trunc_env_ok: "trunc_env_ok C sample_trunc_env"
  by (auto simp: trunc_env_ok_def sample_trunc_env_def disk_ok_def)

lemma two_log_exact: "records_ok 100 rs \<Longrightarrow> rs \<noteq> [] \<Longrightarrow> records_ok b qs \<Longrightarrow> qs \<noteq> [] \<Longrightarrow> dir_exact (two_log rs b qs)"
  using seg_at_ok [of b qs True] by (auto simp: dir_exact_def two_log_def log_of_def)

lemma later_notes_ok: "records_ok 105 later_notes" "later_notes \<noteq> []"
  by (simp_all add: records_ok_def note_simps a_note_length)

theorem Truncate_removes_suffix_witness:
  "\<exists>l' css'. Truncate raw_codecs sample_trunc_env 102 (two_log sample_notes 105 later_notes) = Some (l', None) \<and>
     log_ok raw_codecs l' css' \<and> map lr_offset (log_recs css') = [100, 101]"
proof -
  let ?l = "two_log sample_notes 105 later_notes"
  obtain cs es where p: "pass_ok raw_codecs ?l [cs, es] [no_sidecar, no_sidecar]" "concat cs = sample_notes" "concat es = later_notes"
    using sample_pass by blast
  have l: "log_ok raw_codecs ?l [cs, es]" using p(1) by (simp add: pass_ok_def)
  have rs: "log_recs [cs, es] = sample_notes @ later_notes" using p(2,3) by (simp add: log_recs_def)
  have d: "dir_exact ?l" using sample_notes_ok later_notes_ok by (intro two_log_exact) (simp_all add: sample_notes_def)
  have "-1 \<le> NewestOffset ?l" using active_base [OF l] holds_bounds(3) [of raw_codecs "activeSegment ?l" es] l
    by (auto simp: log_ok_def two_log_def activeSegment_def seg_ok_def)
  then have hw: "l_hw ?l \<le> NewestOffset ?l" by (simp add: two_log_def log_of_def)
  have "map lr_offset (takeWhile (\<lambda>r. lr_offset r < 102) (sample_notes @ later_notes)) = [100, 101]" by (simp add: note_simps)
  then show ?thesis using Truncate_removes_suffix [OF l sample_ok(1) sample_trunc_env_ok d hw, of 102] unfolding rs by metis
qed

text \<open>
  C38: a follower truncated into a gap cannot follow.  When the last records of a sealed segment are gone, the next
  segment's base lies past the end of what is left before it.  Truncating at an offset in that gap keeps an empty
  segment at the later base, so the newest offset the log reports is that base less one although no record is
  there, and a leader's records from the truncation point on are refused.
\<close>

theorem truncated_into_gap_refuses:
  assumes "log_ok C l css" and "codecs_ok C" and "trunc_env_ok C te" and "dir_exact l"
    and "l_segments l = A @ s # B" and "\<forall>t \<in> set A. NextOffset t \<le> offset" and "offset < s_BaseOffset s"
    and "ns \<noteq> []" and "list_all frame_ok ns" and "lr_offset (hd ns) = offset"
  shows "\<exists>l' css' l2. Truncate C te offset l = Some (l', None) \<and> log_ok C l' css' \<and> (\<forall>r \<in> set (log_recs css'). lr_offset r < offset) \<and>
     NewestOffset l' = s_BaseOffset s - 1 \<and> AppendMessageSet C disk_ok now (frames ns) l' = Some (l2, Inl ErrMessageSetRefused)"
proof -
  obtain dss cs ess where c: "css = dss @ cs # ess" "list_all2 (seg_ok C) A dss" "seg_ok C s cs"
    using assms(1,5) by (auto simp: log_ok_def list_all2_append1 list_all2_Cons1)
  have h: "seg_holds C s cs" using c(3) by (simp add: seg_ok_def)
  then have nx: "\<not> NextOffset s \<le> offset" using holds_bounds(2) assms(7) by force
  have "takeWhile (\<lambda>s. NextOffset s \<le> offset) (A @ s # B) = A" "dropWhile (\<lambda>s. NextOffset s \<le> offset) (A @ s # B) = s # B"
    using assms(6) nx by (simp_all add: takeWhile_append2 dropWhile_append2)
  then have f: "findSegment (l_segments l) offset = (Some s, length A)"
    using findSegment_first [OF log_ok_ascending(2,1) [OF assms(1)], of offset] by (simp add: assms(5))
  have r: "s_BaseOffset s \<noteq> offset \<or> A = []" using assms(7) by simp
  have "\<forall>x \<in> set (concat cs). \<not> lr_offset x < offset" using holds_bounds(1) [OF h] assms(7) by force
  then have tw: "takeWhile (\<lambda>r. lr_offset r < offset) (concat cs) = []" by (rule takeWhile_none)
  obtain l' s' cs' where l': "Truncate C te offset l = Some (l', None)" "l_segments l' = A @ [s']" "seg_ok C s' cs'" "concat cs' = []"
    "s_BaseOffset s' = s_BaseOffset s" "set (l_dir l') \<subseteq> s_BaseOffset ` set (l_segments l')" "\<not> l_segmentsClosed l'"
    "l_Compression l' = l_Compression l" "l_MaxSegmentBytes l' = l_MaxSegmentBytes l"
    using Truncate_inside [OF assms(1-4) f assms(5) c(1-3)] unfolding if_P [OF r] tw by blast
  have ok: "log_ok C l' (dss @ [cs'])"
    by (rule shortened_ok [OF assms(1,5) c(2) l'(2) _ _ _ _ l'(6-9)]) (use l'(3,5) in simp_all)
  have n: "NewestOffset l' = s_BaseOffset s - 1"
    using NextOffset_holds [of C s' cs'] l'(2-5) by (simp add: NewestOffset_def activeSegment_def seg_ok_def)
  obtain l2 css2 b where sp: "checkAndPerformSplit C disk_ok now l' = Some (l2, Inr b)" "NewestOffset l2 = NewestOffset l'"
    by (rule checkAndPerformSplit_ok [OF ok])
  have "checkAppendedSet (NextOffset (activeSegment l2) - 1) (entries_of (s_position (activeSegment l2)) ns) (int (length (frames ns))) =
      Some ErrMessageSetRefused"
    using sp(2) n assms(7,8,10) by (cases ns) (simp_all add: checkAppendedSet_def NewestOffset_def entry_of_def)
  then have "AppendMessageSet C disk_ok now (frames ns) l' = Some (l2, Inl ErrMessageSetRefused)"
    using sp(1) entriesForMessageSet_frames [OF assms(9)] by (simp add: AppendMessageSet_def)
  moreover have "log_recs (dss @ [cs']) = log_recs dss" using l'(4) by (simp only: log_recs_simps append_Nil2)
  then have "\<forall>r \<in> set (log_recs (dss @ [cs'])). lr_offset r < offset" using segs_bounds(1) [OF c(2) assms(6)] by (simp only:)
  ultimately show ?thesis using l'(1) ok n by blast
qed

definition gap_notes :: "logrec list" where
  "gap_notes = [a_note 0 (Some [107]) [] 10 107]"

theorem truncated_into_gap_refuses_witness:
  "\<exists>l' l2. Truncate raw_codecs sample_trunc_env 105 (two_log sample_notes 107 gap_notes) = Some (l', None) \<and> NewestOffset l' = 106 \<and>
     AppendMessageSet raw_codecs disk_ok 0 (frames [a_note 0 (Some [107]) [] 10 105]) l' = Some (l2, Inl ErrMessageSetRefused)"
proof -
  let ?l = "two_log sample_notes 107 gap_notes"
  have g: "records_ok 107 gap_notes" "gap_notes \<noteq> []" "sample_notes \<noteq> []" "lr_offset (last sample_notes) = 104"
    by (simp_all add: records_ok_def gap_notes_def note_simps a_note_length)
  obtain cs es where p: "pass_ok raw_codecs ?l [cs, es] [no_sidecar, no_sidecar]" "concat cs = sample_notes" "concat es = gap_notes"
    using two_log_pass [of sample_notes 107 gap_notes] sample_notes_ok g by (auto simp: gap_notes_def note_simps a_note_length)
  have l: "log_ok raw_codecs ?l [cs, es]" using p(1) by (simp add: pass_ok_def)
  have d: "dir_exact ?l" by (rule two_log_exact [OF sample_notes_ok(1) g(3,1,2)])
  have segs: "l_segments ?l = [seg_at 100 True sample_notes] @ seg_at 107 True gap_notes # []" by (simp add: two_log_def)
  have "seg_holds raw_codecs (seg_at 100 True sample_notes) cs" "seg_holds raw_codecs (seg_at 107 True gap_notes) es"
    using l unfolding log_ok_def segs by (simp_all add: seg_ok_def)
  then have b: "NextOffset (seg_at 100 True sample_notes) = 105" "s_BaseOffset (seg_at 107 True gap_notes) = 107"
    using NextOffset_last [of raw_codecs _ cs] p(2) g(3,4) seg_at_ok [OF g(1,2)] by (simp, blast)
  have n: "list_all frame_ok [a_note 0 (Some [107]) [] 10 105]" "lr_offset (hd [a_note 0 (Some [107]) [] 10 105]) = 105"
    using later_notes_ok(1) by (simp_all add: records_ok_def later_notes_def a_note_small)
  show ?thesis
    using truncated_into_gap_refuses [OF l sample_ok(1) sample_trunc_env_ok d segs, of 105 "[a_note 0 (Some [107]) [] 10 105]" 0] b n by auto
qed

end
