(* ===== verification/Append_Batch.thy ===== *)
theory Append_Batch
  imports Log_Truncate
begin

text \<open>
  \<^verbatim>\<open>append_batch.go\<close>: a producer's batch as one append.  On a log of version-3 blocks the batch becomes a block whose
  header carries the producer's identity; on any other log the identity goes on each record as headers.  A batch
  that arrives as a finished block is checked, renumbered in place and written as it is.
\<close>

section \<open>Batches\<close>

record BatchMeta =
  bm_ProducerID :: "64 word"
  bm_ProducerEpoch :: "32 word"
  bm_BaseSequence :: int
  bm_Nonce :: "64 word"

definition no_meta :: BatchMeta where
  "no_meta = \<lparr>bm_ProducerID = 0, bm_ProducerEpoch = 0, bm_BaseSequence = 0, bm_Nonce = 0\<rparr>"

definition takes_identity :: "Message \<Rightarrow> bool" where
  "takes_identity m \<longleftrightarrow> list_ex (\<lambda>k. k \<in> fst ` set (Headers m)) [hdrProducerID, hdrProducerEpoch, hdrSequence, hdrNonce]"

text \<open>The one timestamp of a batch, 0 when no message has one; a batch of two is refused.\<close>

fun batch_stamp :: "64 word \<Rightarrow> bool \<Rightarrow> Message list \<Rightarrow> int \<Rightarrow> int result" where
  "batch_stamp epoch control [] st = Inr st"
| "batch_stamp epoch control (m # ms) st =
     (if Timestamp m \<noteq> 0 \<and> st \<noteq> 0 \<and> Timestamp m \<noteq> st then Inl ErrMessageSetRefused
      else let st = (if Timestamp m \<noteq> 0 then Timestamp m else st) in
        if LeaderEpoch m \<noteq> epoch then Inl ErrMessageSetRefused
        else if (Attributes m AND AttrControl \<noteq> 0) \<noteq> control then Inl ErrMessageSetRefused
        else batch_stamp epoch control ms st)"

definition batch_header :: "BatchMeta \<Rightarrow> Codec \<Rightarrow> int \<Rightarrow> 64 word \<Rightarrow> int \<Rightarrow> bool \<Rightarrow> Header" where
  "batch_header meta codec base epoch st control =
     \<lparr>h_Codec = codec,
      h_Flags = (if control then FlagControl else 0) OR (if bm_Nonce meta \<noteq> 0 then FlagTransactional else 0) OR
                (if meta = no_meta then FlagStripped else 0),
      h_BaseOffset = base, h_LeaderEpoch = epoch, h_BaseTimestamp = st, h_ProducerID = sint (bm_ProducerID meta),
      h_ProducerEpoch = sint (bm_ProducerEpoch meta), h_BaseSequence = bm_BaseSequence meta, h_TxNonce = bm_Nonce meta,
      h_Records = 0, h_LastOffsetDelta = 0, h_UncompressedLen = 0, h_CompressedLen = 0, h_PayloadCRC = 0\<rparr>"

definition batch_record :: "nat \<Rightarrow> Message \<Rightarrow> Record" where
  "batch_record i m = \<lparr>r_Attributes = Attributes m AND AttrTombstone, r_OffsetDelta = word_of_nat i, r_Key = Key m,
     r_Value = Value m, r_Headers = Headers m\<rparr>"

definition batch_records :: "Message list \<Rightarrow> Record list" where
  "batch_records msgs = map2 batch_record [0..<length msgs] msgs"

definition encodeV3Block :: "codecs \<Rightarrow> Header \<Rightarrow> Record list \<Rightarrow> (bytes \<times> Header) result" where
  "encodeV3Block C h recs =
     (if recs = [] then Inl GoPanic
      else let logical = EncodeRecords [] recs;
               (payload, codec) =
                 (if int (length logical) < compressMinBlock then (logical, None_codec)
                  else if h_Codec h \<noteq> None_codec then
                    (let c = Compress C (h_Codec h) logical in
                     if length c < length logical then (c, h_Codec h) else (logical, None_codec))
                  else (logical, h_Codec h));
               h = h \<lparr>h_Codec := codec, h_Records := word_of_nat (length recs), h_LastOffsetDelta := r_OffsetDelta (last recs),
                      h_UncompressedLen := word_of_nat (length logical), h_CompressedLen := word_of_nat (length payload),
                      h_PayloadCRC := crc32 Castagnoli payload\<rparr> in
        Inr (EncodeHeader [] h @ payload, h))"

section \<open>Writing a block\<close>

definition writeV3 :: "codecs \<Rightarrow> disk \<Rightarrow> bytes \<Rightarrow> Header \<Rightarrow> Record list \<Rightarrow> commitLog \<Rightarrow> commitLog \<times> int list result" where
  "writeV3 C d block h recs l =
     (let segment = activeSegment l in
      case synthesizeFraming [] h recs of
        Inl e \<Rightarrow> (l, Inl (if e = GoPanic then GoPanic else ErrMessageSetRefused))
      | Inr logical \<Rightarrow>
          (case entriesForMessageSet (s_position segment) logical of
             Inl e \<Rightarrow> (l, Inl e)
           | Inr entries \<Rightarrow>
               (case checkAppendedSet (NextOffset segment - 1) entries (int (length logical)) of
                  Some e \<Rightarrow> (l, Inl e)
                | None \<Rightarrow>
                    if \<not> s_blockMode segment then log_append C d logical entries l
                    else appendWith d entries (WriteBlock (dk_io d) block (h_Codec h) (int (length logical)) entries) l)))"

text \<open>A roll if one is due, and then the append on the log as it is.\<close>

definition after_split :: "codecs \<Rightarrow> disk \<Rightarrow> int \<Rightarrow> (commitLog \<Rightarrow> commitLog \<times> int list result) \<Rightarrow> commitLog \<Rightarrow> (commitLog \<times> int list result) option" where
  "after_split C d now f l =
     (case checkAndPerformSplit C d now l of
        None \<Rightarrow> None
      | Some (l, Inl e) \<Rightarrow> Some (l, Inl e)
      | Some (l, Inr _) \<Rightarrow> Some (f l))"

definition stamped_message :: "BatchMeta \<Rightarrow> nat \<Rightarrow> Message \<Rightarrow> Message" where
  "stamped_message meta i m = m \<lparr>Headers :=
     (let hs = fold (\<lambda>(k, v). AList.update k v)
          [(hdrProducerID, Some (be64 (bm_ProducerID meta))), (hdrProducerEpoch, Some (be32 (bm_ProducerEpoch meta))),
           (hdrSequence, Some (be32 (word_of_int (bm_BaseSequence meta + int i))))] (Headers m) in
      if bm_Nonce meta \<noteq> 0 then AList.update hdrNonce (Some (be64 (bm_Nonce meta))) hs else hs)\<rparr>"

definition appendStamped :: "codecs \<Rightarrow> disk \<Rightarrow> int \<Rightarrow> BatchMeta \<Rightarrow> Message list \<Rightarrow> commitLog \<Rightarrow> (commitLog \<times> int list result) option" where
  "appendStamped C d now meta msgs l = Append C d now (map2 (stamped_message meta) [0..<length msgs] msgs) l"

definition append_v3_batch :: "codecs \<Rightarrow> disk \<Rightarrow> BatchMeta \<Rightarrow> int \<Rightarrow> Message list \<Rightarrow> commitLog \<Rightarrow> commitLog \<times> int list result" where
  "append_v3_batch C d meta st msgs l =
     (let m = hd msgs; recs = batch_records msgs;
          h = batch_header meta (l_Compression l) (NextOffset (activeSegment l)) (LeaderEpoch m) st (Attributes m AND AttrControl \<noteq> 0) in
      case encodeV3Block C h recs of
        Inl e \<Rightarrow> (l, Inl e)
      | Inr (block, h) \<Rightarrow> writeV3 C d block h recs l)"

definition AppendBatch :: "codecs \<Rightarrow> disk \<Rightarrow> int \<Rightarrow> BatchMeta \<Rightarrow> Message list \<Rightarrow> commitLog \<Rightarrow> (commitLog \<times> int list result) option" where
  "AppendBatch C d now meta msgs l =
     (if l_readonly l then Some (l, Inl ErrCommitLogReadonly)
      else if msgs = [] then Some (l, Inl ErrMessageSetRefused)
      else if list_ex takes_identity msgs then Some (l, Inl ErrMessageSetRefused)
      else if l_BlockFormat l \<noteq> v3_Version then
        (if meta = no_meta then Append C d now msgs l else appendStamped C d now meta msgs l)
      else (case batch_stamp (LeaderEpoch (hd msgs)) (Attributes (hd msgs) AND AttrControl \<noteq> 0) msgs 0 of
          Inl e \<Rightarrow> Some (l, Inl e)
        | Inr st \<Rightarrow> after_split C d now (append_v3_batch C d meta (if st = 0 then now else st) msgs) l))"

section \<open>Finished blocks\<close>

definition decodeV3ForAppend :: "codecs \<Rightarrow> bytes \<Rightarrow> (Header \<times> Record list) result" where
  "decodeV3ForAppend C block =
     (case DecodeBlock C block of
        Inl e \<Rightarrow> Inl (if e = GoPanic then GoPanic else ErrMessageSetRefused)
      | Inr (h, recs) \<Rightarrow>
          if h_Flags h AND FlagStripped = 0 \<and> list_ex (\<lambda>i. r_OffsetDelta (recs ! i) \<noteq> word_of_nat i) [0..<length recs]
          then Inl ErrMessageSetRefused
          else if (h_Flags h AND FlagTransactional \<noteq> 0) \<noteq> (h_TxNonce h \<noteq> 0) then Inl ErrMessageSetRefused
          else Inr (h, recs))"

definition append_preframed :: "codecs \<Rightarrow> disk \<Rightarrow> int \<Rightarrow> bytes \<Rightarrow> Header \<Rightarrow> Record list \<Rightarrow> commitLog \<Rightarrow> commitLog \<times> int list result" where
  "append_preframed C d now block h recs l =
     (let h = h \<lparr>h_BaseOffset := NextOffset (activeSegment l), h_LeaderEpoch := LastLeaderEpoch (l_epochs l), h_BaseTimestamp := now\<rparr> in
      case v3_Rewrite block (h_BaseOffset h) (h_LeaderEpoch h) (h_BaseTimestamp h) of
        Inl e \<Rightarrow> (l, Inl (if e = GoPanic then GoPanic else ErrMessageSetRefused))
      | Inr block \<Rightarrow> writeV3 C d block h recs l)"

definition AppendPreframed :: "codecs \<Rightarrow> disk \<Rightarrow> int \<Rightarrow> bytes \<Rightarrow> commitLog \<Rightarrow> (commitLog \<times> int list result) option" where
  "AppendPreframed C d now block l =
     (if l_readonly l then Some (l, Inl ErrCommitLogReadonly)
      else if l_BlockFormat l \<noteq> v3_Version then Some (l, Inl ErrMessageSetRefused)
      else (case decodeV3ForAppend C block of
          Inl e \<Rightarrow> Some (l, Inl e)
        | Inr (h, recs) \<Rightarrow> after_split C d now (append_preframed C d now block h recs) l))"

section \<open>Frames of a block as written and as read\<close>

text \<open>The header fields that show in a block's frames; the codec, the counts and the checksum do not.\<close>

definition same_framing :: "Header \<Rightarrow> Header \<Rightarrow> bool" where
  "same_framing h h' \<longleftrightarrow> h_Flags h' = h_Flags h \<and> h_BaseOffset h' = h_BaseOffset h \<and> h_LeaderEpoch h' = h_LeaderEpoch h \<and>
     h_BaseTimestamp h' = h_BaseTimestamp h \<and> h_ProducerID h' = h_ProducerID h \<and> h_ProducerEpoch h' = h_ProducerEpoch h \<and>
     h_BaseSequence h' = h_BaseSequence h \<and> h_TxNonce h' = h_TxNonce h"

lemma sort_key_fst_unique:
  assumes "distinct (map fst xs)" and "distinct (map fst ys)" and "map_of xs = map_of ys"
  shows "sort_key fst xs = sort_key fst ys"
proof (rule sort_key_inj_key_eq)
  have "set xs = set ys" using assms by (simp add: map_of_inject_set)
  then show "mset xs = mset (sort_key fst ys)"
    using assms(1,2) by (simp add: set_eq_iff_mset_eq_distinct [symmetric] distinct_map)
  show "inj_on fst (set xs)" using assms(1) by (simp add: distinct_map)
qed simp

lemma record_headers_framing: "same_framing h h' \<Longrightarrow> record_headers h' i r = record_headers h i r"
  by (simp add: same_framing_def record_headers_def is_stamped_def id_headers_def Let_def)

lemma present_id: "headers_wf hs \<Longrightarrow> map present (sort_key fst hs) = sort_key fst hs"
  by (rule map_idI) (auto simp: headers_wf_def nil_bytes_def)

lemma record_headers_sorted:
  assumes "headers_wf (r_Headers r)"
  shows "sort_key fst (record_headers h i (sorted_headers r)) = sort_key fst (record_headers h i r)"
proof (rule sort_key_fst_unique)
  have wf: "headers_wf (r_Headers (sorted_headers r))"
    using assms present_id [OF assms] by (auto simp: sorted_headers_def headers_wf_def distinct_map)
  show "distinct (map fst (record_headers h i (sorted_headers r)))" "distinct (map fst (record_headers h i r))"
    using record_headers_wf [OF wf] record_headers_wf [OF assms] by (simp_all add: headers_wf_def)
  have "map_of (r_Headers (sorted_headers r)) = map_of (r_Headers r)"
    using assms present_id [OF assms] map_of_sort [of "r_Headers r"] by (simp add: sorted_headers_def headers_wf_def)
  then show "map_of (record_headers h i (sorted_headers r)) = map_of (record_headers h i r)"
    by (simp add: record_headers_def id_headers_def Let_def update_conv' fun_eq_iff del: of_int_add)
qed

lemma v3_logrec_framing:
  assumes "same_framing h h'" and "headers_wf (r_Headers r)"
  shows "v3_logrec h' i (sorted_headers r) = v3_logrec h i r" and "headers_fit h' i (sorted_headers r) = headers_fit h i r"
proof -
  note k = record_headers_sorted [OF assms(2), of h i] record_headers_framing [OF assms(1)]
  have "v3_message h' i (sorted_headers r) = v3_message h i r"
    using assms(1) k by (simp add: v3_message_def frame_attrs_def same_framing_def sorted_headers_def)
  then show "v3_logrec h' i (sorted_headers r) = v3_logrec h i r"
    using assms(1) by (simp add: v3_logrec_def same_framing_def sorted_headers_def)
  have "length (record_headers h i (sorted_headers r)) = length (record_headers h i r)"
    "set (record_headers h i (sorted_headers r)) = set (record_headers h i r)"
    using arg_cong [OF k(1), of length] arg_cong [OF k(1), of set] by simp_all
  then show "headers_fit h' i (sorted_headers r) = headers_fit h i r" by (simp add: headers_fit_def k(2) list_all_iff)
qed

lemma v3_logrecs_framing:
  assumes "same_framing h h'" and "\<forall>r \<in> set recs. headers_wf (r_Headers r)"
  shows "v3_logrecs h' i (map sorted_headers recs) = v3_logrecs h i recs" and "all_fit h' i (map sorted_headers recs) = all_fit h i recs"
  using assms(2) by (induction recs arbitrary: i) (simp_all add: v3_logrec_framing [OF assms(1)])

lemma v3_logrecs_header:
  assumes "same_framing h h'"
  shows "v3_logrecs h' i recs = v3_logrecs h i recs" and "all_fit h' i recs = all_fit h i recs"
proof -
  note k = record_headers_framing [OF assms]
  have "v3_logrec h' j r = v3_logrec h j r" "headers_fit h' j r = headers_fit h j r" for j r
    using assms by (simp_all add: v3_logrec_def v3_message_def headers_fit_def frame_attrs_def k) (simp_all add: same_framing_def)
  then show "v3_logrecs h' i recs = v3_logrecs h i recs" "all_fit h' i recs = all_fit h i recs"
    by (induction recs arbitrary: i) simp_all
qed

text \<open>The block of a batch is the block the package encodes, under the codec the size of the batch chooses.\<close>

lemma encodeV3Block_decodes:
  assumes C: "codecs_ok C" and ne: "recs \<noteq> []" and wf: "\<forall>r \<in> set recs. headers_wf (r_Headers r)"
    and len: "length (EncodeRecords [] recs) < 2 ^ 32" and ok: "header_ok (h \<lparr>h_Records := 1\<rparr>)"
  shows "\<exists>b h1 h2. encodeV3Block C h recs = Inr (b, h1) \<and> DecodeBlock C b = Inr (h2, map sorted_headers recs) \<and>
     same_framing h h1 \<and> same_framing h h2"
proof -
  define g where "g = h \<lparr>h_Codec := if int (length (EncodeRecords [] recs)) < 4096 then None_codec else h_Codec h\<rparr>"
  have g: "header_ok (g \<lparr>h_Records := 1\<rparr>)" "same_framing h g"
    using ok by (auto simp: g_def header_ok_def codec_Valid_def None_codec_def Zstd_def same_framing_def)
  obtain b h2 where b: "EncodeBlock C g recs = Inr b" "DecodeBlock C b = Inr (h2, map sorted_headers recs)"
    and h2: "h2 = g \<lparr>h_Codec := h_Codec h2, h_Records := word_of_nat (length recs),
                   h_LastOffsetDelta := r_OffsetDelta (last recs),
                   h_UncompressedLen := word_of_nat (length (EncodeRecords [] recs)),
                   h_CompressedLen := word_of_nat (length b - 76), h_PayloadCRC := crc32 Castagnoli (drop 76 b)\<rparr>"
    using EncodeBlock_decodes [OF C ne _ len g(1)] wf by (auto simp: headers_wf_def)
  have "same_framing g h2" by (subst h2) (simp add: same_framing_def)
  moreover have "\<exists>h1. encodeV3Block C h recs = Inr (b, h1) \<and> same_framing h h1"
    using b(1) ne by (auto simp: encodeV3Block_def EncodeBlock_def g_def Let_def same_framing_def split: if_splits)
  ultimately show ?thesis using b(2) g(2) by (auto simp: same_framing_def)
qed

section \<open>A block joins the log\<close>

lemma writeV3_ok:
  assumes ok: "log_ok C l css" and C: "codecs_ok C" and ns: "ns = v3_logrecs h 0 recs" and ne: "recs \<noteq> []" and f: "all_fit h 0 recs"
    and fit: "records_ok (s_BaseOffset (activeSegment l)) (concat (last css) @ ns)" and hd: "NewestOffset l < lr_offset (hd ns)"
    and data: "decodeV3Block C block = Inr (frames ns)"
  shows "\<exists>l' css'. writeV3 C disk_ok block h recs l = (l', Inr (map lr_offset ns)) \<and> log_ok C l' css' \<and>
     log_recs css' = log_recs css @ ns \<and> appended l l' \<and> epochs_noted ns l l'"
proof -
  let ?s = "activeSegment l" let ?es = "entries_of (s_position ?s) ns" and ?n = "int (length (frames ns))"
  have ne': "ns \<noteq> []" using ne ns by (cases recs) simp_all
  have srt: "sorted_wrt (<) (map lr_offset ns)" "list_all frame_ok ns" using fit by (simp_all add: records_ok_def sorted_wrt_append)
  have chk: "checkAppendedSet (NextOffset ?s - 1) ?es ?n = None"
    using checkAppendedSet_ok [OF srt(1) ne', of "NewestOffset l"] hd by (simp add: NewestOffset_def)
  have w: "writeV3 C disk_ok block h recs l =
      (if \<not> s_blockMode ?s then log_append C disk_ok (frames ns) ?es l
       else appendWith disk_ok ?es (WriteBlock (dk_io disk_ok) block (h_Codec h) ?n ?es) l)"
    using f ns chk entriesForMessageSet_frames [OF srt(2)] by (simp add: writeV3_def synthesizeFraming_frames Let_def)
  show ?thesis
  proof (cases "s_blockMode ?s")
    case True
    obtain t where t: "WriteBlock io_ok block (h_Codec h) ?n ?es ?s = Inr (t, None)"
      "seg_holds C t (last css @ [ns])" "same_shape ?s t"
      using WriteBlock_carries [OF active_seg_ok [OF ok] True ne' fit data] by blast
    moreover have "dk_io disk_ok = io_ok" by (simp add: disk_ok_def)
    ultimately show ?thesis
      using appendWith_extends [OF ok ne', of "WriteBlock (dk_io disk_ok) block (h_Codec h) ?n ?es" t "last css @ [ns]" "s_position ?s"] True w
      by auto
  next
    case False
    then show ?thesis using log_append_ok [OF ok C ne' fit] w by auto
  qed
qed

lemma after_split_ok:
  assumes ok: "log_ok C l css" and fit: "records_ok (s_BaseOffset (activeSegment l)) (concat (last css) @ ns)"
    and above: "\<forall>r \<in> set ns. NewestOffset l < lr_offset r"
    and f: "\<And>l1 css1. log_ok C l1 css1 \<Longrightarrow> rolled l l1 \<Longrightarrow> NewestOffset l1 = NewestOffset l \<Longrightarrow>
      records_ok (s_BaseOffset (activeSegment l1)) (concat (last css1) @ ns) \<Longrightarrow>
      \<exists>l' css'. f l1 = (l', Inr (map lr_offset ns)) \<and> log_ok C l' css' \<and> log_recs css' = log_recs css1 @ ns \<and> appended l1 l' \<and> epochs_noted ns l1 l'"
  shows "\<exists>l' css'. after_split C disk_ok now f l = Some (l', Inr (map lr_offset ns)) \<and> log_ok C l' css' \<and>
     log_recs css' = log_recs css @ ns \<and> appended l l' \<and> epochs_noted ns l l'"
proof -
  obtain l1 css1 b where s: "checkAndPerformSplit C disk_ok now l = Some (l1, Inr b)" "log_ok C l1 css1" "rolled l l1"
    "log_recs css1 = log_recs css" "NewestOffset l1 = NewestOffset l"
    "l1 = l \<and> css1 = css \<or> last css1 = [] \<and> s_BaseOffset (activeSegment l1) = NewestOffset l + 1"
    by (rule checkAndPerformSplit_ok [OF ok])
  obtain l' css' where "f l1 = (l', Inr (map lr_offset ns))" "log_ok C l' css'" "log_recs css' = log_recs css1 @ ns" "appended l1 l'" "epochs_noted ns l1 l'"
    using f [OF s(2,3,5) roll_fits [OF ok fit above s(6)]] by blast
  then show ?thesis using s(1,4) rolled_appended [OF s(3)] rolled_epochs_noted [OF s(3,5)] by (auto simp: after_split_def)
qed

section \<open>The records of a batch\<close>

text \<open>
  What a batch should read as, apart from the formats: its messages' headers, and under them the identity of the
  producer.
\<close>

definition batch_lookup :: "BatchMeta \<Rightarrow> nat \<Rightarrow> (bytes \<rightharpoonup> bytes option) \<Rightarrow> (bytes \<rightharpoonup> bytes option)" where
  "batch_lookup meta i f =
     (if meta = no_meta then f
      else let f = f (hdrProducerID \<mapsto> Some (be64 (bm_ProducerID meta)), hdrProducerEpoch \<mapsto> Some (be32 (bm_ProducerEpoch meta)),
             hdrSequence \<mapsto> Some (be32 (word_of_int (bm_BaseSequence meta + int i)))) in
        if bm_Nonce meta \<noteq> 0 then f (hdrNonce \<mapsto> Some (be64 (bm_Nonce meta))) else f)"

definition batch_identity :: "BatchMeta \<Rightarrow> nat \<Rightarrow> (64 word \<times> 32 word \<times> int \<times> 64 word) option" where
  "batch_identity meta i =
     (if meta = no_meta then None
      else Some (bm_ProducerID meta, bm_ProducerEpoch meta, i32 (bm_BaseSequence meta + int i), bm_Nonce meta))"

definition reads_as :: "BatchMeta \<Rightarrow> nat \<Rightarrow> Message \<Rightarrow> bytes \<Rightarrow> bool" where
  "reads_as meta i m p \<longleftrightarrow> sm_Key p = Inr (Key m) \<and> sm_Value p = Inr (Value m) \<and>
     (\<exists>a. sm_Attributes p = Inr a \<and> a AND (AttrControl OR AttrTombstone) = Attributes m AND (AttrControl OR AttrTombstone)) \<and>
     (\<exists>hm. sm_Headers p = Inr hm \<and> identityFromHeaders hm = batch_identity meta i \<and>
        (\<forall>k. k \<notin> {hdrProducerID, hdrProducerEpoch, hdrSequence, hdrNonce} \<longrightarrow>
           map_of hm k = map_option nil_bytes (map_of (Headers m) k)))"

lemma takes_identity_lookup:
  assumes "\<not> takes_identity m"
  shows "map_of (Headers m) hdrProducerID = None" "map_of (Headers m) hdrProducerEpoch = None"
    "map_of (Headers m) hdrSequence = None" "map_of (Headers m) hdrNonce = None"
  using assms by (auto simp: takes_identity_def map_of_eq_None_iff)

lemma batch_lookup_identity:
  assumes m: "\<not> takes_identity m" and hm: "\<And>k. map_of hm k = map_option nil_bytes (batch_lookup meta i (map_of (Headers m)) k)"
  shows "identityFromHeaders hm = batch_identity meta i"
  using takes_identity_lookup [OF m]
  by (simp add: identityFromHeaders_def hm batch_lookup_def batch_identity_def Let_def unbe_be_word sint_word_of_int_32 del: of_int_add)

lemma wire_reads_as:
  assumes wf: "headers_wf hs" and hs: "map_of hs = batch_lookup meta i (map_of (Headers m))" and m: "\<not> takes_identity m"
    and len: "length hs < 2 ^ 15" "list_all (\<lambda>h. length (fst h) < 2 ^ 15) hs" "length (wire hs w) < 2 ^ 31"
    and w: "Key w = Key m" "Value w = Value m"
      "Attributes w AND (AttrControl OR AttrTombstone) = Attributes m AND (AttrControl OR AttrTombstone)"
  shows "reads_as meta i m (wire hs w)"
proof -
  define hm where "hm = map (\<lambda>(k, v). (k, nil_bytes v)) hs"
  have eq: "hs = map (apsnd Some) hm"
    unfolding hm_def map_map by (rule sym, rule map_idI) (use wf in \<open>force simp: headers_wf_def nil_bytes_def\<close>)
  have d: "distinct (map fst hm)" "length hm < 65536" "list_all (\<lambda>h. length (fst h) < 65536) hm"
    using wf len(1,2) by (auto simp: hm_def headers_wf_def case_prod_beta comp_def list_all_iff)
  note r = wire_read_back [OF eq d len(3)]
  have lookup: "map_of hm k = map_option nil_bytes (batch_lookup meta i (map_of (Headers m)) k)" for k
    by (simp add: hm_def map_of_map hs [symmetric])
  moreover have "batch_lookup meta i f k = f k" if "k \<notin> {hdrProducerID, hdrProducerEpoch, hdrSequence, hdrNonce}" for f k
    using that by (simp add: batch_lookup_def Let_def)
  ultimately show ?thesis using r(2-5) w batch_lookup_identity [OF m lookup] unfolding reads_as_def by simp
qed

lemma update_fits:
  "length (AList.update k v hs) \<le> Suc (length hs)" "fst ` set (AList.update k v hs) = insert k (fst ` set hs)"
  by (induction hs) auto

lemma header_names_short [simp]:
  "length hdrProducerID = 3" "length hdrProducerEpoch = 5" "length hdrSequence = 3" "length hdrNonce = 5"
  by (simp_all add: hdrProducerID_def hdrProducerEpoch_def hdrSequence_def hdrNonce_def)

text \<open>What the messages of a batch have to satisfy: the limits of the wire form, and room for the identity.\<close>

definition batch_message :: "Message \<Rightarrow> bool" where
  "batch_message m \<longleftrightarrow> \<not> takes_identity m \<and> headers_wf (Headers m) \<and> encodable (Headers m) m \<and> length (Headers m) + 4 < 2 ^ 15"

lemma encodable_keys: "encodable hs m \<Longrightarrow> list_all (\<lambda>h. length (fst h) < 2 ^ 15) hs"
  by (auto simp: encodable_def list_all_iff string_ok_def MaxInt16_def)

subsection \<open>Stamped messages\<close>

lemma stamped_message_ok:
  fixes i :: nat
  assumes "batch_message m" and "meta \<noteq> no_meta"
  defines "s \<equiv> stamped_message meta i m"
  shows "headers_wf (Headers s)" and "map_of (Headers s) = batch_lookup meta i (map_of (Headers m))"
    and "length (Headers s) < 2 ^ 15" and "encodable (Headers s) s"
    and "Key s = Key m" "Value s = Value m" "Attributes s = Attributes m" "Timestamp s = Timestamp m" "LeaderEpoch s = LeaderEpoch m"
proof -
  have u: "encodable (AList.update k (Some v) hs) s" if "encodable hs s" "string_ok k" "bytes_ok (Some v)" for k v hs
    using that by (induction hs) (auto simp: encodable_def)
  have e: "encodable (Headers m) s" "headers_wf (Headers m)" "length (Headers m) + 4 < 2 ^ 15"
    using assms(1) by (simp_all add: batch_message_def encodable_def s_def stamped_message_def)
  have b: "string_ok hdrProducerID" "string_ok hdrProducerEpoch" "string_ok hdrSequence" "string_ok hdrNonce"
    "bytes_ok (Some (be64 x))" "bytes_ok (Some (be32 y))" for x y
    by (simp_all add: string_ok_def MaxInt16_def MaxInt32_def)
  show "headers_wf (Headers s)" using e(2) by (simp add: s_def stamped_message_def Let_def headers_wf_update)
  show "map_of (Headers s) = batch_lookup meta i (map_of (Headers m))"
    using assms(2) by (simp add: s_def stamped_message_def batch_lookup_def Let_def update_conv')
  define a where "a = AList.update hdrSequence (Some (be32 (word_of_int (bm_BaseSequence meta + int i))))
    (AList.update hdrProducerEpoch (Some (be32 (bm_ProducerEpoch meta))) (AList.update hdrProducerID (Some (be64 (bm_ProducerID meta))) (Headers m)))"
  have hs: "Headers s = (if bm_Nonce meta \<noteq> 0 then AList.update hdrNonce (Some (be64 (bm_Nonce meta))) a else a)"
    by (simp add: s_def stamped_message_def a_def)
  have "encodable a s" unfolding a_def by (intro u e b)
  then show "encodable (Headers s) s" unfolding hs using u [OF _ b(4,5)] by simp
  have l: "length (AList.update k v hs) \<le> Suc n" if "length hs \<le> n" for k and v :: "bytes option" and hs n
    using that update_fits(1) [of k v hs] by linarith
  have "length a \<le> Suc (Suc (Suc (length (Headers m))))" unfolding a_def by (intro l order_refl)
  then have "length (Headers s) \<le> length (Headers m) + 4"
    unfolding hs using l [of a _ hdrNonce "Some (be64 (bm_Nonce meta))"] by fastforce
  then show "length (Headers s) < 2 ^ 15" using e(3) by linarith
qed (simp_all add: s_def stamped_message_def)

subsection \<open>Records of a block\<close>

lemma batch_flags:
  "h_Flags (batch_header meta codec base epoch st control) AND FlagStripped = 0 \<longleftrightarrow> meta \<noteq> no_meta"
  "h_Flags (batch_header meta codec base epoch st control) AND FlagTransactional \<noteq> 0 \<longleftrightarrow> bm_Nonce meta \<noteq> 0"
  "h_Flags (batch_header meta codec base epoch st control) AND FlagControl \<noteq> 0 \<longleftrightarrow> control"
  by (simp_all add: batch_header_def FlagControl_def FlagTransactional_def FlagStripped_def)

lemma batch_record_headers:
  fixes i j :: nat
  assumes "batch_message m" and h: "h = batch_header meta codec base epoch st control"
  defines "hs \<equiv> record_headers h i (batch_record j m)"
  shows "headers_wf hs" and "map_of hs = batch_lookup meta i (map_of (Headers m))" and "headers_fit h i (batch_record j m)"
proof -
  have wf: "headers_wf (Headers m)" "length (Headers m) + 4 < 2 ^ 15" "list_all (\<lambda>h. length (fst h) < 2 ^ 15) (Headers m)"
    using assms(1) encodable_keys by (auto simp: batch_message_def)
  then show "headers_wf hs" unfolding hs_def by (intro record_headers_wf) (simp add: batch_record_def)
  have f: "is_stamped h \<longleftrightarrow> meta \<noteq> no_meta" "h_Flags h AND FlagTransactional \<noteq> 0 \<longleftrightarrow> bm_Nonce meta \<noteq> 0"
    unfolding h is_stamped_def by (rule batch_flags)+
  have w: "word_of_int (h_ProducerID h) = bm_ProducerID meta" "word_of_int (h_ProducerEpoch h) = bm_ProducerEpoch meta"
    "h_BaseSequence h = bm_BaseSequence meta" "h_TxNonce h = bm_Nonce meta" by (simp_all add: h batch_header_def)
  show "map_of hs = batch_lookup meta i (map_of (Headers m))"
    by (auto simp: hs_def record_headers_def id_headers_def f w batch_record_def batch_lookup_def Let_def update_conv' fun_eq_iff
        simp del: of_int_add)
  have l: "length (AList.update k v hs) \<le> Suc n" if "length hs \<le> n" for k and v :: "bytes option" and hs n
    using that update_fits(1) [of k v hs] by linarith
  have "length hs \<le> Suc (Suc (Suc (Suc (length (Headers m)))))"
    using l [OF l [OF l [OF l [OF order_refl]]]] le_SucI [OF l [OF l [OF l [OF order_refl]]]]
    by (auto simp: hs_def record_headers_def id_headers_def batch_record_def Let_def simp del: of_int_add)
  moreover have "length k < 2 ^ 15" if "k \<in> fst ` set hs" for k
    using that wf(3) by (auto simp: hs_def record_headers_def id_headers_def batch_record_def Let_def update_fits(2) list_all_iff split: if_splits)
  ultimately show "headers_fit h i (batch_record j m)"
    using wf(2) unfolding headers_fit_def hs_def [symmetric] list_all_iff by force
qed

lemma control_bits:
  fixes a :: byte
  shows "((if a AND AttrControl \<noteq> 0 then AttrControl else 0) OR (a AND AttrTombstone AND AttrTombstone)) AND (AttrControl OR AttrTombstone)
    = a AND (AttrControl OR AttrTombstone)"
proof -
  have "(if a AND AttrControl \<noteq> 0 then AttrControl else 0) = a AND AttrControl"
    by (simp add: AttrControl_def and_one_eq mod2_eq_if)
  then show ?thesis by (simp only:) (rule bit_eqI, auto simp only: bit_and_iff bit_or_iff)
qed

lemma batch_record_reads_as:
  assumes m: "batch_message m" and h: "h = batch_header meta codec base epoch st (Attributes m AND AttrControl \<noteq> 0)"
    and ok: "frame_ok (v3_logrec h i (batch_record j m))"
  shows "reads_as meta i m (lr_payload (v3_logrec h i (batch_record j m)))"
proof -
  let ?r = "batch_record j m" let ?hs = "sort_key fst (record_headers h i ?r)"
  note k = batch_record_headers [OF m h, of i j]
  have d: "distinct (map fst (record_headers h i ?r))" using k(1) by (simp add: headers_wf_def)
  have wf: "headers_wf ?hs" using k(1) by (auto simp: headers_wf_def distinct_map)
  have "reads_as meta i m (wire ?hs (v3_message h i ?r))"
  proof (rule wire_reads_as [OF wf])
    show "map_of ?hs = batch_lookup meta i (map_of (Headers m))" using map_of_sort [OF d] k(2) by simp
    show "\<not> takes_identity m" using m by (simp add: batch_message_def)
    show "length ?hs < 2 ^ 15" "list_all (\<lambda>h. length (fst h) < 2 ^ 15) ?hs" using k(3) by (simp_all add: headers_fit_def list_all_iff)
    show "length (wire ?hs (v3_message h i ?r)) < 2 ^ 31" using ok by (simp add: frame_ok_def v3_logrec_payload)
    show "Attributes (v3_message h i ?r) AND (AttrControl OR AttrTombstone) = Attributes m AND (AttrControl OR AttrTombstone)"
      using control_bits [of "Attributes m"] batch_flags(3) [of meta codec base epoch st "Attributes m AND AttrControl \<noteq> 0"]
      by (simp add: v3_message_def frame_attrs_def h batch_record_def)
  qed (simp_all add: v3_message_def batch_record_def)
  then show ?thesis by (simp add: v3_logrec_payload)
qed

section \<open>A batch joins the log\<close>

definition first_stamp :: "Message list \<Rightarrow> int" where
  "first_stamp msgs = (case find (\<lambda>m. Timestamp m \<noteq> 0) msgs of None \<Rightarrow> 0 | Some m \<Rightarrow> Timestamp m)"

text \<open>One block is one timestamp, one epoch and one kind.\<close>

definition one_batch :: "Message list \<Rightarrow> bool" where
  "one_batch msgs \<longleftrightarrow> (\<forall>m \<in> set msgs. LeaderEpoch m = LeaderEpoch (hd msgs) \<and>
     (Attributes m AND AttrControl \<noteq> 0) = (Attributes (hd msgs) AND AttrControl \<noteq> 0) \<and> Timestamp m \<in> {0, first_stamp msgs})"

lemma batch_stamp_first:
  assumes "\<forall>m \<in> set msgs. LeaderEpoch m = e \<and> (Attributes m AND AttrControl \<noteq> 0) = c \<and> Timestamp m \<in> {0, t}" and "s \<in> {0, t}"
  shows "batch_stamp e c msgs s = Inr (if s = 0 then first_stamp msgs else s)"
  using assms by (induction msgs arbitrary: s) (auto simp: first_stamp_def Let_def)

definition batch_time :: "int \<Rightarrow> Message list \<Rightarrow> int" where
  "batch_time now msgs = (if first_stamp msgs = 0 then now else first_stamp msgs)"

lemma batch_time_reads:
  assumes "one_batch msgs" and "m \<in> set msgs"
  shows "Timestamp m \<noteq> 0 \<longrightarrow> batch_time now msgs = Timestamp m" and "(\<forall>x \<in> set msgs. Timestamp x = 0) \<longrightarrow> batch_time now msgs = now"
  using assms by (auto simp: one_batch_def batch_time_def first_stamp_def find_None_iff split: option.splits dest!: find_Some_iff [THEN iffD1])

definition log_header :: "int \<Rightarrow> BatchMeta \<Rightarrow> Message list \<Rightarrow> commitLog \<Rightarrow> Header" where
  "log_header now meta msgs l = batch_header meta (l_Compression l) (NewestOffset l + 1) (LeaderEpoch (hd msgs)) (batch_time now msgs)
     (Attributes (hd msgs) AND AttrControl \<noteq> 0)"

definition batch_messages :: "BatchMeta \<Rightarrow> Message list \<Rightarrow> Message list" where
  "batch_messages meta msgs = (if meta = no_meta then msgs else map2 (stamped_message meta) [0..<length msgs] msgs)"

definition batch_logrecs :: "int \<Rightarrow> BatchMeta \<Rightarrow> Message list \<Rightarrow> commitLog \<Rightarrow> logrec list" where
  "batch_logrecs now meta msgs l =
     (if l_BlockFormat l = v3_Version then v3_logrecs (log_header now meta msgs l) 0 (batch_records msgs)
      else records_of (NewestOffset l + 1) (map (stamp now) (batch_messages meta msgs)))"

lemma batch_records_simps [simp]:
  "length (batch_records msgs) = length msgs" "i < length msgs \<Longrightarrow> batch_records msgs ! i = batch_record i (msgs ! i)"
  by (simp_all add: batch_records_def)

lemma length_batch_logrecs [simp]: "length (batch_logrecs now meta msgs l) = length msgs"
proof -
  have "length (records_of off ms) = length ms" for off ms by (induction ms arbitrary: off) simp_all
  then show ?thesis by (simp add: batch_logrecs_def batch_messages_def)
qed

lemma all_fitI: "(\<And>k. k < length recs \<Longrightarrow> headers_fit h (i + k) (recs ! k)) \<Longrightarrow> all_fit h i recs"
proof (induction recs arbitrary: i)
  case (Cons r recs)
  have "headers_fit h (i + 1 + k) (recs ! k)" if "k < length recs" for k using Cons.prems [of "Suc k"] that by simp
  then show ?case using Cons.IH [of "i + 1"] Cons.prems [of 0] by simp
qed simp

lemma length_frames_ge: "length rs \<le> length (frames rs)"
  by (induction rs) simp_all

lemma records_of_nth: "i < length ms \<Longrightarrow> records_of off ms ! i = record_of (off + int i) (ms ! i)"
  by (induction ms arbitrary: off i) (auto simp: nth_Cons add.assoc split: nat.split)

lemma batch_logrec_reads:
  assumes m: "list_all batch_message msgs" and one: "l_BlockFormat l = v3_Version \<longrightarrow> one_batch msgs"
    and ok: "list_all frame_ok (batch_logrecs now meta msgs l)" "length (frames (batch_logrecs now meta msgs l)) < 2 ^ 31"
    and i: "i < length msgs"
  defines "r \<equiv> batch_logrecs now meta msgs l ! i"
  shows "lr_offset r = NewestOffset l + 1 + int i \<and> lr_epoch r = LeaderEpoch (msgs ! i) \<and>
    (Timestamp (msgs ! i) \<noteq> 0 \<longrightarrow> lr_timestamp r = Timestamp (msgs ! i)) \<and>
    ((\<forall>x \<in> set msgs. Timestamp x = 0) \<longrightarrow> lr_timestamp r = now) \<and> reads_as meta i (msgs ! i) (lr_payload r)"
proof (cases "l_BlockFormat l = v3_Version")
  case True
  have mi: "msgs ! i \<in> set msgs" "batch_message (msgs ! i)" using m i by (simp_all add: list_all_length)
  let ?h = "log_header now meta msgs l"
  have r: "r = v3_logrec ?h i (batch_record i (msgs ! i))" using True i by (simp add: r_def batch_logrecs_def v3_logrecs_nth)
  have "frame_ok r" using ok(1) i by (simp add: r_def list_all_length)
  moreover have b: "one_batch msgs" using one True by simp
  then have "?h = batch_header meta (l_Compression l) (NewestOffset l + 1) (LeaderEpoch (hd msgs)) (batch_time now msgs)
      (Attributes (msgs ! i) AND AttrControl \<noteq> 0)" using mi(1) by (auto simp: log_header_def one_batch_def)
  ultimately have "reads_as meta i (msgs ! i) (lr_payload r)" unfolding r by (intro batch_record_reads_as [OF mi(2)])
  moreover have "i < 2 ^ 32" using length_frames_ge [of "batch_logrecs now meta msgs l"] ok(2) i by simp
  then have "lr_offset r = NewestOffset l + 1 + int i"
    by (simp add: r v3_logrec_def record_of_def log_header_def batch_header_def batch_record_def unsigned_of_nat take_bit_nat_eq_self)
  moreover have "lr_epoch r = LeaderEpoch (msgs ! i)" "lr_timestamp r = batch_time now msgs"
    using b mi(1) by (auto simp: r v3_logrec_def record_of_def v3_message_def log_header_def batch_header_def one_batch_def)
  ultimately show ?thesis using batch_time_reads [OF b mi(1)] by simp
next
  case False
  define s where "s = stamp now (batch_messages meta msgs ! i)"
  have mi: "msgs ! i \<in> set msgs" "batch_message (msgs ! i)" using m i by (simp_all add: list_all_length)
  have r: "r = record_of (NewestOffset l + 1 + int i) s"
    using False i by (simp add: r_def batch_logrecs_def batch_messages_def records_of_nth s_def)
  have k: "headers_wf (Headers s)" "map_of (Headers s) = batch_lookup meta i (map_of (Headers (msgs ! i)))" "length (Headers s) < 2 ^ 15"
    "encodable (Headers s) s" "Key s = Key (msgs ! i)" "Value s = Value (msgs ! i)" "Attributes s = Attributes (msgs ! i)"
    "LeaderEpoch s = LeaderEpoch (msgs ! i)" "Timestamp s = (if Timestamp (msgs ! i) = 0 then now else Timestamp (msgs ! i))"
    using i mi(2) stamped_message_ok [OF mi(2), of meta i]
    by (cases "meta = no_meta"; simp add: s_def batch_messages_def stamp_def batch_lookup_def batch_message_def encodable_def)+
  have "frame_ok r" using ok(1) i by (simp add: r_def list_all_length)
  then have "reads_as meta i (msgs ! i) (wire (Headers s) s)"
    using k mi(2) encodable_keys [OF k(4)] by (intro wire_reads_as) (simp_all add: r record_of_def frame_ok_def batch_message_def)
  then show ?thesis using k mi(1) by (simp add: r record_of_def)
qed

lemma log_base_nonneg: "log_ok C l css \<Longrightarrow> 0 \<le> NewestOffset l + 1"
  using active_base [of C l css] active_seg_ok [of C l css] holds_bounds(3) [of C "activeSegment l" "last css"]
  by (simp add: seg_ok_def)

lemma append_v3_batch_ok:
  assumes ok: "log_ok C l1 css1" and C: "codecs_ok C" and ne: "msgs \<noteq> []" and m: "list_all batch_message msgs"
    and seq: "in_i32 (bm_BaseSequence meta)" and len: "length (EncodeRecords [] (batch_records msgs)) < 2 ^ 32"
    and h: "h = log_header now meta msgs l1" and ns: "ns = v3_logrecs h 0 (batch_records msgs)"
    and fit: "records_ok (s_BaseOffset (activeSegment l1)) (concat (last css1) @ ns)"
  shows "\<exists>l' css'. append_v3_batch C disk_ok meta (batch_time now msgs) msgs l1 = (l', Inr (map lr_offset ns)) \<and>
     log_ok C l' css' \<and> log_recs css' = log_recs css1 @ ns \<and> appended l1 l' \<and> epochs_noted ns l1 l'"
proof -
  let ?recs = "batch_records msgs"
  have mi: "batch_message (msgs ! i)" if "i < length msgs" for i using m that by (simp add: list_all_length)
  have recs: "?recs \<noteq> []" "\<forall>r \<in> set ?recs. headers_wf (r_Headers r)" using ne m
    by (auto simp: batch_records_def batch_record_def batch_message_def list_all_iff dest: set_zip_rightD)
  have all: "all_fit h 0 ?recs" using batch_record_headers(3) [OF mi] h by (intro all_fitI) (simp add: log_header_def)
  have "v3_logrecs h 0 rs \<noteq> [] \<and> hd (v3_logrecs h 0 rs) = v3_logrec h 0 (rs ! 0)" if "rs \<noteq> []" for rs using that by (cases rs) simp_all
  then have hd: "ns \<noteq> []" "hd ns = v3_logrec h 0 (batch_record 0 (msgs ! 0))" using ns recs(1) ne by simp_all
  have o: "lr_offset (hd ns) = NewestOffset l1 + 1" "lr_timestamp (hd ns) = batch_time now msgs"
    unfolding hd(2) by (simp_all add: v3_logrec_def record_of_def v3_message_def h log_header_def batch_header_def batch_record_def)
  have "frame_ok (hd ns)" using fit hd_in_set [OF hd(1)] by (simp add: records_ok_def list_all_iff)
  then have "header_ok (h \<lparr>h_Records := 1\<rparr>)"
    using o seq ok sint_range_size [of "bm_ProducerID meta"] sint_range_size [of "bm_ProducerEpoch meta"]
    by (simp add: header_ok_def h log_header_def batch_header_def frame_ok_def log_ok_def word_size)
  then obtain b h1 h2 where b: "encodeV3Block C h ?recs = Inr (b, h1)" "DecodeBlock C b = Inr (h2, map sorted_headers ?recs)"
    and s: "same_framing h h1" "same_framing h h2"
    using encodeV3Block_decodes [OF C recs len] by blast
  have "decodeV3Block C b = Inr (frames ns)"
    using b(2) all ns v3_logrecs_framing [OF s(2) recs(2), of 0] by (simp add: decodeV3Block_def synthesizeFraming_frames)
  then obtain l' css' where "writeV3 C disk_ok b h1 ?recs l1 = (l', Inr (map lr_offset ns))" "log_ok C l' css'"
      "log_recs css' = log_recs css1 @ ns" "appended l1 l'" "epochs_noted ns l1 l'"
    using writeV3_ok [OF ok C _ recs(1) _ fit, of h1 b] ns all v3_logrecs_header [OF s(1), of 0 ?recs] o(1) by auto
  moreover have "batch_header meta (l_Compression l1) (NextOffset (activeSegment l1)) (LeaderEpoch (hd msgs)) (batch_time now msgs)
      (Attributes (hd msgs) AND AttrControl \<noteq> 0) = h" by (simp add: h log_header_def NewestOffset_def)
  ultimately show ?thesis using b(1) by (intro exI [of _ l'] exI [of _ css']) (simp add: append_v3_batch_def Let_def)
qed

lemma AppendBatch_ok:
  assumes ok: "log_ok C l css" and C: "codecs_ok C" and rw: "\<not> l_readonly l" and ne: "msgs \<noteq> []" and m: "list_all batch_message msgs"
    and one: "l_BlockFormat l = v3_Version \<longrightarrow> one_batch msgs \<and> length (EncodeRecords [] (batch_records msgs)) < 2 ^ 32"
    and seq: "in_i32 (bm_BaseSequence meta)"
    and fit: "records_ok (s_BaseOffset (activeSegment l)) (concat (last css) @ batch_logrecs now meta msgs l)"
  shows "\<exists>l' css'. AppendBatch C disk_ok now meta msgs l = Some (l', Inr (map lr_offset (batch_logrecs now meta msgs l))) \<and>
     log_ok C l' css' \<and> log_recs css' = log_recs css @ batch_logrecs now meta msgs l \<and> appended l l' \<and>
     epochs_noted (batch_logrecs now meta msgs l) l l'"
proof -
  let ?ns = "batch_logrecs now meta msgs l"
  have id: "\<not> list_ex takes_identity msgs" using m by (auto simp: batch_message_def list_all_iff list_ex_iff)
  have rd: "lr_offset (?ns ! i) = NewestOffset l + 1 + int i" if "i < length msgs" for i
    using batch_logrec_reads [OF m _ _ _ that, of l now meta] one fit by (simp add: records_ok_def)
  show ?thesis
  proof (cases "l_BlockFormat l = v3_Version")
    case True
    have b: "one_batch msgs" "length (EncodeRecords [] (batch_records msgs)) < 2 ^ 32" using one True by simp_all
    have st: "batch_stamp (LeaderEpoch (hd msgs)) (Attributes (hd msgs) AND AttrControl \<noteq> 0) msgs 0 = Inr (first_stamp msgs)"
      using batch_stamp_first [of msgs "LeaderEpoch (hd msgs)" "Attributes (hd msgs) AND AttrControl \<noteq> 0" "first_stamp msgs" 0] b(1)
      unfolding one_batch_def by simp
    have "AppendBatch C disk_ok now meta msgs l = after_split C disk_ok now (append_v3_batch C disk_ok meta (batch_time now msgs) msgs) l"
      using rw ne id True st by (simp add: AppendBatch_def batch_time_def)
    moreover have "\<forall>r \<in> set ?ns. NewestOffset l < lr_offset r" using rd by (auto simp: in_set_conv_nth)
    moreover have "\<exists>l' css'. append_v3_batch C disk_ok meta (batch_time now msgs) msgs l1 = (l', Inr (map lr_offset ?ns)) \<and>
        log_ok C l' css' \<and> log_recs css' = log_recs css1 @ ?ns \<and> appended l1 l' \<and> epochs_noted ?ns l1 l'"
      if l1: "log_ok C l1 css1" "rolled l l1" "NewestOffset l1 = NewestOffset l"
        "records_ok (s_BaseOffset (activeSegment l1)) (concat (last css1) @ ?ns)" for l1 css1
    proof (rule append_v3_batch_ok [OF l1(1) C ne m seq b(2) _ _ l1(4)])
      obtain x y where "l1 = l \<lparr>l_segments := x, l_dir := y\<rparr>" using l1(2) unfolding rolled_def by blast
      then have "l_Compression l1 = l_Compression l" by simp
      then show "log_header now meta msgs l = log_header now meta msgs l1" by (simp add: log_header_def l1(3))
      show "?ns = v3_logrecs (log_header now meta msgs l) 0 (batch_records msgs)" using True by (simp add: batch_logrecs_def)
    qed
    ultimately show ?thesis using after_split_ok [OF ok fit] by simp
  next
    case False
    let ?ms = "batch_messages meta msgs"
    have a: "AppendBatch C disk_ok now meta msgs l = Append C disk_ok now ?ms l"
      using rw ne id False by (simp add: AppendBatch_def appendStamped_def batch_messages_def)
    have len: "length ?ms = length msgs" by (simp add: batch_messages_def)
    then have n: "?ms \<noteq> []" "length ?ms = length msgs" using ne by (cases ?ms; simp)+
    have e: "list_all (\<lambda>m. encodable (Headers m) m) ?ms"
      using m stamped_message_ok(4) [of _ meta] by (auto simp: batch_messages_def list_all_length batch_message_def)
    have r: "?ns = records_of (NewestOffset l + 1) (map (stamp now) ?ms)" using False by (simp add: batch_logrecs_def)
    have "map lr_offset ?ns = map (\<lambda>i. NewestOffset l + 1 + int i) [0..<length ?ms]" using rd n(2) by (intro nth_equalityI) simp_all
    then show ?thesis using Append_ok [OF ok C rw n(1) e fit [unfolded r]] unfolding a r by auto
  qed
qed

section \<open>A finished block joins the log\<close>

lemma rewrite_decodes:
  assumes "DecodeBlock C b = Inr (h, recs)" and "in_i64 bo" and "in_i64 ts"
  shows "\<exists>b'. v3_Rewrite b bo le ts = Inr b' \<and>
     DecodeBlock C b' = Inr (h \<lparr>h_BaseOffset := bo, h_LeaderEpoch := le, h_BaseTimestamp := ts\<rparr>, recs)"
proof -
  note inv = DecodeBlock_inverse [OF assms(1)]
  have "rewritten bo le ts h = h \<lparr>h_BaseOffset := bo, h_LeaderEpoch := le, h_BaseTimestamp := ts\<rparr>"
    using assms(2,3) by (simp add: rewritten_def i64_id)
  moreover have "v3_Rewrite b bo le ts = Inr (EncodeHeader [] (rewritten bo le ts h) @ drop 76 b)"
    using v3_Rewrite_EncodeHeader [OF inv(1), of "drop 76 b"] inv(2) by simp
  moreover have "DecodeBlock C (EncodeHeader [] (rewritten bo le ts h) @ drop 76 b) = Inr (rewritten bo le ts h, recs)"
    using edits_header_ok [OF inv(1)] inv(3) by (simp add: DecodeBlock_EncodeHeader)
  ultimately show ?thesis by simp
qed

definition renumbered :: "int \<Rightarrow> commitLog \<Rightarrow> Header \<Rightarrow> Header" where
  "renumbered now l h = h \<lparr>h_BaseOffset := NewestOffset l + 1, h_LeaderEpoch := LastLeaderEpoch (l_epochs l), h_BaseTimestamp := now\<rparr>"

text \<open>The blocks an append takes: sequence by index under an identity, and a nonce exactly under the transactional flag.\<close>

definition appendable :: "Header \<Rightarrow> Record list \<Rightarrow> bool" where
  "appendable h recs \<longleftrightarrow> (is_stamped h \<longrightarrow> (\<forall>i < length recs. r_OffsetDelta (recs ! i) = word_of_nat i)) \<and>
     (h_Flags h AND FlagTransactional \<noteq> 0 \<longleftrightarrow> h_TxNonce h \<noteq> 0)"

lemma decodeV3ForAppend_iff:
  "decodeV3ForAppend C block =
     (case DecodeBlock C block of
        Inl e \<Rightarrow> Inl (if e = GoPanic then GoPanic else ErrMessageSetRefused)
      | Inr (h, recs) \<Rightarrow> if appendable h recs then Inr (h, recs) else Inl ErrMessageSetRefused)"
  by (auto simp: decodeV3ForAppend_def appendable_def is_stamped_def list_ex_iff split: sum.splits)

lemma AppendPreframed_ok:
  assumes ok: "log_ok C l css" and C: "codecs_ok C" and rw: "\<not> l_readonly l" and v3: "l_BlockFormat l = v3_Version"
    and dec: "DecodeBlock C block = Inr (h, recs)" and app: "appendable h recs" and all: "all_fit (renumbered now l h) 0 recs"
    and ns: "ns = v3_logrecs (renumbered now l h) 0 recs"
    and fit: "records_ok (s_BaseOffset (activeSegment l)) (concat (last css) @ ns)"
  shows "\<exists>l' css'. AppendPreframed C disk_ok now block l = Some (l', Inr (map lr_offset ns)) \<and>
     log_ok C l' css' \<and> log_recs css' = log_recs css @ ns \<and> appended l l' \<and> epochs_noted ns l l'"
proof -
  let ?h = "renumbered now l h"
  have ne: "recs \<noteq> []" using dec by (auto simp: DecodeBlock_def and_then_Inr_iff split: if_splits)
  have o: "lr_offset (ns ! i) = NewestOffset l + 1 + int (unat (r_OffsetDelta (recs ! i)))" "lr_timestamp (ns ! i) = now"
    if "i < length recs" for i using that unfolding ns
    by (simp_all add: v3_logrecs_nth v3_logrec_def record_of_def v3_message_def renumbered_def)
  have n: "length ns = length recs" by (simp add: ns)
  have above: "\<forall>r \<in> set ns. NewestOffset l < lr_offset r"
  proof
    fix r assume "r \<in> set ns"
    then obtain j where j: "j < length recs" "r = ns ! j" using n by (auto simp: in_set_conv_nth)
    show "NewestOffset l < lr_offset r" unfolding j(2) o(1) [OF j(1)] by linarith
  qed
  have z: "ns ! 0 \<in> set ns" "lr_timestamp (ns ! 0) = now" using ne n o(2) [of 0] by simp_all
  then have "frame_ok (ns ! 0)" using fit by (simp add: records_ok_def list_all_iff)
  then have i: "in_i64 (NewestOffset l + 1)" "in_i64 now"
    using bspec [OF above z(1)] z(2) log_base_nonneg [OF ok] by (simp_all add: frame_ok_def)
  obtain b where b: "v3_Rewrite block (NewestOffset l + 1) (LastLeaderEpoch (l_epochs l)) now = Inr b" "DecodeBlock C b = Inr (?h, recs)"
    using rewrite_decodes [OF dec i] unfolding renumbered_def by blast
  have data: "decodeV3Block C b = Inr (frames ns)" using b(2) all ns by (simp add: decodeV3Block_def synthesizeFraming_frames)
  have "\<exists>l' css'. append_preframed C disk_ok now block h recs l1 = (l', Inr (map lr_offset ns)) \<and>
      log_ok C l' css' \<and> log_recs css' = log_recs css1 @ ns \<and> appended l1 l' \<and> epochs_noted ns l1 l'"
    if l1: "log_ok C l1 css1" "rolled l l1" "NewestOffset l1 = NewestOffset l"
      "records_ok (s_BaseOffset (activeSegment l1)) (concat (last css1) @ ns)" for l1 css1
  proof -
    obtain x y where "l1 = l \<lparr>l_segments := x, l_dir := y\<rparr>" using l1(2) unfolding rolled_def by blast
    then have e: "l_epochs l1 = l_epochs l" by simp
    have "NextOffset (activeSegment l1) = NewestOffset l + 1" using l1(3) by (simp add: NewestOffset_def)
    then have "append_preframed C disk_ok now block h recs l1 = writeV3 C disk_ok b ?h recs l1"
      using b(1) e by (simp add: append_preframed_def renumbered_def Let_def)
    moreover have "NewestOffset l1 < lr_offset (hd ns)" using above l1(3) n ne by (cases ns) auto
    ultimately show ?thesis using writeV3_ok [OF l1(1) C ns ne all l1(4) _ data] by simp
  qed
  then show ?thesis using after_split_ok [OF ok fit above, of "append_preframed C disk_ok now block h recs" now] rw v3 dec app
    by (simp add: AppendPreframed_def decodeV3ForAppend_iff)
qed

section \<open>Properties\<close>

text \<open>
  C29: a batch reads back as one thing whichever format stores it.  On a log of version-3 blocks or of any other format,
  block-compressed or raw, an accepted batch gets consecutive offsets behind the newest one.  The log then holds its old
  records and one per message, with the message's key, value, control and tombstone bits, epoch and own headers, and
  the timestamp it carried, or the clock's if none of the batch carried one.  The identity read from the headers of
  record \<open>i\<close> is the batch's, with sequence \<^verbatim>\<open>BaseSequence+i\<close> in 32 bits; a batch without identity reads back with none.
\<close>

theorem AppendBatch_reads_back:
  assumes "log_ok C l css" and "codecs_ok C" and "\<not> l_readonly l" and "msgs \<noteq> []" and "list_all batch_message msgs"
    and "l_BlockFormat l = v3_Version \<longrightarrow> one_batch msgs \<and> length (EncodeRecords [] (batch_records msgs)) < 2 ^ 32"
    and "in_i32 (bm_BaseSequence meta)"
    and "records_ok (s_BaseOffset (activeSegment l)) (concat (last css) @ batch_logrecs now meta msgs l)"
  shows "\<exists>l' css' ns. AppendBatch C disk_ok now meta msgs l = Some (l', Inr (map (\<lambda>i. NewestOffset l + 1 + int i) [0..<length msgs])) \<and>
     log_ok C l' css' \<and> log_recs css' = log_recs css @ ns \<and> length ns = length msgs \<and>
     (\<forall>i < length msgs. lr_offset (ns ! i) = NewestOffset l + 1 + int i \<and> lr_epoch (ns ! i) = LeaderEpoch (msgs ! i) \<and>
        (Timestamp (msgs ! i) \<noteq> 0 \<longrightarrow> lr_timestamp (ns ! i) = Timestamp (msgs ! i)) \<and>
        ((\<forall>x \<in> set msgs. Timestamp x = 0) \<longrightarrow> lr_timestamp (ns ! i) = now) \<and>
        reads_as meta i (msgs ! i) (lr_payload (ns ! i)))"
proof -
  let ?ns = "batch_logrecs now meta msgs l"
  have ok: "list_all frame_ok ?ns" "length (frames ?ns) < 2 ^ 31" using assms(8) by (simp_all add: records_ok_def)
  have rd: "\<forall>i < length msgs. lr_offset (?ns ! i) = NewestOffset l + 1 + int i \<and> lr_epoch (?ns ! i) = LeaderEpoch (msgs ! i) \<and>
      (Timestamp (msgs ! i) \<noteq> 0 \<longrightarrow> lr_timestamp (?ns ! i) = Timestamp (msgs ! i)) \<and>
      ((\<forall>x \<in> set msgs. Timestamp x = 0) \<longrightarrow> lr_timestamp (?ns ! i) = now) \<and> reads_as meta i (msgs ! i) (lr_payload (?ns ! i))"
    using batch_logrec_reads [OF assms(5) _ ok] assms(6) by blast
  then have "map lr_offset ?ns = map (\<lambda>i. NewestOffset l + 1 + int i) [0..<length msgs]" by (intro nth_equalityI) simp_all
  moreover obtain l' css' where "AppendBatch C disk_ok now meta msgs l = Some (l', Inr (map lr_offset ?ns))" "log_ok C l' css'"
    "log_recs css' = log_recs css @ ?ns" using AppendBatch_ok [OF assms] by blast
  ultimately show ?thesis using rd length_batch_logrecs [of now meta msgs l] by (metis (no_types, lifting))
qed

definition sample_meta :: BatchMeta where
  "sample_meta = \<lparr>bm_ProducerID = 9, bm_ProducerEpoch = 2, bm_BaseSequence = 2147483647, bm_Nonce = 0\<rparr>"

definition v3_log :: commitLog where
  "v3_log = (log_of (fresh_segment True)) \<lparr>l_BlockFormat := v3_Version\<rparr>"

lemma v3_log_ok: "log_ok C v3_log [[]]" "NewestOffset v3_log = 99" "s_BaseOffset (activeSegment v3_log) = 100" "\<not> l_readonly v3_log"
  "l_BlockFormat v3_log = v3_Version" "l_Compression v3_log = Snappy" "LastLeaderEpoch (l_epochs v3_log) = 0"
  using log_of_ok [OF fresh_seg_ok [of C True]] fresh_log_newest [of True]
  by (simp_all add: v3_log_def log_ok_def NewestOffset_def activeSegment_def log_of_def LastLeaderEpoch_def latestEpoch_def)

lemma sample_batch: "list_all batch_message [sample, sample]" "one_batch [sample, sample]"
  by (simp_all add: batch_message_def one_batch_def first_stamp_def takes_identity_def headers_wf_def sample_encodable)
    (simp_all add: sample_def hdrProducerID_def hdrProducerEpoch_def hdrSequence_def hdrNonce_def)

lemma sample_append:
  "records_of 100 (map (stamp now) [sample, sample]) = [record_of 100 sample, record_of 101 sample]"
  "records_ok 100 [record_of 100 sample, record_of 101 sample]"
proof -
  show "records_of 100 (map (stamp now) [sample, sample]) = [record_of 100 sample, record_of 101 sample]"
    by (simp add: stamp_def sample_def)
  have p: "length (lr_payload (record_of off sample)) < 68" for off
    by (simp add: record_of_def bytes_simps wire_body_def sample_def wire_def)
  have "length (frames [record_of 100 sample, record_of 101 sample]) < 200" using p [of 100] p [of 101] by simp
  then show "records_ok 100 [record_of 100 sample, record_of 101 sample]"
    using sample_frame_ok [of 100] sample_frame_ok [of 101] by (simp add: records_ok_def record_of_def del: frames_simps)
qed

lemma sample_batch_small: "length (EncodeRecords [] (batch_records [sample, sample])) < 2 ^ 32"
  by (simp add: batch_records_def batch_record_def sample_def EncodeRecords_def encodeRecord_def appendBytes_def encode_headers_def
      varint_def zigzag_def uvarint.simps nil_bytes_def upt_rec)

lemma sample_batch_fits: "records_ok 100 (v3_logrecs (batch_header sample_meta Snappy 100 e 5 False) 0 (batch_records [sample, sample]))"
proof -
  let ?h = "batch_header sample_meta Snappy 100 e 5 False"
  have p: "length (lr_payload (v3_logrec ?h i (batch_record j sample))) < 200" for i j
  proof -
    have "length (lr_payload (v3_logrec ?h i (batch_record j sample))) =
        length (wire (record_headers ?h i (batch_record j sample)) (v3_message ?h i (batch_record j sample)))"
      unfolding v3_logrec_payload by (rule length_wire_perm) simp
    also have "\<dots> < 200"
      by (simp add: record_headers_def id_headers_def is_stamped_def batch_header_def batch_record_def v3_message_def sample_def
          sample_meta_def no_meta_def FlagStripped_def FlagTransactional_def FlagControl_def wire_def wire_body_def wire_field_def
          wire_header_def wire_string_def hdrProducerID_def hdrProducerEpoch_def hdrSequence_def hdrNonce_def AttrControl_def Let_def)
    finally show ?thesis .
  qed
  have w: "wire hs m \<noteq> []" for hs m by (simp add: wire_def wire_body_def)
  have f: "frame_ok (v3_logrec ?h i (batch_record j sample)) \<and> lr_offset (v3_logrec ?h i (batch_record j sample)) = 100 + int j" if "j < 2" for i j
    using p [of i j] that w by (auto simp: frame_ok_def v3_logrec_def record_of_def v3_message_def batch_header_def batch_record_def
        unsigned_of_nat take_bit_nat_eq_self)
  have "v3_logrecs ?h 0 (batch_records [sample, sample]) = [v3_logrec ?h 0 (batch_record 0 sample), v3_logrec ?h 1 (batch_record 1 sample)]"
    by (simp add: batch_records_def upt_rec)
  then show ?thesis using f [of 0 0] f [of 1 1] p [of 0 0] p [of 1 1] by (simp add: records_ok_def)
qed

theorem AppendBatch_reads_back_witness:
  "\<exists>l' css'. AppendBatch raw_codecs disk_ok 5 sample_meta [sample, sample] v3_log = Some (l', Inr [100, 101]) \<and>
     log_ok raw_codecs l' css' \<and> length (log_recs css') = 2 \<and> sm_Key (lr_payload (log_recs css' ! 1)) = Inr (Some [107]) \<and>
     (\<exists>hm. sm_Headers (lr_payload (log_recs css' ! 1)) = Inr hm \<and> identityFromHeaders hm = Some (9, 2, - 2147483648, 0))"
proof -
  have seq: "in_i32 (bm_BaseSequence sample_meta)" by (simp add: sample_meta_def)
  have "batch_logrecs 5 sample_meta [sample, sample] v3_log =
      v3_logrecs (batch_header sample_meta Snappy 100 (LeaderEpoch sample) 5 False) 0 (batch_records [sample, sample])"
    by (simp add: batch_logrecs_def log_header_def v3_log_ok batch_time_def first_stamp_def sample_def)
  then have "\<exists>l' css'. AppendBatch raw_codecs disk_ok 5 sample_meta [sample, sample] v3_log = Some (l', Inr [100, 101]) \<and>
      log_ok raw_codecs l' css' \<and> length (log_recs css') = 2 \<and> reads_as sample_meta 1 sample (lr_payload (log_recs css' ! 1))"
    using AppendBatch_reads_back [OF v3_log_ok(1) sample_ok(1) v3_log_ok(4) _ sample_batch(1) _ seq, of 5]
      sample_batch(2) sample_batch_small sample_batch_fits by (force simp: v3_log_ok upt_rec)
  moreover have "i32 (2147483647 + 1) = - 2147483648" by (simp add: i32_def)
  ultimately show ?thesis by (auto simp: reads_as_def batch_identity_def sample_meta_def no_meta_def sample_def)
qed

text \<open>
  C35: a finished block is taken as it is, renumbered.  On a log of version-3 blocks, a block that decodes, whose records are
  numbered by index while it carries an identity and whose transactional flag agrees with its nonce, is appended: its
  records follow the log's newest offset at their offset deltas, under the clock's timestamp and the log's latest
  epoch, with the keys and values they had, and the headers of record \<open>i\<close> give back the identity of the block.
  Outside a transaction the nonce read back is the one a record's own header names, if it names one.
\<close>

theorem AppendPreframed_extends:
  assumes "log_ok C l css" and "codecs_ok C" and "\<not> l_readonly l" and "l_BlockFormat l = v3_Version"
    and "DecodeBlock C block = Inr (h, recs)" and "appendable h recs" and "all_fit (renumbered now l h) 0 recs"
    and "records_ok (s_BaseOffset (activeSegment l)) (concat (last css) @ v3_logrecs (renumbered now l h) 0 recs)"
  shows "\<exists>l' css' ns. AppendPreframed C disk_ok now block l = Some (l', Inr (map lr_offset ns)) \<and>
     log_ok C l' css' \<and> log_recs css' = log_recs css @ ns \<and> length ns = length recs \<and>
     (\<forall>i < length recs. let r = recs ! i; p = lr_payload (ns ! i) in
        lr_offset (ns ! i) = NewestOffset l + 1 + int (unat (r_OffsetDelta r)) \<and> lr_timestamp (ns ! i) = now \<and>
        lr_epoch (ns ! i) = LastLeaderEpoch (l_epochs l) \<and> sm_Key p = Inr (r_Key r) \<and> sm_Value p = Inr (r_Value r) \<and>
        (\<exists>hm. sm_Headers p = Inr hm \<and> (is_stamped h \<longrightarrow> identityFromHeaders hm =
           Some (word_of_int (h_ProducerID h), word_of_int (h_ProducerEpoch h), i32 (h_BaseSequence h + int i), block_nonce h r))))"
proof -
  let ?h = "renumbered now l h" let ?ns = "v3_logrecs ?h 0 recs"
  have same: "is_stamped ?h = is_stamped h" "h_ProducerID ?h = h_ProducerID h" "h_ProducerEpoch ?h = h_ProducerEpoch h"
    "h_BaseSequence ?h = h_BaseSequence h" "block_nonce ?h r = block_nonce h r" for r
    by (simp_all add: renumbered_def is_stamped_def block_nonce_def)
  have "let r = recs ! i; p = lr_payload (?ns ! i) in
      lr_offset (?ns ! i) = NewestOffset l + 1 + int (unat (r_OffsetDelta r)) \<and> lr_timestamp (?ns ! i) = now \<and>
      lr_epoch (?ns ! i) = LastLeaderEpoch (l_epochs l) \<and> sm_Key p = Inr (r_Key r) \<and> sm_Value p = Inr (r_Value r) \<and>
      (\<exists>hm. sm_Headers p = Inr hm \<and> (is_stamped h \<longrightarrow> identityFromHeaders hm =
         Some (word_of_int (h_ProducerID h), word_of_int (h_ProducerEpoch h), i32 (h_BaseSequence h + int i), block_nonce h r)))"
    if i: "i < length recs" for i
  proof -
    have n: "?ns ! i = v3_logrec ?h i (recs ! i)" using v3_logrecs_nth [OF i, of ?h 0] by simp
    have wf: "headers_wf (r_Headers (recs ! i))" by (rule DecodeBlock_headers_wf [OF assms(5) nth_mem [OF i]])
    have "?ns ! i \<in> set ?ns" using i by simp
    then have "frame_ok (v3_logrec ?h i (recs ! i))" using assms(8) n by (simp add: records_ok_def list_all_iff)
    then show ?thesis using v3_logrec_fields [OF wf _, of ?h i] all_fit_nth [OF assms(7) i] identity_of_read_headers [OF _ wf, of ?h i]
      unfolding n same Let_def by (simp add: v3_logrec_def record_of_def v3_message_def renumbered_def del: of_nat_unat of_int_add)
  qed
  then show ?thesis using AppendPreframed_ok [OF assms(1-7) refl assms(8)] length_v3_logrecs [of ?h 0 recs] by blast
qed

lemma sample_preframed:
  "\<exists>b h recs. DecodeBlock raw_codecs b = Inr (h, recs) \<and> length recs = 2 \<and> appendable h recs \<and> all_fit (renumbered 5 v3_log h) 0 recs \<and>
     records_ok 100 (v3_logrecs (renumbered 5 v3_log h) 0 recs) \<and> is_stamped h \<and> h_ProducerID h = 9 \<and> h_ProducerEpoch h = 2 \<and>
     h_BaseSequence h = 2147483647 \<and> r_OffsetDelta (recs ! 1) = 1 \<and> r_Key (recs ! 1) = Some [107] \<and> block_nonce h (recs ! 1) = 0"
proof -
  let ?recs = "batch_records [sample, sample]"
  let ?h = "batch_header sample_meta Snappy 7 3 1 False" let ?g = "batch_header sample_meta Snappy 100 0 5 False"
  have recs: "?recs = [batch_record 0 sample, batch_record 1 sample]" by (simp add: batch_records_def upt_rec)
  have m: "batch_message sample" using sample_batch(1) by simp
  then have wf: "?recs \<noteq> []" "\<forall>r \<in> set ?recs. headers_wf (r_Headers r)" unfolding recs by (simp_all add: batch_message_def batch_record_def)
  have "header_ok (?h \<lparr>h_Records := 1\<rparr>)" by (simp add: header_ok_def batch_header_def sample_meta_def codec_Valid_def Snappy_def Zstd_def)
  then obtain b h where b: "DecodeBlock raw_codecs b = Inr (h, map sorted_headers ?recs)" "same_framing ?h h"
    using encodeV3Block_decodes [OF sample_ok(1) wf sample_batch_small] by blast
  have s: "same_framing ?g (renumbered 5 v3_log h)" using b(2) by (simp add: same_framing_def renumbered_def v3_log_ok batch_header_def)
  have "all_fit ?g 0 ?recs" unfolding recs using batch_record_headers(3) [OF m refl] by simp
  then have f: "all_fit (renumbered 5 v3_log h) 0 (map sorted_headers ?recs)"
    "records_ok 100 (v3_logrecs (renumbered 5 v3_log h) 0 (map sorted_headers ?recs))"
    using v3_logrecs_framing [OF s wf(2), of 0] sample_batch_fits [of 0] by simp_all
  have h: "h_Flags h = h_Flags ?h" "h_TxNonce h = 0" "h_ProducerID h = 9" "h_ProducerEpoch h = 2" "h_BaseSequence h = 2147483647"
    using b(2) by (simp_all add: same_framing_def batch_header_def sample_meta_def)
  have fl: "h_Flags ?h = 0" by (simp add: batch_header_def sample_meta_def no_meta_def)
  have "block_nonce h (sorted_headers (batch_record 1 sample)) = 0"
    using h fl by (simp add: block_nonce_def sorted_headers_def batch_record_def sample_def hdrNonce_def)
  then show ?thesis using b(1) f h fl
    by (intro exI [of _ b] exI [of _ h] exI [of _ "map sorted_headers ?recs"])
      (auto simp: recs appendable_def is_stamped_def sorted_headers_def batch_record_def sample_def less_Suc_eq)
qed

theorem AppendPreframed_extends_witness:
  "\<exists>b l' css'. AppendPreframed raw_codecs disk_ok 5 b v3_log = Some (l', Inr [100, 101]) \<and>
     log_ok raw_codecs l' css' \<and> length (log_recs css') = 2 \<and> sm_Key (lr_payload (log_recs css' ! 1)) = Inr (Some [107]) \<and>
     (\<exists>hm. sm_Headers (lr_payload (log_recs css' ! 1)) = Inr hm \<and> identityFromHeaders hm = Some (9, 2, - 2147483648, 0))"
proof -
  obtain b h recs where s: "DecodeBlock raw_codecs b = Inr (h, recs)" "length recs = 2" "appendable h recs"
    "all_fit (renumbered 5 v3_log h) 0 recs" "records_ok 100 (v3_logrecs (renumbered 5 v3_log h) 0 recs)" "is_stamped h"
    "h_ProducerID h = 9" "h_ProducerEpoch h = 2" "h_BaseSequence h = 2147483647" "r_OffsetDelta (recs ! 1) = 1"
    "r_Key (recs ! 1) = Some [107]" "block_nonce h (recs ! 1) = 0" using sample_preframed by blast
  have z: "r_OffsetDelta (recs ! 0) = 0" using s(2,3,6) by (auto simp: appendable_def)
  have i: "i32 (2147483647 + 1) = - 2147483648" by (simp add: i32_def)
  obtain l' css' ns where a: "AppendPreframed raw_codecs disk_ok 5 b v3_log = Some (l', Inr (map lr_offset ns))"
    "log_ok raw_codecs l' css'" "log_recs css' = ns" "length ns = 2"
    and r: "\<forall>j < 2. let r = recs ! j; p = lr_payload (ns ! j) in
       lr_offset (ns ! j) = 100 + int (unat (r_OffsetDelta r)) \<and> sm_Key p = Inr (r_Key r) \<and>
       (\<exists>hm. sm_Headers p = Inr hm \<and> identityFromHeaders hm = Some (9, 2, i32 (2147483647 + int j), block_nonce h r))"
    using AppendPreframed_extends [OF v3_log_ok(1) sample_ok(1) v3_log_ok(4,5) s(1,3,4)] s(2,5-9) unfolding Let_def
    by (auto simp: v3_log_ok)
  have "ns = [ns ! 0, ns ! 1]" using a(4) by (auto simp: length_Suc_conv numeral_2_eq_2)
  moreover have "lr_offset (ns ! 0) = 100" "lr_offset (ns ! 1) = 101" using r z s(10) by (auto simp: Let_def)
  ultimately have "map lr_offset ns = [100, 101]" by (metis list.simps(8,9))
  moreover have "sm_Key (lr_payload (ns ! 1)) = Inr (Some [107])"
    "\<exists>hm. sm_Headers (lr_payload (ns ! 1)) = Inr hm \<and> identityFromHeaders hm = Some (9, 2, - 2147483648, 0)"
    using spec [OF r, of 1] s(11,12) i by (simp_all add: Let_def)
  ultimately show ?thesis using a by (intro exI [of _ b] exI [of _ l'] exI [of _ css']) simp
qed

end
