(* ===== verification/Log_Waiters.thy ===== *)
theory Log_Waiters
  imports Log_Replication
begin

text \<open>
  The operations of the log over time: a roll that fails, and what a roll and an append leave of the log, its watermark
  and the readers that wait for it, whatever the disk answers.
\<close>

section \<open>A roll that finds its file\<close>

lemma log_split_exists:
  "NewestOffset l + 1 \<in> set (l_dir l) \<Longrightarrow> log_split C d l = Some (l, Some ErrSegmentExists)"
  by (simp add: log_split_def newSegmentWith_def)

lemma roll_stuck:
  assumes "NewestOffset l + 1 \<in> set (l_dir l)" and "\<And>now. CheckSplit now (l_MaxSegmentAge l) (activeSegment l)"
  shows "checkAndPerformSplit C d now l = None"
proof -
  have "\<not> (NewestOffset l + 1 \<in> set (l_dir l) \<and> CheckSplit now (l_MaxSegmentAge l) (activeSegment l))"
    if "checkAndPerformSplit C d now l = Some y" for y
    using that
  proof (rule checkAndPerformSplit.raw_induct [rotated])
    fix f :: "codecs \<Rightarrow> disk \<Rightarrow> int \<Rightarrow> commitLog \<Rightarrow> (commitLog \<times> bool result) option" and C d now l y
    assume IH: "\<And>C d now l y. f C d now l = Some y \<Longrightarrow>
        \<not> (NewestOffset l + 1 \<in> set (l_dir l) \<and> CheckSplit now (l_MaxSegmentAge l) (activeSegment l))"
      and b: "(if \<not> CheckSplit now (l_MaxSegmentAge l) (activeSegment l) then Some (l, Inr False)
         else case log_split C d l of None \<Rightarrow> None
           | Some (l', Some e) \<Rightarrow> if e = ErrSegmentExists then f C d now l' else Some (l', Inl e)
           | Some (l', None) \<Rightarrow> Some (seal_previous d l', Inr True)) = Some y"
    show "\<not> (NewestOffset l + 1 \<in> set (l_dir l) \<and> CheckSplit now (l_MaxSegmentAge l) (activeSegment l))"
    proof
      assume a: "NewestOffset l + 1 \<in> set (l_dir l) \<and> CheckSplit now (l_MaxSegmentAge l) (activeSegment l)"
      then have "f C d now l = Some y" using b log_split_exists [of l C d] by simp
      then show False using IH a by blast
    qed
  qed
  then show ?thesis using assms by (cases "checkAndPerformSplit C d now l") auto
qed

definition no_index_room :: disk where
  "no_index_room = disk_ok \<lparr>dk_io := io_ok \<lparr>io_trunc := False\<rparr>\<rparr>"

text \<open>
  C26: one failed roll stops the log for good.  When the active segment is full and the new segment's index file cannot
  be sized, the append returns the error, as it should; but the new segment's log file stays behind, and from then
  on every append finds it, takes it for a competing roll and never returns, whatever the disk answers.
\<close>

theorem failed_roll_hangs_appends:
  assumes "s_maxBytes (activeSegment l) \<le> s_position (activeSegment l)" and "\<not> l_readonly l"
    and "NewestOffset l + 1 \<notin> set (l_dir l)"
  shows "\<exists>l'. Append C no_index_room now msgs l = Some (l', Inl IOError) \<and>
     (\<forall>d now msgs. Append C d now msgs l' = None)"
proof -
  let ?l = "l \<lparr>l_dir := (NewestOffset l + 1) # l_dir l\<rparr>"
  have cs: "CheckSplit now (l_MaxSegmentAge l) (activeSegment l)" for now using assms(1) by (simp add: CheckSplit_def)
  have same: "activeSegment ?l = activeSegment l" "NewestOffset ?l = NewestOffset l" by (simp_all add: activeSegment_def NewestOffset_def)
  have "log_split C no_index_room l = Some (?l, Some IOError)"
    using assms(3) by (simp add: log_split_def newSegmentWith_def no_index_room_def disk_ok_def io_ok_def initPositions_def
        setupIndexKnownEnd_def ensureBlocksLoaded_def emptySegment_def newIndex_def Let_def)
  then have "Append C no_index_room now msgs l = Some (?l, Inl IOError)"
    using cs assms(2) by (simp add: Append_def checkAndPerformSplit.simps [of C no_index_room now l])
  moreover have "checkAndPerformSplit C d now' ?l = None" for d now'
  proof (rule roll_stuck)
    show "CheckSplit now (l_MaxSegmentAge ?l) (activeSegment ?l)" for now using cs same by simp
  qed (simp add: same)
  then have "Append C d now' msgs' ?l = None" for d now' msgs' using assms(2) by (simp add: Append_def)
  ultimately show ?thesis by blast
qed

theorem failed_roll_hangs_appends_witness:
  "\<exists>l'. Append raw_codecs no_index_room 0 [sample] (log_of ((sample_segment True) \<lparr>s_maxBytes := 1\<rparr>)) = Some (l', Inl IOError) \<and>
     Append raw_codecs disk_ok 0 [sample] l' = None"
proof -
  let ?s = "(sample_segment True) \<lparr>s_maxBytes := 1\<rparr>"
  obtain cs where cs: "seg_ok raw_codecs (sample_segment True) cs" "concat cs = sample_logrecs" using sample_seg_ok by blast
  have "s_position ?s = int (length (frames sample_logrecs))" using cs by (simp add: seg_ok_def seg_holds_def seg_bytes_def)
  then have "1 \<le> s_position ?s" by (simp add: sample_logrecs_def)
  moreover have "s_BaseOffset (sample_segment True) = 100"
    using sample_segment_holds [of True] by (auto simp: same_shape_def fresh_segment_def emptySegment_def)
  moreover have "NewestOffset (log_of ?s) = 103" using sample_log_newest [of True]
    by (simp add: NewestOffset_def activeSegment_def log_of_def NextOffset_def split: if_splits)
  ultimately show ?thesis
    using failed_roll_hangs_appends [of "log_of ?s" raw_codecs 0 "[sample]"] by (auto simp: activeSegment_def log_of_def)
qed

section \<open>What any append does to the watermark's waiters\<close>

text \<open>An operation keeps the watermark, and the waiters, unless it wakes them all.\<close>

definition woke :: "commitLog \<Rightarrow> commitLog \<Rightarrow> bool" where
  "woke l l' \<longleftrightarrow> l_hw l' = l_hw l \<and> l_readonly l' = l_readonly l \<and>
     (l_hwWaiters l' = l_hwWaiters l \<and> l_signals l' = l_signals l \<or>
      l_hwWaiters l' = [] \<and> l_signals l' = l_signals l @ map (\<lambda>r. (r, False)) (l_hwWaiters l))"

lemma woke_refl [simp]: "woke l l"
  by (simp add: woke_def)

lemma rolled_woke: "rolled l l1 \<Longrightarrow> woke l1 l' \<Longrightarrow> woke l l'"
proof -
  assume r: "rolled l l1" and w: "woke l1 l'"
  obtain x y where "l1 = l \<lparr>l_segments := x, l_dir := y\<rparr>" using r unfolding rolled_def by blast
  then show ?thesis using w by (simp add: woke_def)
qed

lemma log_split_rolled: "log_split C d l = Some (l', e) \<Longrightarrow> rolled l l'"
  by (auto simp: log_split_def rolled_def Let_def split: option.splits sum.splits if_splits)

lemma seal_previous_rolled: "rolled l l' \<Longrightarrow> rolled l (seal_previous d l')"
proof -
  assume "rolled l l'"
  then obtain x y where "l' = l \<lparr>l_segments := x, l_dir := y\<rparr>" unfolding rolled_def by blast
  then show ?thesis by (simp add: rolled_def seal_previous_def Let_def)
qed

lemma rolled_trans: "rolled l l1 \<Longrightarrow> rolled l1 l2 \<Longrightarrow> rolled l l2"
proof -
  assume a: "rolled l l1" "rolled l1 l2"
  obtain x y where 1: "l1 = l \<lparr>l_segments := x, l_dir := y\<rparr>" using a(1) unfolding rolled_def by blast
  obtain x' y' where "l2 = l1 \<lparr>l_segments := x', l_dir := y'\<rparr>" using a(2) unfolding rolled_def by blast
  then show ?thesis by (simp add: rolled_def 1)
qed

text \<open>A log with an active segment whose next offset is not negative.\<close>

definition log_wf :: "commitLog \<Rightarrow> bool" where
  "log_wf l \<longleftrightarrow> l_segments l \<noteq> [] \<and> - 1 \<le> NewestOffset l"

lemma log_split_newest:
  assumes "log_split C d l = Some (l', e)" and "log_wf l" and "dk_index d = []"
  shows "l_segments l' \<noteq> [] \<and> NewestOffset l' = NewestOffset l \<and> (e = None \<longrightarrow> 2 \<le> length (l_segments l'))"
proof -
  let ?new = "newSegmentWith C (dk_io d) (dk_size d) (dk_cut d) (dk_sync d) (dk_table d) (NewestOffset l + 1) (l_MaxSegmentBytes l)
    True (l_Compression l) (l_BlockFormat l) None None []"
  have n: "0 \<le> NewestOffset l + 1" using assms(2) by (simp add: log_wf_def)
  have new: "s_BaseOffset s = NewestOffset l + 1 \<and> NextOffset s = NewestOffset l + 1" if "?new = Some (Inr s)" for s
    using newSegmentWith_fresh [OF n, of C "dk_io d" "dk_size d" "dk_cut d" "dk_sync d" "dk_table d" "l_MaxSegmentBytes l" "l_Compression l" "l_BlockFormat l"]
      that NextOffset_holds [of C s "[]"] by auto
  show ?thesis
  proof (cases "NewestOffset l + 1 \<in> set (l_dir l)")
    case True
    then show ?thesis using assms log_split_exists [of l C d] by (auto simp: log_wf_def)
  next
    case False
    then have sp: "log_split C d l = (case ?new of None \<Rightarrow> None
        | Some (Inl e) \<Rightarrow> Some (l \<lparr>l_dir := (NewestOffset l + 1) # l_dir l\<rparr>, Some e)
        | Some (Inr s) \<Rightarrow>
            if l_segmentsClosed l then Some (l, Some ErrCommitLogClosed)
            else Some (l \<lparr>l_dir := (NewestOffset l + 1) # l_dir l, l_segments := l_segments l @ [s]\<rparr>, None))"
      by (simp only: log_split_def Let_def if_False assms(3))
    have ne: "l_segments l \<noteq> []" "1 \<le> length (l_segments l)" using assms(2) by (simp_all add: log_wf_def Suc_le_eq)
    show ?thesis
    proof (cases ?new)
      case (Some r)
      show ?thesis
      proof (cases r)
        case (Inl x)
        then show ?thesis using sp Some assms(1) ne by (auto simp: NewestOffset_def activeSegment_def)
      next
        case (Inr s)
        then have "NextOffset s = NewestOffset l + 1" using new [of s] Some by simp
        then have "NewestOffset (l \<lparr>l_dir := (NewestOffset l + 1) # l_dir l, l_segments := l_segments l @ [s]\<rparr>) = NewestOffset l"
          by (simp add: NewestOffset_def [of "commitLog.l_segments_update _ _"] activeSegment_def)
        then show ?thesis using sp Some Inr assms(1) ne by (auto split: if_splits)
      qed
    qed (use sp assms(1) in simp)
  qed
qed

lemma seal_previous_active:
  "2 \<le> length (l_segments l) \<Longrightarrow> l_segments (seal_previous d l) \<noteq> [] \<and> NewestOffset (seal_previous d l) = NewestOffset l"
  using last_list_update [of "l_segments l" "length (l_segments l) - 2"]
  by (force simp: seal_previous_def Let_def NewestOffset_def activeSegment_def)

lemma checkAndPerformSplit_keeps:
  assumes "checkAndPerformSplit C d now l = Some y" and "log_wf l" and "dk_index d = []"
  shows "rolled l (fst y) \<and> l_segments (fst y) \<noteq> [] \<and> NewestOffset (fst y) = NewestOffset l"
proof -
  have "log_wf l \<and> dk_index d = [] \<longrightarrow> rolled l (fst y) \<and> l_segments (fst y) \<noteq> [] \<and> NewestOffset (fst y) = NewestOffset l"
    using assms(1)
  proof (rule checkAndPerformSplit.raw_induct [rotated])
    fix f :: "codecs \<Rightarrow> disk \<Rightarrow> int \<Rightarrow> commitLog \<Rightarrow> (commitLog \<times> bool result) option" and C d now l y
    assume IH: "\<And>C d now l y. f C d now l = Some y \<Longrightarrow> log_wf l \<and> dk_index d = [] \<longrightarrow>
        rolled l (fst y) \<and> l_segments (fst y) \<noteq> [] \<and> NewestOffset (fst y) = NewestOffset l"
      and b: "(if \<not> CheckSplit now (l_MaxSegmentAge l) (activeSegment l) then Some (l, Inr False)
         else case log_split C d l of None \<Rightarrow> None
           | Some (l', Some e) \<Rightarrow> if e = ErrSegmentExists then f C d now l' else Some (l', Inl e)
           | Some (l', None) \<Rightarrow> Some (seal_previous d l', Inr True)) = Some y"
    show "log_wf l \<and> dk_index d = [] \<longrightarrow> rolled l (fst y) \<and> l_segments (fst y) \<noteq> [] \<and> NewestOffset (fst y) = NewestOffset l"
    proof
      assume a: "log_wf l \<and> dk_index d = []"
      show "rolled l (fst y) \<and> l_segments (fst y) \<noteq> [] \<and> NewestOffset (fst y) = NewestOffset l"
      proof (cases "CheckSplit now (l_MaxSegmentAge l) (activeSegment l)")
        case True
        show ?thesis
        proof (cases "log_split C d l")
          case (Some z)
          obtain l' e where z: "log_split C d l = Some (l', e)" using Some by (cases z) simp
          note n = log_split_newest [OF z conjunct1 [OF a] conjunct2 [OF a]] and r = log_split_rolled [OF z]
          show ?thesis
          proof (cases e)
            case None
            then have "y = (seal_previous d l', Inr True)" using b True z by simp
            then show ?thesis using n seal_previous_active [of l' d] seal_previous_rolled [OF r] None by simp
          next
            case (Some x)
            have "log_wf l'" using n a by (simp add: log_wf_def)
            moreover have "y = (l', Inl x) \<or> f C d now l' = Some y" using b True z Some by (simp split: if_splits)
            ultimately show ?thesis using IH [of C d now l' y] n a r rolled_trans [OF r] by auto
          qed
        qed (use b True in simp)
      qed (use a b in \<open>auto simp: log_wf_def rolled_def\<close>)
    qed
  qed
  then show ?thesis using assms(2,3) by blast
qed

lemma appendWith_woke: "woke l (fst (appendWith d entries write l))"
  by (simp add: appendWith_def Let_def woke_def set_active_def notifyHWChange_def notify_def split: sum.split option.split prod.split)

lemma appendWith_segments:
  "l_segments (fst (appendWith d entries write l)) =
     (case write (activeSegment l) of Inl _ \<Rightarrow> l_segments l | Inr (s, _) \<Rightarrow> butlast (l_segments l) @ [s])"
  by (simp add: appendWith_def Let_def set_active_def notifyHWChange_def notify_def split: sum.split option.split prod.split)

text \<open>Whatever a write answers, the segment's last offset stays or becomes the last entry's.\<close>

lemma go_index_last: "es \<noteq> [] \<Longrightarrow> go_index es (int (length es) - 1) = Inr (last es)"
proof -
  assume "es \<noteq> []"
  moreover have "nat (int (length es) - 1) = length es - 1" by simp
  ultimately show ?thesis by (simp add: go_index_def last_conv_nth Suc_le_eq)
qed

lemma noteWrittenLocked_last:
  "noteWrittenLocked es s = Inr s' \<Longrightarrow> es \<noteq> [] \<Longrightarrow> s_BaseOffset s' = s_BaseOffset s \<and>
     (s_lastOffset s' = s_lastOffset s \<or> s_lastOffset s' = e_Offset (last es))"
  by (auto simp: noteWrittenLocked_def and_then_Inr_iff go_index_last split: if_splits)

lemma s_write_last:
  assumes "s_write C w p es s = Inr (s', e)"
  shows "s_BaseOffset s' = s_BaseOffset s \<and> (s_lastOffset s' = s_lastOffset s \<or> s_lastOffset s' = e_Offset (last es))"
proof -
  have a: "appendBlock C w p n t = (t', x) \<Longrightarrow> s_BaseOffset t' = s_BaseOffset t \<and> s_lastOffset t' = s_lastOffset t" for n t t' x
    by (auto simp: appendBlock_def appendBlockBytes_def Let_def split: prod.splits if_splits)
  show ?thesis
  proof (cases "s_closed s \<or> es = []")
    case True
    then show ?thesis using assms by (auto simp: s_write_def split: if_splits)
  next
    case False
    define t where "t = s \<lparr>s_dirtyData := True, s_dirtyIndex := True\<rparr>"
    obtain t1 x where t1: "(if s_blockMode t then appendBlock C w p (length es) t
        else let (file, n, ok) = backing_Write (io_write w) p (s_backing t); t = t \<lparr>s_backing := file\<rparr> in
          if \<not> ok then (t, Some IOError) else (t \<lparr>s_position := s_position t + int n\<rparr>, None)) = (t1, x)"
      by (rule prod.exhaust)
    then have k: "s_BaseOffset t1 = s_BaseOffset s \<and> s_lastOffset t1 = s_lastOffset s"
      using a [of "length es" t t1 x] by (auto simp: t_def Let_def split: if_splits prod.splits)
    have "s_write C w p es s = (case x of Some e \<Rightarrow> Inr (t1, Some e) | None \<Rightarrow> and_then (noteWrittenLocked es t1) (\<lambda>s. Inr (s, None)))"
      using False t1 by (simp add: s_write_def Let_def t_def [symmetric])
    then have "(case x of Some e \<Rightarrow> Inr (t1, Some e) | None \<Rightarrow> and_then (noteWrittenLocked es t1) (\<lambda>s. Inr (s, None))) = Inr (s', e)"
      using assms by (rule trans [OF sym])
    then show ?thesis using k noteWrittenLocked_last [of es t1 s'] False by (cases x) (auto simp: and_then_Inr_iff)
  qed
qed

lemma WriteMessageSet_last:
  assumes "WriteMessageSet C w p es s = Inr (s', e)"
  shows "s_BaseOffset s' = s_BaseOffset s \<and> (s_lastOffset s' = s_lastOffset s \<or> s_lastOffset s' = e_Offset (last es))"
proof -
  obtain t x where t: "s_write C w p es s = Inr (t, x)" using assms by (auto simp: WriteMessageSet_def and_then_Inr_iff)
  have "index_entries w es' t = Inr (s', e) \<Longrightarrow> s_BaseOffset s' = s_BaseOffset t \<and> s_lastOffset s' = s_lastOffset t" for es'
    by (auto simp: index_entries_def and_then_Inr_iff split: option.splits)
  then have "s_BaseOffset s' = s_BaseOffset t \<and> s_lastOffset s' = s_lastOffset t"
    using assms t by (auto simp: WriteMessageSet_def and_then_Inr_iff split: option.splits if_splits)
  then show ?thesis using s_write_last [OF t] by simp
qed

lemma checkAppendedSet_above:
  assumes "checkAppendedSet tail es n = None"
  shows "tail < e_Offset (last es)"
proof -
  have ne: "es \<noteq> []" "tail < e_Offset (hd es)" and up: "\<forall>i \<in> {1..<length es}. e_Offset (es ! (i - 1)) < e_Offset (es ! i)"
    using assms by (auto simp: checkAppendedSet_def Let_def list_ex_iff not_le split: if_splits)
  have "tail < e_Offset (es ! i)" if "i < length es" for i using that
  proof (induction i)
    case 0
    then show ?case using ne by (simp add: hd_conv_nth)
  next
    case (Suc i)
    then show ?case using bspec [OF up, of "Suc i"] by simp
  qed
  then show ?thesis using ne(1) by (simp add: last_conv_nth)
qed

lemma AppendMessageSet_keeps:
  assumes "AppendMessageSet C d now ms l = Some (l', res)" and wf: "log_wf l" and "dk_index d = []"
  shows "woke l l' \<and> log_wf l' \<and> NewestOffset l \<le> NewestOffset l'"
proof -
  obtain l1 r where s: "checkAndPerformSplit C d now l = Some (l1, r)" using assms(1) by (auto simp: AppendMessageSet_def split: option.splits)
  have k: "rolled l l1" "l_segments l1 \<noteq> []" "NewestOffset l1 = NewestOffset l" using checkAndPerformSplit_keeps [OF s wf assms(3)] by simp_all
  have w1: "woke l l1" "log_wf l1" using rolled_woke [OF k(1), of l1] wf k(2,3) by (simp_all add: log_wf_def)
  have "l' = l1 \<or> (\<exists>es. checkAppendedSet (NewestOffset l1) es (int (length ms)) = None \<and> l' = fst (log_append C d ms es l1))"
  proof (cases r)
    case (Inr y)
    show ?thesis
    proof (cases "entriesForMessageSet (s_position (activeSegment l1)) ms")
      case e: (Inr es)
      show ?thesis
      proof (cases "checkAppendedSet (NewestOffset l1) es (int (length ms))")
        case None
        then have "log_append C d ms es l1 = (l', res)" using assms(1) s Inr e by (simp add: AppendMessageSet_def Let_def NewestOffset_def)
        then show ?thesis using None by (intro disjI2 exI [of _ es]) simp
      qed (use assms(1) s Inr e in \<open>simp add: AppendMessageSet_def Let_def NewestOffset_def\<close>)
    qed (use assms(1) s Inr in \<open>simp add: AppendMessageSet_def Let_def\<close>)
  qed (use assms(1) s in \<open>simp add: AppendMessageSet_def\<close>)
  then consider "l' = l1" | es where "checkAppendedSet (NewestOffset l1) es (int (length ms)) = None" "l' = fst (log_append C d ms es l1)"
    by blast
  then show ?thesis
  proof cases
    case (2 es)
    have "NewestOffset l1 \<le> NewestOffset l'"
    proof (cases "WriteMessageSet C (dk_io d) ms es (activeSegment l1)")
      case (Inl x)
      then show ?thesis using 2(2) appendWith_segments [of d es "WriteMessageSet C (dk_io d) ms es" l1]
        by (simp add: log_append_def NewestOffset_def activeSegment_def)
    next
      case (Inr y)
      then obtain s x where w: "WriteMessageSet C (dk_io d) ms es (activeSegment l1) = Inr (s, x)" by (cases y) auto
      then have "l_segments l' = butlast (l_segments l1) @ [s]"
        using 2(2) appendWith_segments [of d es "WriteMessageSet C (dk_io d) ms es" l1] by (simp add: log_append_def)
      then have "NewestOffset l' = NextOffset s - 1" by (simp add: NewestOffset_def activeSegment_def)
      then show ?thesis using WriteMessageSet_last [OF w] checkAppendedSet_above [OF 2(1)] w1(2)
        by (auto simp: NewestOffset_def [of l1] NextOffset_def log_wf_def split: if_splits)
    qed
    moreover have "l_segments l' \<noteq> []" using 2(2) appendWith_segments [of d es "WriteMessageSet C (dk_io d) ms es" l1] k(2)
      by (auto simp: log_append_def split: sum.splits)
    ultimately show ?thesis using rolled_woke [OF k(1)] appendWith_woke [of l1 d es] w1(2) k(3) 2(2) by (auto simp: log_wf_def log_append_def)
  qed (use w1 k in auto)
qed

end
