(* ===== verification/Log_Wakeup.thy ===== *)
theory Log_Wakeup
  imports Append_Batch Log_Waiters
begin

text \<open>
  The readers that wait for the high watermark (\<^verbatim>\<open>commitlog.go\<close>: \<^verbatim>\<open>waitForHW\<close>, \<^verbatim>\<open>notifyHWChange\<close>, \<^verbatim>\<open>notifyReadonly\<close>) under
  the operations that change what they wait for, as steps of a transition system.
\<close>

section \<open>What an operation tells the readers\<close>

text \<open>An operation leaves watermark and waiters as they are, or it wakes every waiter.\<close>

definition told :: "commitLog \<Rightarrow> commitLog \<Rightarrow> bool" where
  "told l l' \<longleftrightarrow> l_hw l' = l_hw l \<and> l_hwWaiters l' = l_hwWaiters l \<and> l_signals l' = l_signals l \<or>
     l_hwWaiters l' = [] \<and> (\<exists>v. l_signals l' = l_signals l @ map (\<lambda>r. (r, v)) (l_hwWaiters l))"

lemma woke_told: "woke l l' \<Longrightarrow> told l l'"
  by (auto simp: woke_def told_def)

text \<open>The offsets of an append that succeeded.\<close>

fun offsets_of :: "int list result \<Rightarrow> int list" where
  "offsets_of (Inl e) = []"
| "offsets_of (Inr offs) = offs"

text \<open>Every append either stops before the write, on the log or on the rolled log, or is \<^verbatim>\<open>appendWith\<close> on it.\<close>

definition via_write :: "disk \<Rightarrow> commitLog \<Rightarrow> commitLog \<times> int list result \<Rightarrow> bool" where
  "via_write d l y \<longleftrightarrow> (\<exists>l1. (rolled l l1 \<or> l1 = l) \<and> ((\<exists>e. y = (l1, Inl e)) \<or> (\<exists>es w. y = appendWith d es w l1)))"

lemma via_write_stop [simp]: "via_write d l (l, Inl e)"
  by (auto simp: via_write_def)

lemma via_write_rolled: "rolled l l1 \<Longrightarrow> via_write d l1 y \<Longrightarrow> via_write d l y"
  unfolding via_write_def using rolled_trans by blast

lemma via_write_appendWith [simp]: "via_write d l (appendWith d es w l)"
  unfolding via_write_def by blast

lemma after_split_via_write:
  assumes "after_split C d now f l = Some y" and "log_wf l" and "dk_index d = []" and "\<And>l. via_write d l (f l)"
  shows "via_write d l y"
proof -
  obtain l1 r where s: "checkAndPerformSplit C d now l = Some (l1, r)" using assms(1) by (auto simp: after_split_def split: option.splits)
  then have "rolled l l1" using checkAndPerformSplit_keeps [OF s assms(2,3)] by simp
  moreover have "y = (case r of Inl e \<Rightarrow> (l1, Inl e) | Inr _ \<Rightarrow> f l1)" using assms(1) s by (auto simp: after_split_def split: sum.splits)
  ultimately show ?thesis using assms(4) via_write_rolled by (cases r) auto
qed

lemma Append_after_split:
  "\<not> l_readonly l \<Longrightarrow> Append C d now msgs l = after_split C d now (\<lambda>l. case newMessageSetFromProto (NextOffset (activeSegment l))
      (s_position (activeSegment l)) (map (stamp now) msgs) of
        Inl e \<Rightarrow> (l, Inl e) | Inr (ms, entries) \<Rightarrow> log_append C d ms entries l) l"
  by (simp add: Append_def after_split_def Let_def split: option.split sum.split)

lemma AppendMessageSet_after_split:
  "AppendMessageSet C d now ms l = after_split C d now (\<lambda>l. case entriesForMessageSet (s_position (activeSegment l)) ms of
        Inl e \<Rightarrow> (l, Inl e)
      | Inr entries \<Rightarrow> (case checkAppendedSet (NewestOffset l) entries (int (length ms)) of
          Some e \<Rightarrow> (l, Inl e) | None \<Rightarrow> log_append C d ms entries l)) l"
  by (auto simp: AppendMessageSet_def after_split_def NewestOffset_def Let_def split: option.split sum.split)

lemma writeV3_via_write: "via_write d l (writeV3 C d b h recs l)"
  by (simp add: writeV3_def log_append_def Let_def split: sum.split option.split)

lemma Append_via_write:
  assumes "Append C d now msgs l = Some y" and "log_wf l" and "dk_index d = []"
  shows "via_write d l y"
proof (cases "l_readonly l")
  case False
  show ?thesis using assms(1) unfolding Append_after_split [OF False]
    by (rule after_split_via_write [OF _ assms(2,3)]) (simp add: log_append_def split: sum.split prod.split)
qed (use assms(1) in \<open>auto simp: Append_def\<close>)

lemma AppendMessageSet_via_write:
  assumes "AppendMessageSet C d now ms l = Some y" and "log_wf l" and "dk_index d = []"
  shows "via_write d l y"
  using assms(1) unfolding AppendMessageSet_after_split
  by (rule after_split_via_write [OF _ assms(2,3)]) (simp add: log_append_def split: sum.split option.split)

lemma AppendBatch_via_write:
  assumes "AppendBatch C d now meta msgs l = Some y" and "log_wf l" and "dk_index d = []"
  shows "via_write d l y"
proof -
  have "via_write d l (append_v3_batch C d meta st msgs l)" for st l
    by (simp add: append_v3_batch_def writeV3_via_write Let_def split: sum.split prod.split)
  then have "after_split C d now (append_v3_batch C d meta st msgs) l = Some y \<Longrightarrow> via_write d l y" for st
    using after_split_via_write [OF _ assms(2,3)] by blast
  then show ?thesis using assms(1) Append_via_write [OF _ assms(2,3)]
    by (auto simp: AppendBatch_def appendStamped_def split: if_splits sum.splits)
qed

lemma AppendPreframed_via_write:
  assumes "AppendPreframed C d now block l = Some y" and "log_wf l" and "dk_index d = []"
  shows "via_write d l y"
proof -
  have "via_write d l (append_preframed C d now block h recs l)" for h recs l
    by (simp add: append_preframed_def writeV3_via_write Let_def split: sum.split)
  then have "after_split C d now (append_preframed C d now block h recs) l = Some y \<Longrightarrow> via_write d l y" for h recs
    using after_split_via_write [OF _ assms(2,3)] by blast
  then show ?thesis using assms(1) by (auto simp: AppendPreframed_def split: if_splits sum.splits)
qed

lemma readonly_refuses:
  assumes "l_readonly l"
  shows "Append C d now msgs l = Some (l, Inl ErrCommitLogReadonly)" "AppendBatch C d now meta msgs l = Some (l, Inl ErrCommitLogReadonly)"
    "AppendPreframed C d now block l = Some (l, Inl ErrCommitLogReadonly)"
  using assms by (simp_all add: Append_def AppendBatch_def AppendPreframed_def)

text \<open>An append that commits on arrival, because the watermark is already at its first record, wakes every waiter.\<close>

lemma appendWith_wakes:
  assumes "appendWith d es w l = (l', Inr offs)" and "offs \<noteq> []" and "hd offs \<le> l_hw l"
  shows "l_hwWaiters l' = []"
proof -
  have "offs = map e_Offset es" using assms(1)
    by (auto simp: appendWith_def Let_def split: sum.splits option.splits prod.splits)
  then have "es \<noteq> []" "e_Offset (hd es) \<le> l_hw l" using assms(2,3) by (auto simp: hd_map)
  then show ?thesis using assms(1)
    by (auto simp: appendWith_def Let_def set_active_def notifyHWChange_def notify_def split: sum.splits option.splits prod.splits)
qed

lemma via_write_wakes:
  assumes "via_write d l (l', res)"
  shows "woke l l' \<and> (offsets_of res \<noteq> [] \<longrightarrow> hd (offsets_of res) \<le> l_hw l \<longrightarrow> l_hwWaiters l' = [])"
proof -
  obtain l1 where l1: "rolled l l1 \<or> l1 = l" and y: "(\<exists>e. (l', res) = (l1, Inl e)) \<or> (\<exists>es w. (l', res) = appendWith d es w l1)"
    using assms unfolding via_write_def by blast
  have w: "woke l l1" using l1 rolled_woke [of l l1 l1] by auto
  show ?thesis using y
  proof (elim disjE exE)
    fix es w assume a: "(l', res) = appendWith d es w l1"
    then have "woke l l'" using l1 rolled_woke [of l l1 l'] appendWith_woke [of l1 d es w] by (metis fst_conv)
    moreover have "l_hw l1 = l_hw l" using w by (simp add: woke_def)
    ultimately show ?thesis using appendWith_wakes [of d es w l1 l'] a [symmetric] by (cases res) auto
  qed (use w in simp)
qed

text \<open>A truncation brings the watermark down only as it wakes every waiter, whatever the disk answers.\<close>

lemma trunc_delete_told:
  "trunc_delete te idx replace l = (l', e) \<Longrightarrow> l_hw l' = l_hw l \<and> l_hwWaiters l' = l_hwWaiters l \<and> l_signals l' = l_signals l \<and>
     l_readonly l' = l_readonly l"
  by (auto simp: trunc_delete_def forget_def Let_def split: prod.splits if_splits)

lemma trunc_publish_told:
  "trunc_publish te offset segs l = (l', e) \<Longrightarrow> told l l' \<and> l_readonly l' = l_readonly l \<and>
     (l_hw l' = l_hw l \<longrightarrow> l_hwWaiters l' = l_hwWaiters l \<and> l_signals l' = l_signals l)"
  by (auto simp: trunc_publish_def notifyHWChange_def notify_def told_def Let_def split: prod.splits if_splits)

lemma Truncate_told:
  assumes "Truncate C te offset l = Some (l', e)"
  shows "told l l' \<and> l_readonly l' = l_readonly l \<and> (l_hw l' = l_hw l \<longrightarrow> l_hwWaiters l' = l_hwWaiters l \<and> l_signals l' = l_signals l)"
    (is "?P l'")
proof -
  have "?P l2" if "trunc_delete te i b l = (l1, x)" "trunc_publish te offset segs (l1 \<lparr>l_segments := ss\<rparr>) = (l2, y)" for i b l1 x segs ss l2 y
    using trunc_delete_told [OF that(1)] trunc_publish_told [OF that(2)] by (simp add: told_def)
  moreover have "?P l2" if "trunc_delete te i b l = (l1, x)" "trunc_publish te offset segs l1 = (l2, y)" for i b l1 x segs l2 y
    using trunc_delete_told [OF that(1)] trunc_publish_told [OF that(2)] by (simp add: told_def)
  moreover have "?P l1" if "trunc_delete te i b l = (l1, x)" for i b l1 x
    using trunc_delete_told [OF that] by (simp add: told_def)
  moreover have "?P l" by (simp add: told_def)
  ultimately show ?thesis using assms
    unfolding Truncate_def by (simp add: Let_def split: if_splits prod.splits option.splits sum.splits)
qed

section \<open>Waiting for the watermark\<close>

text \<open>
  The operations that reach the watermark, its waiters, the read-only flag or the end of the log, as steps in which
  reader \<open>r\<close> does not give up waiting.  The label lists the offsets of an append that succeeded and is empty otherwise.
  The disk and the truncation's environment are arbitrary, except that a segment file just created has an empty
  index.  A truncation is a step of a log that is not read-only.
\<close>

inductive hw_step :: "codecs \<Rightarrow> nat \<Rightarrow> commitLog \<Rightarrow> int list \<Rightarrow> commitLog \<Rightarrow> bool" for C r where
  set_hw: "hw_step C r l [] (SetHighWatermark hw l)"
| override_hw: "hw_step C r l [] (OverrideHighWatermark hw l)"
| wait: "hw_step C r l [] (waitForHW r' hw l)"
| give_up: "r' \<noteq> r \<Longrightarrow> hw_step C r l [] (removeHWWaiter r' l)"
| readonly: "hw_step C r l [] (SetReadonly b l)"
| append: "Append C d now msgs l = Some (l', res) \<Longrightarrow> log_wf l \<Longrightarrow> dk_index d = [] \<Longrightarrow> hw_step C r l (offsets_of res) l'"
| append_set: "AppendMessageSet C d now ms l = Some (l', res) \<Longrightarrow> log_wf l \<Longrightarrow> dk_index d = [] \<Longrightarrow> hw_step C r l (offsets_of res) l'"
| append_batch: "AppendBatch C d now meta msgs l = Some (l', res) \<Longrightarrow> log_wf l \<Longrightarrow> dk_index d = [] \<Longrightarrow> hw_step C r l (offsets_of res) l'"
| append_preframed: "AppendPreframed C d now block l = Some (l', res) \<Longrightarrow> log_wf l \<Longrightarrow> dk_index d = [] \<Longrightarrow> hw_step C r l (offsets_of res) l'"
| new_epoch: "NewLeaderEpoch w epoch l = (l', e) \<Longrightarrow> hw_step C r l [] l'"
| truncate: "Truncate C te offset l = Some (l', e) \<Longrightarrow> \<not> l_readonly l \<Longrightarrow> hw_step C r l [] l'"

text \<open>A run, with the offsets of its successful appends in order.\<close>

inductive hw_run :: "codecs \<Rightarrow> nat \<Rightarrow> commitLog \<Rightarrow> int list list \<Rightarrow> commitLog \<Rightarrow> bool" for C r l where
  start: "hw_run C r l [] l"
| step: "hw_run C r l batches l1 \<Longrightarrow> hw_step C r l1 offs l2 \<Longrightarrow> hw_run C r l (batches @ [offs]) l2"

text \<open>No reader waits on a read-only log that is committed to its end.\<close>

definition none_stranded :: "commitLog \<Rightarrow> bool" where
  "none_stranded l \<longleftrightarrow> (l_readonly l \<and> NewestOffset l \<le> l_hw l \<longrightarrow> l_hwWaiters l = [])"

lemmas hw_defs = SetHighWatermark_def OverrideHighWatermark_def waitForHW_def removeHWWaiter_def SetReadonly_def
  notifyReadonly_def notifyHWChange_def notify_def

lemma NewestOffset_hw [simp]:
  "NewestOffset (l \<lparr>l_hw := x\<rparr>) = NewestOffset l" "NewestOffset (l \<lparr>l_signals := y\<rparr>) = NewestOffset l"
  "NewestOffset (l \<lparr>l_hwWaiters := z\<rparr>) = NewestOffset l" "NewestOffset (l \<lparr>l_readonly := b\<rparr>) = NewestOffset l"
  "NewestOffset (l \<lparr>l_epochs := c\<rparr>) = NewestOffset l"
  by (simp_all add: NewestOffset_def activeSegment_def)

lemma woke_none_stranded: "woke l l' \<Longrightarrow> NewestOffset l \<le> NewestOffset l' \<Longrightarrow> none_stranded l \<Longrightarrow> none_stranded l'"
  by (auto simp: woke_def none_stranded_def)

lemma via_write_none_stranded:
  assumes "via_write d l (l', res)" and "l_readonly l \<Longrightarrow> l' = l" and "none_stranded l"
  shows "none_stranded l'"
  using via_write_wakes [OF assms(1)] assms(2,3) by (cases "l_readonly l") (auto simp: woke_def none_stranded_def)

lemma hw_step_none_stranded: "hw_step C r l offs l' \<Longrightarrow> none_stranded l \<Longrightarrow> none_stranded l'"
proof (induction rule: hw_step.induct)
  case (append d now msgs l l' res)
  show ?case by (rule via_write_none_stranded [OF Append_via_write [OF append.hyps] _ append.prems])
    (use append.hyps(1) readonly_refuses(1) in auto)
next
  case (append_set d now ms l l' res)
  then show ?case using AppendMessageSet_keeps [OF append_set.hyps] woke_none_stranded by blast
next
  case (append_batch d now meta msgs l l' res)
  show ?case by (rule via_write_none_stranded [OF AppendBatch_via_write [OF append_batch.hyps] _ append_batch.prems])
    (use append_batch.hyps(1) readonly_refuses(2) in auto)
next
  case (append_preframed d now block l l' res)
  show ?case by (rule via_write_none_stranded [OF AppendPreframed_via_write [OF append_preframed.hyps] _ append_preframed.prems])
    (use append_preframed.hyps(1) readonly_refuses(3) in auto)
next
  case (new_epoch w epoch l l' e)
  then show ?case by (auto simp: NewLeaderEpoch_def none_stranded_def split: prod.splits)
next
  case (truncate te offset l l' e)
  then show ?case using Truncate_told [OF truncate.hyps(1)] by (simp add: none_stranded_def)
qed (auto simp: none_stranded_def hw_defs Let_def)

text \<open>What a step does for a waiting reader.\<close>

definition kept_or_told :: "nat \<Rightarrow> commitLog \<Rightarrow> int list \<Rightarrow> commitLog \<Rightarrow> bool" where
  "kept_or_told r l offs l' \<longleftrightarrow> (\<exists>sg. l_signals l' = l_signals l @ sg \<and> (r \<in> set (l_hwWaiters l) \<longrightarrow>
     (\<exists>v. (r, v) \<in> set sg) \<or> r \<in> set (l_hwWaiters l') \<and> l_hw l' = l_hw l \<and> (offs = [] \<or> l_hw l < hd offs)))"

lemma signalled [simp]: "(\<exists>v. (r, v) \<in> (\<lambda>r. (r, b)) ` A) \<longleftrightarrow> r \<in> A"
  by auto

lemma told_reader: "told l l' \<Longrightarrow> kept_or_told r l [] l'"
  by (auto simp: told_def kept_or_told_def)

lemma via_write_reader:
  assumes "via_write d l (l', res)"
  shows "kept_or_told r l (offsets_of res) l'"
  using via_write_wakes [OF assms] by (auto simp: woke_def kept_or_told_def not_le)

lemma hw_step_reader: "hw_step C r l offs l' \<Longrightarrow> kept_or_told r l offs l'"
proof (induction rule: hw_step.induct)
  case (append d now msgs l l' res)
  then show ?case by (intro via_write_reader [OF Append_via_write])
next
  case (append_set d now ms l l' res)
  then show ?case by (intro via_write_reader [OF AppendMessageSet_via_write])
next
  case (append_batch d now meta msgs l l' res)
  then show ?case by (intro via_write_reader [OF AppendBatch_via_write])
next
  case (append_preframed d now block l l' res)
  then show ?case by (intro via_write_reader [OF AppendPreframed_via_write])
next
  case (new_epoch w epoch l l' e)
  then show ?case by (auto simp: NewLeaderEpoch_def kept_or_told_def split: prod.splits)
next
  case (truncate te offset l l' e)
  then show ?case using Truncate_told told_reader by blast
qed (auto simp: kept_or_told_def hw_defs Let_def)

lemma hw_run_reader:
  assumes "hw_run C r l batches l'" and "r \<in> set (l_hwWaiters l)"
  shows "\<exists>sg. l_signals l' = l_signals l @ sg \<and> ((\<exists>v. (r, v) \<in> set sg) \<or>
     r \<in> set (l_hwWaiters l') \<and> l_hw l' = l_hw l \<and> (\<forall>offs \<in> set batches. offs = [] \<or> l_hw l < hd offs))"
  using assms(1)
proof (induction rule: hw_run.induct)
  case (step batches l1 offs l2)
  then obtain sg where 1: "l_signals l1 = l_signals l @ sg" "(\<exists>v. (r, v) \<in> set sg) \<or>
     r \<in> set (l_hwWaiters l1) \<and> l_hw l1 = l_hw l \<and> (\<forall>offs \<in> set batches. offs = [] \<or> l_hw l < hd offs)" by blast
  obtain sg2 where 2: "l_signals l2 = l_signals l1 @ sg2" "r \<in> set (l_hwWaiters l1) \<longrightarrow>
     (\<exists>v. (r, v) \<in> set sg2) \<or> r \<in> set (l_hwWaiters l2) \<and> l_hw l2 = l_hw l1 \<and> (offs = [] \<or> l_hw l1 < hd offs)"
    using hw_step_reader [OF step.hyps(2)] unfolding kept_or_told_def by blast
  show ?case using 1 2 by (intro exI [of _ "sg @ sg2"]) auto
qed (use assms(2) in simp)

lemma hw_run_none_stranded: "hw_run C r l batches l' \<Longrightarrow> none_stranded l \<Longrightarrow> none_stranded l'"
  by (induction rule: hw_run.induct) (simp_all add: hw_step_none_stranded)

text \<open>
  C6: no wake-up is lost.  Take a reader waiting for the watermark of a log where no reader is stranded, and any
  sequence of these operations: \<^verbatim>\<open>SetHighWatermark\<close>, \<^verbatim>\<open>OverrideHighWatermark\<close>, \<^verbatim>\<open>SetReadonly\<close>, \<^verbatim>\<open>NewLeaderEpoch\<close>, waits and
  other readers' giving up, \<^verbatim>\<open>Append\<close>, \<^verbatim>\<open>AppendMessageSet\<close>, \<^verbatim>\<open>AppendBatch\<close> and \<^verbatim>\<open>AppendPreframed\<close>, which may fail at any
  point, and \<^verbatim>\<open>Truncate\<close> on a log that is not read-only, which may fail at any point too.  Afterwards either the reader was
  sent a signal, or it still waits and there is nothing to tell it: the watermark is what it was, every append that
  succeeded started above the watermark, so that it committed nothing, and the log is not read-only and committed to its
  end.  An append that reports an error after its records reached the file is not covered: it wakes no reader.
  Closing the log reaches a reader through the closed channel and is not a step.
\<close>

theorem no_lost_wakeup:
  assumes "hw_run C r l batches l'" and "r \<in> set (l_hwWaiters l)" and "none_stranded l"
  shows "(\<exists>v. (r, v) \<in> set (drop (length (l_signals l)) (l_signals l'))) \<or>
     r \<in> set (l_hwWaiters l') \<and> l_hw l' = l_hw l \<and> (\<forall>offs \<in> set batches. offs = [] \<or> l_hw l < hd offs) \<and>
     \<not> (l_readonly l' \<and> NewestOffset l' \<le> l_hw l')"
  using hw_run_reader [OF assms(1,2)] hw_run_none_stranded [OF assms(1,3)] by (auto simp: none_stranded_def)

text \<open>A reader waits at a watermark that is ahead of the log; the append that reaches the watermark signals it.\<close>

definition ahead_log :: commitLog where
  "ahead_log = waitForHW 7 100 (SetHighWatermark 100 (log_of (fresh_segment True)))"

lemma ahead_log_ok: "log_ok C ahead_log [[]]" "NewestOffset ahead_log = 99" "s_BaseOffset (activeSegment ahead_log) = 100"
  "\<not> l_readonly ahead_log" "l_hw ahead_log = 100" "l_hwWaiters ahead_log = [7]" "l_signals ahead_log = []"
proof -
  let ?l = "log_of (fresh_segment True)"
  have "ahead_log = ?l \<lparr>l_hw := 100, l_signals := [], l_hwWaiters := [7]\<rparr>"
    using fresh_log_newest(1) [of True] by (simp add: ahead_log_def hw_defs log_of_def)
  note l = this
  show "log_ok C ahead_log [[]]" using log_of_ok [OF fresh_seg_ok [of C True]] unfolding l by (simp add: log_ok_def activeSegment_def)
  show "NewestOffset ahead_log = 99" "s_BaseOffset (activeSegment ahead_log) = 100"
    using fresh_log_newest [of True] unfolding l by (simp_all add: activeSegment_def)
  show "\<not> l_readonly ahead_log" "l_hw ahead_log = 100" "l_hwWaiters ahead_log = [7]" "l_signals ahead_log = []"
    unfolding l by (simp_all add: log_of_def)
qed

theorem no_lost_wakeup_witness:
  "\<exists>l'. Append raw_codecs disk_ok 3 [sample, sample] ahead_log = Some (l', Inr [100, 101]) \<and> (\<exists>v. (7, v) \<in> set (l_signals l'))"
proof -
  obtain l' where a: "Append raw_codecs disk_ok 3 [sample, sample] ahead_log = Some (l', Inr [100, 101])"
    using Append_ok [OF ahead_log_ok(1) sample_ok(1) ahead_log_ok(4), of "[sample, sample]" 3] sample_append sample_encodable
    by (auto simp: ahead_log_ok upt_rec)
  have "log_wf ahead_log" using ahead_log_ok(1) [of raw_codecs] ahead_log_ok(2) by (simp add: log_wf_def log_ok_def)
  then have "hw_step raw_codecs 7 ahead_log (offsets_of (Inr [100, 101])) l'"
    by (rule hw_step.append [OF a]) (simp add: disk_ok_def)
  then have run: "hw_run raw_codecs 7 ahead_log ([] @ [[100, 101]]) l'" using hw_run.step [OF hw_run.start] by simp
  have "none_stranded ahead_log" by (simp add: none_stranded_def ahead_log_ok)
  then show ?thesis using no_lost_wakeup [OF run] a by (auto simp: ahead_log_ok)
qed

section \<open>Truncating a read-only log\<close>

text \<open>
  The one truncation the property leaves out does strand a reader: taking back the uncommitted end of a read-only log
  commits the log to its end without a signal, and the reader waits on.
\<close>

definition readonly_log :: commitLog where
  "readonly_log = (log_of (sample_segment True)) \<lparr>l_hw := 100, l_readonly := True, l_hwWaiters := [7]\<rparr>"

theorem truncate_strands_reader:
  "none_stranded readonly_log \<and> (\<exists>l'. Truncate raw_codecs sample_trunc_env 101 readonly_log = Some (l', None) \<and>
     7 \<in> set (l_hwWaiters l') \<and> l_signals l' = [] \<and> l_readonly l' \<and> NewestOffset l' \<le> l_hw l')"
proof -
  let ?l = "log_of (sample_segment True)"
  obtain cs where cs: "seg_ok raw_codecs (sample_segment True) cs" "concat cs = sample_logrecs" using sample_seg_ok by blast
  have segs: "l_segments readonly_log = [] @ sample_segment True # []" by (simp add: readonly_log_def log_of_def)
  have n: "NewestOffset readonly_log = 103" using sample_log_newest [of True] by (simp add: readonly_log_def NewestOffset_def activeSegment_def)
  have ok: "log_ok raw_codecs readonly_log ([] @ cs # [])"
    using log_of_ok [OF cs(1)] by (simp add: readonly_log_def log_ok_def activeSegment_def)
  have d: "dir_exact readonly_log" by (simp add: dir_exact_def readonly_log_def log_of_def)
  have "\<not> NextOffset (sample_segment True) \<le> 101" using n by (simp add: NewestOffset_def activeSegment_def segs)
  then have f: "findSegment (l_segments readonly_log) 101 = (Some (sample_segment True), length ([] :: segment list))"
    using findSegment_first [OF log_ok_ascending(2,1) [OF ok], of 101] by (simp add: segs)
  obtain l' s' cs' where l': "Truncate raw_codecs sample_trunc_env 101 readonly_log = Some (l', None)" "l_segments l' = [s']"
    "seg_ok raw_codecs s' cs'" "concat cs' = takeWhile (\<lambda>r. lr_offset r < 101) sample_logrecs" "l_hw l' = min 100 (NewestOffset l')"
    using Truncate_inside [OF ok sample_ok(1) sample_trunc_env_ok d f segs refl _ cs(1)] cs(2) by (auto simp: readonly_log_def)
  have "NewestOffset l' = 100" using NextOffset_last [of raw_codecs s' cs'] l'(2,3,4)
    by (simp add: NewestOffset_def activeSegment_def seg_ok_def sample_logrecs_def)
  moreover have "l_hw readonly_log = 100" "l_hwWaiters readonly_log = [7]" "l_signals readonly_log = []" "l_readonly readonly_log"
    by (simp_all add: readonly_log_def log_of_def)
  ultimately show ?thesis using Truncate_told [OF l'(1)] l'(1,5) n by (auto simp: none_stranded_def)
qed

end
