(* ===== verification/Log_Epochs.thy ===== *)
theory Log_Epochs
  imports Append_Batch
begin

text \<open>
  The leader epochs of a log's own records against the epoch cache: what \<^verbatim>\<open>appendWith\<close>, \<^verbatim>\<open>NewLeaderEpoch\<close> and \<^verbatim>\<open>Truncate\<close> of
  \<^verbatim>\<open>commitlog.go\<close> enter into \<^verbatim>\<open>leader_epoch_cache.go\<close>, and what the probe \<^verbatim>\<open>LastOffsetForLeaderEpoch\<close> then answers about
  the records.
\<close>

section \<open>The cache follows the records\<close>

definition anchored :: "leaderEpochCache \<Rightarrow> int \<Rightarrow> bool" where
  "anchored c n \<longleftrightarrow> epochs_wf (epochOffsets c) \<and> (\<forall>x \<in> set (epochOffsets c). assignedAtOffset x \<le> n)"

lemma anchored_mono: "anchored c n \<Longrightarrow> n \<le> m \<Longrightarrow> anchored c m"
  by (fastforce simp: anchored_def)

lemma anchored_latest: "anchored c n \<Longrightarrow> epochOffsets c \<noteq> [] \<Longrightarrow> latestOffset (epochOffsets c) \<le> n"
  by (simp add: anchored_def latestOffset_def)

text \<open>Past every anchor the cache stands for its latest epoch.\<close>

lemma epoch_at_end: "anchored c n \<Longrightarrow> n < off \<Longrightarrow> epoch_at c off = LastLeaderEpoch c"
proof -
  assume a: "anchored c n" "n < off"
  then have "filter (\<lambda>e. assignedAtOffset e < off) (epochOffsets c) = epochOffsets c"
    by (intro filter_True) (auto simp: anchored_def)
  then show ?thesis by (simp add: epoch_at_def cache_tenure_def tenure_def LastLeaderEpoch_def latestEpoch_def)
qed

text \<open>A higher epoch assigned at the end of the log is entered, for what comes after it.\<close>

lemma assign_anchored:
  assumes "anchored c n"
  shows "anchored (fst (assign w e n c)) n" and "off \<le> n \<Longrightarrow> epoch_at (fst (assign w e n c)) off = epoch_at c off"
    and "LastLeaderEpoch c < e \<Longrightarrow> LastLeaderEpoch (fst (assign w e n c)) = e"
proof -
  have wf: "epochs_wf (epochOffsets c)" using assms by (simp add: anchored_def)
  show "anchored (fst (assign w e n c)) n" using assms assign_wf [OF wf, of w e n] by (auto simp: anchored_def assign_def Let_def)
  show "off \<le> n \<Longrightarrow> epoch_at (fst (assign w e n c)) off = epoch_at c off"
    using tenure_assign [OF wf, of w e n off] by (cases "fst (assign w e n c) = c") (simp_all add: epoch_at_def cache_tenure_def)
  show "LastLeaderEpoch c < e \<Longrightarrow> LastLeaderEpoch (fst (assign w e n c)) = e"
    using anchored_latest [OF assms] by (auto simp: LastLeaderEpoch_def assign_def latestEpoch_def Let_def)
qed

definition rising :: "64 word \<Rightarrow> logrec list \<Rightarrow> bool" where
  "rising lst ns \<longleftrightarrow> sorted (lst # map lr_epoch ns)"

lemma epoch_loop_follows:
  fixes pos :: int
  assumes "anchored c prev" and "rising (LastLeaderEpoch c) ns" and "sorted_wrt (<) (prev # map lr_offset ns)"
  defines "c' \<equiv> fst (epoch_loop Written (LastLeaderEpoch c) prev (entries_of pos ns) c)"
  shows "anchored c' (last (prev # map lr_offset ns)) \<and> (\<forall>off \<le> prev. epoch_at c' off = epoch_at c off) \<and>
     (\<forall>r \<in> set ns. epoch_at c' (lr_offset r) = lr_epoch r)"
  using assms(1-3) unfolding c'_def
proof (induction ns arbitrary: c prev pos)
  case (Cons r ns)
  define c1 where "c1 = (if LastLeaderEpoch c < lr_epoch r then fst (assign Written (lr_epoch r) prev c) else c)"
  have lt: "prev < lr_offset r" using Cons.prems(3) by simp
  have c1: "anchored c1 prev" "\<And>off. off \<le> prev \<Longrightarrow> epoch_at c1 off = epoch_at c off"
    using assign_anchored(1,2) [OF Cons.prems(1)] Cons.prems(1) by (simp_all add: c1_def)
  have last: "LastLeaderEpoch c1 = lr_epoch r"
    using assign_anchored(3) [OF Cons.prems(1), of "lr_epoch r" Written] Cons.prems(2) by (auto simp: c1_def rising_def)
  have "\<exists>x. assign Written (lr_epoch r) prev c = (x, None)" by (simp add: assign_def flush_def Let_def)
  then have step: "epoch_loop Written (LastLeaderEpoch c) prev (entries_of pos (r # ns)) c =
      epoch_loop Written (LastLeaderEpoch c1) (lr_offset r) (entries_of (pos + int (length (frame r))) ns) c1"
    using last Cons.prems(2) by (auto simp: c1_def entry_of_def rising_def)
  have "rising (LastLeaderEpoch c1) ns" "sorted_wrt (<) (lr_offset r # map lr_offset ns)"
    using Cons.prems(2,3) last by (simp_all add: rising_def)
  note IH = Cons.IH [OF anchored_mono [OF c1(1), of "lr_offset r"] this, of "pos + int (length (frame r))"]
  have "epoch_at c1 (lr_offset r) = lr_epoch r" using epoch_at_end [OF c1(1) lt] last by simp
  then show ?case using IH lt c1(2) unfolding step by auto
qed simp

section \<open>Logs that grew\<close>

text \<open>
  A log and the records it holds, from an empty log with no history on: records are appended through any of the four
  ways in, their epochs never falling below the log's latest one; a new leader's epoch is announced, its checkpoint
  written or not; and the log is truncated right after one of its records.  The side conditions are those under
  which the appends and the truncation are shown to succeed.
\<close>

inductive grown :: "codecs \<Rightarrow> commitLog \<Rightarrow> logrec list \<Rightarrow> bool" for C where
  fresh: "log_holds C l [] \<Longrightarrow> epochOffsets (l_epochs l) = [] \<Longrightarrow> grown C l []"
| append: "grown C l rs \<Longrightarrow> Append C disk_ok now msgs l = Some (l', res) \<Longrightarrow> \<not> l_readonly l \<Longrightarrow> msgs \<noteq> [] \<Longrightarrow>
    list_all (\<lambda>m. encodable (Headers m) m) msgs \<Longrightarrow> ns = records_of (NewestOffset l + 1) (map (stamp now) msgs) \<Longrightarrow>
    log_room l (rs @ ns) \<Longrightarrow> rising (LastLeaderEpoch (l_epochs l)) ns \<Longrightarrow> grown C l' (rs @ ns)"
| append_set: "grown C l rs \<Longrightarrow> AppendMessageSet C disk_ok now (frames ns) l = Some (l', res) \<Longrightarrow> ns \<noteq> [] \<Longrightarrow>
    NewestOffset l < lr_offset (hd ns) \<Longrightarrow> log_room l (rs @ ns) \<Longrightarrow> rising (LastLeaderEpoch (l_epochs l)) ns \<Longrightarrow> grown C l' (rs @ ns)"
| append_batch: "grown C l rs \<Longrightarrow> AppendBatch C disk_ok now meta msgs l = Some (l', res) \<Longrightarrow> \<not> l_readonly l \<Longrightarrow> msgs \<noteq> [] \<Longrightarrow>
    list_all batch_message msgs \<Longrightarrow> in_i32 (bm_BaseSequence meta) \<Longrightarrow>
    (l_BlockFormat l = v3_Version \<longrightarrow> one_batch msgs \<and> length (EncodeRecords [] (batch_records msgs)) < 2 ^ 32) \<Longrightarrow>
    ns = batch_logrecs now meta msgs l \<Longrightarrow> log_room l (rs @ ns) \<Longrightarrow> rising (LastLeaderEpoch (l_epochs l)) ns \<Longrightarrow> grown C l' (rs @ ns)"
| append_preframed: "grown C l rs \<Longrightarrow> AppendPreframed C disk_ok now block l = Some (l', res) \<Longrightarrow> \<not> l_readonly l \<Longrightarrow>
    l_BlockFormat l = v3_Version \<Longrightarrow> DecodeBlock C block = Inr (h, recs) \<Longrightarrow> appendable h recs \<Longrightarrow>
    all_fit (renumbered now l h) 0 recs \<Longrightarrow> ns = v3_logrecs (renumbered now l h) 0 recs \<Longrightarrow> log_room l (rs @ ns) \<Longrightarrow> grown C l' (rs @ ns)"
| new_epoch: "grown C l rs \<Longrightarrow> NewLeaderEpoch w e l = (l', err) \<Longrightarrow> grown C l' rs"
| truncate: "grown C l rs \<Longrightarrow> Truncate C te offset l = Some (l', err) \<Longrightarrow> trunc_env_ok C te \<Longrightarrow> dir_exact l \<Longrightarrow>
    l_hw l \<le> NewestOffset l \<Longrightarrow> \<exists>r \<in> set rs. lr_offset r = offset - 1 \<Longrightarrow> grown C l' (takeWhile (\<lambda>r. lr_offset r < offset) rs)"

text \<open>The log holds the records, and the cache stands for the epoch each of them carries.\<close>

definition follows :: "codecs \<Rightarrow> commitLog \<Rightarrow> logrec list \<Rightarrow> bool" where
  "follows C l rs \<longleftrightarrow> log_holds C l rs \<and> anchored (l_epochs l) (NewestOffset l) \<and>
     (\<forall>r \<in> set rs. epoch_at (l_epochs l) (lr_offset r) = lr_epoch r)"

lemma follows_append:
  assumes "follows C l rs" and "log_ok C l' css'" and "log_recs css' = rs @ ns" and "epochs_noted ns l l'" and "ns \<noteq> []"
    and "NewestOffset l < lr_offset (hd ns)" and "rising (LastLeaderEpoch (l_epochs l)) ns"
  shows "follows C l' (rs @ ns)"
proof -
  obtain css where h: "codecs_ok C" "log_ok C l css" "log_recs css = rs" using assms(1) by (auto simp: follows_def log_holds_def)
  have "sorted_wrt (\<lambda>x y. lr_offset x < lr_offset y) (rs @ ns)"
    using log_recs_sorted [of C "l_segments l'" css'] assms(2,3) by (simp add: log_ok_def)
  then have srt: "sorted_wrt (<) (NewestOffset l # map lr_offset ns)"
    using assms(5,6) by (cases ns) (auto simp: sorted_wrt_append sorted_wrt_map)
  let ?c = "fst (epoch_loop Written (LastLeaderEpoch (l_epochs l)) (NewestOffset l) (entries_of 0 ns) (l_epochs l))"
  have e: "l_epochs l' = ?c" using assms(4) by (simp add: epochs_noted_def)
  have anc: "anchored (l_epochs l) (NewestOffset l)" using assms(1) by (simp add: follows_def)
  note f = epoch_loop_follows [OF anc assms(7) srt, of 0, folded e]
  have "last ns \<in> set (log_recs css')" using assms(3,5) by simp
  then have "lr_offset (last ns) \<le> NewestOffset l'" by (rule log_recs_below [OF assms(2), rule_format])
  then have "anchored (l_epochs l') (NewestOffset l')" using f assms(5) by (auto simp: last_map intro: anchored_mono)
  moreover have "lr_offset r \<le> NewestOffset l" if "r \<in> set rs" for r using log_recs_below [OF h(2)] h(3) that by blast
  ultimately show ?thesis using f assms(1-3) h(1) by (auto simp: follows_def log_holds_def)
qed

lemma follows_holds:
  assumes "follows C l rs"
  obtains css where "codecs_ok C" "log_ok C l css" "log_recs css = rs" "anchored (l_epochs l) (NewestOffset l)"
    "\<forall>r \<in> set rs. epoch_at (l_epochs l) (lr_offset r) = lr_epoch r" "\<forall>r \<in> set rs. lr_offset r \<le> NewestOffset l"
proof -
  obtain css where h: "codecs_ok C" "log_ok C l css" "log_recs css = rs" using assms by (auto simp: follows_def log_holds_def)
  then show thesis using that log_recs_below [OF h(2)] assms by (auto simp: follows_def)
qed

lemma v3_logrecs_epoch: "r \<in> set (v3_logrecs h i recs) \<Longrightarrow> lr_epoch r = h_LeaderEpoch h \<and> h_BaseOffset h \<le> lr_offset r"
  by (induction recs arbitrary: i) (auto simp: v3_logrec_def record_of_def v3_message_def)

lemma preframed_rising:
  assumes "DecodeBlock C block = Inr (h, recs)" and "ns = v3_logrecs (renumbered now l h) 0 recs"
  shows "ns \<noteq> []" and "NewestOffset l < lr_offset (hd ns)" and "rising (LastLeaderEpoch (l_epochs l)) ns"
proof -
  have "recs \<noteq> []" using assms(1) by (auto simp: DecodeBlock_def and_then_Inr_iff split: if_splits)
  then show ne: "ns \<noteq> []" using assms(2) by (cases recs) simp_all
  have r: "lr_epoch r = LastLeaderEpoch (l_epochs l) \<and> NewestOffset l < lr_offset r" if "r \<in> set ns" for r
    using v3_logrecs_epoch [of r] that assms(2) by (fastforce simp: renumbered_def)
  then show "NewestOffset l < lr_offset (hd ns)" using ne by simp
  have "map lr_epoch ns = replicate (length ns) (LastLeaderEpoch (l_epochs l))" using r by (intro nth_equalityI) simp_all
  then show "rising (LastLeaderEpoch (l_epochs l)) ns" by (simp add: rising_def)
qed

lemma batch_first:
  assumes "ns = batch_logrecs now meta msgs l" and "msgs \<noteq> []" and "list_all batch_message msgs"
    and "l_BlockFormat l = v3_Version \<longrightarrow> one_batch msgs" and "log_room l (rs @ ns)"
  shows "ns \<noteq> []" and "lr_offset (hd ns) = NewestOffset l + 1"
proof -
  have "length ns = length msgs" using assms(1) by (simp add: length_batch_logrecs)
  then show ne: "ns \<noteq> []" using assms(2) by (cases ns) simp_all
  obtain b where "records_ok b (rs @ ns)" using assms(5) by (auto simp: log_room_def)
  then have "list_all frame_ok ns" "length (frames ns) < 2 ^ 31" by (simp_all add: records_ok_def)
  then show "lr_offset (hd ns) = NewestOffset l + 1"
    using batch_logrec_reads [OF assms(3,4), of now meta 0] assms(1,2) ne by (simp add: hd_conv_nth)
qed

lemma follows_new_epoch:
  assumes "follows C l rs" and "NewLeaderEpoch w e l = (l', err)"
  shows "follows C l' rs"
proof -
  have l': "l' = l \<lparr>l_epochs := fst (assign w e (NewestOffset l) (l_epochs l))\<rparr>"
    using assms(2) by (auto simp: NewLeaderEpoch_def split: prod.splits)
  have same: "NewestOffset l' = NewestOffset l" "log_ok C l' css = log_ok C l css" for css
    by (simp_all add: l' NewestOffset_def activeSegment_def log_ok_def)
  show ?thesis
  proof (rule follows_holds [OF assms(1)])
    assume anc: "anchored (l_epochs l) (NewestOffset l)" and "\<forall>r \<in> set rs. lr_offset r \<le> NewestOffset l"
    then show ?thesis using assms(1) assign_anchored(1,2) [OF anc, where w = w and e = e]
      unfolding follows_def log_holds_def same by (simp add: l')
  qed
qed

lemma truncated_newest:
  assumes "log_ok C l css" and "log_recs css = takeWhile (\<lambda>r. lr_offset r < offset) rs"
    and "sorted_wrt (\<lambda>x y. lr_offset x < lr_offset y) rs" and "\<exists>r \<in> set rs. lr_offset r = offset - 1"
  shows "offset - 1 \<le> NewestOffset l"
proof -
  obtain r where r: "r \<in> set rs" "lr_offset r = offset - 1" using assms(4) by blast
  have "takeWhile (\<lambda>r. lr_offset r < offset) rs = filter (\<lambda>r. lr_offset r < offset) rs"
    using assms(3) by (induction rs) (auto simp: filter_empty_conv eq_commute [of "[]"])
  then have "r \<in> set (log_recs css)" using r assms(2) by simp
  then show ?thesis using log_recs_below [OF assms(1)] r(2) by force
qed

lemma ClearLatest_anchored:
  assumes "anchored c n" and "offset - 1 \<le> m"
  shows "anchored (fst (ClearLatest w offset c)) m" and "off < offset \<Longrightarrow> epoch_at (fst (ClearLatest w offset c)) off = epoch_at c off"
proof -
  have wf: "epochs_wf (epochOffsets c)" using assms(1) by (simp add: anchored_def)
  have "assignedAtOffset x < offset" if "x \<in> set (epochOffsets (fst (ClearLatest w offset c)))" for x
    using that latest_below(2) [OF wf, of x] by (auto simp: ClearLatest_def split: if_splits)
  then show "anchored (fst (ClearLatest w offset c)) m" using ClearLatest_wf [OF wf, of w offset] assms(2) by (fastforce simp: anchored_def)
  show "off < offset \<Longrightarrow> epoch_at (fst (ClearLatest w offset c)) off = epoch_at c off"
    using tenure_ClearLatest [OF wf, where off = off and offset = offset and w = w] by (simp add: epoch_at_def cache_tenure_def)
qed

lemma follows_truncate:
  assumes "follows C l rs" and t: "Truncate C te offset l = Some (l', err)" "trunc_env_ok C te" "dir_exact l" "l_hw l \<le> NewestOffset l"
    and cut: "\<exists>r \<in> set rs. lr_offset r = offset - 1"
  shows "follows C l' (takeWhile (\<lambda>r. lr_offset r < offset) rs)"
proof (rule follows_holds [OF assms(1)])
  fix css assume h: "codecs_ok C" "log_ok C l css" "log_recs css = rs" and anc: "anchored (l_epochs l) (NewestOffset l)"
    and ep: "\<forall>r \<in> set rs. epoch_at (l_epochs l) (lr_offset r) = lr_epoch r"
  obtain css' where l': "log_ok C l' css'" "log_recs css' = takeWhile (\<lambda>r. lr_offset r < offset) rs"
    "l' = l \<or> l_epochs l' = fst (ClearLatest Written offset (l_epochs l))"
    using Truncate_ok [OF h(2,1) t(2-4), of offset] t(1) h(3) by auto
  have "sorted_wrt (\<lambda>x y. lr_offset x < lr_offset y) rs"
    using log_recs_sorted [of C "l_segments l" css] h(2,3) by (simp add: log_ok_def)
  then have n: "offset - 1 \<le> NewestOffset l'" by (rule truncated_newest [OF l'(1,2) _ cut])
  have "anchored (l_epochs l') (NewestOffset l') \<and>
      (\<forall>r \<in> set (takeWhile (\<lambda>r. lr_offset r < offset) rs). epoch_at (l_epochs l') (lr_offset r) = lr_epoch r)"
    using l'(3) anc ep ClearLatest_anchored [OF anc n] by (auto dest: set_takeWhileD)
  then show ?thesis using l'(1,2) h(1) by (auto simp: follows_def log_holds_def)
qed

lemma grown_follows: "grown C l rs \<Longrightarrow> follows C l rs"
proof (induction rule: grown.induct)
  case (append l rs now msgs l' res ns)
  note a = append.hyps
  have ns: "ns \<noteq> []" "NewestOffset l < lr_offset (hd ns)" using a by (cases msgs; simp add: record_of_def)+
  obtain css where h: "codecs_ok C" "log_ok C l css" "log_recs css = rs" using follows_holds [OF append.IH] .
  then obtain css' where "log_ok C l' css'" "log_recs css' = rs @ ns" "epochs_noted ns l l'"
    using Append_ok [OF h(2,1) a(3-5), of now] a(2,6,7) room_fits [OF h(2), of ns "[]"] ns by auto
  then show ?case by (rule follows_append [OF append.IH _ _ _ ns a(8)])
next
  case (append_set l rs now ns l' res)
  note a = append_set.hyps
  obtain css where h: "codecs_ok C" "log_ok C l css" "log_recs css = rs" using follows_holds [OF append_set.IH] .
  then obtain css' where "log_ok C l' css'" "log_recs css' = rs @ ns" "epochs_noted ns l l'"
    using AppendMessageSet_ok [OF h(2,1) a(3,4), of now] a(2,5) room_fits [OF h(2), of ns "[]"] a(3,4) by auto
  then show ?case by (rule follows_append [OF append_set.IH _ _ _ a(3,4,6)])
next
  case (append_batch l rs now meta msgs l' res ns)
  note a = append_batch.hyps
  have ns: "ns \<noteq> []" "NewestOffset l < lr_offset (hd ns)" using batch_first [OF a(8,4,5) _ a(9)] a(7) by simp_all
  obtain css where h: "codecs_ok C" "log_ok C l css" "log_recs css = rs" using follows_holds [OF append_batch.IH] .
  then obtain css' where "log_ok C l' css'" "log_recs css' = rs @ ns" "epochs_noted ns l l'"
    using AppendBatch_ok [OF h(2,1) a(3-5,7,6), of now] a(2,8,9) room_fits [OF h(2), of ns "[]"] ns by auto
  then show ?case by (rule follows_append [OF append_batch.IH _ _ _ ns a(10)])
next
  case (append_preframed l rs now block l' res h recs ns)
  note a = append_preframed.hyps and ns = preframed_rising [OF append_preframed.hyps(5,8)]
  obtain css where k: "codecs_ok C" "log_ok C l css" "log_recs css = rs" using follows_holds [OF append_preframed.IH] .
  then obtain css' where "log_ok C l' css'" "log_recs css' = rs @ ns" "epochs_noted ns l l'"
    using AppendPreframed_ok [OF k(2,1) a(3-8)] a(2,9) room_fits [OF k(2), of ns "[]"] ns(1,2) by auto
  then show ?case by (rule follows_append [OF append_preframed.IH _ _ _ ns])
next
  case (new_epoch l rs w e l' err)
  then show ?case using follows_new_epoch by blast
next
  case (truncate l rs te offset l' err)
  then show ?case using follows_truncate by blast
qed (simp add: follows_def anchored_def epochs_wf_def)

text \<open>
  C25: the probe splits the log by the epochs its records carry.  Take a log that grew from empty by appends through
  any of the four ways in, with epochs that never fall, announcements of new leaders, and truncations right after
  one of its records.  Asked for an epoch other than the largest, it always answers, and the records at or below the
  answer are exactly those that carry an epoch at most the one asked for; a follower that truncates to the answer
  keeps those and no other.  Trims of the log's start are left out: after one the oldest record may be lost to the cache.
\<close>

theorem probe_splits_log:
  assumes "grown C l rs" and "e \<noteq> - 1"
  shows "\<exists>ans. log_LastOffsetForLeaderEpoch (Some e) l = Inr ans \<and> (\<forall>r \<in> set rs. (lr_offset r \<le> ans) = (lr_epoch r \<le> e))"
proof -
  have f: "follows C l rs" by (rule grown_follows [OF assms(1)])
  obtain css where h: "log_ok C l css" "log_recs css = rs" using f by (auto simp: follows_def log_holds_def)
  have below: "lr_offset r \<le> NewestOffset l" if "r \<in> set rs" for r using log_recs_below [OF h(1)] h(2) that by blast
  have "epochs_wf (epochOffsets (l_epochs l))" using f by (simp add: follows_def anchored_def)
  note p = probe_splits_offsets [OF this assms(2)]
  have ep: "epoch_at (l_epochs l) (lr_offset r) = lr_epoch r" if "r \<in> set rs" for r using f that by (simp add: follows_def)
  show ?thesis
  proof (cases "LastOffsetForLeaderEpoch e (l_epochs l)")
    case (Pair ans found)
    then have "case found of True \<Rightarrow> (lr_offset r \<le> ans) = (lr_epoch r \<le> e) | False \<Rightarrow> lr_epoch r \<le> e" if "r \<in> set rs" for r
      using p [of "lr_offset r"] ep [OF that] by simp
    then show ?thesis using Pair below by (cases found) (auto simp: log_LastOffsetForLeaderEpoch_def NewestOffset_def)
  qed
qed

theorem probe_splits_log_witness:
  "\<exists>l' a b. Append raw_codecs disk_ok 3 [sample, sample] (log_of (fresh_segment True)) = Some (l', Inr [100, 101]) \<and>
     log_LastOffsetForLeaderEpoch (Some 0) l' = Inr a \<and> a < 100 \<and> log_LastOffsetForLeaderEpoch (Some 1) l' = Inr b \<and> 101 \<le> b"
proof -
  let ?l = "log_of (fresh_segment True)" let ?ns = "[record_of 100 sample, record_of 101 sample]"
  have ok: "log_ok raw_codecs ?l [[]]" by (rule log_of_ok [OF fresh_seg_ok])
  have rw: "\<not> l_readonly ?l" "epochOffsets (l_epochs ?l) = []" by (simp_all add: log_of_def)
  have m: "[sample, sample] \<noteq> []" "list_all (\<lambda>m. encodable (Headers m) m) [sample, sample]" by (simp_all add: sample_encodable)
  have ns: "?ns = records_of (NewestOffset ?l + 1) (map (stamp 3) [sample, sample])"
    using sample_append(1) by (simp only: fresh_log_newest) simp
  obtain l' where a: "Append raw_codecs disk_ok 3 [sample, sample] ?l = Some (l', Inr [100, 101])"
    using Append_ok [OF ok sample_ok(1) rw(1) m, of 3] sample_append(2) unfolding ns [symmetric]
    by (auto simp: fresh_log_newest upt_rec)
  have room: "log_room ?l ([] @ ?ns)" using sample_append(2) by (auto simp: log_room_def fresh_log_newest)
  have "grown raw_codecs ?l []" using ok sample_ok(1) rw(2) by (intro grown.fresh) (auto simp: log_holds_def)
  then have g: "grown raw_codecs l' ([] @ ?ns)"
    by (rule grown.append [OF _ a rw(1) m ns room]) (simp add: rising_def LastLeaderEpoch_def latestEpoch_def rw(2) record_of_def)
  have e: "lr_epoch (record_of x sample) = 1" "lr_offset (record_of x sample) = x" for x by (simp_all add: record_of_def sample_def)
  show ?thesis using a probe_splits_log [OF g, of 0] probe_splits_log [OF g, of 1] e by (auto simp: not_le)
qed

end
