(* ===== verification/Spec2Isabelle.thy ===== *)
theory Spec2Isabelle
  imports Message_Set Leader_Epoch Log_Index Block_V3 Block_Recovery Delete_Cleaner Log_Time Pass_Safety Log_Wakeup Log_Epochs
begin

text \<open>
  A model of \<^verbatim>\<open>commitlog\<close>, a segmented, append-only record log.
\<close>

end
